(* ===== verification/Prelude.thy ===== *)
theory Prelude
  imports Main "HOL-Library.Word"
begin

text \<open>
  Shared vocabulary of the development: the machine integer types the C sources use, the two
  kinds of \<open>for\<close> loop that occur in them (a loop that runs to its bound and a loop
  left by an early \<open>return\<close>), and the generic facts on lists and words that the
  component theories rely on.
\<close>

unbundle bit_operations_syntax

named_theorems loop_simps \<open>unfolding rules of the loop combinators\<close>

named_theorems word_bits \<open>bitwise facts used to evaluate flag manipulation\<close>

section \<open>Machine integers\<close>

type_synonym u8 = "8 word"
type_synonym u16 = "16 word"
type_synonym u32 = "32 word"
type_synonym u64 = "64 word"

definition KERNEL_SUCCESS :: int where
  "KERNEL_SUCCESS = 0"

definition KERNEL_FAILURE :: int where
  "KERNEL_FAILURE = -1"

section \<open>Loops\<close>

text \<open>
  \<open>for_upto lo hi body s\<close> is \<open>for (i = lo; i < hi; i++) body\<close> on an explicit state;
  \<open>first_some f xs\<close> is a loop over \<open>xs\<close> whose body returns from the function at
  the first element where it yields a value.
\<close>

definition for_upto :: "nat \<Rightarrow> nat \<Rightarrow> (nat \<Rightarrow> 's \<Rightarrow> 's) \<Rightarrow> 's \<Rightarrow> 's" where
  "for_upto lo hi body s = fold body [lo..<hi] s"

fun first_some :: "('a \<Rightarrow> 'b option) \<Rightarrow> 'a list \<Rightarrow> 'b option" where
  "first_some f [] = None"
| "first_some f (x # xs) = (case f x of None \<Rightarrow> first_some f xs | Some y \<Rightarrow> Some y)"

lemma for_upto_empty [simp, loop_simps]: "hi \<le> lo \<Longrightarrow> for_upto lo hi body s = s"
  by (simp add: for_upto_def)

lemma for_upto_Suc [loop_simps]:
  "lo \<le> hi \<Longrightarrow> for_upto lo (Suc hi) body s = body hi (for_upto lo hi body s)"
  by (simp add: for_upto_def)

lemma for_upto_invariant:
  assumes "I lo s" and "lo \<le> hi"
    and "\<And>i t. lo \<le> i \<Longrightarrow> i < hi \<Longrightarrow> I i t \<Longrightarrow> I (Suc i) (body i t)"
  shows "I hi (for_upto lo hi body s)"
proof -
  have "I (lo + n) (for_upto lo (lo + n) body s)" if "lo + n \<le> hi" for n
    using that by (induction n) (simp_all add: assms(1,3) for_upto_Suc)
  from this [of "hi - lo"] \<open>lo \<le> hi\<close> show ?thesis by simp
qed

text \<open>A loop whose body may fail to return (\<open>None\<close>), for example in a busy wait.\<close>

definition for_opt :: "nat \<Rightarrow> nat \<Rightarrow> (nat \<Rightarrow> 's \<Rightarrow> 's option) \<Rightarrow> 's \<Rightarrow> 's option" where
  "for_opt lo hi body s = fold (\<lambda>i r. Option.bind r (body i)) [lo..<hi] (Some s)"

lemma for_opt_empty [simp, loop_simps]: "hi \<le> lo \<Longrightarrow> for_opt lo hi body s = Some s"
  by (simp add: for_opt_def)

lemma for_opt_Suc [loop_simps]:
  "lo \<le> hi \<Longrightarrow> for_opt lo (Suc hi) body s = Option.bind (for_opt lo hi body s) (body hi)"
  by (simp add: for_opt_def)

lemma for_opt_invariant:
  assumes "I lo s" and "lo \<le> hi"
    and "\<And>i t. lo \<le> i \<Longrightarrow> i < hi \<Longrightarrow> I i t \<Longrightarrow> \<exists>t'. body i t = Some t' \<and> I (Suc i) t'"
  shows "\<exists>t. for_opt lo hi body s = Some t \<and> I hi t"
proof -
  have "\<exists>t. for_opt lo (lo + n) body s = Some t \<and> I (lo + n) t" if "lo + n \<le> hi" for n
    using that
  proof (induction n)
    case 0
    with assms(1) show ?case by simp
  next
    case (Suc n)
    then obtain t where "for_opt lo (lo + n) body s = Some t" "I (lo + n) t" by auto
    with assms(3) [of "lo + n" t] Suc.prems show ?case by (auto simp: for_opt_Suc)
  qed
  from this [of "hi - lo"] \<open>lo \<le> hi\<close> show ?thesis by simp
qed

lemma first_some_None [simp]: "first_some f xs = None \<longleftrightarrow> (\<forall>x \<in> set xs. f x = None)"
  by (induction xs) (auto split: option.splits)

lemma first_some_cong [fundef_cong]:
  "xs = ys \<Longrightarrow> (\<And>x. x \<in> set ys \<Longrightarrow> f x = g x) \<Longrightarrow> first_some f xs = first_some g ys"
  by (induction ys arbitrary: xs) (auto split: option.splits)

lemma first_some_SomeD:
  assumes "first_some f xs = Some y"
  obtains ys x zs where "xs = ys @ x # zs" and "f x = Some y" and "\<And>z. z \<in> set ys \<Longrightarrow> f z = None"
proof -
  have "\<exists>ys x zs. xs = ys @ x # zs \<and> f x = Some y \<and> (\<forall>z \<in> set ys. f z = None)"
    using assms
  proof (induction xs)
    case Nil
    then show ?case by simp
  next
    case (Cons a xs)
    show ?case
    proof (cases "f a")
      case None
      with Cons obtain ys x zs
        where "xs = ys @ x # zs \<and> f x = Some y \<and> (\<forall>z \<in> set ys. f z = None)" by auto
      with None have "a # xs = (a # ys) @ x # zs \<and> f x = Some y \<and> (\<forall>z \<in> set (a # ys). f z = None)"
        by simp
      then show ?thesis by blast
    next
      case (Some b)
      with Cons.prems have "a # xs = [] @ a # xs \<and> f a = Some y \<and> (\<forall>z \<in> set []. f z = None)"
        by simp
      then show ?thesis by blast
    qed
  qed
  with that show thesis by blast
qed

lemma first_some_upt_SomeD:
  assumes "first_some f [lo..<hi] = Some y"
  obtains i where "lo \<le> i" and "i < hi" and "f i = Some y" and "\<And>k. lo \<le> k \<Longrightarrow> k < i \<Longrightarrow> f k = None"
proof -
  from assms obtain ys i zs where split: "[lo..<hi] = ys @ i # zs" and hit: "f i = Some y"
    and before: "\<And>z. z \<in> set ys \<Longrightarrow> f z = None"
    by (rule first_some_SomeD) blast
  have len: "length ys < hi - lo" using arg_cong [OF split, of length] by simp
  have i: "i = lo + length ys"
    using arg_cong [OF split, of "\<lambda>xs. xs ! length ys"] len by simp
  have "ys = [lo..<i]"
    using arg_cong [OF split, of "take (length ys)"] len by (simp add: i)
  with before have "f k = None" if "lo \<le> k" "k < i" for k using that by simp
  moreover have "lo \<le> i" and "i < hi" using i len by simp_all
  ultimately show thesis using hit that by blast
qed

section \<open>Lists updated by index\<close>

lemma nth_list_update_if:
  "i < length xs \<Longrightarrow> xs[j := v] ! i = (if i = j then v else xs ! i)"
  by (simp add: nth_list_update)

section \<open>Flag bits\<close>

text \<open>The masks \<open>1 << n\<close> of the sources are normalised to \<open>2 ^ n\<close> by the simplifier.\<close>

lemma and_flag_eq_0_iff [word_bits]:
  fixes w :: "'a::len word"
  shows "w AND 2 ^ n = 0 \<longleftrightarrow> \<not> bit w n"
  by (rule and_exp_eq_0_iff_not_bit)

lemma bit_clear_flag [word_bits]:
  fixes w :: "'a::len word"
  shows "bit (w AND NOT (2 ^ n)) m \<longleftrightarrow> bit w m \<and> m \<noteq> n"
  by (auto simp: bit_simps dest: bit_imp_le_length)

lemma bit_set_flag [word_bits]:
  fixes w :: "'a::len word"
  assumes "n < LENGTH('a)"
  shows "bit (w OR 2 ^ n) m \<longleftrightarrow> bit w m \<or> m = n"
  using assms by (auto simp: bit_simps)

lemma byte_zero_iff: "w = (0 :: u8) \<longleftrightarrow> (\<forall>j < 8. \<not> bit w j)"
  by (auto intro: bit_word_eqI)

lemma ucast_u8_u32 [simp]: "ucast (ucast (v :: u8) :: u32) = v"
  by (rule bit_word_eqI) (simp add: bit_simps)

lemma unat_u32_less: "unat (n :: u32) < 2 ^ 32"
  by (rule order_less_le_trans [OF unsigned_less]) simp

lemma unat_diff_wrap:
  fixes a p :: u32
  assumes "unat a < unat p"
  shows "unat (a - p) = 2 ^ 32 - (unat p - unat a)"
proof -
  have bound: "unat p < 4294967296" using unat_u32_less [of p] by simp
  have wrap: "(int x - int y + 2 ^ 32) mod 2 ^ 32 = int x - int y + 2 ^ 32" if "x < y" "y < 4294967296" for x y
    using that by (intro mod_pos_pos_trivial) simp_all
  have back_to_nat: "z = 2 ^ 32 - (y - x)" if "int z = int x - int y + 2 ^ 32" "x < y" "y < 4294967296" for x y z
    using that by simp
  have u: "int (unat a) = uint a" "int (unat p) = uint p" "int (unat (a - p)) = uint (a - p)" by simp_all
  have "uint (a - p) = (uint a - uint p) mod 2 ^ 32" by (simp add: uint_word_ariths)
  also have "\<dots> = (uint a - uint p + 2 ^ 32) mod 2 ^ 32" by simp
  also have "\<dots> = uint a - uint p + 2 ^ 32" using wrap [OF assms bound] unfolding u .
  finally have "int (unat (a - p)) = int (unat a) - int (unat p) + 2 ^ 32" unfolding u .
  from back_to_nat [OF this assms bound] show ?thesis .
qed

text \<open>Masks written as literals, and the numeric value of a narrowing cast.\<close>

lemma mask_literals:
  "(0xF :: 'a::len word) = mask 4" "(0xFF :: 'a::len word) = mask 8"
  "(0x3FF :: 'a::len word) = mask 10" "(0xFFF :: 'a::len word) = mask 12"
  "(0xFFFF :: 'a::len word) = mask 16"
  by (simp_all add: mask_eq_exp_minus_1)

lemma unat_ucast_take_bit:
  "unat (ucast (d :: 'a::len word) :: 'b::len word) = take_bit LENGTH('b) (unat d)"
  by transfer (simp only: o_apply nat_take_bit_eq take_bit_nonnegative)

lemma ucast_and_FF [word_bits]: "(ucast (d AND 0xFF) :: u8) = ucast (d :: u32)"
  unfolding mask_literals by (rule bit_word_eqI) (auto simp: bit_simps)

lemma unat_low_byte: "unat (ucast (d :: u32) :: u8) = unat d mod 256"
  by (simp only: unat_ucast_take_bit) (simp add: take_bit_eq_mod)

lemma unat_second_byte: "unat (ucast (drop_bit 8 (d :: u32)) :: u8) = unat d div 256 mod 256"
  by (simp only: unat_ucast_take_bit unat_drop_bit_eq) (simp add: drop_bit_eq_div take_bit_eq_mod)

lemma two_bytes_unat:
  "unat (ucast (d :: u32) :: u8) + 256 * unat (ucast (drop_bit 8 d) :: u8) = unat d mod 65536"
  using mod_mult2_eq [of "unat d" 256 256] unfolding unat_low_byte [of d] unat_second_byte [of d] by simp

section \<open>First-in first-out stores\<close>

text \<open>
  The contract shared by the two queues of the kernel (the message ring of
  \<^verbatim>\<open>kernel/ipc/msg.c\<close> and the ready queues of \<^verbatim>\<open>kernel/process/scheduler.c\<close>):
  \<open>put\<close> appends an element that is admissible, \<open>drop_first\<close> removes the oldest one.
\<close>

locale fifo =
  fixes contents :: "'q \<Rightarrow> 'a list"
    and invar :: "'q \<Rightarrow> bool"
    and admissible :: "'a \<Rightarrow> 'q \<Rightarrow> bool"
    and put :: "'a \<Rightarrow> 'q \<Rightarrow> 'q"
    and drop_first :: "'q \<Rightarrow> 'q"
  assumes contents_put: "invar q \<Longrightarrow> admissible x q \<Longrightarrow> contents (put x q) = contents q @ [x]"
    and invar_put: "invar q \<Longrightarrow> admissible x q \<Longrightarrow> invar (put x q)"
    and contents_drop_first: "invar q \<Longrightarrow> contents q \<noteq> [] \<Longrightarrow> contents (drop_first q) = tl (contents q)"
    and invar_drop_first: "invar q \<Longrightarrow> contents q \<noteq> [] \<Longrightarrow> invar (drop_first q)"
begin

lemma drop_first_iterate:
  assumes "invar q" and "n \<le> length (contents q)"
  shows "contents ((drop_first ^^ n) q) = drop n (contents q) \<and> invar ((drop_first ^^ n) q)"
  using assms(2)
proof (induction n)
  case 0
  with assms(1) show ?case by simp
next
  case (Suc n)
  then have IH: "contents ((drop_first ^^ n) q) = drop n (contents q)" "invar ((drop_first ^^ n) q)"
    by simp_all
  with Suc.prems have "contents ((drop_first ^^ n) q) \<noteq> []" by simp
  with IH show ?case
    by (simp add: contents_drop_first invar_drop_first drop_Suc tl_drop)
qed

text \<open>An element put into the store leaves it after exactly the elements that were there before it.\<close>

lemma put_comes_out_last:
  assumes "invar q" and "admissible x q"
  shows "contents ((drop_first ^^ length (contents q)) (put x q)) = [x]"
  using drop_first_iterate [OF invar_put [OF assms], of "length (contents q)"]
  by (simp add: contents_put [OF assms])

end

end
