(* ===== verification/Pmm.thy ===== *)
theory Pmm
  imports Prelude
begin

text \<open>
  The physical memory manager, \<^verbatim>\<open>kernel/memory/pmm.c\<close>: a bitmap with one bit per
  4 KB page of the managed range (a set bit is a free page). The state is the static array
  \<open>page_bitmap\<close> with the static \<open>total_memory\<close>; every exported function is one definition.
  The abstract view is the set of free page numbers, and each operation is shown to be the
  expected set operation on it. The last section states the page allocator as an interface
  (a locale) for the components that only need its contract.
\<close>

section \<open>Constants and state\<close>

definition MEMORY_START_ADDR :: u32 where "MEMORY_START_ADDR = 0x100000"
definition MEMORY_END_ADDR :: u32 where "MEMORY_END_ADDR = 0x4000000"
definition PAGE_SIZE :: u32 where "PAGE_SIZE = 0x1000"
definition MANAGED_MEMORY :: u32 where "MANAGED_MEMORY = MEMORY_END_ADDR - MEMORY_START_ADDR"
definition NUMBER_OF_PAGES :: u32 where "NUMBER_OF_PAGES = MANAGED_MEMORY div PAGE_SIZE"

definition BITMAP_SIZE :: nat where
  "BITMAP_SIZE = (if unat NUMBER_OF_PAGES mod 8 \<noteq> 0 then unat NUMBER_OF_PAGES div 8 + 1
                  else unat NUMBER_OF_PAGES div 8)"

record pmm_state =
  page_bitmap :: "u8 list"
  total_memory :: u32

section \<open>Operations\<close>

text \<open>The loop body shared by \<open>pmm_init\<close> and \<open>pmm_mark_reserved\<close>:
  \<open>page_bitmap[i / 8] &= ~(1 << (i % 8))\<close>.\<close>

definition mark_used :: "nat \<Rightarrow> u8 list \<Rightarrow> u8 list" where
  "mark_used i bm = (let byte_idx = i div 8; bit_idx = i mod 8
     in bm[byte_idx := bm ! byte_idx AND NOT (push_bit bit_idx 1)])"

definition mark_free :: "nat \<Rightarrow> u8 list \<Rightarrow> u8 list" where
  "mark_free i bm = (let byte_idx = i div 8; bit_idx = i mod 8
     in bm[byte_idx := bm ! byte_idx OR push_bit bit_idx 1])"

definition pmm_init :: "pmm_state \<Rightarrow> pmm_state" where
  "pmm_init s =
     (let bm = for_upto 0 BITMAP_SIZE (\<lambda>i b. b[i := 0xFF]) (page_bitmap s);
          kernel_end = (0x200000 :: u32);
          bm' = (if kernel_end > MEMORY_START_ADDR then
                   let start_page = (MEMORY_START_ADDR - MEMORY_START_ADDR) div PAGE_SIZE;
                       end_page = (kernel_end - MEMORY_START_ADDR) div PAGE_SIZE;
                       end_page' = (if end_page > NUMBER_OF_PAGES then NUMBER_OF_PAGES else end_page)
                   in for_upto (unat start_page) (unat end_page') mark_used bm
                 else bm)
      in s\<lparr>page_bitmap := bm'\<rparr>)"

text \<open>The two nested loops of \<open>pmm_alloc_page\<close>: the first byte that is not zero, and in it the
  first set bit; the inner loop returns from the function.\<close>

definition first_free_bit :: "u8 \<Rightarrow> nat option" where
  "first_free_bit byte = first_some (\<lambda>j. if byte AND push_bit j 1 \<noteq> 0 then Some j else None) [0..<8]"

definition find_free_bit :: "u8 list \<Rightarrow> (nat \<times> nat) option" where
  "find_free_bit bm =
     first_some (\<lambda>i. if bm ! i \<noteq> 0 then map_option (Pair i) (first_free_bit (bm ! i)) else None)
       [0..<BITMAP_SIZE]"

definition pmm_alloc_page :: "pmm_state \<Rightarrow> u32 \<times> pmm_state" where
  "pmm_alloc_page s =
     (case find_free_bit (page_bitmap s) of
        Some (i, j) \<Rightarrow>
          (let bm = (page_bitmap s)[i := page_bitmap s ! i AND NOT (push_bit j 1)];
               page_num = of_nat (i * 8 + j)
           in (MEMORY_START_ADDR + page_num * PAGE_SIZE, s\<lparr>page_bitmap := bm\<rparr>))
      | None \<Rightarrow> (0, s))"

definition pmm_free_page :: "u32 \<Rightarrow> pmm_state \<Rightarrow> pmm_state" where
  "pmm_free_page addr s =
     (if addr < MEMORY_START_ADDR \<or> addr \<ge> MEMORY_END_ADDR then s
      else let offset = addr - MEMORY_START_ADDR;
               page_num = offset div PAGE_SIZE
           in if page_num \<ge> NUMBER_OF_PAGES then s
              else s\<lparr>page_bitmap := mark_free (unat page_num) (page_bitmap s)\<rparr>)"

definition pmm_mark_reserved :: "u32 \<Rightarrow> u32 \<Rightarrow> pmm_state \<Rightarrow> pmm_state" where
  "pmm_mark_reserved start end s =
     (if end < MEMORY_START_ADDR then s
      else if start \<ge> MEMORY_END_ADDR then s
      else let start' = (if start < MEMORY_START_ADDR then MEMORY_START_ADDR else start);
               end' = (if end > MEMORY_END_ADDR then MEMORY_END_ADDR else end);
               start_page = (start' - MEMORY_START_ADDR) div PAGE_SIZE;
               end_page = (end' - MEMORY_START_ADDR) div PAGE_SIZE
           in s\<lparr>page_bitmap := for_upto (unat start_page) (unat end_page) mark_used (page_bitmap s)\<rparr>)"

definition pmm_get_total_memory :: "pmm_state \<Rightarrow> u32" where
  "pmm_get_total_memory s = total_memory s"

definition pmm_get_free_memory :: "pmm_state \<Rightarrow> u32" where
  "pmm_get_free_memory s =
     for_upto 0 BITMAP_SIZE
       (\<lambda>i n. for_upto 0 8 (\<lambda>j n. if page_bitmap s ! i AND push_bit j 1 \<noteq> 0 then n + 1 else n) n) 0
     * PAGE_SIZE"

section \<open>Abstraction: the set of free pages\<close>

definition page_is_free :: "u8 list \<Rightarrow> nat \<Rightarrow> bool" where
  "page_is_free bm p \<longleftrightarrow> bit (bm ! (p div 8)) (p mod 8)"

definition free_pages :: "pmm_state \<Rightarrow> nat set" where
  "free_pages s = {p. p < unat NUMBER_OF_PAGES \<and> page_is_free (page_bitmap s) p}"

definition page_addr :: "nat \<Rightarrow> u32" where
  "page_addr p = MEMORY_START_ADDR + of_nat p * PAGE_SIZE"

definition pmm_wf :: "pmm_state \<Rightarrow> bool" where
  "pmm_wf s \<longleftrightarrow> length (page_bitmap s) = BITMAP_SIZE"

lemmas pmm_consts = MEMORY_START_ADDR_def MEMORY_END_ADDR_def PAGE_SIZE_def

lemma MANAGED_MEMORY_eq [simp]: "MANAGED_MEMORY = 0x3F00000"
  by (simp add: MANAGED_MEMORY_def pmm_consts)

lemma NUMBER_OF_PAGES_eq [simp]: "NUMBER_OF_PAGES = 16128"
  by (simp add: NUMBER_OF_PAGES_def PAGE_SIZE_def)

lemma BITMAP_SIZE_eq [simp]: "BITMAP_SIZE = 2016"
  by (simp add: BITMAP_SIZE_def)

section \<open>The bitmap as a set\<close>

lemma length_mark [simp]:
  "length (mark_used i bm) = length bm" "length (mark_free i bm) = length bm"
  by (simp_all add: mark_used_def mark_free_def Let_def)

lemma div_mod_8_eq_iff: "p div 8 = q div 8 \<Longrightarrow> (p mod 8 = q mod 8) = (p = (q :: nat))"
  by (metis div_mult_mod_eq)

lemma page_is_free_mark_used:
  assumes "i div 8 < length bm"
  shows "page_is_free (mark_used i bm) p \<longleftrightarrow> page_is_free bm p \<and> p \<noteq> i"
proof (cases "p div 8 = i div 8")
  case True
  with assms div_mod_8_eq_iff [OF True] show ?thesis
    by (simp add: page_is_free_def mark_used_def Let_def word_bits)
next
  case False
  then show ?thesis by (auto simp: page_is_free_def mark_used_def Let_def)
qed

lemma page_is_free_mark_free:
  assumes "i div 8 < length bm"
  shows "page_is_free (mark_free i bm) p \<longleftrightarrow> page_is_free bm p \<or> p = i"
proof (cases "p div 8 = i div 8")
  case True
  with assms div_mod_8_eq_iff [OF True] show ?thesis
    by (simp add: page_is_free_def mark_free_def Let_def word_bits)
next
  case False
  then show ?thesis by (auto simp: page_is_free_def mark_free_def Let_def)
qed

lemma mark_used_range:
  assumes "lo \<le> hi" and "hi \<le> 8 * length bm"
  shows "length (for_upto lo hi mark_used bm) = length bm \<and>
         (\<forall>p. page_is_free (for_upto lo hi mark_used bm) p \<longleftrightarrow> page_is_free bm p \<and> \<not> (lo \<le> p \<and> p < hi))"
proof (rule for_upto_invariant [where I = "\<lambda>k t. length t = length bm \<and>
         (\<forall>p. page_is_free t p \<longleftrightarrow> page_is_free bm p \<and> \<not> (lo \<le> p \<and> p < k))"])
  show "length bm = length bm \<and> (\<forall>p. page_is_free bm p \<longleftrightarrow> page_is_free bm p \<and> \<not> (lo \<le> p \<and> p < lo))"
    by simp
  show "lo \<le> hi" by fact
next
  fix k t
  assume k: "lo \<le> k" "k < hi"
    and IH: "length t = length bm \<and> (\<forall>p. page_is_free t p \<longleftrightarrow> page_is_free bm p \<and> \<not> (lo \<le> p \<and> p < k))"
  have "k div 8 < length t" using k assms(2) IH by (simp add: less_mult_imp_div_less)
  with IH show "length (mark_used k t) = length bm \<and>
      (\<forall>p. page_is_free (mark_used k t) p \<longleftrightarrow> page_is_free bm p \<and> \<not> (lo \<le> p \<and> p < Suc k))"
    using k(1) by (auto simp: page_is_free_mark_used less_Suc_eq)
qed

lemma fill_free:
  assumes "n \<le> length bm"
  shows "length (for_upto 0 n (\<lambda>i b. b[i := 0xFF]) bm) = length bm \<and>
         (\<forall>i < n. for_upto 0 n (\<lambda>i b. b[i := 0xFF]) bm ! i = (0xFF :: u8))"
  by (rule for_upto_invariant [where I = "\<lambda>k t. length t = length bm \<and> (\<forall>i < k. t ! i = 0xFF)"])
     (use assms in \<open>auto simp: nth_list_update less_Suc_eq\<close>)

lemma bit_0xFF: "j < 8 \<Longrightarrow> bit (0xFF :: u8) j"
proof -
  have "(0xFF :: u8) = NOT 0" by simp
  then show "j < 8 \<Longrightarrow> bit (0xFF :: u8) j" by (simp only: bit_not_iff) simp
qed

lemma free_pages_bound: "p \<in> free_pages s \<Longrightarrow> p < 16128"
  by (simp add: free_pages_def)

lemma finite_free_pages [simp]: "finite (free_pages s)"
  by (rule finite_subset [of _ "{..<16128}"]) (auto dest: free_pages_bound)

lemma first_free_bit_None: "first_free_bit b = None \<longleftrightarrow> b = 0"
  by (auto simp: first_free_bit_def word_bits byte_zero_iff [of b])

lemma first_free_bit_Some:
  assumes "first_free_bit b = Some j"
  shows "j < 8" and "bit b j" and "k < j \<Longrightarrow> \<not> bit b k"
  using assms
  by (auto simp: first_free_bit_def word_bits elim!: first_some_upt_SomeD split: if_splits)

lemma find_free_bit_None:
  "find_free_bit (page_bitmap s) = None \<longleftrightarrow> free_pages s = {}"
proof -
  have "find_free_bit (page_bitmap s) = None \<longleftrightarrow> (\<forall>i < 2016. page_bitmap s ! i = 0)"
    by (auto simp: find_free_bit_def first_free_bit_None)
  also have "\<dots> \<longleftrightarrow> (\<forall>i < 2016. \<forall>j < 8. \<not> bit (page_bitmap s ! i) j)"
    by (simp add: byte_zero_iff)
  also have "\<dots> \<longleftrightarrow> (\<forall>p < 16128. \<not> page_is_free (page_bitmap s) p)"
  proof (intro iffI allI impI)
    fix p assume all: "\<forall>i < 2016. \<forall>j < 8. \<not> bit (page_bitmap s ! i) j" and "p < (16128 :: nat)"
    then have "p div 8 < 2016" and "p mod 8 < 8" by simp_all
    with all show "\<not> page_is_free (page_bitmap s) p" by (simp add: page_is_free_def)
  next
    fix i j assume all: "\<forall>p < 16128. \<not> page_is_free (page_bitmap s) p" and ij: "i < (2016 :: nat)" "j < (8 :: nat)"
    then have "8 * i + j < 16128" by simp
    with all have "\<not> page_is_free (page_bitmap s) (8 * i + j)" by blast
    with ij show "\<not> bit (page_bitmap s ! i) j" by (simp add: page_is_free_def)
  qed
  finally show ?thesis by (simp add: free_pages_def)
qed

lemma find_free_bit_Some:
  assumes "find_free_bit (page_bitmap s) = Some (i, j)"
  shows "i < 2016" and "j < 8" and "i * 8 + j \<in> free_pages s"
    and "i * 8 + j = Min (free_pages s)"
proof -
  let ?bm = "page_bitmap s"
  let ?f = "\<lambda>i. if ?bm ! i \<noteq> 0 then map_option (Pair i) (first_free_bit (?bm ! i)) else None"
  from assms have "first_some ?f [0..<2016] = Some (i, j)" by (simp add: find_free_bit_def)
  then obtain i' where i': "i' < 2016" "?f i' = Some (i, j)" "\<And>k. k < i' \<Longrightarrow> ?f k = None"
    by (rule first_some_upt_SomeD) blast
  then have eq: "i' = i" and j: "first_free_bit (?bm ! i) = Some j" by (auto split: if_splits)
  have before: "?bm ! k = 0" if "k < i" for k
    using i'(3) [of k] that eq by (auto simp: first_free_bit_None split: if_splits)
  show i: "i < 2016" and j8: "j < 8" using i'(1) eq first_free_bit_Some(1) [OF j] by simp_all
  show mem: "i * 8 + j \<in> free_pages s"
    using i j8 first_free_bit_Some(2) [OF j] by (simp add: free_pages_def page_is_free_def)
  have low: "\<not> page_is_free ?bm q" if "q < i * 8 + j" for q
  proof (cases "q div 8 = i")
    case True
    with that have "q mod 8 < j" by presburger
    with True first_free_bit_Some(3) [OF j] show ?thesis by (simp add: page_is_free_def)
  next
    case False
    with that j8 have "q div 8 < i" by linarith
    with before show ?thesis by (simp add: page_is_free_def)
  qed
  show "i * 8 + j = Min (free_pages s)"
  proof (rule Min_eqI [symmetric])
    fix q assume "q \<in> free_pages s"
    then have "page_is_free ?bm q" by (simp add: free_pages_def)
    with low show "i * 8 + j \<le> q" by (meson not_le)
  qed (use mem in simp_all)
qed

section \<open>Operations on the set of free pages\<close>

lemma unat_page_addr: "p < 16128 \<Longrightarrow> unat (page_addr p) = 0x100000 + p * 0x1000"
  by (simp add: page_addr_def pmm_consts unat_word_ariths unat_of_nat)

lemma page_addr_inj: "p < 16128 \<Longrightarrow> q < 16128 \<Longrightarrow> page_addr p = page_addr q \<longleftrightarrow> p = q"
  by (metis unat_page_addr add_left_cancel mult_cancel2 zero_neq_numeral)

lemma page_addr_nonzero: "p < 16128 \<Longrightarrow> page_addr p \<noteq> 0"
  using unat_page_addr [of p] by auto

lemma page_of_page_addr:
  assumes "p < 16128"
  shows "unat ((page_addr p - MEMORY_START_ADDR) div PAGE_SIZE) = p"
proof -
  have "page_addr p - MEMORY_START_ADDR = of_nat (p * 0x1000)"
    by (simp add: page_addr_def PAGE_SIZE_def)
  then have "unat (page_addr p - MEMORY_START_ADDR) = p * 0x1000"
    using assms by (simp only: unat_of_nat) (simp add: take_bit_eq_mod)
  then show ?thesis by (simp add: unat_div PAGE_SIZE_def)
qed

lemma pmm_wf_length: "pmm_wf s \<Longrightarrow> length (page_bitmap s) = 2016"
  by (simp add: pmm_wf_def)

lemma pmm_alloc_page_None: "free_pages s = {} \<Longrightarrow> pmm_alloc_page s = (0, s)"
  using find_free_bit_None [of s] by (simp add: pmm_alloc_page_def)

lemma pmm_alloc_page_Some:
  assumes "pmm_wf s" and "free_pages s \<noteq> {}"
  shows "pmm_alloc_page s =
    (page_addr (Min (free_pages s)),
     s\<lparr>page_bitmap := mark_used (Min (free_pages s)) (page_bitmap s)\<rparr>)"
proof -
  obtain i j where ij: "find_free_bit (page_bitmap s) = Some (i, j)"
    using assms(2) find_free_bit_None [of s] by (cases "find_free_bit (page_bitmap s)") auto
  note facts = find_free_bit_Some [OF ij]
  have "mark_used (i * 8 + j) (page_bitmap s) = (page_bitmap s)[i := page_bitmap s ! i AND NOT (push_bit j 1)]"
    using facts(2) by (simp add: mark_used_def Let_def)
  then show ?thesis
    unfolding facts(4) [symmetric] by (simp add: pmm_alloc_page_def ij Let_def page_addr_def)
qed

lemma free_pages_mark_used:
  assumes "pmm_wf s" and "p < 16128"
  shows "free_pages (s\<lparr>page_bitmap := mark_used p (page_bitmap s)\<rparr>) = free_pages s - {p}"
  using assms by (auto simp: free_pages_def page_is_free_mark_used pmm_wf_length)

lemma free_pages_mark_free:
  assumes "pmm_wf s" and "p < 16128"
  shows "free_pages (s\<lparr>page_bitmap := mark_free p (page_bitmap s)\<rparr>) = insert p (free_pages s)"
  using assms by (auto simp: free_pages_def page_is_free_mark_free pmm_wf_length)

lemma Min_free_pages: "free_pages s \<noteq> {} \<Longrightarrow> Min (free_pages s) \<in> free_pages s"
  by (simp add: Min_in)

lemma pmm_free_page_page_addr:
  assumes "p < 16128"
  shows "pmm_free_page (page_addr p) s = s\<lparr>page_bitmap := mark_free p (page_bitmap s)\<rparr>"
proof -
  have "\<not> page_addr p < MEMORY_START_ADDR" and "\<not> MEMORY_END_ADDR \<le> page_addr p"
    using unat_page_addr [OF assms] assms by (simp_all add: pmm_consts word_less_nat_alt word_le_nat_alt)
  moreover have "\<not> NUMBER_OF_PAGES \<le> (page_addr p - MEMORY_START_ADDR) div PAGE_SIZE"
    using page_of_page_addr [OF assms] assms by (simp add: word_le_nat_alt)
  ultimately show ?thesis
    by (simp add: pmm_free_page_def Let_def page_of_page_addr [OF assms])
qed

lemma pmm_wf_ops [simp]:
  "pmm_wf s \<Longrightarrow> pmm_wf (snd (pmm_alloc_page s))"
  "pmm_wf s \<Longrightarrow> pmm_wf (pmm_free_page a s)"
  "pmm_wf s \<Longrightarrow> pmm_wf (s\<lparr>page_bitmap := mark_used p (page_bitmap s)\<rparr>)"
  "pmm_wf s \<Longrightarrow> pmm_wf (s\<lparr>page_bitmap := mark_free p (page_bitmap s)\<rparr>)"
  by (auto simp: pmm_wf_def pmm_alloc_page_def pmm_free_page_def Let_def split: option.splits)

lemma pmm_init_free_pages:
  assumes "pmm_wf s"
  shows "pmm_wf (pmm_init s)" and "free_pages (pmm_init s) = {256..<16128}"
proof -
  let ?fill = "for_upto 0 2016 (\<lambda>i b. b[i := 0xFF]) (page_bitmap s)"
  have init: "pmm_init s = s\<lparr>page_bitmap := for_upto 0 256 mark_used ?fill\<rparr>"
    by (simp add: pmm_init_def Let_def pmm_consts)
  have len: "length ?fill = 2016" and ff: "\<forall>i < 2016. ?fill ! i = 0xFF"
    using fill_free [of 2016 "page_bitmap s"] assms by (auto simp: pmm_wf_length)
  note range = mark_used_range [of 0 256 ?fill, unfolded len, simplified]
  show "pmm_wf (pmm_init s)" using range by (simp add: init pmm_wf_def)
  have all: "page_is_free ?fill p" if "p < 16128" for p
  proof -
    have "p div 8 < 2016" using that by simp
    with ff have "?fill ! (p div 8) = 0xFF" by blast
    then show ?thesis by (simp only: page_is_free_def bit_0xFF mod_less_divisor zero_less_numeral)
  qed
  have iff: "page_is_free (page_bitmap (pmm_init s)) p \<longleftrightarrow> page_is_free ?fill p \<and> 256 \<le> p" for p
    using range by (simp add: init not_less)
  show "free_pages (pmm_init s) = {256..<16128}"
    unfolding free_pages_def iff using all by (auto simp: not_less)
qed

lemma mark_free_mark_used:
  assumes "p div 8 < length bm" and "page_is_free bm p"
  shows "mark_free p (mark_used p bm) = bm"
proof (rule nth_equalityI)
  fix i assume i: "i < length (mark_free p (mark_used p bm))"
  show "mark_free p (mark_used p bm) ! i = bm ! i"
  proof (rule bit_word_eqI)
    fix n assume n: "n < LENGTH(8)"
    then have q: "(8 * i + n) div 8 = i" "(8 * i + n) mod 8 = n" by simp_all
    have "page_is_free (mark_free p (mark_used p bm)) (8 * i + n) = page_is_free bm (8 * i + n)"
      using assms by (auto simp: page_is_free_mark_free page_is_free_mark_used)
    then show "bit (mark_free p (mark_used p bm) ! i) n = bit (bm ! i) n"
      by (simp only: page_is_free_def q)
  qed
qed simp

section \<open>The page allocator interface\<close>

text \<open>
  What a client of the allocator may rely on: \<open>frames\<close> is the set of free physical frames,
  \<open>alloc\<close> hands out one of them or 0, \<open>free\<close> takes a managed frame back.
\<close>

definition managed_frame :: "u32 \<Rightarrow> bool" where
  "managed_frame a \<longleftrightarrow> unat a mod 0x1000 = 0 \<and> 0x100000 \<le> unat a \<and> unat a < 0x4000000"

locale page_allocator =
  fixes alloc :: "'s \<Rightarrow> u32 \<times> 's"
    and free :: "u32 \<Rightarrow> 's \<Rightarrow> 's"
    and frames :: "'s \<Rightarrow> u32 set"
    and wf :: "'s \<Rightarrow> bool"
  assumes alloc_empty: "frames s = {} \<Longrightarrow> alloc s = (0, s)"
    and alloc_frame: "wf s \<Longrightarrow> frames s \<noteq> {} \<Longrightarrow> alloc s = (a, s') \<Longrightarrow>
          a \<in> frames s \<and> frames s' = frames s - {a} \<and> wf s'"
    and frames_managed: "a \<in> frames s \<Longrightarrow> managed_frame a"
    and free_frame: "wf s \<Longrightarrow> managed_frame a \<Longrightarrow>
          frames (free a s) = insert a (frames s) \<and> wf (free a s)"
begin

lemma frame_nonzero: "a \<in> frames s \<Longrightarrow> a \<noteq> 0"
  using frames_managed [of a s] by (auto simp: managed_frame_def)

lemma alloc_cases:
  assumes "wf s" and "alloc s = (a, s')"
  obtains (empty) "a = 0" "s' = s" "frames s = {}"
        | (frame) "a \<noteq> 0" "a \<in> frames s" "managed_frame a" "frames s' = frames s - {a}" "wf s'"
proof (cases "frames s = {}")
  case True
  with alloc_empty [OF True] assms(2) empty show ?thesis by simp
next
  case False
  with alloc_frame [OF assms(1) False assms(2)] frame_nonzero frames_managed frame show ?thesis by blast
qed

lemma alloc_zero_iff:
  assumes "wf s" and "alloc s = (a, s')"
  shows "a = 0 \<longleftrightarrow> frames s = {}"
  using assms by (rule alloc_cases) auto

lemma wf_alloc:
  assumes "wf s" and "alloc s = (a, s')"
  shows "wf s'"
  using assms by (rule alloc_cases) (use assms(1) in simp_all)

lemma alloc_free_frames:
  assumes "wf s" and "alloc s = (a, s')" and "a \<noteq> 0"
  shows "frames (free a s') = frames s"
  using assms(1,2) by (rule alloc_cases) (use assms(3) in \<open>auto simp: free_frame\<close>)

lemma alloc_twice_distinct:
  assumes "wf s" and "alloc s = (a, s')" and "alloc s' = (b, s'')" and "b \<noteq> 0"
  shows "a \<noteq> b"
proof (rule alloc_cases [OF assms(1,2)])
  assume "a = 0"
  with assms(4) show ?thesis by simp
next
  assume f: "frames s' = frames s - {a}"
  from wf_alloc [OF assms(1,2)] assms(3) show ?thesis
    by (rule alloc_cases) (use f assms(4) in auto)
qed

end

definition free_frames :: "pmm_state \<Rightarrow> u32 set" where
  "free_frames s = page_addr ` free_pages s"

lemma managed_frame_page_addr: "p < 16128 \<Longrightarrow> managed_frame (page_addr p)"
  by (simp add: managed_frame_def unat_page_addr)

lemma managed_frame_iff: "managed_frame a \<longleftrightarrow> (\<exists>p < 16128. a = page_addr p)"
proof
  assume a: "managed_frame a"
  then obtain k where k: "unat a = 0x1000 * k" by (auto simp: managed_frame_def elim: dvdE)
  with a have p: "256 \<le> k" "k < 16384" by (simp_all add: managed_frame_def)
  then have q: "k - 256 < 16128" by simp
  have "unat (page_addr (k - 256)) = unat a"
    using p k by (simp add: unat_page_addr [OF q])
  then have "a = page_addr (k - 256)" by (simp add: word_unat_eq_iff)
  with q show "\<exists>p < 16128. a = page_addr p" by blast
qed (auto simp: managed_frame_page_addr)

lemma free_frames_alloc:
  assumes "pmm_wf s" and "free_frames s \<noteq> {}" and "pmm_alloc_page s = (a, s')"
  shows "a \<in> free_frames s \<and> free_frames s' = free_frames s - {a} \<and> pmm_wf s'"
proof -
  have ne: "free_pages s \<noteq> {}" using assms(2) by (simp add: free_frames_def)
  let ?p = "Min (free_pages s)"
  have p: "?p \<in> free_pages s" "?p < 16128" using Min_free_pages [OF ne] free_pages_bound by blast+
  have a: "a = page_addr ?p" and s': "s' = s\<lparr>page_bitmap := mark_used ?p (page_bitmap s)\<rparr>"
    using assms(3) pmm_alloc_page_Some [OF assms(1) ne] by simp_all
  have "inj_on page_addr (free_pages s)"
    by (auto simp: inj_on_def page_addr_inj dest!: free_pages_bound)
  then have "page_addr ` (free_pages s - {?p}) = page_addr ` free_pages s - {page_addr ?p}"
    using p(1) by (simp add: inj_on_image_set_diff [where C = "free_pages s"])
  with p show ?thesis
    by (simp add: a s' free_frames_def free_pages_mark_used [OF assms(1) p(2)] assms(1))
qed

interpretation pa: page_allocator pmm_alloc_page pmm_free_page free_frames pmm_wf
proof (unfold_locales, goal_cases)
  case (1 s)
  then show ?case by (simp add: free_frames_def pmm_alloc_page_None)
next
  case (2 s a s')
  then show ?case by (rule free_frames_alloc)
next
  case (3 a s)
  then show ?case by (auto simp: free_frames_def managed_frame_page_addr dest: free_pages_bound)
next
  case (4 s a)
  then show ?case
    by (auto simp: managed_frame_iff pmm_free_page_page_addr free_frames_def free_pages_mark_free)
qed

section \<open>Counting free memory\<close>

lemma card_below_Suc:
  "card {p. p < Suc n \<and> P p} = card {p. p < n \<and> P p} + (if P n then 1 else 0)"
proof (cases "P n")
  case True
  then have "{p. p < Suc n \<and> P p} = insert n {p. p < n \<and> P p}" by (auto simp: less_Suc_eq)
  with True show ?thesis by simp
next
  case False
  then have "{p. p < Suc n \<and> P p} = {p. p < n \<and> P p}" by (auto simp: less_Suc_eq)
  with False show ?thesis by simp
qed

lemma count_free_bits:
  "for_upto 0 n (\<lambda>i n. for_upto 0 8 (\<lambda>j n. if bm ! i AND push_bit j 1 \<noteq> 0 then n + 1 else n) n) (0 :: u32)
   = of_nat (card {p. p < 8 * n \<and> page_is_free bm p})"
proof (rule for_upto_invariant [where I = "\<lambda>k t. t = of_nat (card {p. p < 8 * k \<and> page_is_free bm p})"])
  fix i :: nat and t :: u32
  assume t: "t = of_nat (card {p. p < 8 * i \<and> page_is_free bm p})"
  let ?inner = "for_upto 0 8 (\<lambda>j n. if bm ! i AND push_bit j 1 \<noteq> 0 then n + 1 else n) t"
  have "?inner = of_nat (card {p. p < 8 * i + 8 \<and> page_is_free bm p})"
  proof (rule for_upto_invariant [where I = "\<lambda>k t. t = of_nat (card {p. p < 8 * i + k \<and> page_is_free bm p})"])
    fix j :: nat and u :: u32
    assume j: "j < 8" and u: "u = of_nat (card {p. p < 8 * i + j \<and> page_is_free bm p})"
    have "page_is_free bm (8 * i + j) \<longleftrightarrow> bit (bm ! i) j" using j by (simp add: page_is_free_def)
    then show "(if bm ! i AND push_bit j 1 \<noteq> 0 then u + 1 else u)
        = of_nat (card {p. p < 8 * i + Suc j \<and> page_is_free bm p})"
      by (simp add: u word_bits card_below_Suc)
  qed (simp_all add: t)
  then show "?inner = of_nat (card {p. p < 8 * Suc i \<and> page_is_free bm p})"
    by (simp add: add.commute)
qed simp_all

section \<open>Properties\<close>

text \<open>
  C23: \<open>pmm_alloc_page\<close> returns the address of the lowest free page and removes exactly that
  page from the free set; it returns 0, leaving the state alone, exactly when no page is free.
\<close>

theorem pmm_alloc_page_correct:
  assumes "pmm_wf s" and "pmm_alloc_page s = (a, s')"
  shows "if free_pages s = {} then a = 0 \<and> s' = s
         else a = page_addr (Min (free_pages s)) \<and> a \<noteq> 0 \<and>
              free_pages s' = free_pages s - {Min (free_pages s)} \<and> pmm_wf s'"
proof (cases "free_pages s = {}")
  case True
  with assms(2) show ?thesis by (simp add: pmm_alloc_page_None)
next
  case False
  have "Min (free_pages s) < 16128" using Min_free_pages [OF False] free_pages_bound by blast
  with False assms show ?thesis
    by (auto simp: pmm_alloc_page_Some free_pages_mark_used page_addr_nonzero)
qed

definition blank_pmm :: pmm_state where
  "blank_pmm = \<lparr>page_bitmap = replicate 2016 0, total_memory = MANAGED_MEMORY\<rparr>"

lemma pmm_wf_blank [simp]: "pmm_wf blank_pmm"
  by (simp add: pmm_wf_def blank_pmm_def)

lemma booted_pmm:
  "pmm_wf (pmm_init blank_pmm)" "free_pages (pmm_init blank_pmm) = {256..<16128}"
  "Min (free_pages (pmm_init blank_pmm)) = 256" "free_pages (pmm_init blank_pmm) \<noteq> {}"
proof -
  show "pmm_wf (pmm_init blank_pmm)" and fp: "free_pages (pmm_init blank_pmm) = {256..<16128}"
    by (simp_all add: pmm_init_free_pages)
  have "Min {256..<16128 :: nat} = 256" by (rule Min_eqI) auto
  with fp show "Min (free_pages (pmm_init blank_pmm)) = 256" by simp
  show "free_pages (pmm_init blank_pmm) \<noteq> {}" by (simp add: fp)
qed

theorem pmm_alloc_page_correct_witness:
  "fst (pmm_alloc_page (pmm_init blank_pmm)) = 0x200000 \<and>
   free_pages (snd (pmm_alloc_page (pmm_init blank_pmm))) = {256..<16128} - {256}"
proof -
  let ?r = "pmm_alloc_page (pmm_init blank_pmm)"
  have "?r = (fst ?r, snd ?r)" by simp
  from pmm_alloc_page_correct [OF booted_pmm(1) this]
  have "fst ?r = page_addr 256 \<and> free_pages (snd ?r) = {256..<16128} - {256}"
    unfolding if_not_P [OF booted_pmm(4)] unfolding booted_pmm(3) unfolding booted_pmm(2) by blast
  then show ?thesis by (simp add: page_addr_def pmm_consts)
qed

text \<open>
  A run of the allocator in which pages are only given back by their owner:
  \<open>pmm_owns s own\<close> says that \<open>s\<close> is reachable from \<open>pmm_init\<close> with the pages in \<open>own\<close> handed out.
\<close>

inductive pmm_owns :: "pmm_state \<Rightarrow> u32 set \<Rightarrow> bool" where
  boot: "pmm_wf s \<Longrightarrow> pmm_owns (pmm_init s) {}"
| alloc: "pmm_owns s own \<Longrightarrow> pmm_alloc_page s = (a, s') \<Longrightarrow> a \<noteq> 0 \<Longrightarrow> pmm_owns s' (insert a own)"
| exhausted: "pmm_owns s own \<Longrightarrow> pmm_alloc_page s = (0, s') \<Longrightarrow> pmm_owns s' own"
| release: "pmm_owns s own \<Longrightarrow> a \<in> own \<Longrightarrow> pmm_owns (pmm_free_page a s) (own - {a})"

lemma managed_frame_upper: "a \<in> page_addr ` {256..<16128} \<Longrightarrow> managed_frame a \<and> 0x200000 \<le> unat a"
  by (auto simp: managed_frame_page_addr unat_page_addr)

lemma pmm_owns_partition:
  "pmm_owns s own \<Longrightarrow> pmm_wf s \<and> own \<inter> free_frames s = {} \<and>
     own \<union> free_frames s = page_addr ` {256..<16128}"
proof (induction rule: pmm_owns.induct)
  case (boot s)
  then show ?case by (simp add: pmm_init_free_pages free_frames_def)
next
  case (alloc s own a s')
  then have wf: "pmm_wf s" by simp
  show ?case
    by (rule pa.alloc_cases [OF wf alloc.hyps(2)]) (use alloc in auto)
next
  case (exhausted s own s')
  then have wf: "pmm_wf s" by simp
  show ?case
    by (rule pa.alloc_cases [OF wf exhausted.hyps(2)]) (use exhausted in auto)
next
  case (release s own a)
  then have wf: "pmm_wf s" and "a \<in> page_addr ` {256..<16128}" by blast+
  from this(2) have m: "managed_frame a" by (simp only: managed_frame_upper)
  from pa.free_frame [OF wf m] release show ?case by auto
qed

text \<open>
  C7: no page is handed out twice and none is lost: along every run the pages handed out and the
  free pages partition the managed range from 0x200000 on, a fresh page is never one already
  handed out, and no page below 0x200000 is ever handed out. That is the constant the code takes for the end of the kernel image; whether the
  image ends there is not decided by this file.
\<close>

theorem pmm_no_double_allocation:
  assumes "pmm_owns s own"
  shows "own \<inter> free_frames s = {} \<and> own \<union> free_frames s = page_addr ` {256..<16128} \<and>
    (let (a, s') = pmm_alloc_page s
     in a = 0 \<or> (a \<notin> own \<and> 0x200000 \<le> unat a \<and> unat a < 0x4000000))"
proof -
  have wf: "pmm_wf s" and disj: "own \<inter> free_frames s = {}"
    and all: "own \<union> free_frames s = page_addr ` {256..<16128}"
    using pmm_owns_partition [OF assms] by blast+
  obtain a s' where a: "pmm_alloc_page s = (a, s')" by fastforce
  have "a \<notin> own \<and> 0x200000 \<le> unat a \<and> unat a < 0x4000000" if "a \<noteq> 0"
  proof -
    have "a \<in> free_frames s" by (rule pa.alloc_cases [OF wf a]) (use that in auto)
    then have "a \<notin> own" "a \<in> page_addr ` {256..<16128}" using disj all by blast+
    then show ?thesis using managed_frame_upper [of a] by (simp only: managed_frame_def) blast
  qed
  with disj all a show ?thesis by auto
qed

theorem pmm_no_double_allocation_witness:
  "let (a, s) = pmm_alloc_page (pmm_init blank_pmm); (b, s') = pmm_alloc_page s
   in a = 0x200000 \<and> (b = 0 \<or> b \<noteq> 0x200000)"
proof -
  obtain s where s: "pmm_alloc_page (pmm_init blank_pmm) = (0x200000, s)"
    using pmm_alloc_page_Some [OF booted_pmm(1,4)] by (simp add: booted_pmm(3) page_addr_def pmm_consts)
  have "pmm_owns s (insert 0x200000 {})"
    by (rule pmm_owns.alloc [OF pmm_owns.boot [OF pmm_wf_blank] s]) simp
  from pmm_no_double_allocation [OF this] s show ?thesis
    by (auto simp: Let_def split: prod.splits)
qed

text \<open>
  giving back a page that was just allocated restores the allocator's state exactly.
\<close>

theorem pmm_free_alloc_roundtrip:
  assumes "pmm_wf s" and "pmm_alloc_page s = (a, s')" and "a \<noteq> 0"
  shows "pmm_free_page a s' = s"
proof -
  have ne: "free_pages s \<noteq> {}" using assms(2,3) by (auto simp: pmm_alloc_page_None)
  have p: "Min (free_pages s) < 16128" "page_is_free (page_bitmap s) (Min (free_pages s))"
    using Min_free_pages [OF ne] by (auto simp: free_pages_def)
  then have "mark_free (Min (free_pages s)) (mark_used (Min (free_pages s)) (page_bitmap s)) = page_bitmap s"
    using assms(1) by (intro mark_free_mark_used) (auto simp: pmm_wf_length)
  with assms(2) p(1) show ?thesis
    by (auto simp: pmm_alloc_page_Some [OF assms(1) ne] pmm_free_page_page_addr)
qed

theorem pmm_free_alloc_roundtrip_witness:
  "pmm_free_page 0x200000 (snd (pmm_alloc_page (pmm_init blank_pmm))) = pmm_init blank_pmm"
proof -
  have "pmm_alloc_page (pmm_init blank_pmm) = (0x200000, snd (pmm_alloc_page (pmm_init blank_pmm)))"
    using pmm_alloc_page_Some [OF booted_pmm(1,4)] by (simp add: booted_pmm(3) page_addr_def pmm_consts)
  from pmm_free_alloc_roundtrip [OF booted_pmm(1) this] show ?thesis by simp
qed

text \<open>
  \<open>pmm_mark_reserved\<close> takes from the free set exactly the pages from the one that contains
  \<open>start\<close> up to, but not including, the one that contains \<open>end\<close>, after clipping to the
  managed range.
\<close>

theorem pmm_mark_reserved_correct:
  assumes "pmm_wf s"
  shows "free_pages (pmm_mark_reserved start end s) =
    free_pages s - {p. (max (unat start) 0x100000 - 0x100000) div 0x1000 \<le> p \<and>
                       p < (min (unat end) 0x4000000 - 0x100000) div 0x1000}"
proof -
  define lo where "lo = (max (unat start) 0x100000 - 0x100000) div 0x1000"
  define hi where "hi = (min (unat end) 0x4000000 - 0x100000) div 0x1000"
  have "(min (unat end) 0x4000000 - 0x100000) div 0x1000 \<le> (0x3F00000 :: nat) div 0x1000"
    by (rule div_le_mono) simp
  then have hi: "hi \<le> 16128" by (simp add: hi_def)
  have noop: "free_pages s - {p. lo \<le> p \<and> p < hi} = free_pages s" if "16128 \<le> lo \<or> hi = 0"
    using that by (auto dest: free_pages_bound)
  show ?thesis
  proof (cases "end < MEMORY_START_ADDR \<or> start \<ge> MEMORY_END_ADDR")
    case True
    then have "16128 \<le> lo \<or> hi = 0"
      by (auto simp: lo_def hi_def pmm_consts word_less_nat_alt word_le_nat_alt)
    with True noop show ?thesis
      by (auto simp: pmm_mark_reserved_def lo_def [symmetric] hi_def [symmetric])
  next
    case False
    let ?bm = "for_upto lo hi mark_used (page_bitmap s)"
    have 1: "unat (((if start < MEMORY_START_ADDR then MEMORY_START_ADDR else start) - MEMORY_START_ADDR)
        div PAGE_SIZE) = lo"
      by (auto simp: lo_def pmm_consts unat_div word_less_nat_alt unat_sub word_le_nat_alt not_less max_def)
    have 2: "unat (((if end > MEMORY_END_ADDR then MEMORY_END_ADDR else end) - MEMORY_START_ADDR)
        div PAGE_SIZE) = hi"
      using False
      by (auto simp: hi_def pmm_consts unat_div word_less_nat_alt unat_sub word_le_nat_alt not_less min_def)
    have res: "pmm_mark_reserved start end s = s\<lparr>page_bitmap := ?bm\<rparr>"
      using False by (auto simp: pmm_mark_reserved_def Let_def 1 2)
    have "page_is_free ?bm p \<longleftrightarrow> page_is_free (page_bitmap s) p \<and> \<not> (lo \<le> p \<and> p < hi)" for p
    proof (cases "lo \<le> hi")
      case True
      with mark_used_range [OF True, of "page_bitmap s"] hi assms show ?thesis
        by (simp add: pmm_wf_length)
    qed simp
    then show ?thesis
      by (auto simp: res free_pages_def lo_def [symmetric] hi_def [symmetric])
  qed
qed

theorem pmm_mark_reserved_correct_witness:
  "free_pages (pmm_mark_reserved 0x300000 0x400000 (pmm_init blank_pmm)) =
     {256..<16128} - {p. 512 \<le> p \<and> p < 768}"
  using pmm_mark_reserved_correct [OF booted_pmm(1), of "0x300000" "0x400000"]
  by (simp add: booted_pmm(2))

text \<open>
  \<open>pmm_get_free_memory\<close> is 4096 times the number of free pages; the 32-bit product never wraps.
\<close>

theorem pmm_get_free_memory_correct:
  "unat (pmm_get_free_memory s) = 0x1000 * card (free_pages s)"
proof -
  have "{p. p < 8 * 2016 \<and> page_is_free (page_bitmap s) p} = free_pages s"
    by (auto simp: free_pages_def)
  then have eq: "pmm_get_free_memory s = of_nat (card (free_pages s)) * PAGE_SIZE"
    using count_free_bits [of 2016 "page_bitmap s"] by (simp add: pmm_get_free_memory_def)
  have "card (free_pages s) \<le> card {..<16128 :: nat}"
    by (rule card_mono) (auto dest: free_pages_bound)
  then show ?thesis
    by (simp add: eq PAGE_SIZE_def unat_word_ariths unat_of_nat)
qed

end
