(* ===== verification/Msg.thy ===== *)
theory Msg
  imports Prelude
begin

text \<open>
  System V style message queues, \<^verbatim>\<open>kernel/ipc/msg.c\<close> and \<^verbatim>\<open>kernel/ipc/msg.h\<close>. A queue is
  a ring of 16 message slots; the 16 queues are a static array, so a pointer to a queue is an index.
  The state also holds the interrupt flag, which \<open>sys_msgsnd\<close> clears and sets with
  \<open>cli\<close> and \<open>sti\<close>. The caller's buffers are values: the message \<open>msgp\<close> points
  to is an argument of \<open>sys_msgsnd\<close>, the bytes written to \<open>msgp\<close> are a result of
  \<open>sys_msgrcv\<close>.
\<close>

section \<open>Data\<close>

definition MSGQUEUE_MAX :: nat where "MSGQUEUE_MAX = 16"
definition MSG_SIZE_MAX :: nat where "MSG_SIZE_MAX = 4096"

definition IPC_CREAT :: u32 where "IPC_CREAT = 0x200"
definition IPC_NOWAIT :: u32 where "IPC_NOWAIT = 0x800"
definition IPC_RMID :: int where "IPC_RMID = 0"
definition IPC_SET :: int where "IPC_SET = 1"
definition IPC_STAT :: int where "IPC_STAT = 2"

record msg =
  mtype :: u32
  mtext :: "u8 list"

record msg_queue =
  mq_key :: u32
  mq_id :: int
  messages :: "msg list"
  mq_head :: nat
  mq_tail :: nat
  mq_count :: nat
  pid_list :: "u32 list"
  pid_count :: nat

record ipc_perm =
  uid :: u16
  gid :: u16
  cuid :: u16
  cgid :: u16
  mode :: u16
  seq :: u16

record msqid_ds =
  msg_perm :: ipc_perm
  msg_first :: u32
  msg_last :: u32
  msg_cbytes :: u32
  msg_qnum :: u32
  msg_qbytes :: u32
  msg_lspid :: u32
  msg_lrpid :: u32
  msg_stime :: u32
  msg_rtime :: u32
  msg_ctime :: u32

record msg_state =
  msgqueues :: "msg_queue list"
  next_msgqueue_id :: int
  interrupts_enabled :: bool

definition upd_queue :: "nat \<Rightarrow> (msg_queue \<Rightarrow> msg_queue) \<Rightarrow> msg_state \<Rightarrow> msg_state" where
  "upd_queue i f s = s\<lparr>msgqueues := (msgqueues s)[i := f (msgqueues s ! i)]\<rparr>"

section \<open>Operations\<close>

definition msg_init :: "msg_state \<Rightarrow> msg_state" where
  "msg_init s =
     (for_upto 0 MSGQUEUE_MAX
        (\<lambda>i. upd_queue i (\<lambda>q. q\<lparr>mq_id := 0, mq_key := 0, mq_head := 0, mq_tail := 0, mq_count := 0, pid_count := 0\<rparr>)) s)
     \<lparr>next_msgqueue_id := 1\<rparr>"

definition alloc_msgqueue :: "msg_state \<Rightarrow> nat option \<times> msg_state" where
  "alloc_msgqueue s =
     (case first_some (\<lambda>i. if mq_id (msgqueues s ! i) = 0 then Some i else None) [0..<MSGQUEUE_MAX] of
        Some i \<Rightarrow> (Some i, (upd_queue i (\<lambda>q. q\<lparr>mq_id := next_msgqueue_id s\<rparr>) s)
                             \<lparr>next_msgqueue_id := next_msgqueue_id s + 1\<rparr>)
      | None \<Rightarrow> (None, s))"

definition get_msgqueue :: "int \<Rightarrow> msg_state \<Rightarrow> nat option" where
  "get_msgqueue msqid s =
     (if msqid \<le> 0 then None
      else first_some (\<lambda>i. if mq_id (msgqueues s ! i) = msqid then Some i else None) [0..<MSGQUEUE_MAX])"

text \<open>The loop of \<open>find_msgqueue\<close>: \<open>Inl i\<close> is the early return of a matching queue,
  \<open>Inr e\<close> the end of the loop with the first empty slot seen.\<close>

fun find_scan :: "msg_queue list \<Rightarrow> u32 \<Rightarrow> nat list \<Rightarrow> nat option \<Rightarrow> nat + nat option" where
  "find_scan qs k [] emp = Inr emp"
| "find_scan qs k (i # js) emp =
     (if mq_id (qs ! i) = 0 then find_scan qs k js (if emp = None then Some i else emp)
      else if mq_key (qs ! i) = k then Inl i
      else find_scan qs k js emp)"

definition find_msgqueue :: "u32 \<Rightarrow> u32 \<Rightarrow> msg_state \<Rightarrow> nat option \<times> msg_state" where
  "find_msgqueue k msgflg s =
     (case find_scan (msgqueues s) k [0..<MSGQUEUE_MAX] None of
        Inl i \<Rightarrow> (Some i, s)
      | Inr emp \<Rightarrow>
          (case emp of
             Some e \<Rightarrow>
               if msgflg AND IPC_CREAT \<noteq> 0
               then (Some e, upd_queue e (\<lambda>q. q\<lparr>mq_key := k, mq_head := 0, mq_tail := 0, mq_count := 0, pid_count := 0\<rparr>) s)
               else (None, s)
           | None \<Rightarrow> (None, s)))"

definition sys_msgget :: "u32 \<Rightarrow> u32 \<Rightarrow> msg_state \<Rightarrow> int \<times> msg_state" where
  "sys_msgget k msgflg s =
     (case find_msgqueue k msgflg s of
        (None, s') \<Rightarrow> (-1, s')
      | (Some i, s') \<Rightarrow> (mq_id (msgqueues s' ! i), s'))"

text \<open>Copying a message of \<open>n\<close> bytes into a slot: \<open>memcpy\<close> of the text and the guarded
  terminating zero; the rest of the slot keeps its old bytes.\<close>

definition copy_msg :: "msg \<Rightarrow> nat \<Rightarrow> msg \<Rightarrow> msg" where
  "copy_msg src n slot =
     (let text = take n (mtext src) @ drop n (mtext slot)
      in slot\<lparr>mtype := mtype src, mtext := if n < MSG_SIZE_MAX then text[n := 0] else text\<rparr>)"

definition ring_put :: "msg \<Rightarrow> msg_queue \<Rightarrow> msg_queue" where
  "ring_put m q = q\<lparr>messages := (messages q)[mq_tail q := m],
                    mq_tail := (mq_tail q + 1) mod MSGQUEUE_MAX, mq_count := mq_count q + 1\<rparr>"

definition sys_msgsnd :: "int \<Rightarrow> msg \<Rightarrow> u32 \<Rightarrow> u32 \<Rightarrow> msg_state \<Rightarrow> int \<times> msg_state" where
  "sys_msgsnd msqid msgp msgsz msgflg s0 =
     (let s = s0\<lparr>interrupts_enabled := False\<rparr>
      in case get_msgqueue msqid s of
           None \<Rightarrow> (-1, s)
         | Some i \<Rightarrow>
             (let mq = msgqueues s ! i
              in if unat msgsz > MSG_SIZE_MAX then (-1, s)
                 else if mq_count mq \<ge> MSGQUEUE_MAX then
                   (if msgflg AND IPC_NOWAIT \<noteq> 0 then (-1, s) else (-1, s))
                 else
                   (let m = copy_msg msgp (unat msgsz) (messages mq ! mq_tail mq)
                    in (0, (upd_queue i (ring_put m) s)\<lparr>interrupts_enabled := True\<rparr>))))"

text \<open>The search loop of \<open>sys_msgrcv\<close>: the slot index of the first message of the wanted type.\<close>

function ring_search :: "msg_queue \<Rightarrow> u32 \<Rightarrow> nat \<Rightarrow> nat \<Rightarrow> nat option" where
  "ring_search q msgtyp index steps =
     (if steps < mq_count q then
        if msgtyp = 0 \<or> mtype (messages q ! index) = msgtyp then Some index
        else ring_search q msgtyp ((index + 1) mod MSGQUEUE_MAX) (steps + 1)
      else None)"
  by pat_completeness auto
termination
  by (relation "measure (\<lambda>(q, ty, index, steps). mq_count q - steps)") auto

declare ring_search.simps [simp del]

definition ring_remove :: "nat \<Rightarrow> msg_queue \<Rightarrow> msg_queue" where
  "ring_remove index q =
     (let q' = q\<lparr>mq_count := mq_count q - 1\<rparr>
      in if mq_count q' = 0 then q'\<lparr>mq_head := 0, mq_tail := 0\<rparr>
         else q'\<lparr>mq_head := (index + 1) mod MSGQUEUE_MAX\<rparr>)"

definition sys_msgrcv ::
  "int \<Rightarrow> u32 \<Rightarrow> u32 \<Rightarrow> u32 \<Rightarrow> msg_state \<Rightarrow> int \<times> u8 list option \<times> msg_state" where
  "sys_msgrcv msqid msgsz msgtyp msgflg s =
     (case get_msgqueue msqid s of
        None \<Rightarrow> (-1, None, s)
      | Some i \<Rightarrow>
          (let mq = msgqueues s ! i
           in if mq_count mq = 0 then (if msgflg AND IPC_NOWAIT \<noteq> 0 then (-1, None, s) else (-1, None, s))
              else case ring_search mq msgtyp (mq_head mq) 0 of
                     None \<Rightarrow> (if msgflg AND IPC_NOWAIT \<noteq> 0 then (-1, None, s) else (-1, None, s))
                   | Some index \<Rightarrow>
                       (let copy_len = (if unat msgsz < MSG_SIZE_MAX then unat msgsz else MSG_SIZE_MAX)
                        in (sint msgsz, Some (take copy_len (mtext (messages mq ! index))),
                            upd_queue i (ring_remove index) s))))"

definition sys_msgctl ::
  "int \<Rightarrow> int \<Rightarrow> msqid_ds option \<Rightarrow> msg_state \<Rightarrow> int \<times> msqid_ds option \<times> msg_state" where
  "sys_msgctl msqid cmd buf s =
     (case get_msgqueue msqid s of
        None \<Rightarrow> (-1, buf, s)
      | Some i \<Rightarrow>
          if cmd = IPC_STAT then
            (case buf of
               None \<Rightarrow> (-1, buf, s)
             | Some b \<Rightarrow>
                 (0, Some (b\<lparr>msg_perm := \<lparr>uid = 0, gid = 0, cuid = 0, cgid = 0, mode = 0x1B6, seq = 0\<rparr>,
                             msg_stime := 0, msg_rtime := 0, msg_ctime := 0,
                             msg_qnum := of_nat (mq_count (msgqueues s ! i)),
                             msg_qbytes := of_nat (MSGQUEUE_MAX * MSG_SIZE_MAX)\<rparr>), s))
          else if cmd = IPC_RMID then
            (0, buf, upd_queue i (\<lambda>q. q\<lparr>mq_id := 0, mq_key := 0, mq_head := 0, mq_tail := 0, mq_count := 0, pid_count := 0\<rparr>) s)
          else if cmd = IPC_SET then (-1, buf, s)
          else (-1, buf, s))"

section \<open>The ring as a list of messages\<close>

definition ring_wf :: "msg_queue \<Rightarrow> bool" where
  "ring_wf q \<longleftrightarrow> length (messages q) = 16 \<and> mq_head q < 16 \<and> mq_count q \<le> 16 \<and>
     mq_tail q = (mq_head q + mq_count q) mod 16 \<and> (\<forall>m \<in> set (messages q). length (mtext m) = 4096)"

definition ring_contents :: "msg_queue \<Rightarrow> msg list" where
  "ring_contents q = map (\<lambda>k. messages q ! ((mq_head q + k) mod 16)) [0..<mq_count q]"

lemma MSGQUEUE_MAX_eq [simp]: "MSGQUEUE_MAX = 16"
  by (simp add: MSGQUEUE_MAX_def)

lemma MSG_SIZE_MAX_eq [simp]: "MSG_SIZE_MAX = 4096"
  by (simp add: MSG_SIZE_MAX_def)

lemma length_ring_contents [simp]: "length (ring_contents q) = mq_count q"
  by (simp add: ring_contents_def)

lemma ring_slot_neq: "k < c \<Longrightarrow> c < 16 \<Longrightarrow> (h + k) mod 16 \<noteq> (h + c) mod (16 :: nat)"
  using mod_eq_dvd_iff_nat [of "h + k" "h + c" 16] nat_dvd_not_less [of "c - k" 16] by auto

lemma ring_contents_nth: "k < mq_count q \<Longrightarrow> ring_contents q ! k = messages q ! ((mq_head q + k) mod 16)"
  by (simp add: ring_contents_def)

lemma ring_contents_in_messages: "ring_wf q \<Longrightarrow> m \<in> set (ring_contents q) \<Longrightarrow> m \<in> set (messages q)"
  by (auto simp: ring_contents_def ring_wf_def)

lemma ring_contents_put:
  assumes "ring_wf q" and "mq_count q < 16"
  shows "ring_contents (ring_put m q) = ring_contents q @ [m]"
proof -
  have "(messages q)[mq_tail q := m] ! ((mq_head q + k) mod 16) = messages q ! ((mq_head q + k) mod 16)"
    if "k < mq_count q" for k
    using assms that ring_slot_neq [of k "mq_count q" "mq_head q"] by (simp add: ring_wf_def)
  with assms show ?thesis by (simp add: ring_contents_def ring_put_def ring_wf_def)
qed

lemma ring_wf_put:
  assumes "ring_wf q" and "mq_count q < 16" and "length (mtext m) = 4096"
  shows "ring_wf (ring_put m q)"
  using assms set_update_subset_insert [of "messages q" "mq_tail q" m]
  by (auto simp: ring_wf_def ring_put_def mod_Suc_eq)

text \<open>Removing the message at ring position \<open>k\<close>: what was before it disappears from the queue,
  and as many slots from beyond the tail come in.\<close>

lemma ring_contents_remove:
  assumes "ring_wf q" and "k < mq_count q"
  shows "ring_contents (ring_remove ((mq_head q + k) mod 16) q) =
    drop (Suc k) (ring_contents q) @
    map (\<lambda>j. messages q ! ((mq_tail q + j) mod 16)) [0..<k]"
proof (cases "mq_count q = 1")
  case True
  with assms show ?thesis by (simp add: ring_contents_def ring_remove_def Let_def)
next
  case False
  let ?h = "mq_head q" and ?c = "mq_count q"
  have "ring_contents (ring_remove ((?h + k) mod 16) q) =
      map (\<lambda>j. messages q ! ((?h + Suc k + j) mod 16)) [0..<?c - 1]"
    using False assms by (simp add: ring_contents_def ring_remove_def Let_def mod_simps)
  also have "[0..<?c - 1] = [0..<?c - Suc k] @ [?c - Suc k..<?c - 1]"
    using assms upt_add_eq_append [of 0 "?c - Suc k" k] by simp
  also have "map (\<lambda>j. messages q ! ((?h + Suc k + j) mod 16)) ([0..<?c - Suc k] @ [?c - Suc k..<?c - 1])
      = drop (Suc k) (ring_contents q) @ map (\<lambda>j. messages q ! ((mq_tail q + j) mod 16)) [0..<k]"
  proof -
    have 1: "map (\<lambda>j. messages q ! ((?h + Suc k + j) mod 16)) [0..<?c - Suc k] = drop (Suc k) (ring_contents q)"
      by (rule nth_equalityI) (simp_all add: ring_contents_def drop_map add.assoc)
    have 2: "map (\<lambda>j. messages q ! ((?h + Suc k + j) mod 16)) [?c - Suc k..<?c - 1]
        = map (\<lambda>j. messages q ! ((mq_tail q + j) mod 16)) [0..<k]"
    proof -
      have "[?c - Suc k..<?c - 1] = map (\<lambda>j. j + (?c - Suc k)) [0..<k]"
      proof -
        have "k + (?c - Suc k) = ?c - 1" using assms(2) by simp
        then show ?thesis by (simp only: map_add_upt)
      qed
      moreover have "(?h + Suc k + (j + (?c - Suc k))) mod 16 = (mq_tail q + j) mod 16" for j
      proof -
        have "?h + Suc k + (j + (?c - Suc k)) = ?h + ?c + j" using assms(2) by simp
        moreover have "mq_tail q = (?h + ?c) mod 16" using assms(1) by (simp add: ring_wf_def)
        ultimately show ?thesis by (simp only: mod_add_left_eq)
      qed
      ultimately show ?thesis by (simp only: map_map o_def)
    qed
    show ?thesis by (simp only: map_append 1 2)
  qed
  finally show ?thesis .
qed

lemma ring_wf_remove_head:
  assumes "ring_wf q" and "0 < mq_count q"
  shows "ring_wf (ring_remove (mq_head q) q)"
proof -
  obtain c where "mq_count q = Suc c" using assms(2) gr0_conv_Suc by blast
  with assms show ?thesis by (auto simp: ring_wf_def ring_remove_def Let_def mod_simps)
qed

definition ring_admissible :: "msg \<Rightarrow> msg_queue \<Rightarrow> bool" where
  "ring_admissible m q \<longleftrightarrow> mq_count q < 16 \<and> length (mtext m) = 4096"

interpretation mr: fifo ring_contents ring_wf ring_admissible ring_put "\<lambda>q. ring_remove (mq_head q) q"
proof (unfold_locales, goal_cases)
  case (1 q x)
  then show ?case by (simp add: ring_contents_put ring_admissible_def)
next
  case (2 q x)
  then show ?case by (simp add: ring_wf_put ring_admissible_def)
next
  case (3 q)
  then have "0 < mq_count q" by (metis length_ring_contents length_greater_0_conv)
  with ring_contents_remove [OF 3(1) this] 3 show ?case
    by (simp add: drop_Suc ring_wf_def)
next
  case (4 q)
  then have "0 < mq_count q" by (metis length_ring_contents length_greater_0_conv)
  with 4 show ?case by (simp add: ring_wf_remove_head)
qed

lemma ring_search_eq:
  assumes "st \<le> mq_count q"
  shows "ring_search q ty ((mq_head q + st) mod 16) st =
    map_option (\<lambda>k. (mq_head q + k) mod 16)
      (first_some (\<lambda>k. if ty = 0 \<or> mtype (ring_contents q ! k) = ty then Some k else None) [st..<mq_count q])"
  using assms
proof (induction "mq_count q - st" arbitrary: st)
  case 0
  then show ?case by (simp add: ring_search.simps)
next
  case (Suc n)
  then have lt: "st < mq_count q" by simp
  with Suc.hyps(2) have IH: "ring_search q ty ((mq_head q + Suc st) mod 16) (Suc st) =
    map_option (\<lambda>k. (mq_head q + k) mod 16)
      (first_some (\<lambda>k. if ty = 0 \<or> mtype (ring_contents q ! k) = ty then Some k else None) [Suc st..<mq_count q])"
    using Suc.hyps(1) [of "Suc st"] by simp
  have "[st..<mq_count q] = st # [Suc st..<mq_count q]" using lt by (simp add: upt_conv_Cons)
  with IH lt show ?case
    by (subst ring_search.simps) (simp add: ring_contents_nth mod_simps)
qed

lemma ring_search_head:
  assumes "ring_wf q"
  shows "ring_search q ty (mq_head q) 0 =
    map_option (\<lambda>k. (mq_head q + k) mod 16)
      (first_some (\<lambda>k. if ty = 0 \<or> mtype (ring_contents q ! k) = ty then Some k else None) [0..<mq_count q])"
  using ring_search_eq [of 0 q ty] assms by (simp add: ring_wf_def)

section \<open>Queues in the system state\<close>

definition msg_wf :: "msg_state \<Rightarrow> bool" where
  "msg_wf s \<longleftrightarrow> length (msgqueues s) = 16 \<and> (\<forall>q \<in> set (msgqueues s). ring_wf q)"

lemma msgqueues_upd_queue [simp]:
  "msgqueues (upd_queue i f s) = (msgqueues s)[i := f (msgqueues s ! i)]"
  "interrupts_enabled (upd_queue i f s) = interrupts_enabled s"
  "next_msgqueue_id (upd_queue i f s) = next_msgqueue_id s"
  by (simp_all add: upd_queue_def)

lemma get_msgqueue_cong: "msgqueues s = msgqueues s' \<Longrightarrow> get_msgqueue msqid s = get_msgqueue msqid s'"
  by (simp add: get_msgqueue_def)

lemma get_msgqueue_interrupts [simp]:
  "get_msgqueue msqid (s\<lparr>interrupts_enabled := b\<rparr>) = get_msgqueue msqid s"
  by (rule get_msgqueue_cong) simp

lemma get_msgqueue_Some:
  assumes "get_msgqueue msqid s = Some i"
  shows "i < 16" and "0 < msqid" and "mq_id (msgqueues s ! i) = msqid"
  using assms
  by (auto simp: get_msgqueue_def elim!: first_some_upt_SomeD split: if_splits)

lemma msg_wf_queue: "msg_wf s \<Longrightarrow> i < 16 \<Longrightarrow> ring_wf (msgqueues s ! i)"
  by (simp add: msg_wf_def)

lemma msg_wf_upd_queue:
  "msg_wf s \<Longrightarrow> i < 16 \<Longrightarrow> ring_wf (f (msgqueues s ! i)) \<Longrightarrow> msg_wf (upd_queue i f s)"
  using set_update_subset_insert [of "msgqueues s" i "f (msgqueues s ! i)"]
  by (auto simp: msg_wf_def)

lemma msg_wf_interrupts [simp]: "msg_wf (s\<lparr>interrupts_enabled := b\<rparr>) = msg_wf s"
  by (simp add: msg_wf_def)

lemma copy_msg_text:
  assumes "n \<le> 4096" and "length (mtext src) = 4096" and "length (mtext slot) = 4096"
  shows "mtype (copy_msg src n slot) = mtype src" and "length (mtext (copy_msg src n slot)) = 4096"
    and "take n (mtext (copy_msg src n slot)) = take n (mtext src)"
  using assms by (auto simp: copy_msg_def Let_def)

lemma tail_slot_text: "ring_wf q \<Longrightarrow> length (mtext (messages q ! mq_tail q)) = 4096"
  by (simp add: ring_wf_def)

lemma ring_contents_text: "ring_wf q \<Longrightarrow> k < mq_count q \<Longrightarrow> length (mtext (ring_contents q ! k)) = 4096"
  using ring_contents_in_messages [of q "ring_contents q ! k"] by (simp add: ring_wf_def)

lemma ring_search_first:
  assumes "ring_wf q" and "k < mq_count q"
    and "ty = 0 \<or> mtype (ring_contents q ! k) = ty"
    and "\<And>j. j < k \<Longrightarrow> ty \<noteq> 0 \<and> mtype (ring_contents q ! j) \<noteq> ty"
  shows "ring_search q ty (mq_head q) 0 = Some ((mq_head q + k) mod 16)"
proof -
  let ?f = "\<lambda>k. if ty = 0 \<or> mtype (ring_contents q ! k) = ty then Some k else None"
  have "first_some ?f [0..<mq_count q] \<noteq> None" using assms(2,3) by auto
  then obtain i where i: "first_some ?f [0..<mq_count q] = Some i" by blast
  then obtain j where j: "j < mq_count q" "?f j = Some i" "\<And>l. l < j \<Longrightarrow> ?f l = None"
    by (rule first_some_upt_SomeD) blast
  then have ij: "i = j" and hit: "ty = 0 \<or> mtype (ring_contents q ! j) = ty" by (auto split: if_splits)
  have "\<not> k < j" using j(3) [of k] assms(3) by auto
  moreover have "\<not> j < k" using assms(4) [of j] hit by auto
  ultimately have "i = k" using ij by simp
  then show ?thesis using i by (simp add: ring_search_head [OF assms(1)])
qed

lemma sys_msgrcv_match:
  assumes "msg_wf s" and "get_msgqueue msqid s = Some i"
    and "k < mq_count (msgqueues s ! i)"
    and "ty = 0 \<or> mtype (ring_contents (msgqueues s ! i) ! k) = ty"
    and "\<And>j. j < k \<Longrightarrow> ty \<noteq> 0 \<and> mtype (ring_contents (msgqueues s ! i) ! j) \<noteq> ty"
  shows "sys_msgrcv msqid msgsz ty msgflg s =
    (sint msgsz, Some (take (unat msgsz) (mtext (ring_contents (msgqueues s ! i) ! k))),
     upd_queue i (ring_remove ((mq_head (msgqueues s ! i) + k) mod 16)) s)"
proof -
  let ?q = "msgqueues s ! i"
  have wf: "ring_wf ?q" using assms(1,2) get_msgqueue_Some(1) by (blast intro: msg_wf_queue)
  from ring_search_first [OF wf assms(3-5)] have
    search: "ring_search ?q ty (mq_head ?q) 0 = Some ((mq_head ?q + k) mod 16)" .
  have tx: "length (mtext (messages ?q ! ((mq_head ?q + k) mod 16))) = 4096"
    using wf by (simp add: ring_wf_def)
  with assms(2,3) search show ?thesis
    by (simp add: sys_msgrcv_def Let_def ring_contents_nth)
qed

lemma get_msgqueue_same_ids:
  assumes "\<And>j. j < 16 \<Longrightarrow> mq_id (msgqueues s' ! j) = mq_id (msgqueues s ! j)"
  shows "get_msgqueue msqid s' = get_msgqueue msqid s"
  using assms by (auto simp: get_msgqueue_def intro!: first_some_cong)

lemma sys_msgsnd_append:
  assumes "msg_wf s" and "length (mtext msgp) = 4096" and "get_msgqueue msqid s = Some i"
    and "unat msgsz \<le> 4096" and "mq_count (msgqueues s ! i) < 16"
  obtains m s' where "sys_msgsnd msqid msgp msgsz msgflg s = (0, s')" and "msg_wf s'"
    and "ring_contents (msgqueues s' ! i) = ring_contents (msgqueues s ! i) @ [m]"
    and "mtype m = mtype msgp" and "take (unat msgsz) (mtext m) = take (unat msgsz) (mtext msgp)"
    and "\<And>j. j \<noteq> i \<Longrightarrow> msgqueues s' ! j = msgqueues s ! j"
    and "get_msgqueue msqid s' = Some i"
proof -
  let ?q = "msgqueues s ! i"
  define m where "m = copy_msg msgp (unat msgsz) (messages ?q ! mq_tail ?q)"
  define s' where "s' = (upd_queue i (ring_put m) (s\<lparr>interrupts_enabled := False\<rparr>))\<lparr>interrupts_enabled := True\<rparr>"
  have i: "i < 16" and wf: "ring_wf ?q" and len: "length (msgqueues s) = 16"
    using get_msgqueue_Some(1) [OF assms(3)] assms(1) by (auto intro: msg_wf_queue simp: msg_wf_def)
  note tx = copy_msg_text [OF assms(4,2) tail_slot_text [OF wf], folded m_def]
  have adm: "ring_admissible m ?q" using assms(5) tx by (simp add: ring_admissible_def)
  have qs: "msgqueues s' = (msgqueues s)[i := ring_put m ?q]" by (simp add: s'_def)
  have "sys_msgsnd msqid msgp msgsz msgflg s = (0, s')"
    using assms(3-5) by (simp add: sys_msgsnd_def Let_def s'_def m_def)
  moreover have "msg_wf s'"
    unfolding s'_def using assms(1) i mr.invar_put [OF wf adm] by (simp add: msg_wf_upd_queue)
  moreover have "ring_contents (msgqueues s' ! i) = ring_contents ?q @ [m]"
    using mr.contents_put [OF wf adm] i len by (simp add: qs)
  moreover have "get_msgqueue msqid s' = Some i"
  proof -
    have "mq_id (ring_put m q) = mq_id q" for q by (simp add: ring_put_def)
    then have "mq_id (msgqueues s' ! j) = mq_id (msgqueues s ! j)" if "j < 16" for j
      using that len i by (simp add: qs nth_list_update)
    from get_msgqueue_same_ids [OF this] assms(3) show ?thesis by simp
  qed
  ultimately show thesis using that tx qs by simp
qed

lemma sys_msgrcv_oldest:
  assumes "msg_wf s" and "get_msgqueue msqid s = Some i"
    and "ring_contents (msgqueues s ! i) = m # ms"
  obtains s' where "sys_msgrcv msqid msgsz 0 msgflg s = (sint msgsz, Some (take (unat msgsz) (mtext m)), s')"
    and "ring_contents (msgqueues s' ! i) = ms" and "msg_wf s'"
    and "\<And>j. j \<noteq> i \<Longrightarrow> msgqueues s' ! j = msgqueues s ! j"
proof -
  let ?q = "msgqueues s ! i"
  define s' where "s' = upd_queue i (ring_remove (mq_head ?q)) s"
  have i: "i < 16" and wf: "ring_wf ?q" and len: "length (msgqueues s) = 16"
    using get_msgqueue_Some(1) [OF assms(2)] assms(1) by (auto intro: msg_wf_queue simp: msg_wf_def)
  have ne: "ring_contents ?q \<noteq> []" by (simp add: assms(3))
  then have c: "0 < mq_count ?q" by (metis length_ring_contents length_greater_0_conv)
  have "sys_msgrcv msqid msgsz 0 msgflg s = (sint msgsz, Some (take (unat msgsz) (mtext m)), s')"
    using sys_msgrcv_match [OF assms(1,2) c, of 0] assms(3) wf by (simp add: ring_wf_def s'_def)
  moreover have "msg_wf s'"
    unfolding s'_def using assms(1) i mr.invar_drop_first [OF wf ne] by (rule msg_wf_upd_queue)
  moreover have "ring_contents (msgqueues s' ! i) = ms"
    using mr.contents_drop_first [OF wf ne] assms(3) i len by (simp add: s'_def)
  moreover have "\<And>j. j \<noteq> i \<Longrightarrow> msgqueues s' ! j = msgqueues s ! j" by (simp add: s'_def)
  ultimately show thesis using that by blast
qed

section \<open>Properties\<close>

text \<open>
  C37: on a live queue \<open>sys_msgsnd\<close> appends exactly one message, with the sender's type and the
  sender's first \<open>msgsz\<close> bytes, and touches no other queue; it fails with -1, changing no
  queue, exactly when the identifier is unknown, the message is longer than 4096 bytes or the
  queue already holds 16 messages.
\<close>

theorem sys_msgsnd_correct:
  assumes "msg_wf s" and "length (mtext msgp) = 4096"
  shows "case sys_msgsnd msqid msgp msgsz msgflg s of (r, s') \<Rightarrow>
    (case get_msgqueue msqid s of
       None \<Rightarrow> r = -1 \<and> msgqueues s' = msgqueues s
     | Some i \<Rightarrow>
         (if unat msgsz > 4096 \<or> length (ring_contents (msgqueues s ! i)) = 16
          then r = -1 \<and> msgqueues s' = msgqueues s
          else r = 0 \<and> msg_wf s' \<and>
               (\<exists>m. ring_contents (msgqueues s' ! i) = ring_contents (msgqueues s ! i) @ [m] \<and>
                    mtype m = mtype msgp \<and> take (unat msgsz) (mtext m) = take (unat msgsz) (mtext msgp)) \<and>
               (\<forall>j. j \<noteq> i \<longrightarrow> msgqueues s' ! j = msgqueues s ! j)))"
proof (cases "get_msgqueue msqid s")
  case None
  then show ?thesis by (simp add: sys_msgsnd_def Let_def)
next
  case (Some i)
  let ?q = "msgqueues s ! i"
  have le: "mq_count ?q \<le> 16"
    using get_msgqueue_Some(1) [OF Some] assms(1) msg_wf_queue by (fastforce simp: ring_wf_def)
  show ?thesis
  proof (cases "unat msgsz > 4096 \<or> mq_count ?q = 16")
    case True
    with Some show ?thesis by (auto simp: sys_msgsnd_def Let_def)
  next
    case False
    with le have "unat msgsz \<le> 4096" "mq_count ?q < 16" by simp_all
    from sys_msgsnd_append [OF assms Some this, of msgflg] Some False show ?thesis by fastforce
  qed
qed

definition sample_queue :: msg_queue where
  "sample_queue = \<lparr>mq_key = 7, mq_id = 1, messages = replicate 16 \<lparr>mtype = 0, mtext = replicate 4096 0\<rparr>,
     mq_head = 0, mq_tail = 0, mq_count = 0, pid_list = replicate 16 0, pid_count = 0\<rparr>"

definition sample_state :: msg_state where
  "sample_state = \<lparr>msgqueues = replicate 16 sample_queue, next_msgqueue_id = 2, interrupts_enabled = True\<rparr>"

definition sample_msg :: msg where
  "sample_msg = \<lparr>mtype = 5, mtext = 104 # 105 # replicate 4094 0\<rparr>"

lemma sample_facts:
  "msg_wf sample_state" "length (mtext sample_msg) = 4096" "get_msgqueue 1 sample_state = Some 0"
  "ring_contents (msgqueues sample_state ! 0) = []"
  by (simp_all add: msg_wf_def sample_state_def sample_queue_def ring_wf_def sample_msg_def
      get_msgqueue_def ring_contents_def upt_rec)

theorem sys_msgsnd_correct_witness:
  "case sys_msgsnd 1 sample_msg 2 0 sample_state of (r, s') \<Rightarrow>
     r = 0 \<and> (\<exists>m. ring_contents (msgqueues s' ! 0) = [m] \<and> mtype m = 5 \<and> take 2 (mtext m) = [104, 105])"
  using sys_msgsnd_correct [OF sample_facts(1,2), where msqid = 1 and msgsz = 2 and msgflg = 0]
  by (auto simp: sample_facts sample_msg_def split: prod.splits)

text \<open>
  C36: on a live queue, one that \<open>alloc_msgqueue\<close> has given an identifier, receiving with type 0 is first-in first-out: it returns
  the requested number of bytes of the oldest message, removes that message only and keeps the ring well formed; on an empty queue it
  fails with -1 and changes nothing. No system call makes a queue live, as shown below.
\<close>

theorem sys_msgrcv_fifo:
  assumes "msg_wf s" and "get_msgqueue msqid s = Some i"
  shows "case ring_contents (msgqueues s ! i) of
      [] \<Rightarrow> sys_msgrcv msqid msgsz 0 msgflg s = (-1, None, s)
    | m # ms \<Rightarrow> (\<exists>s'. sys_msgrcv msqid msgsz 0 msgflg s = (sint msgsz, Some (take (unat msgsz) (mtext m)), s') \<and>
                     ring_contents (msgqueues s' ! i) = ms \<and> msg_wf s' \<and>
                     (\<forall>j. j \<noteq> i \<longrightarrow> msgqueues s' ! j = msgqueues s ! j))"
proof (cases "ring_contents (msgqueues s ! i)")
  case Nil
  then have "mq_count (msgqueues s ! i) = 0" by (metis length_ring_contents list.size(3))
  with Nil assms(2) show ?thesis by (simp add: sys_msgrcv_def Let_def)
next
  case (Cons m ms)
  obtain s' where "sys_msgrcv msqid msgsz 0 msgflg s = (sint msgsz, Some (take (unat msgsz) (mtext m)), s')"
    "ring_contents (msgqueues s' ! i) = ms" "msg_wf s'" "\<And>j. j \<noteq> i \<Longrightarrow> msgqueues s' ! j = msgqueues s ! j"
    using sys_msgrcv_oldest [OF assms Cons, where msgsz = msgsz and msgflg = msgflg] that by blast
  with Cons show ?thesis by simp
qed

text \<open>A queue that \<open>alloc_msgqueue\<close> makes after \<open>msg_init\<close>.\<close>

definition live_state :: msg_state where
  "live_state = snd (alloc_msgqueue (msg_init sample_state))"

lemma live_facts: "msg_wf live_state" "get_msgqueue 1 live_state = Some 0" "ring_contents (msgqueues live_state ! 0) = []"
proof -
  define q0 where "q0 = sample_queue\<lparr>mq_id := 0, mq_key := 0, mq_head := 0, mq_tail := 0, mq_count := 0, pid_count := 0\<rparr>"
  let ?body = "\<lambda>i. upd_queue i (\<lambda>q. q\<lparr>mq_id := 0, mq_key := 0, mq_head := 0, mq_tail := 0, mq_count := 0, pid_count := 0\<rparr>)"
  let ?I = "\<lambda>k t. length (msgqueues t) = 16 \<and> (\<forall>j < 16. msgqueues t ! j = (if j < k then q0 else sample_queue))"
  have "?I 16 (for_upto 0 16 ?body sample_state)"
    by (rule for_upto_invariant [where I = ?I]) (auto simp: sample_state_def q0_def nth_list_update less_Suc_eq)
  then have i: "length (msgqueues (msg_init sample_state)) = 16" "\<forall>j < 16. msgqueues (msg_init sample_state) ! j = q0"
    "next_msgqueue_id (msg_init sample_state) = 1"
    by (simp_all add: msg_init_def)
  have q0: "mq_id q0 = 0" "ring_wf q0" "mq_count q0 = 0" by (simp_all add: q0_def sample_queue_def ring_wf_def)
  have "first_some (\<lambda>i. if mq_id (msgqueues (msg_init sample_state) ! i) = 0 then Some i else None) [0..<MSGQUEUE_MAX] = Some 0"
    using i q0 by (simp add: upt_rec MSGQUEUE_MAX_def)
  then have l: "msgqueues live_state = (msgqueues (msg_init sample_state))[0 := q0\<lparr>mq_id := 1\<rparr>]"
    using i by (simp add: live_state_def alloc_msgqueue_def)
  have "ring_wf (q0\<lparr>mq_id := 1\<rparr>)" using q0(2) by (simp add: ring_wf_def)
  then show "msg_wf live_state" using i q0 unfolding msg_wf_def l by (auto simp: set_conv_nth nth_list_update)
  show "get_msgqueue 1 live_state = Some 0" using i by (simp add: get_msgqueue_def l upt_rec MSGQUEUE_MAX_def)
  show "ring_contents (msgqueues live_state ! 0) = []" using i q0(3) by (simp add: l ring_contents_def)
qed

text \<open>Two messages are sent to that queue; the first one is received, and the second one is left.\<close>

theorem sys_msgrcv_fifo_witness:
  "\<exists>s1 s2 s3 m. sys_msgsnd 1 sample_msg 2 0 live_state = (0, s1) \<and> sys_msgsnd 1 (sample_msg\<lparr>mtype := 9\<rparr>) 2 0 s1 = (0, s2) \<and>
     sys_msgrcv 1 2 0 0 s2 = (2, Some [104, 105], s3) \<and> ring_contents (msgqueues s3 ! 0) = [m] \<and> mtype m = 9"
proof -
  have two: "unat (2 :: u32) \<le> 4096" by simp
  have len: "length (mtext sample_msg) = 4096" "length (mtext (sample_msg\<lparr>mtype := 9\<rparr>)) = 4096" by (simp_all add: sample_msg_def)
  have c0: "mq_count (msgqueues live_state ! 0) < 16" using live_facts(3) by (metis length_ring_contents list.size(3) zero_less_numeral)
  obtain m1 s1 where s1: "sys_msgsnd 1 sample_msg 2 0 live_state = (0, s1)" "msg_wf s1" "ring_contents (msgqueues s1 ! 0) = [m1]"
    "take (unat (2 :: u32)) (mtext m1) = take (unat (2 :: u32)) (mtext sample_msg)" "get_msgqueue 1 s1 = Some 0"
    by (rule sys_msgsnd_append [OF live_facts(1) len(1) live_facts(2) two c0, of 0]) (use live_facts(3) in auto)
  have c1: "mq_count (msgqueues s1 ! 0) < 16" using s1(3) length_ring_contents [of "msgqueues s1 ! 0"] by simp
  obtain m2 s2 where s2: "sys_msgsnd 1 (sample_msg\<lparr>mtype := 9\<rparr>) 2 0 s1 = (0, s2)" "msg_wf s2" "ring_contents (msgqueues s2 ! 0) = [m1, m2]"
    "mtype m2 = 9" "get_msgqueue 1 s2 = Some 0"
    by (rule sys_msgsnd_append [OF s1(2) len(2) s1(5) two c1, of 0]) (use s1(3) in auto)
  have "take 2 (mtext m1) = [104, 105]" using s1(4) by (simp add: sample_msg_def)
  with sys_msgrcv_fifo [OF s2(2,5), of 2 0] obtain s3 where "sys_msgrcv 1 2 0 0 s2 = (2, Some [104, 105], s3)" "ring_contents (msgqueues s3 ! 0) = [m2]"
    unfolding s2(3) by auto
  with s1(1) s2(1,4) show ?thesis by blast
qed

text \<open>
  receiving the first message of a given type that is not the oldest one does more than take
  that message: the \<open>k\<close> older messages in front of it vanish from the queue, \<open>k\<close> slots from beyond
  the tail take their place, and the ring invariant is broken.
\<close>

theorem sys_msgrcv_selective_drops:
  assumes "msg_wf s" and "get_msgqueue msqid s = Some i" and "ty \<noteq> 0"
    and "0 < k" and "k < length (ring_contents (msgqueues s ! i))"
    and "mtype (ring_contents (msgqueues s ! i) ! k) = ty"
    and "\<forall>j < k. mtype (ring_contents (msgqueues s ! i) ! j) \<noteq> ty"
  shows "\<exists>s'. sys_msgrcv msqid msgsz ty msgflg s =
      (sint msgsz, Some (take (unat msgsz) (mtext (ring_contents (msgqueues s ! i) ! k))), s') \<and>
    ring_contents (msgqueues s' ! i) = drop (Suc k) (ring_contents (msgqueues s ! i)) @
      map (\<lambda>j. messages (msgqueues s ! i) ! ((mq_tail (msgqueues s ! i) + j) mod 16)) [0..<k] \<and>
    \<not> ring_wf (msgqueues s' ! i)"
proof -
  let ?q = "msgqueues s ! i"
  let ?q' = "ring_remove ((mq_head ?q + k) mod 16) ?q"
  have i: "i < 16" and wf: "ring_wf ?q" and len: "length (msgqueues s) = 16"
    using get_msgqueue_Some(1) [OF assms(2)] assms(1) by (auto intro: msg_wf_queue simp: msg_wf_def)
  have k: "k < mq_count ?q" using assms(5) by simp
  have "\<not> ring_wf ?q'"
  proof
    assume "ring_wf ?q'"
    then have "mq_tail ?q = ((mq_head ?q + Suc k) mod 16 + (mq_count ?q - 1)) mod 16"
      using assms(4) k by (auto simp: ring_remove_def Let_def ring_wf_def mod_simps)
    moreover obtain c where "mq_count ?q = Suc c" using k by (cases "mq_count ?q") auto
    ultimately have "mq_tail ?q = (mq_head ?q + mq_count ?q + k) mod 16"
      by (simp add: mod_simps add.assoc add.left_commute add.commute)
    moreover have "mq_tail ?q = (mq_head ?q + mq_count ?q + 0) mod 16" using wf by (simp add: ring_wf_def)
    moreover have "k < 16" using k wf by (simp add: ring_wf_def)
    ultimately show False using ring_slot_neq [OF assms(4), of "mq_head ?q + mq_count ?q"] by simp
  qed
  moreover have "sys_msgrcv msqid msgsz ty msgflg s =
      (sint msgsz, Some (take (unat msgsz) (mtext (ring_contents ?q ! k))),
       upd_queue i (ring_remove ((mq_head ?q + k) mod 16)) s)"
    using sys_msgrcv_match [OF assms(1,2) k] assms(3,6,7) by blast
  ultimately show ?thesis
    using i len ring_contents_remove [OF wf k] by simp
qed

definition two_msgs :: msg_state where
  "two_msgs = sample_state\<lparr>msgqueues := (msgqueues sample_state)[0 := sample_queue
     \<lparr>messages := \<lparr>mtype = 1, mtext = replicate 4096 65\<rparr> # \<lparr>mtype = 2, mtext = replicate 4096 66\<rparr> #
                   replicate 14 \<lparr>mtype = 0, mtext = replicate 4096 0\<rparr>, mq_tail := 2, mq_count := 2\<rparr>]\<rparr>"

lemma two_msgs_facts:
  "msg_wf two_msgs" "get_msgqueue 1 two_msgs = Some 0"
  "ring_contents (msgqueues two_msgs ! 0) =
     [\<lparr>mtype = 1, mtext = replicate 4096 65\<rparr>, \<lparr>mtype = 2, mtext = replicate 4096 66\<rparr>]"
proof -
  have "replicate 16 sample_queue = sample_queue # replicate 15 sample_queue"
    using replicate_Suc [of 15 sample_queue] by simp
  then show "msg_wf two_msgs"
    by (simp add: two_msgs_def msg_wf_def sample_state_def ring_wf_def) (simp add: sample_queue_def)
qed (simp_all add: two_msgs_def sample_state_def sample_queue_def get_msgqueue_def ring_contents_def upt_rec)

theorem sys_msgrcv_selective_drops_witness:
  "\<exists>s'. sys_msgrcv 1 4 2 0 two_msgs = (4, Some (replicate 4 66), s') \<and>
        ring_contents (msgqueues s' ! 0) = [\<lparr>mtype = 0, mtext = replicate 4096 0\<rparr>]"
proof -
  have "\<exists>s'. sys_msgrcv 1 4 2 0 two_msgs =
      (sint (4 :: u32), Some (take (unat (4 :: u32)) (mtext (ring_contents (msgqueues two_msgs ! 0) ! 1))), s') \<and>
    ring_contents (msgqueues s' ! 0) = drop (Suc 1) (ring_contents (msgqueues two_msgs ! 0)) @
      map (\<lambda>j. messages (msgqueues two_msgs ! 0) ! ((mq_tail (msgqueues two_msgs ! 0) + j) mod 16)) [0..<1] \<and>
    \<not> ring_wf (msgqueues s' ! 0)"
    by (rule sys_msgrcv_selective_drops [OF two_msgs_facts(1,2)]) (simp_all add: two_msgs_facts(3))
  then show ?thesis
    unfolding two_msgs_facts(3)
    by (auto simp: two_msgs_def sample_state_def sample_queue_def upt_rec)
qed

text \<open>
  a message sent to an empty live queue and received with the same size comes back byte for
  byte, and the queue is empty again.
\<close>

theorem msg_send_receive_roundtrip:
  assumes "msg_wf s" and "length (mtext msgp) = 4096" and "get_msgqueue msqid s = Some i"
    and "ring_contents (msgqueues s ! i) = []" and "unat msgsz \<le> 4096"
  shows "case sys_msgsnd msqid msgp msgsz flg s of (r, s') \<Rightarrow>
     r = 0 \<and> (\<exists>s''. sys_msgrcv msqid msgsz 0 flg' s' = (sint msgsz, Some (take (unat msgsz) (mtext msgp)), s'') \<and>
                   ring_contents (msgqueues s'' ! i) = [])"
proof -
  have "mq_count (msgqueues s ! i) = 0" using assms(4) by (metis length_ring_contents list.size(3))
  then have room: "mq_count (msgqueues s ! i) < 16" by simp
  obtain m s' where snd: "sys_msgsnd msqid msgp msgsz flg s = (0, s')" "msg_wf s'"
    and c: "ring_contents (msgqueues s' ! i) = m # []"
    and tx: "take (unat msgsz) (mtext m) = take (unat msgsz) (mtext msgp)"
    and get: "get_msgqueue msqid s' = Some i"
    by (rule sys_msgsnd_append [OF assms(1-3,5) room, of flg]) (simp add: assms(4))
  from sys_msgrcv_oldest [OF snd(2) get c, of msgsz flg'] show ?thesis
    by (simp add: snd(1) tx) blast
qed

theorem msg_send_receive_roundtrip_witness:
  "case sys_msgsnd 1 sample_msg 2 0 sample_state of (r, s') \<Rightarrow>
     r = 0 \<and> (\<exists>s''. sys_msgrcv 1 2 0 0 s' = (2, Some [104, 105], s'') \<and> ring_contents (msgqueues s'' ! 0) = [])"
proof -
  have "unat (2 :: u32) \<le> 4096" by simp
  from msg_send_receive_roundtrip [OF sample_facts(1-4) this, of 0 0] show ?thesis
    by (simp add: sample_msg_def)
qed

text \<open>
  every failing \<open>sys_msgsnd\<close> returns with interrupts disabled, and every successful one
  with interrupts enabled, whatever the interrupt flag was before the call.
\<close>

theorem sys_msgsnd_interrupt_flag:
  "interrupts_enabled (snd (sys_msgsnd msqid msgp msgsz msgflg s)) \<longleftrightarrow>
   fst (sys_msgsnd msqid msgp msgsz msgflg s) = 0"
  by (simp add: sys_msgsnd_def Let_def split: option.split)

text \<open>The states the system calls can reach after \<open>msg_init\<close>.\<close>

inductive msg_reach :: "msg_state \<Rightarrow> bool" where
  boot: "length (msgqueues s) = 16 \<Longrightarrow> msg_reach (msg_init s)"
| msgget: "msg_reach s \<Longrightarrow> sys_msgget k flg s = (r, s') \<Longrightarrow> msg_reach s'"
| msgsnd: "msg_reach s \<Longrightarrow> sys_msgsnd q m n flg s = (r, s') \<Longrightarrow> msg_reach s'"
| msgrcv: "msg_reach s \<Longrightarrow> sys_msgrcv q n ty flg s = (r, out, s') \<Longrightarrow> msg_reach s'"
| msgctl: "msg_reach s \<Longrightarrow> sys_msgctl q cmd buf s = (r, out, s') \<Longrightarrow> msg_reach s'"

definition no_live_queue :: "msg_state \<Rightarrow> bool" where
  "no_live_queue s \<longleftrightarrow> length (msgqueues s) = 16 \<and> (\<forall>i < 16. mq_id (msgqueues s ! i) = 0)"

lemma no_live_queue_get: "no_live_queue s \<Longrightarrow> get_msgqueue msqid s = None"
  by (auto simp: no_live_queue_def get_msgqueue_def)

lemma find_scan_all_free:
  "(\<forall>i \<in> set is. mq_id (qs ! i) = 0) \<Longrightarrow>
   find_scan qs k is emp = Inr (if emp = None \<and> is \<noteq> [] then Some (hd is) else emp)"
  by (induction "is" arbitrary: emp) auto

lemma no_live_queue_msgget:
  assumes "no_live_queue s"
  shows "fst (sys_msgget k flg s) = (if flg AND IPC_CREAT \<noteq> 0 then 0 else -1)"
    and "no_live_queue (snd (sys_msgget k flg s))"
proof -
  have "find_scan (msgqueues s) k [0..<16] None = Inr (Some 0)"
    using assms by (subst find_scan_all_free) (auto simp: no_live_queue_def)
  then show "fst (sys_msgget k flg s) = (if flg AND IPC_CREAT \<noteq> 0 then 0 else -1)"
    and "no_live_queue (snd (sys_msgget k flg s))"
    using assms by (auto simp: sys_msgget_def find_msgqueue_def no_live_queue_def nth_list_update)
qed

lemma no_live_queue_init: "length (msgqueues s) = 16 \<Longrightarrow> no_live_queue (msg_init s)"
proof -
  assume len: "length (msgqueues s) = 16"
  let ?body = "\<lambda>i. upd_queue i (\<lambda>q. q\<lparr>mq_id := 0, mq_key := 0, mq_head := 0, mq_tail := 0, mq_count := 0, pid_count := 0\<rparr>)"
  have "length (msgqueues (for_upto 0 16 ?body s)) = 16 \<and>
      (\<forall>j < 16. mq_id (msgqueues (for_upto 0 16 ?body s) ! j) = 0)"
    by (rule for_upto_invariant [where I = "\<lambda>k t. length (msgqueues t) = 16 \<and> (\<forall>j < k. mq_id (msgqueues t ! j) = 0)"])
       (use len in \<open>auto simp: nth_list_update less_Suc_eq\<close>)
  then show "no_live_queue (msg_init s)" by (simp add: no_live_queue_def msg_init_def)
qed

lemma msg_reach_no_live_queue: "msg_reach s \<Longrightarrow> no_live_queue s"
proof (induction rule: msg_reach.induct)
  case (boot s)
  then show ?case by (rule no_live_queue_init)
next
  case (msgget s k flg r s')
  then show ?case using no_live_queue_msgget(2) [of s k flg] by simp
next
  case (msgsnd s q m n flg r s')
  then show ?case by (auto simp: sys_msgsnd_def Let_def no_live_queue_get no_live_queue_def)
next
  case (msgrcv s q n ty flg r out s')
  then show ?case by (auto simp: sys_msgrcv_def no_live_queue_get)
next
  case (msgctl s q cmd buf r out s')
  then show ?case by (auto simp: sys_msgctl_def no_live_queue_get)
qed

text \<open>
  C38: no message queue can ever be used. In every state the system calls reach after
  \<open>msg_init\<close>, \<open>sys_msgget\<close> with \<open>IPC_CREAT\<close> returns 0, which is no queue identifier
  (\<open>find_msgqueue\<close> fills an empty slot but never gives it an identifier, and \<open>alloc_msgqueue\<close> is
  not called), and every send, receive and control call fails with -1.
\<close>

theorem msg_queues_never_usable:
  assumes "msg_reach s"
  shows "fst (sys_msgget k flg s) = (if flg AND IPC_CREAT \<noteq> 0 then 0 else -1) \<and>
    fst (sys_msgsnd q m n flg s) = -1 \<and> fst (sys_msgrcv q n ty flg s) = -1 \<and>
    fst (sys_msgctl q cmd buf s) = -1"
proof -
  have none: "no_live_queue s" using assms by (rule msg_reach_no_live_queue)
  then show ?thesis
    by (simp add: no_live_queue_msgget(1) sys_msgsnd_def sys_msgrcv_def sys_msgctl_def
        no_live_queue_get Let_def)
qed

theorem msg_queues_never_usable_witness:
  "fst (sys_msgget 7 IPC_CREAT (msg_init sample_state)) = 0 \<and>
   fst (sys_msgsnd 0 sample_msg 2 0 (snd (sys_msgget 7 IPC_CREAT (msg_init sample_state)))) = -1"
proof -
  have r: "msg_reach (msg_init sample_state)"
    by (rule msg_reach.boot) (simp add: sample_state_def)
  obtain v s' where g: "sys_msgget 7 IPC_CREAT (msg_init sample_state) = (v, s')" by fastforce
  have r': "msg_reach s'" using r g by (rule msg_reach.msgget)
  have "fst (sys_msgget 7 IPC_CREAT (msg_init sample_state)) = (if IPC_CREAT AND IPC_CREAT \<noteq> 0 then 0 else -1)"
    using msg_queues_never_usable [OF r] by blast
  moreover have "fst (sys_msgsnd 0 sample_msg 2 0 s') = -1" using msg_queues_never_usable [OF r'] by blast
  ultimately show ?thesis using g by (simp add: IPC_CREAT_def)
qed

end
