(* ===== verification/PortIo.thy ===== *)
theory PortIo
  imports Prelude
begin

text \<open>
  Port I/O, \<^verbatim>\<open>lib/io.h\<close>. The devices behind the ports are a parameter of the model: a function
  that gives the value a port reads as, from everything that was read and written before. The state
  keeps that history, so a statement about what a driver does to a device is a statement about the
  sequence of port accesses. \<open>io_state\<close> is the root of the kernel's state: the other theories
  extend the record with their static variables.
\<close>

section \<open>Ports\<close>

datatype io_event = OutB u16 u8 | OutW u16 u16 | OutL u16 u32 | InB u16 | InW u16 | InL u16

type_synonym device = "io_event list \<Rightarrow> u16 \<Rightarrow> u32"

record io_state =
  device :: device
  io_log :: "io_event list"

definition io_emit :: "io_event \<Rightarrow> 'a io_state_scheme \<Rightarrow> 'a io_state_scheme" where
  "io_emit e s = s\<lparr>io_log := io_log s @ [e]\<rparr>"

definition outb :: "u16 \<Rightarrow> u8 \<Rightarrow> 'a io_state_scheme \<Rightarrow> 'a io_state_scheme" where
  "outb port val = io_emit (OutB port val)"

definition outw :: "u16 \<Rightarrow> u16 \<Rightarrow> 'a io_state_scheme \<Rightarrow> 'a io_state_scheme" where
  "outw port val = io_emit (OutW port val)"

definition outl :: "u16 \<Rightarrow> u32 \<Rightarrow> 'a io_state_scheme \<Rightarrow> 'a io_state_scheme" where
  "outl port val = io_emit (OutL port val)"

definition inb :: "u16 \<Rightarrow> 'a io_state_scheme \<Rightarrow> u8 \<times> 'a io_state_scheme" where
  "inb port s = (ucast (device s (io_log s) port), io_emit (InB port) s)"

definition inw :: "u16 \<Rightarrow> 'a io_state_scheme \<Rightarrow> u16 \<times> 'a io_state_scheme" where
  "inw port s = (ucast (device s (io_log s) port), io_emit (InW port) s)"

definition inl :: "u16 \<Rightarrow> 'a io_state_scheme \<Rightarrow> u32 \<times> 'a io_state_scheme" where
  "inl port s = (device s (io_log s) port, io_emit (InL port) s)"

definition io_wait :: "'a io_state_scheme \<Rightarrow> 'a io_state_scheme" where
  "io_wait = outb 0x80 0"

text \<open>The busy waits of the drivers: read a status port until a condition holds. A wait that never
  ends is \<open>None\<close>.\<close>

partial_function (option) poll_until :: "u16 \<Rightarrow> (u8 \<Rightarrow> bool) \<Rightarrow> 'a io_state_scheme \<Rightarrow> 'a io_state_scheme option" where
  "poll_until port ready s =
     (case inb port s of (v, s') \<Rightarrow> if ready v then Some s' else poll_until port ready s')"

section \<open>Reading the history\<close>

definition out_byte :: "u16 \<Rightarrow> io_event \<Rightarrow> u8 option" where
  "out_byte p e = (case e of OutB q v \<Rightarrow> if q = p then Some v else None | _ \<Rightarrow> None)"

definition outs :: "u16 \<Rightarrow> io_event list \<Rightarrow> u8 list" where
  "outs p log = List.map_filter (out_byte p) log"

text \<open>A status port that reads as ready after finitely many reads, from every history.\<close>

definition answers :: "device \<Rightarrow> u16 \<Rightarrow> (u8 \<Rightarrow> bool) \<Rightarrow> bool" where
  "answers d p ready \<longleftrightarrow> (\<forall>log. \<exists>n. ready (ucast (d (log @ replicate n (InB p)) p)))"

text \<open>The same, only right after the command \<open>c\<close> was written to the port.\<close>

definition answers_to :: "u8 \<Rightarrow> device \<Rightarrow> u16 \<Rightarrow> (u8 \<Rightarrow> bool) \<Rightarrow> bool" where
  "answers_to c d p ready \<longleftrightarrow> (\<forall>log. \<exists>n. ready (ucast (d ((log @ [OutB p c]) @ replicate n (InB p)) p)))"

lemma outs_simps [simp]:
  "outs p [] = []"
  "outs p (OutB q v # es) = (if q = p then v # outs p es else outs p es)"
  "outs p (OutW q w # es) = outs p es"
  "outs p (OutL q x # es) = outs p es"
  "outs p (InB q # es) = outs p es"
  "outs p (InW q # es) = outs p es"
  "outs p (InL q # es) = outs p es"
  by (simp_all add: outs_def out_byte_def map_filter_simps)

lemma outs_append [simp]: "outs p (xs @ ys) = outs p xs @ outs p ys"
  by (simp add: outs_def List.map_filter_def)

lemma outs_replicate_InB [simp]: "outs p (replicate n (InB q)) = []"
  by (induction n) simp_all

lemma device_io_emit [simp]: "device (io_emit e s) = device s"
  by (simp add: io_emit_def)

lemma io_log_io_emit [simp]: "io_log (io_emit e s) = io_log s @ [e]"
  by (simp add: io_emit_def)

lemmas port_defs = outb_def outw_def outl_def inb_def inw_def inl_def io_wait_def

lemma outb_log: "io_log (outb p v s) = io_log s @ [OutB p v]" "device (outb p v s) = device s"
  by (simp_all add: outb_def)

section \<open>Busy waiting\<close>

text \<open>If the port ever reads as ready, the wait ends at the first such read.\<close>

lemma poll_until_returns:
  assumes "ready (ucast (device s (io_log s @ replicate n (InB p)) p))"
  shows "\<exists>k. poll_until p ready s = Some (s\<lparr>io_log := io_log s @ replicate (Suc k) (InB p)\<rparr>) \<and>
             ready (ucast (device s (io_log s @ replicate k (InB p)) p))"
  using assms
proof (induction n arbitrary: s)
  case 0
  then have "poll_until p ready s = Some (s\<lparr>io_log := io_log s @ replicate (Suc 0) (InB p)\<rparr>)"
    by (simp add: poll_until.simps [of p ready s] inb_def io_emit_def)
  moreover have "ready (ucast (device s (io_log s @ replicate 0 (InB p)) p))" using 0 by simp
  ultimately show ?case by blast
next
  case (Suc n)
  show ?case
  proof (cases "ready (ucast (device s (io_log s) p))")
    case True
    then have "poll_until p ready s = Some (s\<lparr>io_log := io_log s @ replicate (Suc 0) (InB p)\<rparr>)"
      by (simp add: poll_until.simps [of p ready s] inb_def io_emit_def)
    with True show ?thesis by (metis append_Nil2 replicate_0)
  next
    case False
    let ?s' = "io_emit (InB p) s"
    have "ready (ucast (device ?s' (io_log ?s' @ replicate n (InB p)) p))" using Suc.prems by simp
    from Suc.IH [OF this] obtain k
      where k: "poll_until p ready ?s' = Some (?s'\<lparr>io_log := io_log ?s' @ replicate (Suc k) (InB p)\<rparr>)"
        "ready (ucast (device s (io_log s @ InB p # replicate k (InB p)) p))" by auto
    have "poll_until p ready s = Some (s\<lparr>io_log := io_log s @ replicate (Suc (Suc k)) (InB p)\<rparr>)"
      using False k(1) by (simp add: poll_until.simps [of p ready s] inb_def) (simp add: io_emit_def)
    then show ?thesis using k(2) by (metis replicate_Suc)
  qed
qed

lemma poll_until_answers:
  assumes "answers (device s) p ready"
  obtains k where "poll_until p ready s = Some (s\<lparr>io_log := io_log s @ replicate (Suc k) (InB p)\<rparr>)"
    and "ready (ucast (device s (io_log s @ replicate k (InB p)) p))"
  using assms poll_until_returns [of ready s _ p] that unfolding answers_def by meson

text \<open>If the port never reads as ready, the wait does not end.\<close>

lemma poll_until_Some_ready:
  assumes "poll_until p ready s = Some s'"
  shows "\<exists>n. ready (ucast (device s (io_log s @ replicate n (InB p)) p))"
  using _ assms
proof (rule poll_until.raw_induct)
  fix poll p ready s s'
  assume IH: "\<And>p ready s s'. poll p ready s = Some s' \<Longrightarrow>
      \<exists>n. ready (ucast (device s (io_log s @ replicate n (InB p)) p))"
    and step: "(case inb p s of (v, t) \<Rightarrow> if ready v then Some t else poll p ready t) = Some s'"
  show "\<exists>n. ready (ucast (device s (io_log s @ replicate n (InB p)) p))"
  proof (cases "ready (ucast (device s (io_log s) p))")
    case True
    then show ?thesis by (metis append_Nil2 replicate_0)
  next
    case False
    with step have "poll p ready (io_emit (InB p) s) = Some s'" by (simp add: inb_def)
    from IH [OF this] obtain n where "ready (ucast (device s (io_log s @ InB p # replicate n (InB p)) p))"
      by auto
    then show ?thesis by (metis replicate_Suc)
  qed
qed

lemma poll_until_hangs:
  "(\<And>n. \<not> ready (ucast (device s (io_log s @ replicate n (InB p)) p))) \<Longrightarrow> poll_until p ready s = None"
  using poll_until_Some_ready [of p ready s] by (cases "poll_until p ready s") blast+

end
