(* ===== verification/Serial.thy ===== *)
theory Serial
  imports PortIo
begin

text \<open>
  The 16550 serial port, \<^verbatim>\<open>kernel/drivers/serial.c\<close>: initialisation of COM1 and transmission by
  polling. The bytes \<open>data\<close> points to are a list.
\<close>

definition SERIAL_TRANSMIT_HOLDING_REG :: u16 where "SERIAL_TRANSMIT_HOLDING_REG = 0x00"
definition SERIAL_DIVISOR_LATCH_LSB :: u16 where "SERIAL_DIVISOR_LATCH_LSB = 0x00"
definition SERIAL_INTERRUPT_ENABLE_REG :: u16 where "SERIAL_INTERRUPT_ENABLE_REG = 0x01"
definition SERIAL_DIVISOR_LATCH_MSB :: u16 where "SERIAL_DIVISOR_LATCH_MSB = 0x01"
definition SERIAL_FIFO_CONTROL_REG :: u16 where "SERIAL_FIFO_CONTROL_REG = 0x02"
definition SERIAL_LINE_CONTROL_REG :: u16 where "SERIAL_LINE_CONTROL_REG = 0x03"
definition SERIAL_MODEM_CONTROL_REG :: u16 where "SERIAL_MODEM_CONTROL_REG = 0x04"
definition SERIAL_LINE_STATUS_REG :: u16 where "SERIAL_LINE_STATUS_REG = 0x05"
definition SERIAL_LCR_DLAB :: u8 where "SERIAL_LCR_DLAB = 0x80"
definition SERIAL_LCR_WLEN8 :: u8 where "SERIAL_LCR_WLEN8 = 0x03"
definition SERIAL_LCR_STOP1 :: u8 where "SERIAL_LCR_STOP1 = 0x00"
definition SERIAL_LCR_PARITY_NONE :: u8 where "SERIAL_LCR_PARITY_NONE = 0x00"
definition SERIAL_LSR_THRE :: u8 where "SERIAL_LSR_THRE = 0x20"
definition COM1 :: u16 where "COM1 = 0x3F8"

lemmas serial_regs = SERIAL_TRANSMIT_HOLDING_REG_def SERIAL_DIVISOR_LATCH_LSB_def
  SERIAL_INTERRUPT_ENABLE_REG_def SERIAL_DIVISOR_LATCH_MSB_def SERIAL_FIFO_CONTROL_REG_def
  SERIAL_LINE_CONTROL_REG_def SERIAL_MODEM_CONTROL_REG_def SERIAL_LINE_STATUS_REG_def
  SERIAL_LCR_DLAB_def SERIAL_LCR_WLEN8_def SERIAL_LCR_STOP1_def SERIAL_LCR_PARITY_NONE_def COM1_def

definition hal_serial_init :: "'a io_state_scheme \<Rightarrow> 'a io_state_scheme" where
  "hal_serial_init s0 =
     (let port = COM1;
          baud_divisor = (115200 div 9600 :: u16);
          s1 = outb (port + SERIAL_INTERRUPT_ENABLE_REG) 0x00 s0;
          s2 = outb (port + SERIAL_LINE_CONTROL_REG) SERIAL_LCR_DLAB s1;
          s3 = outb (port + SERIAL_DIVISOR_LATCH_LSB) (ucast (baud_divisor AND 0xFF)) s2;
          s4 = outb (port + SERIAL_DIVISOR_LATCH_MSB) (ucast (drop_bit 8 baud_divisor AND 0xFF)) s3;
          s5 = outb (port + SERIAL_LINE_CONTROL_REG)
                 (SERIAL_LCR_WLEN8 OR SERIAL_LCR_STOP1 OR SERIAL_LCR_PARITY_NONE) s4;
          s6 = outb (port + SERIAL_FIFO_CONTROL_REG) 0xC7 s5;
          s7 = outb (port + SERIAL_MODEM_CONTROL_REG) 0x0B s6
      in outb (port + SERIAL_INTERRUPT_ENABLE_REG) 0x01 s7)"

text \<open>The wait of \<open>serial_write_byte\<close> reads the line status until the test of
  \<open>serial_is_transmit_empty\<close> succeeds.\<close>

definition serial_is_transmit_empty :: "u8 \<Rightarrow> bool" where
  "serial_is_transmit_empty lsr \<longleftrightarrow> lsr AND SERIAL_LSR_THRE \<noteq> 0"

definition serial_write_byte :: "u16 \<Rightarrow> u8 \<Rightarrow> 'a io_state_scheme \<Rightarrow> 'a io_state_scheme option" where
  "serial_write_byte port c s =
     (case poll_until (port + SERIAL_LINE_STATUS_REG) serial_is_transmit_empty s of
        None \<Rightarrow> None
      | Some s' \<Rightarrow> Some (outb (port + SERIAL_TRANSMIT_HOLDING_REG) c s'))"

definition hal_serial_write :: "u8 list \<Rightarrow> nat \<Rightarrow> 'a io_state_scheme \<Rightarrow> 'a io_state_scheme option" where
  "hal_serial_write data len = for_opt 0 len (\<lambda>i. serial_write_byte COM1 (data ! i))"

section \<open>Transmission\<close>

text \<open>Every byte put into the transmit register of COM1 by the accesses \<open>new\<close> follows a read of the
  line status that found the register empty.\<close>

definition paced :: "device \<Rightarrow> io_event list \<Rightarrow> io_event list \<Rightarrow> bool" where
  "paced d old new \<longleftrightarrow>
     (\<forall>k < length new. \<forall>c. new ! k = OutB 0x3F8 c \<longrightarrow>
        0 < k \<and> new ! (k - 1) = InB 0x3FD \<and>
        serial_is_transmit_empty (ucast (d (old @ take (k - 1) new) 0x3FD)))"

abbreviation thr_answers :: "device \<Rightarrow> bool" where
  "thr_answers d \<equiv> answers d 0x3FD serial_is_transmit_empty"

lemma serial_write_byte_returns:
  assumes "thr_answers (device s)"
  obtains k where
    "serial_write_byte COM1 c s = Some (s\<lparr>io_log := io_log s @ replicate (Suc k) (InB 0x3FD) @ [OutB 0x3F8 c]\<rparr>)"
    and "serial_is_transmit_empty (ucast (device s (io_log s @ replicate k (InB 0x3FD)) 0x3FD))"
proof -
  obtain k where "poll_until 0x3FD serial_is_transmit_empty s =
      Some (s\<lparr>io_log := io_log s @ replicate (Suc k) (InB 0x3FD)\<rparr>)"
    and "serial_is_transmit_empty (ucast (device s (io_log s @ replicate k (InB 0x3FD)) 0x3FD))"
    using assms by (rule poll_until_answers)
  then show thesis
    using that [of k] by (simp add: serial_write_byte_def serial_regs outb_def io_emit_def)
qed

lemma paced_snoc:
  assumes "paced d old new"
    and "serial_is_transmit_empty (ucast (d ((old @ new) @ replicate k (InB 0x3FD)) 0x3FD))"
  shows "paced d old (new @ replicate (Suc k) (InB 0x3FD) @ [OutB 0x3F8 c])"
  unfolding paced_def
proof (intro allI impI)
  let ?all = "new @ replicate (Suc k) (InB 0x3FD) @ [OutB 0x3F8 c]"
  fix i c' assume i: "i < length ?all" and hit: "?all ! i = OutB 0x3F8 c'"
  show "0 < i \<and> ?all ! (i - 1) = InB 0x3FD \<and>
      serial_is_transmit_empty (ucast (d (old @ take (i - 1) ?all) 0x3FD))"
  proof (cases "i < length new")
    case True
    with hit assms(1) show ?thesis by (simp add: paced_def nth_append)
  next
    case False
    have "i = length new + Suc k"
    proof (rule ccontr)
      assume "i \<noteq> length new + Suc k"
      with i False have "i - length new < Suc k" by simp
      then have "?all ! i = InB 0x3FD" using False by (simp add: nth_append del: replicate_Suc)
      with hit show False by simp
    qed
    with assms(2) show ?thesis by (simp add: nth_append del: replicate_Suc)
  qed
qed

lemma hal_serial_write_returns:
  assumes "answers (device s) 0x3FD serial_is_transmit_empty" and "len \<le> length data"
  shows "\<exists>new. hal_serial_write data len s = Some (s\<lparr>io_log := io_log s @ new\<rparr>) \<and>
           outs 0x3F8 new = take len data \<and> paced (device s) (io_log s) new"
proof -
  let ?I = "\<lambda>i t. \<exists>new. t = s\<lparr>io_log := io_log s @ new\<rparr> \<and> outs 0x3F8 new = take i data \<and>
    paced (device s) (io_log s) new"
  have "\<exists>t. hal_serial_write data len s = Some t \<and> ?I len t"
    unfolding hal_serial_write_def
  proof (rule for_opt_invariant)
    show "?I 0 s" by (rule exI [of _ "[]"]) (simp add: paced_def)
  next
    fix i t assume "i < len" and "?I i t"
    then obtain new where t: "t = s\<lparr>io_log := io_log s @ new\<rparr>" and sent: "outs 0x3F8 new = take i data"
      and pc: "paced (device s) (io_log s) new" by blast
    have "thr_answers (device t)" using assms(1) t by simp
    then obtain k where "serial_write_byte COM1 (data ! i) t =
        Some (t\<lparr>io_log := io_log t @ replicate (Suc k) (InB 0x3FD) @ [OutB 0x3F8 (data ! i)]\<rparr>)"
      and rdy: "serial_is_transmit_empty (ucast (device t (io_log t @ replicate k (InB 0x3FD)) 0x3FD))"
      by (rule serial_write_byte_returns)
    then have "serial_write_byte COM1 (data ! i) t = Some (s\<lparr>io_log := io_log s @
        (new @ replicate (Suc k) (InB 0x3FD) @ [OutB 0x3F8 (data ! i)])\<rparr>)" using t by simp
    moreover have "outs 0x3F8 (new @ replicate (Suc k) (InB 0x3FD) @ [OutB 0x3F8 (data ! i)]) = take (Suc i) data"
      using sent \<open>i < len\<close> assms(2) by (simp add: take_Suc_conv_app_nth del: replicate_Suc)
    moreover have "paced (device s) (io_log s) (new @ replicate (Suc k) (InB 0x3FD) @ [OutB 0x3F8 (data ! i)])"
      using pc rdy t by (intro paced_snoc) simp_all
    ultimately show "\<exists>t'. serial_write_byte COM1 (data ! i) t = Some t' \<and> ?I (Suc i) t'" by blast
  qed simp
  then show ?thesis by blast
qed

text \<open>
  \<open>hal_serial_write\<close> returns when the line status reports an empty transmit register
  again and again, sends exactly the first \<open>len\<close> bytes in order, sends each only after the UART
  reported room for it, and changes nothing but the history of port accesses.
\<close>

theorem hal_serial_write_correct:
  assumes "answers (device s) 0x3FD serial_is_transmit_empty" and "len \<le> length data"
  shows "\<exists>new. hal_serial_write data len s = Some (s\<lparr>io_log := io_log s @ new\<rparr>) \<and>
           outs 0x3F8 new = take len data \<and> paced (device s) (io_log s) new"
  using assms by (rule hal_serial_write_returns)

text \<open>A UART that needs one poll between two bytes: ready when the last access was a status read.\<close>

definition slow_uart :: device where
  "slow_uart log p = (if log \<noteq> [] \<and> last log = InB 0x3FD then 0x60 else 0)"

lemma slow_uart_answers: "thr_answers slow_uart"
  unfolding answers_def
proof
  fix log
  have "serial_is_transmit_empty (ucast (slow_uart (log @ replicate 1 (InB 0x3FD)) 0x3FD))"
    by (simp add: slow_uart_def serial_is_transmit_empty_def SERIAL_LSR_THRE_def)
  then show "\<exists>n. serial_is_transmit_empty (ucast (slow_uart (log @ replicate n (InB 0x3FD)) 0x3FD))" ..
qed

theorem hal_serial_write_correct_witness:
  "\<exists>new. hal_serial_write [104, 105] 2 \<lparr>device = slow_uart, io_log = []\<rparr> =
           Some \<lparr>device = slow_uart, io_log = new\<rparr> \<and> outs 0x3F8 new = [104, 105]"
  using hal_serial_write_correct [of "\<lparr>device = slow_uart, io_log = []\<rparr>" 2 "[104, 105]"] slow_uart_answers
  by auto

text \<open>
  \<open>hal_serial_write\<close> has no time-out: when the line status never reports an empty
  transmit register, a call with at least one byte does not return.
\<close>

theorem hal_serial_write_hangs:
  assumes "\<And>log. \<not> serial_is_transmit_empty (ucast (device s log 0x3FD))" and "0 < len"
  shows "hal_serial_write data len s = None"
proof -
  have "serial_write_byte COM1 (data ! 0) s = None"
    using assms(1) by (simp add: serial_write_byte_def serial_regs poll_until_hangs)
  then have first: "for_opt 0 (Suc 0) (\<lambda>i. serial_write_byte COM1 (data ! i)) s = None"
    by (simp add: for_opt_def)
  have "for_opt 0 (Suc n) (\<lambda>i. serial_write_byte COM1 (data ! i)) s = None" for n
    by (induction n) (simp_all add: first for_opt_Suc)
  with assms(2) show ?thesis unfolding hal_serial_write_def by (metis Suc_pred')
qed

theorem hal_serial_write_hangs_witness:
  "hal_serial_write [104] 1 \<lparr>device = (\<lambda>_ _. 0), io_log = []\<rparr> = None"
  using hal_serial_write_hangs [of "\<lparr>device = (\<lambda>_ _. 0), io_log = []\<rparr>" 1 "[104]"]
  by (simp add: serial_is_transmit_empty_def)

end
