(* ===== verification/Pic.thy ===== *)
theory Pic
  imports PortIo
begin

text \<open>
  The two 8259A interrupt controllers, \<^verbatim>\<open>kernel/drivers/pic.c\<close>.
\<close>

definition PIC1_COMMAND :: u16 where "PIC1_COMMAND = 0x20"
definition PIC1_DATA :: u16 where "PIC1_DATA = 0x21"
definition PIC2_COMMAND :: u16 where "PIC2_COMMAND = 0xA0"
definition PIC2_DATA :: u16 where "PIC2_DATA = 0xA1"
definition PIC_ICW1_ICW4 :: u8 where "PIC_ICW1_ICW4 = 0x01"
definition PIC_ICW1_INIT :: u8 where "PIC_ICW1_INIT = 0x10"
definition PIC_ICW4_8086 :: u8 where "PIC_ICW4_8086 = 0x01"
definition PIC_EOI :: u8 where "PIC_EOI = 0x20"

lemmas pic_regs = PIC1_COMMAND_def PIC1_DATA_def PIC2_COMMAND_def PIC2_DATA_def PIC_ICW1_ICW4_def
  PIC_ICW1_INIT_def PIC_ICW4_8086_def PIC_EOI_def

definition pic_init :: "'a io_state_scheme \<Rightarrow> 'a io_state_scheme" where
  "pic_init s =
     (outb PIC2_DATA 0xFF \<circ> outb PIC1_DATA 0xFF \<circ>
      io_wait \<circ> outb PIC2_DATA PIC_ICW4_8086 \<circ> io_wait \<circ> outb PIC1_DATA PIC_ICW4_8086 \<circ>
      io_wait \<circ> outb PIC2_DATA 0x02 \<circ> io_wait \<circ> outb PIC1_DATA 0x04 \<circ>
      io_wait \<circ> outb PIC2_DATA 0x28 \<circ> io_wait \<circ> outb PIC1_DATA 0x20 \<circ>
      io_wait \<circ> outb PIC2_COMMAND (PIC_ICW1_INIT OR PIC_ICW1_ICW4) \<circ>
      io_wait \<circ> outb PIC1_COMMAND (PIC_ICW1_INIT OR PIC_ICW1_ICW4)) s"

definition pic_send_eoi :: "u8 \<Rightarrow> 'a io_state_scheme \<Rightarrow> 'a io_state_scheme" where
  "pic_send_eoi irq s =
     outb PIC1_COMMAND PIC_EOI (if irq \<ge> 8 then outb PIC2_COMMAND PIC_EOI s else s)"

text \<open>The port and the bit number that both mask functions derive from the interrupt number.\<close>

definition irq_line :: "u8 \<Rightarrow> u16 \<times> u8" where
  "irq_line irq = (if irq < 8 then (PIC1_DATA, irq) else (PIC2_DATA, irq - 8))"

definition pic_enable_irq :: "u8 \<Rightarrow> 'a io_state_scheme \<Rightarrow> 'a io_state_scheme" where
  "pic_enable_irq irq s =
     (let (port, irq') = irq_line irq;
          (v, s1) = inb port s;
          val = ucast ((ucast v :: u32) AND NOT (push_bit (unat irq') 1))
      in outb port val s1)"

definition pic_disable_irq :: "u8 \<Rightarrow> 'a io_state_scheme \<Rightarrow> 'a io_state_scheme" where
  "pic_disable_irq irq s =
     (let (port, irq') = irq_line irq;
          (v, s1) = inb port s;
          val = ucast ((ucast v :: u32) OR push_bit (unat irq') 1)
      in outb port val s1)"

section \<open>The interrupt mask\<close>

text \<open>
  What the 8259A makes of the accesses to its data port \<open>p\<close> and its command port \<open>p - 1\<close>: a command with bit 4 set starts the
  initialisation, which clears the mask and takes the next three bytes at the data port as command words; every other byte at the data
  port is the new mask. The state is the number of command words still to come and the mask, if it is known.
\<close>

definition pic_step :: "u16 \<Rightarrow> io_event \<Rightarrow> nat \<times> u8 option \<Rightarrow> nat \<times> u8 option" where
  "pic_step p e st =
     (case e of
        OutB q v \<Rightarrow>
          if q = p - 1 \<and> bit v 4 then (3, Some 0)
          else if q = p then (if fst st = 0 then (0, Some v) else (fst st - 1, snd st))
          else st
      | _ \<Rightarrow> st)"

definition pic_view :: "u16 \<Rightarrow> io_event list \<Rightarrow> nat \<times> u8 option" where
  "pic_view p log = fold (pic_step p) log (0, None)"

text \<open>A controller whose data port reads as its mask.\<close>

definition mask_port :: "device \<Rightarrow> u16 \<Rightarrow> bool" where
  "mask_port d p \<longleftrightarrow> (\<forall>log v. snd (pic_view p log) = Some v \<longrightarrow> d log p = ucast v)"

lemma pic_view_append: "pic_view p (log @ l) = fold (pic_step p) l (pic_view p log)"
  by (simp add: pic_view_def)

lemma pic_step_simps [simp]:
  "pic_step p (InB q) st = st" "fst st = 0 \<Longrightarrow> pic_step p (OutB p v) st = (0, Some v)"
  by (simp_all add: pic_step_def)

lemma pic_step_other: "outs p l = [] \<Longrightarrow> outs (p - 1) l = [] \<Longrightarrow> fold (pic_step p) l st = st"
proof (induction l arbitrary: st)
  case (Cons e l)
  then show ?case by (cases e) (auto simp: pic_step_def split: if_splits)
qed simp

text \<open>The mask register of a controller, as a read of its data port would give it now.\<close>

definition imr :: "u16 \<Rightarrow> 'a io_state_scheme \<Rightarrow> u8" where
  "imr p s = ucast (device s (io_log s) p)"

lemma imr_view: "mask_port (device s) p \<Longrightarrow> snd (pic_view p (io_log s)) = Some v \<Longrightarrow> imr p s = v"
  by (simp add: imr_def mask_port_def)

lemma imr_outb:
  assumes "mask_port (device s) p" and "fst (pic_view p (io_log s)) = 0"
  shows "imr p (outb p v s) = v"
  by (rule imr_view) (use assms in \<open>simp_all add: outb_log pic_view_append\<close>)

lemma irq_line_facts:
  assumes "irq < 16"
  shows "snd (irq_line irq) < 8" and "unat (snd (irq_line irq)) = unat irq mod 8"
proof -
  have lt: "unat irq < 16" using assms by (simp add: word_less_nat_alt)
  have sub: "\<not> irq < 8 \<Longrightarrow> unat (irq - 8) = unat irq - 8"
    by (subst unat_sub) (auto simp: word_le_nat_alt word_less_nat_alt)
  show "unat (snd (irq_line irq)) = unat irq mod 8"
    using lt by (auto simp: irq_line_def sub word_less_nat_alt mod_if)
  then show "snd (irq_line irq) < 8" by (simp add: word_less_nat_alt)
qed

lemma narrow_clear_bit: "bit (ucast ((ucast v :: u32) AND NOT (2 ^ n)) :: u8) k \<longleftrightarrow> bit (v :: u8) k \<and> k \<noteq> n"
  by (auto simp: bit_simps dest: bit_imp_le_length)

lemma narrow_set_bit: "n < 8 \<Longrightarrow> bit (ucast ((ucast v :: u32) OR 2 ^ n) :: u8) k \<longleftrightarrow> bit (v :: u8) k \<or> k = n"
  by (auto simp: bit_simps dest: bit_imp_le_length)

lemma pic_enable_irq_bits:
  assumes "irq < 16" and "mask_port (device s) (fst (irq_line irq))" and "fst (pic_view (fst (irq_line irq)) (io_log s)) = 0"
  shows "bit (imr (fst (irq_line irq)) (pic_enable_irq irq s)) k \<longleftrightarrow>
           bit (imr (fst (irq_line irq)) s) k \<and> k \<noteq> unat irq mod 8"
  using assms by (simp add: pic_enable_irq_def inb_def split_beta imr_outb pic_view_append narrow_clear_bit irq_line_facts)
    (simp add: imr_def)

lemma pic_disable_irq_bits:
  assumes "irq < 16" and "mask_port (device s) (fst (irq_line irq))" and "fst (pic_view (fst (irq_line irq)) (io_log s)) = 0"
  shows "bit (imr (fst (irq_line irq)) (pic_disable_irq irq s)) k \<longleftrightarrow>
           bit (imr (fst (irq_line irq)) s) k \<or> k = unat irq mod 8"
  using assms by (simp add: pic_disable_irq_def inb_def split_beta imr_outb pic_view_append narrow_set_bit irq_line_facts)
    (simp add: imr_def)

lemma mask_ops_other_port:
  assumes "p \<noteq> fst (irq_line irq)"
  shows "outs p (io_log (pic_enable_irq irq s)) = outs p (io_log s)"
    and "outs p (io_log (pic_disable_irq irq s)) = outs p (io_log s)"
  using assms by (auto simp: pic_enable_irq_def pic_disable_irq_def inb_def split_beta outb_log)

text \<open>
  on initialised controllers whose data ports read as their masks, \<open>pic_enable_irq\<close> clears and
  \<open>pic_disable_irq\<close> sets exactly the bit of the given line (0 to 15) in the mask of the controller
  that line belongs to, and neither writes to the other controller's mask.
\<close>

theorem pic_mask_correct:
  assumes "irq < 16" and "mask_port (device s) (if irq < 8 then PIC1_DATA else PIC2_DATA)"
    and "fst (pic_view (if irq < 8 then PIC1_DATA else PIC2_DATA) (io_log s)) = 0"
  shows "let p = (if irq < 8 then PIC1_DATA else PIC2_DATA); q = (if irq < 8 then PIC2_DATA else PIC1_DATA) in
     (\<forall>k. (bit (imr p (pic_enable_irq irq s)) k \<longleftrightarrow> bit (imr p s) k \<and> k \<noteq> unat irq mod 8) \<and>
          (bit (imr p (pic_disable_irq irq s)) k \<longleftrightarrow> bit (imr p s) k \<or> k = unat irq mod 8)) \<and>
     outs q (io_log (pic_enable_irq irq s)) = outs q (io_log s) \<and>
     outs q (io_log (pic_disable_irq irq s)) = outs q (io_log s)"
proof -
  have p: "(if irq < 8 then PIC1_DATA else PIC2_DATA) = fst (irq_line irq)" by (simp add: irq_line_def)
  have "(if irq < 8 then PIC2_DATA else PIC1_DATA) \<noteq> fst (irq_line irq)"
    by (simp add: irq_line_def pic_regs)
  with assms p show ?thesis
    by (simp only: Let_def p pic_enable_irq_bits pic_disable_irq_bits mask_ops_other_port simp_thms)
qed

text \<open>A controller pair that shows its masks.\<close>

definition pic_device :: device where
  "pic_device log p = (case snd (pic_view p log) of None \<Rightarrow> 0 | Some v \<Rightarrow> ucast v)"

lemma pic_device_mask [simp]: "mask_port pic_device p"
  by (simp add: mask_port_def pic_device_def)

theorem pic_mask_correct_witness:
  "\<forall>k. bit (imr 0xA1 (pic_enable_irq 10 \<lparr>device = pic_device, io_log = [OutB 0xA1 0xFF]\<rparr>)) k \<longleftrightarrow>
        bit (0xFF :: u8) k \<and> k \<noteq> 2"
  using pic_mask_correct [of 10 "\<lparr>device = pic_device, io_log = [OutB 0xA1 0xFF]\<rparr>"]
  by (simp add: pic_regs Let_def pic_view_def) (simp add: imr_def pic_device_def pic_view_def)

text \<open>What both controllers are told by \<open>pic_init\<close>, and the mask it leaves.\<close>

lemma pic_init_outs:
  "outs 0x20 (io_log (pic_init s)) = outs 0x20 (io_log s) @ [0x11]"
  "outs 0x21 (io_log (pic_init s)) = outs 0x21 (io_log s) @ [0x20, 0x04, 0x01, 0xFF]"
  "outs 0xA0 (io_log (pic_init s)) = outs 0xA0 (io_log s) @ [0x11]"
  "outs 0xA1 (io_log (pic_init s)) = outs 0xA1 (io_log s) @ [0x28, 0x02, 0x01, 0xFF]"
  by (simp_all add: pic_init_def io_wait_def outb_log pic_regs)

lemma device_pic_ops [simp]:
  "device (pic_init s) = device s" "device (pic_enable_irq irq s) = device s"
  by (simp_all add: pic_init_def io_wait_def outb_log pic_enable_irq_def inb_def split_beta)

end
