(* ===== verification/Pit.thy ===== *)
theory Pit
  imports PortIo
begin

text \<open>
  The 8254 interval timer, \<^verbatim>\<open>kernel/drivers/pit.c\<close>. A callback is a code address; what it does
  is the argument \<open>call\<close> of \<open>pit_handler\<close>. The divide error of \<open>pit_set_frequency 0\<close> is
  \<open>None\<close>.
\<close>

definition PIT_CHANNEL0_DATA :: u16 where "PIT_CHANNEL0_DATA = 0x40"
definition PIT_COMMAND_PORT :: u16 where "PIT_COMMAND_PORT = 0x43"

record pit_state = io_state +
  pit_tick_count :: u64
  pit_timer_callback :: "u32 option"

definition pit_divisor :: "u32 \<Rightarrow> u32" where
  "pit_divisor frequency =
     (let divisor = 1193180 div frequency;
          divisor = (if divisor < 2 then 2 else divisor)
      in if divisor > 65535 then 65535 else divisor)"

definition pit_set_frequency :: "u32 \<Rightarrow> 'a io_state_scheme \<Rightarrow> 'a io_state_scheme option" where
  "pit_set_frequency frequency s =
     (if frequency = 0 then None
      else let divisor = pit_divisor frequency;
               s1 = outb PIT_COMMAND_PORT 0x36 s;
               s2 = outb PIT_CHANNEL0_DATA (ucast (divisor AND 0xFF)) s1
           in Some (outb PIT_CHANNEL0_DATA (ucast (drop_bit 8 divisor AND 0xFF)) s2))"

definition pit_init :: "'a io_state_scheme \<Rightarrow> 'a io_state_scheme option" where
  "pit_init = pit_set_frequency 100"

definition pit_get_ticks :: "'a pit_state_scheme \<Rightarrow> u64" where
  "pit_get_ticks s = pit_tick_count s"

definition pit_set_callback :: "u32 option \<Rightarrow> 'a pit_state_scheme \<Rightarrow> 'a pit_state_scheme" where
  "pit_set_callback callback s = s\<lparr>pit_timer_callback := callback\<rparr>"

definition pit_handler :: "(u32 \<Rightarrow> 'a pit_state_scheme \<Rightarrow> 'a pit_state_scheme) \<Rightarrow> 'a pit_state_scheme \<Rightarrow> 'a pit_state_scheme" where
  "pit_handler call s =
     (let s1 = s\<lparr>pit_tick_count := pit_tick_count s + 1\<rparr>;
          s2 = (case pit_timer_callback s1 of None \<Rightarrow> s1 | Some f \<Rightarrow> call f s1)
      in outb 0x20 0x20 s2)"

section \<open>Programming the divisor\<close>

lemma pit_divisor_range:
  "unat (pit_divisor f) = min 65535 (max 2 (1193180 div unat f))"
proof -
  have "unat (1193180 div f) = 1193180 div unat f" by (simp add: unat_div)
  then show ?thesis
    by (simp add: pit_divisor_def Let_def word_less_nat_alt min_def max_def not_less)
qed

text \<open>
  \<open>pit_set_frequency\<close> faults on frequency 0 and otherwise sends the command byte
  \<open>0x36\<close> followed by the low and the high byte of the divisor 1193180 / frequency, clamped to the
  range 2 to 65535: the 16-bit count the timer receives is that clamped quotient.
\<close>

theorem pit_set_frequency_correct:
  "pit_set_frequency f s =
     (if f = 0 then None
      else Some (s\<lparr>io_log := io_log s @ [OutB 0x43 0x36, OutB 0x40 (ucast (pit_divisor f)),
                                        OutB 0x40 (ucast (drop_bit 8 (pit_divisor f)))]\<rparr>)) \<and>
   unat (ucast (pit_divisor f) :: u8) + 256 * unat (ucast (drop_bit 8 (pit_divisor f)) :: u8) =
     min 65535 (max 2 (1193180 div unat f))"
proof -
  have "unat (pit_divisor f) < 65536" by (simp add: pit_divisor_range)
  then have "unat (ucast (pit_divisor f) :: u8) + 256 * unat (ucast (drop_bit 8 (pit_divisor f)) :: u8) =
      min 65535 (max 2 (1193180 div unat f))"
    by (simp only: two_bytes_unat mod_less pit_divisor_range)
  moreover have "pit_set_frequency f s =
     (if f = 0 then None
      else Some (s\<lparr>io_log := io_log s @ [OutB 0x43 0x36, OutB 0x40 (ucast (pit_divisor f)),
                                        OutB 0x40 (ucast (drop_bit 8 (pit_divisor f)))]\<rparr>))"
    unfolding pit_set_frequency_def Let_def ucast_and_FF outb_def io_emit_def
        PIT_CHANNEL0_DATA_def PIT_COMMAND_PORT_def by auto
  ultimately show ?thesis by (rule conjI [rotated])
qed

end
