(* ===== verification/Dma.thy ===== *)
theory Dma
  imports Pit
begin

text \<open>
  The 8237 DMA controller, \<^verbatim>\<open>kernel/drivers/dma.c\<close>.
\<close>

definition DMA1_STATUS :: u16 where "DMA1_STATUS = 0x08"
definition DMA1_MASK :: u16 where "DMA1_MASK = 0x0A"
definition DMA1_MODE :: u16 where "DMA1_MODE = 0x0B"
definition DMA1_CLEAR_BYTE_FLIP :: u16 where "DMA1_CLEAR_BYTE_FLIP = 0x0C"
definition DMA1_MASTER_CLEAR :: u16 where "DMA1_MASTER_CLEAR = 0x0D"
definition DMA1_WRITE_MASK :: u16 where "DMA1_WRITE_MASK = 0x0F"

lemmas dma_regs = DMA1_STATUS_def DMA1_MASK_def DMA1_MODE_def DMA1_CLEAR_BYTE_FLIP_def
  DMA1_MASTER_CLEAR_def DMA1_WRITE_MASK_def

record dma_state = pit_state +
  dma_initialized :: bool

definition dma_init :: "'a dma_state_scheme \<Rightarrow> 'a dma_state_scheme" where
  "dma_init s =
     (let s1 = io_wait (outb DMA1_MASTER_CLEAR 0 s);
          s2 = io_wait (outb DMA1_CLEAR_BYTE_FLIP 0 s1);
          s3 = io_wait (outb DMA1_WRITE_MASK 0x0F s2)
      in s3\<lparr>dma_initialized := True\<rparr>)"

definition dma_ensure_init :: "'a dma_state_scheme \<Rightarrow> 'a dma_state_scheme" where
  "dma_ensure_init s = (if \<not> dma_initialized s then dma_init s else s)"

definition dma_alloc_channel :: "'a dma_state_scheme \<Rightarrow> int \<times> 'a dma_state_scheme" where
  "dma_alloc_channel s = (0, dma_ensure_init s)"

definition dma_free_channel :: "int \<Rightarrow> 'a dma_state_scheme \<Rightarrow> 'a dma_state_scheme" where
  "dma_free_channel channel s =
     (if channel < 0 \<or> channel > 3 then s
      else let (mbit, s1) = inb DMA1_MASK s
           in outb DMA1_MASK (mbit OR push_bit (nat channel) 1) s1)"

text \<open>Address port, count port and mask bit of a channel.\<close>

definition dma_ports :: "int \<Rightarrow> (u16 \<times> u16 \<times> u8) option" where
  "dma_ports channel =
     (if channel = 0 then Some (0x00, 0x01, 0x01)
      else if channel = 1 then Some (0x02, 0x03, 0x02)
      else if channel = 2 then Some (0x04, 0x05, 0x04)
      else if channel = 3 then Some (0x06, 0x07, 0x08)
      else None)"

definition dma_program ::
  "int \<Rightarrow> u16 \<times> u16 \<times> u8 \<Rightarrow> u32 \<Rightarrow> u32 \<Rightarrow> u16 \<Rightarrow> 'a io_state_scheme \<Rightarrow> 'a io_state_scheme" where
  "dma_program channel = (\<lambda>(addr_port, count_port, mbit) src_addr len mode s.
     (let (old_mask, s0) = inb DMA1_MASK s;
          s1 = io_wait (outb DMA1_MASK (old_mask OR mbit) s0);
          s2 = io_wait (outb DMA1_CLEAR_BYTE_FLIP 0 s1);
          s3 = io_wait (outb DMA1_MODE (ucast (mode OR of_int channel)) s2);
          s4 = io_wait (outb addr_port (ucast (src_addr AND 0xFF)) s3);
          s5 = io_wait (outb addr_port (ucast (drop_bit 8 src_addr AND 0xFF)) s4);
          count = (ucast (len - 1) :: u16);
          s6 = io_wait (outb count_port (ucast (count AND 0xFF)) s5);
          s7 = io_wait (outb count_port (ucast (drop_bit 8 count AND 0xFF)) s6);
          s8 = io_wait (outb DMA1_MODE (ucast (mode OR of_int channel)) s7)
      in io_wait (outb DMA1_MASK (old_mask AND NOT mbit) s8)))"

definition dma_start_transfer ::
  "int \<Rightarrow> u32 \<Rightarrow> u32 \<Rightarrow> u32 \<Rightarrow> u16 \<Rightarrow> 'a dma_state_scheme \<Rightarrow> int \<times> 'a dma_state_scheme" where
  "dma_start_transfer channel src dst len mode s0 =
     (let s = dma_ensure_init s0
      in if channel < 0 \<or> channel > 3 then (-1, s)
         else if len = 0 \<or> len > 65536 then (-1, s)
         else case dma_ports channel of
                None \<Rightarrow> (-1, s)
              | Some ports \<Rightarrow> (0, dma_program channel ports src len mode s))"

definition dma_is_complete :: "int \<Rightarrow> 'a dma_state_scheme \<Rightarrow> int \<times> 'a dma_state_scheme" where
  "dma_is_complete channel s =
     (if \<not> dma_initialized s then (-1, s)
      else if channel < 0 \<or> channel > 3 then (-1, s)
      else let (status, s1) = inb DMA1_STATUS s
           in (if (ucast status :: u32) AND push_bit (nat channel + 4) 1 \<noteq> 0 then 1 else 0, s1))"

definition dma_get_status :: "'a dma_state_scheme \<Rightarrow> u8 \<times> 'a dma_state_scheme" where
  "dma_get_status s = inb DMA1_STATUS (dma_ensure_init s)"

section \<open>What a transfer programs\<close>

lemma dma_init_other_ports:
  "p \<notin> {0x0D, 0x0C, 0x0F, 0x80} \<Longrightarrow> outs p (io_log (dma_ensure_init s)) = outs p (io_log s)"
  by (auto simp: dma_ensure_init_def dma_init_def Let_def io_wait_def outb_log dma_regs)

lemma ucast_count_bytes:
  "(ucast ((ucast (n :: u32) :: u16) AND 0xFF) :: u8) = ucast n"
  "(ucast (drop_bit 8 (ucast (n :: u32) :: u16) AND 0xFF) :: u8) = ucast (drop_bit 8 n)"
  unfolding mask_literals by (auto intro!: bit_word_eqI simp: bit_simps)

text \<open>The bytes sent to a port as a little-endian 16-bit number.\<close>

definition le16 :: "u8 list \<Rightarrow> nat" where
  "le16 bs = unat (bs ! 0) + 256 * unat (bs ! 1)"

lemma le16_two_bytes: "le16 [ucast (d :: u32), ucast (drop_bit 8 d)] = unat d mod 65536"
  by (simp only: le16_def nth_Cons_0 One_nat_def nth_Cons_Suc two_bytes_unat)

lemma dma_program_outs:
  assumes "addr_port \<noteq> count_port" and "{addr_port, count_port} \<inter> {0x0A, 0x0B, 0x0C, 0x80} = {}"
  shows "outs addr_port (io_log (dma_program channel (addr_port, count_port, mbit) src len mode s)) =
           outs addr_port (io_log s) @ [ucast src, ucast (drop_bit 8 src)]"
    and "outs count_port (io_log (dma_program channel (addr_port, count_port, mbit) src len mode s)) =
           outs count_port (io_log s) @ [ucast (len - 1), ucast (drop_bit 8 (len - 1))]"
  using assms
  unfolding dma_program_def Let_def io_wait_def outb_log inb_def dma_regs ucast_count_bytes ucast_and_FF
  by (auto simp: outb_log)

lemma dma_ports_facts:
  assumes "0 \<le> channel" and "channel \<le> 3"
  obtains mbit where "dma_ports channel = Some (of_int (2 * channel), of_int (2 * channel + 1), mbit)"
proof -
  have "channel = 0 \<or> channel = 1 \<or> channel = 2 \<or> channel = 3" using assms by arith
  then show thesis using that by (auto simp: dma_ports_def)
qed

text \<open>
  \<open>dma_start_transfer\<close> rejects a channel outside 0 to 3 and a length outside 1 to 65536
  without programming a channel; otherwise it sends the address register of the channel the low 16
  bits of the source address and the count register the length minus one, low byte first. The upper
  half of the address is not sent anywhere.
\<close>

theorem dma_start_transfer_correct:
  "let (r, s') = dma_start_transfer channel src dst len mode s;
       addr = of_int (2 * channel); count = of_int (2 * channel + 1)
   in if 0 \<le> channel \<and> channel \<le> 3 \<and> 1 \<le> unat len \<and> unat len \<le> 65536
      then r = 0 \<and>
        (\<exists>as cs. outs addr (io_log s') = outs addr (io_log s) @ as \<and> length as = 2 \<and> le16 as = unat src mod 65536 \<and>
                 outs count (io_log s') = outs count (io_log s) @ cs \<and> length cs = 2 \<and> le16 cs = unat len - 1)
      else r = -1 \<and> s' = dma_ensure_init s"
proof (cases "0 \<le> channel \<and> channel \<le> 3 \<and> 1 \<le> unat len \<and> unat len \<le> 65536")
  case True
  obtain mbit where ports: "dma_ports channel = Some (of_int (2 * channel), of_int (2 * channel + 1), mbit)"
    using True dma_ports_facts by blast
  have "unat (len - 1) = unat len - 1" using True by (simp add: unat_sub word_le_nat_alt)
  moreover have "unat len - 1 < 65536" using True by linarith
  ultimately have len: "unat (len - 1) mod 65536 = unat len - 1" by (simp only: mod_less)
  have run: "dma_start_transfer channel src dst len mode s =
      (0, dma_program channel (of_int (2 * channel), of_int (2 * channel + 1), mbit) src len mode (dma_ensure_init s))"
    using True ports by (auto simp: dma_start_transfer_def Let_def word_less_nat_alt)
  have chan: "channel = 0 \<or> channel = 1 \<or> channel = 2 \<or> channel = 3" using True by arith
  have ne: "(of_int (2 * channel) :: u16) \<noteq> of_int (2 * channel + 1)"
    "{of_int (2 * channel), of_int (2 * channel + 1) :: u16} \<inter> {0x0A, 0x0B, 0x0C, 0x80} = {}"
    "(of_int (2 * channel) :: u16) \<notin> {0x0D, 0x0C, 0x0F, 0x80}"
    "(of_int (2 * channel + 1) :: u16) \<notin> {0x0D, 0x0C, 0x0F, 0x80}"
    using chan by auto
  show ?thesis
    unfolding run Let_def prod.case dma_program_outs [OF ne(1,2)] dma_init_other_ports [OF ne(3)]
      dma_init_other_ports [OF ne(4)]
    using True le16_two_bytes [of src] le16_two_bytes [of "len - 1"] len by fastforce
next
  case False
  then have "channel < 0 \<or> channel > 3 \<or> len = 0 \<or> len > 65536"
    by (auto simp: word_less_nat_alt unat_eq_0 not_le)
  then have "dma_start_transfer channel src dst len mode s = (-1, dma_ensure_init s)"
    by (auto simp: dma_start_transfer_def Let_def)
  with False show ?thesis by auto
qed

end
