(* ===== verification/Keyboard.thy ===== *)
theory Keyboard
  imports Dma "HOL-Library.Monad_Syntax"
begin

text \<open>
  The keyboard, \<^verbatim>\<open>kernel/drivers/keyboard.c\<close>, with the keyboard interrupt handler of
  \<^verbatim>\<open>kernel/core/idt.c\<close> that feeds it. The busy waits for a key end when an interrupt sets the
  flag: \<open>hal_keyboard_getchar\<close> takes the scan codes the interrupts deliver while it waits, and
  \<open>None\<close> is the call still waiting when they are used up.
\<close>

definition KB_DATA_PORT :: u16 where "KB_DATA_PORT = 0x60"
definition KB_STATUS_PORT :: u16 where "KB_STATUS_PORT = 0x64"
definition KB_CMD_PORT :: u16 where "KB_CMD_PORT = 0x64"
definition KB_STAT_OBF :: u8 where "KB_STAT_OBF = 0x01"
definition KB_STAT_IBF :: u8 where "KB_STAT_IBF = 0x02"
definition KB_CMD_ENABLE :: u8 where "KB_CMD_ENABLE = 0xF4"

lemmas kb_regs = KB_DATA_PORT_def KB_STATUS_PORT_def KB_CMD_PORT_def KB_CMD_ENABLE_def

record kbd_state = dma_state +
  shift_pressed :: u8
  caps_lock_on :: u8
  keyboard_scan_code :: u8
  keyboard_key_available_flag :: u8
  keyboard_interrupts :: u32

section \<open>Initialisation\<close>

definition kb_input_empty :: "u8 \<Rightarrow> bool" where "kb_input_empty v \<longleftrightarrow> v AND KB_STAT_IBF = 0"
definition kb_output_full :: "u8 \<Rightarrow> bool" where "kb_output_full v \<longleftrightarrow> v AND KB_STAT_OBF \<noteq> 0"

text \<open>The configuration byte as rewritten by the initialisation.\<close>

definition kb_config :: "u8 \<Rightarrow> u8" where
  "kb_config status = (((status OR 0x01) AND NOT 0x02) AND NOT 0x10) OR 0x40"

definition hal_keyboard_init :: "'a io_state_scheme \<Rightarrow> 'a io_state_scheme option" where
  "hal_keyboard_init s0 = do {
     s1 \<leftarrow> poll_until KB_STATUS_PORT kb_input_empty s0;
     s2 \<leftarrow> poll_until KB_STATUS_PORT kb_input_empty (outb KB_CMD_PORT 0xAE s1);
     s3 \<leftarrow> poll_until KB_STATUS_PORT kb_output_full (outb KB_CMD_PORT 0x20 s2);
     let (status, s4) = inb KB_DATA_PORT s3;
     s5 \<leftarrow> poll_until KB_STATUS_PORT kb_input_empty s4;
     s6 \<leftarrow> poll_until KB_STATUS_PORT kb_input_empty (outb KB_CMD_PORT 0x60 s5);
     s7 \<leftarrow> poll_until KB_STATUS_PORT kb_input_empty (outb KB_DATA_PORT (kb_config status) s6);
     Some (outb KB_DATA_PORT KB_CMD_ENABLE s7)
   }"

section \<open>Characters\<close>

text \<open>The \<open>switch\<close> of \<open>hal_keyboard_getchar\<close>: keys that return at once, and the keys with their
  plain and shifted character.\<close>

definition return_keys :: "(u8 \<times> u8) list" where
  "return_keys = [(0x0E, 8), (0x0F, 9), (0x1C, 10), (0x39, 32)]"

definition char_keys :: "(u8 \<times> char \<times> char) list" where
  "char_keys =
    [(0x02, CHR ''1'', CHR ''!''), (0x03, CHR ''2'', CHR ''@''), (0x04, CHR ''3'', CHR ''#''),
     (0x05, CHR ''4'', CHR ''$''), (0x06, CHR ''5'', CHR ''%''), (0x07, CHR ''6'', CHR ''^''),
     (0x08, CHR ''7'', CHR ''&''), (0x09, CHR ''8'', CHR ''*''), (0x0A, CHR ''9'', CHR ''(''),
     (0x0B, CHR ''0'', CHR '')''), (0x0C, CHR ''-'', CHR ''_''), (0x0D, CHR ''='', CHR ''+''),
     (0x10, CHR ''q'', CHR ''q''), (0x11, CHR ''w'', CHR ''w''), (0x12, CHR ''e'', CHR ''e''),
     (0x13, CHR ''r'', CHR ''r''), (0x14, CHR ''t'', CHR ''t''), (0x15, CHR ''y'', CHR ''y''),
     (0x16, CHR ''u'', CHR ''u''), (0x17, CHR ''i'', CHR ''i''), (0x18, CHR ''o'', CHR ''o''),
     (0x19, CHR ''p'', CHR ''p''), (0x1A, CHR ''['', CHR ''{''), (0x1B, CHR '']'', CHR ''}''),
     (0x1E, CHR ''a'', CHR ''a''), (0x1F, CHR ''s'', CHR ''s''), (0x20, CHR ''d'', CHR ''d''),
     (0x21, CHR ''f'', CHR ''f''), (0x22, CHR ''g'', CHR ''g''), (0x23, CHR ''h'', CHR ''h''),
     (0x24, CHR ''j'', CHR ''j''), (0x25, CHR ''k'', CHR ''k''), (0x26, CHR ''l'', CHR ''l''),
     (0x27, CHR '';'', CHR '':''), (0x28, CHR 0x27, CHR 0x22), (0x29, CHR 0x60, CHR ''~''),
     (0x2B, CHR 0x5C, CHR ''|''),
     (0x2C, CHR ''z'', CHR ''z''), (0x2D, CHR ''x'', CHR ''x''), (0x2E, CHR ''c'', CHR ''c''),
     (0x2F, CHR ''v'', CHR ''v''), (0x30, CHR ''b'', CHR ''b''), (0x31, CHR ''n'', CHR ''n''),
     (0x32, CHR ''m'', CHR ''m''), (0x33, CHR '','', CHR ''<''), (0x34, CHR ''.'', CHR ''>''),
     (0x35, CHR ''/'', CHR ''?'')]"

definition key_char :: "u8 \<Rightarrow> u8 \<Rightarrow> u8 \<Rightarrow> u8 option" where
  "key_char scancode shift caps =
     (case map_of return_keys scancode of
        Some c \<Rightarrow> Some c
      | None \<Rightarrow>
          (case map_of char_keys scancode of
             None \<Rightarrow> None
           | Some (plain, shifted) \<Rightarrow>
               let c = (of_char (if shift \<noteq> 0 then shifted else plain) :: u8)
               in Some (if 97 \<le> c \<and> c \<le> 122 then (if caps XOR shift \<noteq> 0 then c - 32 else c) else c)))"

text \<open>One round of the loop of \<open>hal_keyboard_getchar\<close>; \<open>None\<close> is \<open>continue\<close>.\<close>

definition getchar_step :: "u8 \<Rightarrow> 'a kbd_state_scheme \<Rightarrow> u8 option \<times> 'a kbd_state_scheme" where
  "getchar_step scancode s =
     (if scancode = 0x2A \<or> scancode = 0x36 then (None, s\<lparr>shift_pressed := 1\<rparr>)
      else if scancode = 0xAA \<or> scancode = 0xB6 then (None, s\<lparr>shift_pressed := 0\<rparr>)
      else if scancode = 0x3A then (None, s\<lparr>caps_lock_on := (if caps_lock_on s = 0 then 1 else 0)\<rparr>)
      else if scancode AND 0x80 \<noteq> 0 then (None, s)
      else (key_char scancode (shift_pressed s) (caps_lock_on s), s))"

definition hal_keyboard_key_available :: "'a kbd_state_scheme \<Rightarrow> bool" where
  "hal_keyboard_key_available s \<longleftrightarrow> keyboard_key_available_flag s \<noteq> 0"

text \<open>The part of \<open>hal_keyboard_read_scancode\<close> after its wait.\<close>

definition hal_keyboard_read_scancode :: "'a kbd_state_scheme \<Rightarrow> u8 \<times> 'a kbd_state_scheme" where
  "hal_keyboard_read_scancode s = (keyboard_scan_code s, s\<lparr>keyboard_key_available_flag := 0\<rparr>)"

text \<open>What \<open>irq1_handler\<close> does to the driver's variables, for the scan code it reads from the data
  port, and the whole handler.\<close>

definition keyboard_deliver :: "u8 \<Rightarrow> 'a kbd_state_scheme \<Rightarrow> 'a kbd_state_scheme" where
  "keyboard_deliver scancode s =
     s\<lparr>keyboard_scan_code := scancode, keyboard_key_available_flag := 1,
       keyboard_interrupts := keyboard_interrupts s + 1\<rparr>"

definition irq1_handler :: "'a kbd_state_scheme \<Rightarrow> 'a kbd_state_scheme" where
  "irq1_handler s =
     (let s1 = outb 0x20 0x20 s;
          (scancode, s2) = inb 0x60 s1
      in keyboard_deliver scancode s2)"

function hal_keyboard_getchar ::
  "u8 list \<Rightarrow> 'a kbd_state_scheme \<Rightarrow> (u8 \<times> 'a kbd_state_scheme \<times> u8 list) option" where
  "hal_keyboard_getchar irqs s =
     (if hal_keyboard_key_available s then
        (let (scancode, s1) = hal_keyboard_read_scancode s
         in case getchar_step scancode s1 of
              (Some c, s2) \<Rightarrow> Some (c, s2, irqs)
            | (None, s2) \<Rightarrow> hal_keyboard_getchar irqs s2)
      else (case irqs of
              [] \<Rightarrow> None
            | k # ks \<Rightarrow> hal_keyboard_getchar ks (keyboard_deliver k s)))"
  by pat_completeness auto

lemma getchar_step_flag:
  "getchar_step k s = (r, s') \<Longrightarrow> keyboard_key_available_flag s' = keyboard_key_available_flag s"
  by (auto simp: getchar_step_def split: if_splits)

termination hal_keyboard_getchar
  by (relation "measure (\<lambda>(irqs, s). 2 * length irqs + (if keyboard_key_available_flag s = 0 then 0 else 1))")
     (auto simp: hal_keyboard_key_available_def hal_keyboard_read_scancode_def keyboard_deliver_def
       dest!: getchar_step_flag [OF sym])

declare hal_keyboard_getchar.simps [simp del]

section \<open>Initialisation is what the controller documents\<close>

lemma kb_config_bits: "bit (kb_config v) k \<longleftrightarrow> k = 0 \<or> k = 6 \<or> (bit v k \<and> k \<noteq> 1 \<and> k \<noteq> 4)"
proof -
  have cfg: "kb_config v = (((v OR 2 ^ 0) AND NOT (2 ^ 1)) AND NOT (2 ^ 4)) OR 2 ^ 6"
    by (simp add: kb_config_def)
  have set0: "bit (w OR 2 ^ 0) k \<longleftrightarrow> bit w k \<or> k = 0" and set6: "bit (w OR 2 ^ 6) k \<longleftrightarrow> bit w k \<or> k = 6"
    for w :: u8 by (rule bit_set_flag, simp)+
  show ?thesis unfolding cfg set0 set6 bit_clear_flag by auto
qed

text \<open>A poll followed by a command, as accesses appended to the history.\<close>

lemma kb_poll_appends:
  assumes "answers (device s) 0x64 ready"
  shows "\<exists>n. poll_until 0x64 ready (s\<lparr>io_log := l\<rparr>) = Some (s\<lparr>io_log := l @ replicate n (InB 0x64)\<rparr>)"
proof -
  have "answers (device (s\<lparr>io_log := l\<rparr>)) 0x64 ready" using assms by simp
  then obtain k where "poll_until 0x64 ready (s\<lparr>io_log := l\<rparr>) =
      Some (s\<lparr>io_log := l\<rparr>\<lparr>io_log := io_log (s\<lparr>io_log := l\<rparr>) @ replicate (Suc k) (InB 0x64)\<rparr>)"
    by (rule poll_until_answers)
  then have "poll_until 0x64 ready (s\<lparr>io_log := l\<rparr>) = Some (s\<lparr>io_log := l @ replicate (Suc k) (InB 0x64)\<rparr>)"
    by simp
  then show ?thesis ..
qed

lemma kb_poll_command:
  assumes "answers_to c (device s) 0x64 ready"
  shows "\<exists>n. poll_until 0x64 ready (s\<lparr>io_log := l @ [OutB 0x64 c]\<rparr>) = Some (s\<lparr>io_log := l @ [OutB 0x64 c] @ replicate n (InB 0x64)\<rparr>)"
proof -
  obtain n where "ready (ucast (device s ((l @ [OutB 0x64 c]) @ replicate n (InB 0x64)) 0x64))" using assms unfolding answers_to_def by blast
  then obtain k where "poll_until 0x64 ready (s\<lparr>io_log := l @ [OutB 0x64 c]\<rparr>) = Some (s\<lparr>io_log := l @ [OutB 0x64 c] @ replicate (Suc k) (InB 0x64)\<rparr>)"
    using poll_until_returns [of ready "s\<lparr>io_log := l @ [OutB 0x64 c]\<rparr>" n "0x64"] by auto
  then show ?thesis ..
qed

lemma outb_upd: "outb p v (s\<lparr>io_log := l\<rparr>) = s\<lparr>io_log := l @ [OutB p v]\<rparr>"
  by (simp add: outb_def io_emit_def)

lemma inb_upd: "inb p (s\<lparr>io_log := l\<rparr>) = (ucast (device s l p), s\<lparr>io_log := l @ [InB p]\<rparr>)"
  by (simp add: inb_def io_emit_def)

lemma hal_keyboard_init_returns:
  assumes "answers (device s) 0x64 kb_input_empty" and "answers_to 0x20 (device s) 0x64 kb_output_full"
  shows "\<exists>new pre post cfg c'. hal_keyboard_init s = Some (s\<lparr>io_log := io_log s @ new\<rparr>) \<and>
      new = pre @ InB 0x60 # post \<and> cfg = (ucast (device s (io_log s @ pre) 0x60) :: u8) \<and>
      outs 0x64 new = [0xAE, 0x20, 0x60] \<and> outs 0x60 new = [c', 0xF4] \<and>
      (\<forall>k. bit c' k \<longleftrightarrow> k = 0 \<or> k = 6 \<or> (bit cfg k \<and> k \<noteq> 1 \<and> k \<noteq> 4))"
proof -
  note e = kb_poll_appends [OF assms(1)] and f = kb_poll_command [OF assms(2)]
  let ?st = "\<lambda>l. s\<lparr>io_log := l\<rparr>" and ?r = "\<lambda>n. replicate n (InB 0x64)"
  obtain a where a: "poll_until 0x64 kb_input_empty (?st (io_log s)) = Some (?st (io_log s @ ?r a))"
    using e by blast
  define l1 where "l1 = io_log s @ ?r a @ [OutB 0x64 0xAE]"
  obtain b where b: "poll_until 0x64 kb_input_empty (?st l1) = Some (?st (l1 @ ?r b))" using e by blast
  define l2 where "l2 = l1 @ ?r b @ [OutB 0x64 0x20]"
  obtain c where c: "poll_until 0x64 kb_output_full (?st l2) = Some (?st (l2 @ ?r c))" using f [of "l1 @ ?r b"] by (auto simp: l2_def)
  define cfg :: u8 where "cfg = ucast (device s (l2 @ ?r c) 0x60)"
  define l3 where "l3 = l2 @ ?r c @ [InB 0x60]"
  obtain d where d: "poll_until 0x64 kb_input_empty (?st l3) = Some (?st (l3 @ ?r d))" using e by blast
  define l4 where "l4 = l3 @ ?r d @ [OutB 0x64 0x60]"
  obtain g where g: "poll_until 0x64 kb_input_empty (?st l4) = Some (?st (l4 @ ?r g))" using e by blast
  define l5 where "l5 = l4 @ ?r g @ [OutB 0x60 (kb_config cfg)]"
  obtain h where h: "poll_until 0x64 kb_input_empty (?st l5) = Some (?st (l5 @ ?r h))" using e by blast
  have "hal_keyboard_init (?st (io_log s)) = Some (?st (l5 @ ?r h @ [OutB 0x60 0xF4]))"
    unfolding hal_keyboard_init_def kb_regs a bind.bind_lunit outb_upd append_assoc
      l1_def [symmetric] b l2_def [symmetric] c inb_upd cfg_def [symmetric] Let_def prod.case
      l3_def [symmetric] d l4_def [symmetric] g l5_def [symmetric] h ..
  moreover define pre where "pre = ?r a @ [OutB 0x64 0xAE] @ ?r b @ [OutB 0x64 0x20] @ ?r c"
  moreover define post where "post = ?r d @ [OutB 0x64 0x60] @ ?r g @ [OutB 0x60 (kb_config cfg)] @ ?r h @ [OutB 0x60 0xF4]"
  ultimately have A: "hal_keyboard_init s = Some (s\<lparr>io_log := io_log s @ pre @ InB 0x60 # post\<rparr>)"
    and B: "cfg = ucast (device s (io_log s @ pre) 0x60)"
    by (simp_all add: l1_def l2_def l3_def l4_def l5_def cfg_def)
  have C: "outs 0x64 (pre @ InB 0x60 # post) = [0xAE, 0x20, 0x60]"
    and D: "outs 0x60 (pre @ InB 0x60 # post) = [kb_config cfg, 0xF4]"
    by (simp_all add: pre_def post_def)
  show ?thesis
    by (intro exI conjI, rule A, rule refl, rule B, rule C, rule D, simp only: kb_config_bits simp_thms)
qed

text \<open>
  when the keyboard controller keeps accepting commands and answers the read command,
  \<open>hal_keyboard_init\<close> returns; it sends the controller the commands \<open>0xAE\<close>,
  \<open>0x20\<close>, \<open>0x60\<close> in this order, and the data port the configuration byte it read with
  bits 0 and 6 set and bits 1 and 4 cleared, then \<open>0xF4\<close>.
\<close>

theorem hal_keyboard_init_correct:
  assumes "answers (device s) 0x64 kb_input_empty" and "answers_to 0x20 (device s) 0x64 kb_output_full"
  shows "\<exists>new pre post cfg c'. hal_keyboard_init s = Some (s\<lparr>io_log := io_log s @ new\<rparr>) \<and>
      new = pre @ InB 0x60 # post \<and> cfg = (ucast (device s (io_log s @ pre) 0x60) :: u8) \<and>
      outs 0x64 new = [0xAE, 0x20, 0x60] \<and> outs 0x60 new = [c', 0xF4] \<and>
      (\<forall>k. bit c' k \<longleftrightarrow> k = 0 \<or> k = 6 \<or> (bit cfg k \<and> k \<noteq> 1 \<and> k \<noteq> 4))"
  using assms by (rule hal_keyboard_init_returns)

text \<open>A controller whose status always reads \<open>0x01\<close>: input buffer empty, output buffer full.\<close>

theorem hal_keyboard_init_correct_witness:
  "\<exists>new. hal_keyboard_init \<lparr>device = (\<lambda>_ _. 1), io_log = []\<rparr> =
      Some \<lparr>device = (\<lambda>_ _. 1), io_log = new\<rparr> \<and> outs 0x64 new = [0xAE, 0x20, 0x60]"
proof -
  let ?s = "\<lparr>device = (\<lambda>_ _. 1), io_log = []\<rparr> :: io_state"
  have "answers (device ?s) 0x64 kb_input_empty" "answers_to 0x20 (device ?s) 0x64 kb_output_full"
    by (simp_all add: answers_def answers_to_def kb_input_empty_def kb_output_full_def KB_STAT_IBF_def KB_STAT_OBF_def)
  from hal_keyboard_init_correct [OF this]
  obtain new where "hal_keyboard_init ?s = Some (?s\<lparr>io_log := io_log ?s @ new\<rparr>)"
    and "outs 0x64 new = [0xAE, 0x20, 0x60]" by (elim exE conjE) (rule that)
  then show ?thesis by simp
qed

section \<open>Typing\<close>

lemma key_char_keys:
  "list_all (\<lambda>(k, c). c \<in> {8, 9, 10, 32}) return_keys"
  "list_all (\<lambda>(k, p, q). 32 \<le> (of_char p :: u8) \<and> (of_char p :: u8) \<le> 126 \<and>
                         32 \<le> (of_char q :: u8) \<and> (of_char q :: u8) \<le> 126) char_keys"
  by code_simp+

lemma key_char_range:
  assumes "key_char k sh cp = Some c"
  shows "c \<in> {8, 9, 10} \<or> 32 \<le> c \<and> c \<le> 126"
proof (cases "map_of return_keys k")
  case (Some c')
  with assms have "c = c'" by (simp add: key_char_def)
  moreover have "c' \<in> {8, 9, 10, 32}"
    using key_char_keys(1) map_of_SomeD [OF Some] unfolding list_all_iff by fast
  ultimately show ?thesis by auto
next
  case None
  with assms obtain p q where pq: "map_of char_keys k = Some (p, q)"
    by (auto simp: key_char_def split: option.splits)
  define c0 :: u8 where "c0 = of_char (if sh \<noteq> 0 then q else p)"
  have r: "32 \<le> c0" "c0 \<le> 126"
    using key_char_keys(2) map_of_SomeD [OF pq] unfolding list_all_iff c0_def by fastforce+
  have "c = (if 97 \<le> c0 \<and> c0 \<le> 122 then (if cp XOR sh \<noteq> 0 then c0 - 32 else c0) else c0)"
    using assms unfolding key_char_def None pq option.case prod.case Let_def c0_def [symmetric] by simp
  with r show ?thesis by (auto simp: word_le_nat_alt unat_sub)
qed

lemma getchar_step_Some:
  "getchar_step k s = (Some c, s') \<Longrightarrow> key_char k (shift_pressed s) (caps_lock_on s) = Some c \<and> s' = s"
  by (auto simp: getchar_step_def split: if_splits)

text \<open>
  every character \<open>hal_keyboard_getchar\<close> returns is a backspace, tab or newline or a printable
  ASCII character, and the call consumes a prefix of the delivered scan codes.
\<close>

theorem hal_keyboard_getchar_range:
  assumes "hal_keyboard_getchar irqs s = Some (c, s', rest)"
  shows "(c \<in> {8, 9, 10} \<or> 32 \<le> c \<and> c \<le> 126) \<and> (\<exists>used. irqs = used @ rest) \<and> \<not> hal_keyboard_key_available s'"
  using assms
proof (induction irqs s rule: hal_keyboard_getchar.induct)
  case (1 irqs s)
  show ?case
  proof (cases "hal_keyboard_key_available s")
    case True
    obtain r s2 where st: "getchar_step (keyboard_scan_code s) (s\<lparr>keyboard_key_available_flag := 0\<rparr>) = (r, s2)"
      by fastforce
    show ?thesis
    proof (cases r)
      case None
      then show ?thesis using 1 True st
        by (simp add: hal_keyboard_getchar.simps [of irqs s] hal_keyboard_read_scancode_def)
    next
      case (Some d)
      then have "key_char (keyboard_scan_code s) (shift_pressed s) (caps_lock_on s) = Some d"
        "s2 = s\<lparr>keyboard_key_available_flag := 0\<rparr>" using getchar_step_Some [of _ _ d] st by force+
      then show ?thesis using 1(3) True st Some key_char_range [of _ _ _ d]
        by (auto simp: hal_keyboard_getchar.simps [of irqs s] hal_keyboard_read_scancode_def
            hal_keyboard_key_available_def)
    qed
  next
    case False
    with 1 obtain k ks where "irqs = k # ks" "hal_keyboard_getchar ks (keyboard_deliver k s) = Some (c, s', rest)"
      by (auto simp: hal_keyboard_getchar.simps [of irqs s] split: list.splits)
    with 1(2) [OF False] show ?thesis by fastforce
  qed
qed

definition idle_keyboard :: kbd_state where
  "idle_keyboard = \<lparr>device = (\<lambda>_ _. 0), io_log = [], pit_tick_count = 0, pit_timer_callback = None,
     dma_initialized = False, shift_pressed = 0, caps_lock_on = 0, keyboard_scan_code = 0,
     keyboard_key_available_flag = 0, keyboard_interrupts = 0\<rparr>"

text \<open>Scan codes that produce no character: modifiers, releases and unknown keys.\<close>

definition silent :: "u8 \<Rightarrow> bool" where
  "silent k \<longleftrightarrow> k \<in> {0x2A, 0x36, 0xAA, 0xB6, 0x3A} \<or> k AND 0x80 \<noteq> 0 \<or>
               map_of return_keys k = None \<and> map_of char_keys k = None"

text \<open>The shift state after a sequence of scan codes: the last shift press or release decides.\<close>

fun shift_after :: "u8 list \<Rightarrow> u8 \<Rightarrow> u8" where
  "shift_after [] sh = sh"
| "shift_after (k # ks) sh =
     shift_after ks (if k = 0x2A \<or> k = 0x36 then 1 else if k = 0xAA \<or> k = 0xB6 then 0 else sh)"

lemma key_char_None: "key_char k sh cp = None \<longleftrightarrow> map_of return_keys k = None \<and> map_of char_keys k = None"
  by (auto simp: key_char_def Let_def split: option.splits)

lemma getchar_step_silent:
  assumes "silent k"
  obtains s' where "getchar_step k s = (None, s')" and "shift_pressed s' = shift_after [k] (shift_pressed s)"
    and "caps_lock_on s' \<noteq> 0 \<longleftrightarrow> (caps_lock_on s \<noteq> 0) \<noteq> (k = 0x3A)"
    and "keyboard_key_available_flag s' = keyboard_key_available_flag s"
proof -
  have "\<exists>s'. getchar_step k s = (None, s') \<and> shift_pressed s' = shift_after [k] (shift_pressed s) \<and>
      (caps_lock_on s' \<noteq> 0 \<longleftrightarrow> (caps_lock_on s \<noteq> 0) \<noteq> (k = 0x3A)) \<and>
      keyboard_key_available_flag s' = keyboard_key_available_flag s"
    using assms by (auto simp: getchar_step_def silent_def key_char_None)
  then show thesis using that by blast
qed

lemma getchar_deliver:
  assumes "\<not> hal_keyboard_key_available s"
  shows "hal_keyboard_getchar (k # ks) s =
     (case getchar_step k (keyboard_deliver k s\<lparr>keyboard_key_available_flag := 0\<rparr>) of
        (Some c, s2) \<Rightarrow> Some (c, s2, ks) | (None, s2) \<Rightarrow> hal_keyboard_getchar ks s2)"
proof -
  have avail: "hal_keyboard_key_available (keyboard_deliver k s)"
    and rd: "hal_keyboard_read_scancode (keyboard_deliver k s) =
      (k, keyboard_deliver k s\<lparr>keyboard_key_available_flag := 0\<rparr>)"
    by (simp_all add: hal_keyboard_key_available_def hal_keyboard_read_scancode_def keyboard_deliver_def)
  have "hal_keyboard_getchar (k # ks) s = hal_keyboard_getchar ks (keyboard_deliver k s)"
    using assms by (simp add: hal_keyboard_getchar.simps [of "k # ks" s])
  also have "\<dots> = (case getchar_step k (keyboard_deliver k s\<lparr>keyboard_key_available_flag := 0\<rparr>) of
        (Some c, s2) \<Rightarrow> Some (c, s2, ks) | (None, s2) \<Rightarrow> hal_keyboard_getchar ks s2)"
    using avail rd by (simp add: hal_keyboard_getchar.simps [of ks "keyboard_deliver k s"])
  finally show ?thesis .
qed

lemma getchar_sequence:
  assumes "\<not> hal_keyboard_key_available s" and "\<forall>x \<in> set pre. silent x" and "\<not> silent k"
  shows "\<exists>s' c. hal_keyboard_getchar (pre @ k # rest) s = Some (c, s', rest) \<and>
      key_char k (shift_pressed s') (caps_lock_on s') = Some c \<and>
      shift_pressed s' = shift_after pre (shift_pressed s) \<and>
      (caps_lock_on s' \<noteq> 0 \<longleftrightarrow> (caps_lock_on s \<noteq> 0) \<noteq> odd (count_list pre 0x3A))"
  using assms
proof (induction pre arbitrary: s)
  case Nil
  let ?s = "keyboard_deliver k s\<lparr>keyboard_key_available_flag := 0\<rparr>"
  have same: "shift_pressed ?s = shift_pressed s" "caps_lock_on ?s = caps_lock_on s"
    by (simp_all add: keyboard_deliver_def)
  obtain c where c: "key_char k (shift_pressed s) (caps_lock_on s) = Some c"
    using Nil.prems(3) key_char_None unfolding silent_def by (metis option.exhaust)
  then have "getchar_step k ?s = (Some c, ?s)"
    using Nil.prems(3) by (simp add: getchar_step_def silent_def same)
  then have "hal_keyboard_getchar ([] @ k # rest) s = Some (c, ?s, rest)"
    using Nil.prems(1) by (simp add: getchar_deliver)
  then show ?case using c by (intro exI [of _ ?s] exI [of _ c]) (simp add: same [simplified])
next
  case (Cons x pre)
  let ?s = "keyboard_deliver x s\<lparr>keyboard_key_available_flag := 0\<rparr>"
  have "silent x" using Cons.prems by simp
  then obtain s1 where st: "getchar_step x ?s = (None, s1)"
    and eff: "shift_pressed s1 = shift_after [x] (shift_pressed ?s)"
      "caps_lock_on s1 \<noteq> 0 \<longleftrightarrow> (caps_lock_on ?s \<noteq> 0) \<noteq> (x = 0x3A)"
      "keyboard_key_available_flag s1 = keyboard_key_available_flag ?s"
    by (rule getchar_step_silent)
  have nav: "\<not> hal_keyboard_key_available s1" using eff(3) by (simp add: hal_keyboard_key_available_def)
  have all: "\<forall>x \<in> set pre. silent x" using Cons.prems(2) by simp
  from Cons.IH [OF nav all Cons.prems(3)] obtain s' c
    where "hal_keyboard_getchar (pre @ k # rest) s1 = Some (c, s', rest)"
      "key_char k (shift_pressed s') (caps_lock_on s') = Some c"
      "shift_pressed s' = shift_after pre (shift_pressed s1)"
      "caps_lock_on s' \<noteq> 0 \<longleftrightarrow> (caps_lock_on s1 \<noteq> 0) \<noteq> odd (count_list pre 0x3A)"
    by (elim exE conjE) (rule that)
  moreover have "hal_keyboard_getchar ((x # pre) @ k # rest) s = hal_keyboard_getchar (pre @ k # rest) s1"
    using Cons.prems(1) st by (simp add: getchar_deliver)
  ultimately show ?case using eff(1,2) by (intro exI conjI) (auto simp: keyboard_deliver_def)
qed

text \<open>
  C40: \<open>hal_keyboard_getchar\<close> skips modifier, release and unknown scan codes and returns the
  character of the first other key, with the shift state given by the last shift press or release
  and caps lock toggled once per press of its key; later scan codes are left for the next call.
\<close>

theorem hal_keyboard_getchar_correct:
  assumes "\<not> hal_keyboard_key_available s" and "\<forall>x \<in> set pre. silent x" and "\<not> silent k"
  shows "\<exists>s' c. hal_keyboard_getchar (pre @ k # rest) s = Some (c, s', rest) \<and>
      key_char k (shift_pressed s') (caps_lock_on s') = Some c \<and>
      shift_pressed s' = shift_after pre (shift_pressed s) \<and>
      (caps_lock_on s' \<noteq> 0 \<longleftrightarrow> (caps_lock_on s \<noteq> 0) \<noteq> odd (count_list pre 0x3A))"
  using assms by (rule getchar_sequence)

theorem hal_keyboard_getchar_correct_witness:
  "\<exists>s'. hal_keyboard_getchar [0x3A, 0x2A, 0xAA, 0x1E, 0x9E] idle_keyboard = Some (65, s', [0x9E])"
proof -
  have "\<not> hal_keyboard_key_available idle_keyboard" by (simp add: hal_keyboard_key_available_def idle_keyboard_def)
  moreover have "\<forall>x \<in> set [0x3A, 0x2A, 0xAA]. silent x" by (simp add: silent_def)
  moreover have "\<not> silent 0x1E" by code_simp
  ultimately obtain s' c where r: "hal_keyboard_getchar ([0x3A, 0x2A, 0xAA] @ 0x1E # [0x9E]) idle_keyboard = Some (c, s', [0x9E])"
    and c: "key_char 0x1E (shift_pressed s') (caps_lock_on s') = Some c"
    and sh: "shift_pressed s' = shift_after [0x3A, 0x2A, 0xAA] (shift_pressed idle_keyboard)"
    and cp: "caps_lock_on s' \<noteq> 0 \<longleftrightarrow> (caps_lock_on idle_keyboard \<noteq> 0) \<noteq> odd (count_list [0x3A, 0x2A, 0xAA] (0x3A :: u8))"
    using hal_keyboard_getchar_correct [of idle_keyboard "[0x3A, 0x2A, 0xAA]" "0x1E" "[0x9E]"] by blast
  have "shift_pressed s' = 0" "caps_lock_on s' \<noteq> 0" using sh cp by (simp_all add: idle_keyboard_def)
  then have "c = 65" using c by (simp add: key_char_def return_keys_def char_keys_def)
  with r show ?thesis by auto
qed

theorem hal_keyboard_getchar_range_witness:
  "\<exists>c s'. hal_keyboard_getchar [0x2A, 0x1E] idle_keyboard = Some (c, s', []) \<and> 32 \<le> c \<and> c \<le> 126 \<and>
          \<not> hal_keyboard_key_available s'"
proof -
  have "\<not> hal_keyboard_key_available idle_keyboard" by (simp add: hal_keyboard_key_available_def idle_keyboard_def)
  moreover have "\<forall>x \<in> set [0x2A]. silent x" "\<not> silent 0x1E" by (simp add: silent_def, code_simp)
  ultimately obtain s' c where r: "hal_keyboard_getchar [0x2A, 0x1E] idle_keyboard = Some (c, s', [])"
    and c: "key_char 0x1E (shift_pressed s') (caps_lock_on s') = Some c"
    using getchar_sequence [of idle_keyboard "[0x2A]" "0x1E" "[]"] by auto
  have "c \<notin> {8, 9, 10}" using c by (auto simp: key_char_def return_keys_def char_keys_def split: if_splits)
  with hal_keyboard_getchar_range [OF r] r show ?thesis by blast
qed

text \<open>For every printable ASCII character, from the space on, a key and the shift state that type it.\<close>

definition typing_table :: "(u8 \<times> u8) list" where
  "typing_table =
    [(0x39, 0), (0x02, 1), (0x28, 1), (0x04, 1), (0x05, 1), (0x06, 1), (0x08, 1), (0x28, 0), (0x0A, 1),
     (0x0B, 1), (0x09, 1), (0x0D, 1), (0x33, 0), (0x0C, 0), (0x34, 0), (0x35, 0), (0x0B, 0), (0x02, 0),
     (0x03, 0), (0x04, 0), (0x05, 0), (0x06, 0), (0x07, 0), (0x08, 0), (0x09, 0), (0x0A, 0), (0x27, 1),
     (0x27, 0), (0x33, 1), (0x0D, 0), (0x34, 1), (0x35, 1), (0x03, 1), (0x1E, 1), (0x30, 1), (0x2E, 1),
     (0x20, 1), (0x12, 1), (0x21, 1), (0x22, 1), (0x23, 1), (0x17, 1), (0x24, 1), (0x25, 1), (0x26, 1),
     (0x32, 1), (0x31, 1), (0x18, 1), (0x19, 1), (0x10, 1), (0x13, 1), (0x1F, 1), (0x14, 1), (0x16, 1),
     (0x2F, 1), (0x11, 1), (0x2D, 1), (0x15, 1), (0x2C, 1), (0x1A, 0), (0x2B, 0), (0x1B, 0), (0x07, 1),
     (0x0C, 1), (0x29, 0), (0x1E, 0), (0x30, 0), (0x2E, 0), (0x20, 0), (0x12, 0), (0x21, 0), (0x22, 0),
     (0x23, 0), (0x17, 0), (0x24, 0), (0x25, 0), (0x26, 0), (0x32, 0), (0x31, 0), (0x18, 0), (0x19, 0),
     (0x10, 0), (0x13, 0), (0x1F, 0), (0x14, 0), (0x16, 0), (0x2F, 0), (0x11, 0), (0x2D, 0), (0x15, 0),
     (0x2C, 0), (0x1A, 1), (0x2B, 1), (0x1B, 1), (0x29, 1)]"

lemma typing_table_chars:
  "map (\<lambda>(k, sh). key_char k sh 0) typing_table = map (\<lambda>n. Some (of_nat n)) [32..<127]"
  by code_simp

lemma typing_table_keys: "list_all (\<lambda>(k, sh). \<not> silent k \<and> (sh = 0 \<or> sh = 1)) typing_table"
  by code_simp

lemma typing_table_entry:
  assumes "32 \<le> c" and "c \<le> 126"
  obtains k sh where "\<not> silent k" and "sh = 0 \<or> sh = 1" and "key_char k sh 0 = Some c"
proof -
  have r: "32 \<le> unat c" "unat c < 127" using assms by (simp_all add: word_le_nat_alt)
  define i where "i = unat c - 32"
  have len: "length typing_table = 95" using arg_cong [OF typing_table_chars, of length] by simp
  have i: "i < 95" "32 + i = unat c" using r by (simp_all add: i_def)
  obtain k sh where e: "typing_table ! i = (k, sh)" by fastforce
  have "Some (of_nat (32 + i)) = map (\<lambda>n. Some (of_nat n)) [32..<127] ! i"
    by (rule nth_map_upt [symmetric]) (use i(1) in simp)
  also have "\<dots> = map (\<lambda>(k, sh). key_char k sh 0) typing_table ! i" by (simp only: typing_table_chars)
  also have "\<dots> = key_char k sh 0" using i(1) len e by simp
  finally have "key_char k sh 0 = Some (of_nat (unat c))" using i(2) by (simp only:)
  moreover have "\<not> silent k \<and> (sh = 0 \<or> sh = 1)"
    using typing_table_keys i(1) len e unfolding list_all_length by force
  ultimately show thesis using that [of k sh] by simp
qed

text \<open>
  the layout is complete: from an idle keyboard with shift and caps lock off, every
  printable ASCII character can be typed with one key, alone or with shift.
\<close>

theorem keyboard_types_printable:
  assumes "\<not> hal_keyboard_key_available s" and "shift_pressed s = 0" and "caps_lock_on s = 0"
    and "32 \<le> c" and "c \<le> 126"
  shows "\<exists>ks s'. ks \<noteq> [] \<and> length ks \<le> 2 \<and> hal_keyboard_getchar ks s = Some (c, s', [])"
proof -
  obtain k sh where k: "\<not> silent k" "sh = 0 \<or> sh = 1" "key_char k sh 0 = Some c"
    using assms(4,5) by (rule typing_table_entry)
  have press: "\<exists>s'. hal_keyboard_getchar (pre @ [k]) s = Some (c, s', [])"
    if hyp: "\<forall>x \<in> set pre. silent x" "shift_after pre 0 = sh" "count_list pre 0x3A = 0"
    for pre
  proof -
    obtain s' c' where "hal_keyboard_getchar (pre @ k # []) s = Some (c', s', [])"
      "key_char k (shift_pressed s') (caps_lock_on s') = Some c'"
      "shift_pressed s' = shift_after pre (shift_pressed s)"
      "caps_lock_on s' \<noteq> 0 \<longleftrightarrow> (caps_lock_on s \<noteq> 0) \<noteq> odd (count_list pre 0x3A)"
      using getchar_sequence [OF assms(1) hyp(1) k(1), of "[]"] by (elim exE conjE) (rule that)
    with hyp k(3) assms(2,3) show ?thesis by simp
  qed
  from k(2) show ?thesis
  proof
    assume "sh = 0"
    with k(3) press [of "[]"] show ?thesis by (intro exI [of _ "[k]"]) simp
  next
    assume "sh = 1"
    with k(3) press [of "[0x2A]"] show ?thesis by (intro exI [of _ "[0x2A, k]"]) (simp add: silent_def)
  qed
qed

theorem keyboard_types_printable_witness:
  "\<exists>ks s'. length ks \<le> 2 \<and> hal_keyboard_getchar ks idle_keyboard = Some (of_char (CHR ''?''), s', [])"
  using keyboard_types_printable [of idle_keyboard "of_char (CHR ''?'')"]
  by (auto simp: hal_keyboard_key_available_def idle_keyboard_def)

end
