(* ===== verification/ByteMemory.thy ===== *)
theory ByteMemory
  imports Prelude
begin

text \<open>
  The 32-bit byte-addressed memory the C code's pointers refer to. A pointer is a \<^typ>\<open>u32\<close>, pointer
  arithmetic is word arithmetic, \<open>NULL\<close> is 0, and a \<open>uint32_t\<close> is stored as four
  bytes, lowest first.
\<close>

type_synonym mem = "u32 \<Rightarrow> u8"

section \<open>Words in memory\<close>

definition load32 :: "mem \<Rightarrow> u32 \<Rightarrow> u32" where
  "load32 m a = ucast (m a) OR push_bit 8 (ucast (m (a + 1))) OR
                push_bit 16 (ucast (m (a + 2))) OR push_bit 24 (ucast (m (a + 3)))"

definition store32 :: "u32 \<Rightarrow> u32 \<Rightarrow> mem \<Rightarrow> mem" where
  "store32 a v m = m(a := ucast v, a + 1 := ucast (drop_bit 8 v),
                     a + 2 := ucast (drop_bit 16 v), a + 3 := ucast (drop_bit 24 v))"

lemma less_32_cases:
  assumes "n < (32 :: nat)"
  obtains r where "r < 8" and "n = r \<or> n = 8 + r \<or> n = 16 + r \<or> n = 24 + r"
proof
  show "n mod 8 < 8" by simp
  have "n div 8 = 0 \<or> n div 8 = 1 \<or> n div 8 = 2 \<or> n div 8 = 3" using assms by linarith
  then show "n = n mod 8 \<or> n = 8 + n mod 8 \<or> n = 16 + n mod 8 \<or> n = 24 + n mod 8"
    using div_mult_mod_eq [of n 8] by linarith
qed

lemma bit_load32:
  assumes "r < 8"
  shows "bit (load32 m a) r = bit (m a) r" and "bit (load32 m a) (8 + r) = bit (m (a + 1)) r"
    and "bit (load32 m a) (16 + r) = bit (m (a + 2)) r" and "bit (load32 m a) (24 + r) = bit (m (a + 3)) r"
  using assms by (auto simp: load32_def bit_simps dest: bit_imp_le_length)

lemma load32_store32_same [simp]: "load32 (store32 a v m) a = v"
proof (rule bit_word_eqI)
  fix n assume "n < LENGTH(32)"
  then obtain r where "r < 8" "n = r \<or> n = 8 + r \<or> n = 16 + r \<or> n = 24 + r"
    using less_32_cases [of n] by auto
  then show "bit (load32 (store32 a v m) a) n = bit v n"
    by (auto simp: bit_load32 store32_def bit_simps)
qed

text \<open>
  Every \<open>uint32_t\<close> the kernel keeps in memory lies at a multiple of 4, so two of them are equal or
  share no byte.
\<close>

definition aligned4 :: "u32 \<Rightarrow> bool" where
  "aligned4 a \<longleftrightarrow> 4 dvd unat a"

lemma unat_add_less: "unat (a :: 'a::len word) + n < 2 ^ LENGTH('a) \<Longrightarrow> unat (a + of_nat n) = unat a + n"
  by (simp add: unat_word_ariths unat_of_nat)

lemma aligned4_add: "aligned4 a \<Longrightarrow> i < 4 \<Longrightarrow> unat (a + of_nat i) = unat a + i"
proof (rule unat_add_less)
  assume "aligned4 a" and i: "i < 4"
  then obtain k where k: "unat a = 4 * k" unfolding aligned4_def by (blast elim: dvdE)
  have "unat a < 4 * 2 ^ 30" using unsigned_less [of a] by simp
  with k have "k < 2 ^ 30" by simp
  with k i show "unat a + i < 2 ^ LENGTH(32)" by simp
qed

lemma aligned4_byte_eq:
  assumes "aligned4 a" and "aligned4 b" and "i < 4" and "j < 4"
  shows "a + of_nat i = b + of_nat j \<longleftrightarrow> a = b \<and> i = j"
proof
  assume "a + of_nat i = b + of_nat j"
  then have eq: "unat a + i = unat b + j" using assms by (metis aligned4_add)
  obtain k l where kl: "unat a = 4 * k" "unat b = 4 * l"
    using assms(1,2) unfolding aligned4_def by (auto elim!: dvdE)
  have "k = (unat a + i) div 4" "l = (unat b + j) div 4" using kl assms(3,4) by simp_all
  then have "k = l" using eq by simp
  then show "a = b \<and> i = j" using kl eq by (simp add: word_unat_eq_iff)
qed simp

lemma store32_byte_other:
  assumes "aligned4 a" and "aligned4 b" and "a \<noteq> b" and "i < 4"
  shows "store32 a v m (b + of_nat i) = m (b + of_nat i)"
proof -
  have "b + of_nat i \<noteq> a + of_nat j" if "j < 4" for j
    using aligned4_byte_eq [OF assms(2,1,4) that] assms(3) by auto
  from this [of 0] this [of 1] this [of 2] this [of 3] show ?thesis by (simp add: store32_def)
qed

lemma load32_store32_other:
  assumes "aligned4 a" and "aligned4 b" and "a \<noteq> b"
  shows "load32 (store32 a v m) b = load32 m b"
proof -
  have "store32 a v m (b + of_nat i) = m (b + of_nat i)" if "i < 4" for i
    using assms that by (rule store32_byte_other)
  from this [of 0] this [of 1] this [of 2] this [of 3] show ?thesis by (simp add: load32_def)
qed

lemma load32_store32:
  "aligned4 a \<Longrightarrow> aligned4 b \<Longrightarrow> load32 (store32 a v m) b = (if a = b then v else load32 m b)"
  by (simp add: load32_store32_other)

lemma load32_cong:
  "(\<And>i. i < 4 \<Longrightarrow> m (a + of_nat i) = m' (a + of_nat i)) \<Longrightarrow> load32 m a = load32 m' a"
proof -
  assume eq: "\<And>i. i < 4 \<Longrightarrow> m (a + of_nat i) = m' (a + of_nat i)"
  from eq [of 0] eq [of 1] eq [of 2] eq [of 3] show ?thesis by (simp add: load32_def)
qed

section \<open>Strings in memory\<close>

text \<open>\<open>bytes_at m p n\<close> are the \<open>n\<close> bytes from \<open>p\<close> on; \<open>cstr m p xs\<close> says that the
  zero-terminated string \<open>xs\<close> is at \<open>p\<close>.\<close>

definition bytes_at :: "mem \<Rightarrow> u32 \<Rightarrow> nat \<Rightarrow> u8 list" where
  "bytes_at m p n = map (\<lambda>i. m (p + of_nat i)) [0..<n]"

fun cstr :: "mem \<Rightarrow> u32 \<Rightarrow> u8 list \<Rightarrow> bool" where
  "cstr m p [] \<longleftrightarrow> m p = 0"
| "cstr m p (x # xs) \<longleftrightarrow> m p = x \<and> x \<noteq> 0 \<and> cstr m (p + 1) xs"

lemma length_bytes_at [simp]: "length (bytes_at m p n) = n"
  by (simp add: bytes_at_def)

lemma nth_bytes_at [simp]: "i < n \<Longrightarrow> bytes_at m p n ! i = m (p + of_nat i)"
  by (simp add: bytes_at_def)

lemma cstr_iff:
  "cstr m p xs \<longleftrightarrow> (\<forall>i < length xs. m (p + of_nat i) = xs ! i) \<and> 0 \<notin> set xs \<and> m (p + of_nat (length xs)) = 0"
proof (induction xs arbitrary: p)
  case Nil
  then show ?case by simp
next
  case (Cons x xs)
  have "(\<forall>i < length (x # xs). m (p + of_nat i) = (x # xs) ! i) \<longleftrightarrow>
      m p = x \<and> (\<forall>i < length xs. m (p + 1 + of_nat i) = xs ! i)"
    by (auto simp: less_Suc_eq_0_disj add.assoc)
  with Cons show ?case by (auto simp: add.assoc)
qed

lemma cstr_unique: "cstr m p xs \<Longrightarrow> cstr m p ys \<Longrightarrow> xs = ys"
proof (induction xs arbitrary: p ys)
  case Nil
  then show ?case by (cases ys) auto
next
  case (Cons x xs)
  then show ?case by (cases ys) auto
qed

lemma cstr_cong:
  "(\<And>i. i \<le> length xs \<Longrightarrow> m' (p + of_nat i) = m (p + of_nat i)) \<Longrightarrow> cstr m' p xs = cstr m p xs"
  by (simp add: cstr_iff)

end
