(* ===== verification/LibcString.thy ===== *)
theory LibcString
  imports ByteMemory "HOL-Library.Monad_Syntax" "HOL-Library.Sublist"
begin

text \<open>
  The string library, \<^verbatim>\<open>libc/string.c\<close>, over the byte memory. A function that only reads takes the
  memory and returns its value; one that writes returns the new memory. The loops bounded by a count
  recurse on it; the loops that run to the terminating zero are partial functions, so a string without
  one is \<open>None\<close>.
\<close>

section \<open>Functions with a count\<close>

primrec copy_up :: "nat \<Rightarrow> u32 \<Rightarrow> u32 \<Rightarrow> mem \<Rightarrow> mem" where
  "copy_up 0 d s m = m"
| "copy_up (Suc n) d s m = copy_up n (d + 1) (s + 1) (m(d := m s))"

primrec copy_down :: "nat \<Rightarrow> u32 \<Rightarrow> u32 \<Rightarrow> mem \<Rightarrow> mem" where
  "copy_down 0 d s m = m"
| "copy_down (Suc n) d s m = copy_down n (d - 1) (s - 1) (m(d - 1 := m (s - 1)))"

definition memcpy :: "u32 \<Rightarrow> u32 \<Rightarrow> u32 \<Rightarrow> mem \<Rightarrow> mem" where
  "memcpy dest src n m = copy_up (unat n) dest src m"

definition memmove :: "u32 \<Rightarrow> u32 \<Rightarrow> u32 \<Rightarrow> mem \<Rightarrow> mem" where
  "memmove dest src n m =
     (if dest < src then copy_up (unat n) dest src m
      else copy_down (unat n) (dest + n) (src + n) m)"

primrec fill_up :: "nat \<Rightarrow> u32 \<Rightarrow> u8 \<Rightarrow> mem \<Rightarrow> mem" where
  "fill_up 0 p c m = m"
| "fill_up (Suc n) p c m = fill_up n (p + 1) c (m(p := c))"

definition memset :: "u32 \<Rightarrow> u32 \<Rightarrow> u32 \<Rightarrow> mem \<Rightarrow> mem" where
  "memset s c n m = fill_up (unat n) s (ucast c) m"

primrec memchr_loop :: "nat \<Rightarrow> u32 \<Rightarrow> u8 \<Rightarrow> mem \<Rightarrow> u32" where
  "memchr_loop 0 p c m = 0"
| "memchr_loop (Suc n) p c m = (if m p = c then p else memchr_loop n (p + 1) c m)"

definition memchr :: "u32 \<Rightarrow> u32 \<Rightarrow> u32 \<Rightarrow> mem \<Rightarrow> u32" where
  "memchr s c n m = memchr_loop (unat n) s (ucast c) m"

primrec memcmp_loop :: "nat \<Rightarrow> u32 \<Rightarrow> u32 \<Rightarrow> mem \<Rightarrow> int" where
  "memcmp_loop 0 p1 p2 m = 0"
| "memcmp_loop (Suc n) p1 p2 m =
     (if m p1 \<noteq> m p2 then uint (m p1) - uint (m p2) else memcmp_loop n (p1 + 1) (p2 + 1) m)"

definition memcmp :: "u32 \<Rightarrow> u32 \<Rightarrow> u32 \<Rightarrow> mem \<Rightarrow> int" where
  "memcmp s1 s2 n m = memcmp_loop (unat n) s1 s2 m"

text \<open>\<open>strncpy\<close>: the two loops share the index \<open>i\<close>; the first stops at the end of the source.\<close>

primrec strncpy_scan :: "nat \<Rightarrow> nat \<Rightarrow> u32 \<Rightarrow> u32 \<Rightarrow> mem \<Rightarrow> nat \<times> mem" where
  "strncpy_scan 0 i d s m = (i, m)"
| "strncpy_scan (Suc n) i d s m =
     (if m (s + of_nat i) \<noteq> 0 then strncpy_scan n (Suc i) d s (m(d + of_nat i := m (s + of_nat i))) else (i, m))"

definition strncpy :: "u32 \<Rightarrow> u32 \<Rightarrow> u32 \<Rightarrow> mem \<Rightarrow> mem" where
  "strncpy dest src n m =
     (let (i, m') = strncpy_scan (unat n) 0 dest src m
      in fill_up (unat n - i) (dest + of_nat i) 0 m')"

primrec strncmp_loop :: "nat \<Rightarrow> u32 \<Rightarrow> u32 \<Rightarrow> mem \<Rightarrow> int" where
  "strncmp_loop 0 s1 s2 m = 0"
| "strncmp_loop (Suc n) s1 s2 m =
     (if m s1 \<noteq> 0 \<and> m s1 = m s2 then strncmp_loop n (s1 + 1) (s2 + 1) m else uint (m s1) - uint (m s2))"

definition strncmp :: "u32 \<Rightarrow> u32 \<Rightarrow> u32 \<Rightarrow> mem \<Rightarrow> int" where
  "strncmp s1 s2 n m = strncmp_loop (unat n) s1 s2 m"

section \<open>Functions that run to the terminating zero\<close>

partial_function (option) find_end :: "u32 \<Rightarrow> mem \<Rightarrow> u32 option" where
  "find_end p m = (if m p \<noteq> 0 then find_end (p + 1) m else Some p)"

partial_function (option) copy_str :: "u32 \<Rightarrow> u32 \<Rightarrow> mem \<Rightarrow> mem option" where
  "copy_str dest src m =
     (let m' = m(dest := m src) in if m' dest \<noteq> 0 then copy_str (dest + 1) (src + 1) m' else Some m')"

definition strlen :: "u32 \<Rightarrow> mem \<Rightarrow> u32 option" where
  "strlen s m = do { p \<leftarrow> find_end s m; Some (p - s) }"

definition strcpy :: "u32 \<Rightarrow> u32 \<Rightarrow> mem \<Rightarrow> mem option" where
  "strcpy dest src m = copy_str dest src m"

definition strcat :: "u32 \<Rightarrow> u32 \<Rightarrow> mem \<Rightarrow> mem option" where
  "strcat dest src m = do { d \<leftarrow> find_end dest m; copy_str d src m }"

primrec strncat_loop :: "nat \<Rightarrow> u32 \<Rightarrow> u32 \<Rightarrow> mem \<Rightarrow> u32 \<times> mem" where
  "strncat_loop 0 d s m = (d, m)"
| "strncat_loop (Suc n) d s m =
     (let m' = m(d := m s) in if m' d \<noteq> 0 then strncat_loop n (d + 1) (s + 1) m' else (d, m'))"

definition strncat :: "u32 \<Rightarrow> u32 \<Rightarrow> u32 \<Rightarrow> mem \<Rightarrow> mem option" where
  "strncat dest src n m = do {
     d \<leftarrow> find_end dest m;
     let (d', m') = strncat_loop (unat n) d src m;
     Some (m'(d' := 0))
   }"

partial_function (option) strcmp :: "u32 \<Rightarrow> u32 \<Rightarrow> mem \<Rightarrow> int option" where
  "strcmp s1 s2 m =
     (if m s1 \<noteq> 0 \<and> m s1 = m s2 then strcmp (s1 + 1) (s2 + 1) m else Some (uint (m s1) - uint (m s2)))"

partial_function (option) strchr :: "u32 \<Rightarrow> u8 \<Rightarrow> mem \<Rightarrow> u32 option" where
  "strchr s c m =
     (if m s \<noteq> 0 then (if m s = c then Some s else strchr (s + 1) c m)
      else if c = 0 then Some s else Some 0)"

partial_function (option) strrchr_loop :: "u32 \<Rightarrow> u8 \<Rightarrow> u32 \<Rightarrow> mem \<Rightarrow> u32 option" where
  "strrchr_loop s c lastp m =
     (if m s \<noteq> 0 then strrchr_loop (s + 1) c (if m s = c then s else lastp) m
      else if c = 0 then Some s else Some lastp)"

definition strrchr :: "u32 \<Rightarrow> u8 \<Rightarrow> mem \<Rightarrow> u32 option" where
  "strrchr s c m = strrchr_loop s c 0 m"

text \<open>The loops of \<open>strspn\<close> (\<open>want = True\<close>) and \<open>strcspn\<close> (\<open>want = False\<close>).\<close>

partial_function (option) span_loop :: "bool \<Rightarrow> u32 \<Rightarrow> u32 \<Rightarrow> mem \<Rightarrow> u32 option" where
  "span_loop want p chars m =
     (if m p \<noteq> 0
      then do { r \<leftarrow> strchr chars (m p) m; if (r \<noteq> 0) = want then span_loop want (p + 1) chars m else Some p }
      else Some p)"

definition strspn :: "u32 \<Rightarrow> u32 \<Rightarrow> mem \<Rightarrow> u32 option" where
  "strspn s accept m = do { p \<leftarrow> span_loop True s accept m; Some (p - s) }"

definition strcspn :: "u32 \<Rightarrow> u32 \<Rightarrow> mem \<Rightarrow> u32 option" where
  "strcspn s reject m = do { p \<leftarrow> span_loop False s reject m; Some (p - s) }"

partial_function (option) strpbrk :: "u32 \<Rightarrow> u32 \<Rightarrow> mem \<Rightarrow> u32 option" where
  "strpbrk s accept m =
     (if m s \<noteq> 0
      then do { r \<leftarrow> strchr accept (m s) m; if r \<noteq> 0 then Some s else strpbrk (s + 1) accept m }
      else Some 0)"

partial_function (option) strstr_loop :: "u32 \<Rightarrow> u32 \<Rightarrow> mem \<Rightarrow> u32 option" where
  "strstr_loop haystack needle m =
     (if m haystack \<noteq> 0
      then do { n \<leftarrow> strlen needle m;
                if strncmp haystack needle n m = 0 then Some haystack
                else strstr_loop (haystack + 1) needle m }
      else Some 0)"

definition strstr :: "u32 \<Rightarrow> u32 \<Rightarrow> mem \<Rightarrow> u32 option" where
  "strstr haystack needle m = (if m needle = 0 then Some haystack else strstr_loop haystack needle m)"

text \<open>\<open>strtok\<close>: the static pointer is an argument and a result, after the token and with the memory.\<close>

definition strtok :: "u32 \<Rightarrow> u32 \<Rightarrow> u32 \<Rightarrow> mem \<Rightarrow> (u32 \<times> u32 \<times> mem) option" where
  "strtok str delim static_str m =
     (let p = (if str \<noteq> 0 then str else static_str)
      in if p = 0 then Some (0, p, m)
         else do {
           n \<leftarrow> strspn p delim m;
           let p = p + n;
           if m p = 0 then Some (0, 0, m)
           else do {
             k \<leftarrow> strcspn p delim m;
             let q = p + k;
             if m q \<noteq> 0 then Some (p, q + 1, m(q := 0)) else Some (p, 0, m)
           }
         })"

definition strxfrm :: "u32 \<Rightarrow> u32 \<Rightarrow> u32 \<Rightarrow> mem \<Rightarrow> (u32 \<times> mem) option" where
  "strxfrm dest src n m = do {
     len \<leftarrow> strlen src m;
     if n > 0
     then let copy_len = (if len < n then len else n - 1);
              m' = memcpy dest src copy_len m
          in Some (len, m'(dest + copy_len := 0))
     else Some (len, m)
   }"

section \<open>Copying\<close>

text \<open>Positions relative to a start address, in address arithmetic modulo \<open>2 ^ 32\<close>.\<close>

lemma unat_pred: "(x :: u32) \<noteq> 0 \<Longrightarrow> unat (x - 1) = unat x - 1"
  by (rule unat_minus_one)

lemma word_max_unat: "unat (- 1 :: u32) = 2 ^ 32 - 1"
  by (simp add: unsigned_minus_1_eq_mask mask_eq_exp_minus_1)

lemma copy_up_at:
  assumes "n \<le> 2 ^ 32" and "d = s \<or> n \<le> unat (d - s)"
  shows "copy_up n d s m a = (if unat (a - d) < n then m (s + (a - d)) else m a)"
  using assms
proof (induction n arbitrary: d s m)
  case 0
  then show ?case by simp
next
  case (Suc n)
  let ?m = "m(d := m s)"
  have IH: "copy_up n (d + 1) (s + 1) ?m a =
      (if unat (a - (d + 1)) < n then ?m (s + 1 + (a - (d + 1))) else ?m a)"
    using Suc.prems by (intro Suc.IH) auto
  have shift: "s + 1 + (a - (d + 1)) = s + (a - d)" "a - (d + 1) = (a - d) - 1" by simp_all
  show ?case
  proof (cases "a = d")
    case True
    then have "\<not> unat (a - (d + 1)) < n" using Suc.prems(1) by (simp add: word_max_unat)
    with IH True show ?thesis by simp
  next
    case False
    then have k: "unat ((a - d) - 1) = unat (a - d) - 1" "0 < unat (a - d)"
      by (simp_all add: unat_pred unat_gt_0)
    have ne: "s + (a - d) \<noteq> d" if "unat (a - d) < Suc n"
    proof
      assume eq: "s + (a - d) = d"
      then have "d - s = a - d" by (metis add_diff_cancel_left')
      with that k(2) Suc.prems(2) False eq show False by auto
    qed
    from k have "unat ((a - d) - 1) < n \<longleftrightarrow> unat (a - d) < Suc n" by linarith
    with IH ne False show ?thesis by (simp add: shift)
  qed
qed

lemma copy_down_at:
  assumes "n \<le> 2 ^ 32" and "d = s \<or> n \<le> unat (s - d)"
  shows "copy_down n (d + of_nat n) (s + of_nat n) m a = (if unat (a - d) < n then m (s + (a - d)) else m a)"
  using assms
proof (induction n arbitrary: m)
  case 0
  then show ?case by simp
next
  case (Suc n)
  let ?m = "m(d + of_nat n := m (s + of_nat n))"
  have n: "unat (of_nat n :: u32) = n" using Suc.prems(1) by (simp add: unat_of_nat)
  have IH: "copy_down n (d + of_nat n) (s + of_nat n) ?m a =
      (if unat (a - d) < n then ?m (s + (a - d)) else ?m a)"
    using Suc.prems by (intro Suc.IH) auto
  have step: "copy_down (Suc n) (d + of_nat (Suc n)) (s + of_nat (Suc n)) m a =
      copy_down n (d + of_nat n) (s + of_nat n) ?m a" by (simp add: algebra_simps)
  show ?case
  proof (cases "a - d = of_nat n")
    case True
    then have "a = d + of_nat n" by (metis add_diff_cancel_left' diff_add_cancel add.commute)
    with IH step n show ?thesis by simp
  next
    case False
    then have "unat (a - d) \<noteq> n" using n by (metis word_unat_eq_iff)
    moreover have "a \<noteq> d + of_nat n" using False by auto
    moreover have "s + (a - d) \<noteq> d + of_nat n" if "unat (a - d) < n"
    proof
      assume eq: "s + (a - d) = d + of_nat n"
      then have sd: "s - d = of_nat n - (a - d)" by (simp add: algebra_simps)
      have "unat (of_nat n - (a - d)) = n - unat (a - d)"
        using that n by (subst unat_sub) (simp_all add: word_le_nat_alt)
      then have "0 < unat (s - d)" "unat (s - d) \<le> n" using that unfolding sd by simp_all
      with Suc.prems(2) show False by (auto simp: unat_gt_0)
    qed
    ultimately show ?thesis using IH step by auto
  qed
qed

lemma region_iff:
  fixes a p :: u32
  assumes "unat p + n \<le> 2 ^ 32"
  shows "unat (a - p) < n \<longleftrightarrow> unat p \<le> unat a \<and> unat a < unat p + n"
proof (cases "p \<le> a")
  case True
  then show ?thesis by (auto simp: unat_sub word_le_nat_alt)
next
  case False
  then have "unat a < unat p" by (simp add: word_le_nat_alt not_le)
  with unat_diff_wrap [OF this] assms show ?thesis by linarith
qed

lemma region_apart:
  fixes s d :: u32
  assumes "unat s < unat d" and "unat d + n \<le> 2 ^ 32"
  shows "n \<le> unat (s - d)"
  using region_iff [OF assms(2), of s] assms(1) by linarith

lemma bytes_at_region:
  assumes "\<And>a. unat (a - d) < n \<Longrightarrow> m' a = m (s + (a - d))" and "n \<le> 2 ^ 32"
  shows "bytes_at m' d n = bytes_at m s n"
  using assms by (auto intro!: nth_equalityI simp: unat_of_nat)

text \<open>
  C39: \<open>memmove\<close> moves \<open>n\<close> bytes correctly for every overlap of source and destination:
  afterwards the destination holds the bytes the source held before, and every byte outside the
  destination is unchanged.
\<close>

theorem memmove_correct:
  assumes "unat dest + unat n \<le> 2 ^ 32" and "unat src + unat n \<le> 2 ^ 32"
  shows "bytes_at (memmove dest src n m) dest (unat n) = bytes_at m src (unat n) \<and>
    (\<forall>a. \<not> (unat dest \<le> unat a \<and> unat a < unat dest + unat n) \<longrightarrow> memmove dest src n m a = m a)"
proof -
  have n: "unat n \<le> 2 ^ 32" using assms by simp
  have at: "memmove dest src n m a = (if unat (a - dest) < unat n then m (src + (a - dest)) else m a)" for a
  proof (cases "dest < src")
    case True
    then have "unat n \<le> unat (dest - src)"
      using assms(2) by (intro region_apart) (simp_all add: word_less_nat_alt)
    with True n show ?thesis by (simp add: memmove_def copy_up_at)
  next
    case False
    then have "dest = src \<or> unat n \<le> unat (src - dest)"
      using assms(1) by (cases "dest = src") (auto intro!: region_apart simp: word_less_nat_alt word_unat_eq_iff)
    with False n copy_down_at [of "unat n" dest src m a] show ?thesis by (simp add: memmove_def)
  qed
  have "bytes_at (memmove dest src n m) dest (unat n) = bytes_at m src (unat n)"
    by (intro bytes_at_region [OF _ n]) (simp add: at)
  moreover have "memmove dest src n m a = m a" if "\<not> (unat dest \<le> unat a \<and> unat a < unat dest + unat n)" for a
    using that at [of a] region_iff [OF assms(1), of a] by presburger
  ultimately show ?thesis by blast
qed

theorem memmove_correct_witness:
  "bytes_at (memmove 11 10 3 (\<lambda>a. ucast a)) 11 3 = [10, 11, 12]"
proof -
  have "bytes_at (memmove 11 10 3 (\<lambda>a. ucast a)) 11 (unat (3 :: u32)) = bytes_at (\<lambda>a. ucast a) 10 (unat (3 :: u32))"
    by (rule memmove_correct [THEN conjunct1]) simp_all
  moreover have "unat (3 :: u32) = 3" by simp
  moreover have "bytes_at (\<lambda>a. ucast a) 10 3 = [10, 11, 12]" by code_simp
  ultimately show ?thesis by (simp only:)
qed

lemma memcpy_at:
  assumes "dest = src \<or> unat n \<le> unat (dest - src)"
  shows "memcpy dest src n m a = (if unat (a - dest) < unat n then m (src + (a - dest)) else m a)"
proof -
  have "unat n \<le> 2 ^ 32" using unat_u32_less [of n] by simp
  then show ?thesis using assms by (simp add: memcpy_def copy_up_at)
qed

lemma fill_up_at: "n \<le> 2 ^ 32 \<Longrightarrow> fill_up n p c m a = (if unat (a - p) < n then c else m a)"
proof (induction n arbitrary: p m)
  case 0
  then show ?case by simp
next
  case (Suc n)
  then have IH: "fill_up n (p + 1) c (m(p := c)) a = (if unat (a - (p + 1)) < n then c else (m(p := c)) a)" by simp
  show ?case
  proof (cases "a = p")
    case False
    then have "unat (a - (p + 1)) = unat (a - p) - 1" "0 < unat (a - p)"
      using unat_pred [of "a - p"] by (simp_all add: unat_gt_0 algebra_simps)
    with IH False show ?thesis by auto
  qed (use IH in simp)
qed

lemma memset_at: "memset p c n m a = (if unat (a - p) < unat n then ucast c else m a)"
proof -
  have "unat n \<le> 2 ^ 32" using unat_u32_less [of n] by simp
  then show ?thesis by (simp add: memset_def fill_up_at)
qed

section \<open>Zero-terminated strings\<close>

lemma cstr_length:
  assumes "cstr m p xs"
  shows "length xs < 2 ^ 32"
proof (rule ccontr)
  assume "\<not> length xs < 2 ^ 32"
  then have len: "2 ^ 32 \<le> length xs" by simp
  define k where "k = length xs mod 2 ^ 32"
  have "k < length xs" using len unfolding k_def by (metis less_le_trans mod_less_divisor zero_less_numeral zero_less_power)
  moreover have "(of_nat (length xs) :: u32) = of_nat k"
    by (simp add: k_def of_nat_mod word_unat_eq_iff unat_of_nat)
  ultimately show False using assms unfolding cstr_iff by (metis nth_mem)
qed

lemma find_end_cstr: "cstr m p xs \<Longrightarrow> find_end p m = Some (p + of_nat (length xs))"
proof (induction xs arbitrary: p)
  case Nil
  then show ?case by (simp add: find_end.simps [of p m])
next
  case (Cons x xs)
  then show ?case by (simp add: find_end.simps [of p m] add.assoc)
qed

lemma strlen_cstr: "cstr m p xs \<Longrightarrow> strlen p m = Some (of_nat (length xs))"
  by (simp add: strlen_def find_end_cstr)

lemma copy_str_copy_up:
  assumes "cstr m src xs" and "dest = src \<or> length xs < unat (dest - src)"
  shows "copy_str dest src m = Some (copy_up (Suc (length xs)) dest src m)"
  using assms
proof (induction xs arbitrary: dest src m)
  case Nil
  then show ?case by (simp add: copy_str.simps [of dest src m] Let_def fun_upd_def)
next
  case (Cons x xs)
  let ?m = "m(dest := m src)"
  have len: "length (x # xs) < 2 ^ 32" using Cons.prems(1) by (rule cstr_length)
  have ne: "src + 1 + of_nat i \<noteq> dest" if "i \<le> length xs" for i
  proof
    assume "src + 1 + of_nat i = dest"
    then have "dest - src = of_nat (Suc i)" by (auto simp: algebra_simps)
    moreover have "unat (of_nat (Suc i) :: u32) = Suc i"
      using that len by (simp del: of_nat_Suc add: unat_of_nat)
    ultimately have "unat (dest - src) = Suc i" by simp
    with Cons.prems(2) that show False by auto
  qed
  have "cstr ?m (src + 1) xs = cstr m (src + 1) xs" by (rule cstr_cong) (simp add: ne)
  then have c: "cstr ?m (src + 1) xs" using Cons.prems(1) by simp
  have "dest + 1 = src + 1 \<or> length xs < unat (dest + 1 - (src + 1))" using Cons.prems(2) by auto
  from Cons.IH [OF c this]
  have "copy_str (dest + 1) (src + 1) ?m = Some (copy_up (Suc (length xs)) (dest + 1) (src + 1) ?m)" .
  with Cons.prems(1) show ?case by (simp add: copy_str.simps [of dest src m] Let_def)
qed

text \<open>Two buffers that share no byte.\<close>

definition disjoint_bufs :: "u32 \<Rightarrow> nat \<Rightarrow> u32 \<Rightarrow> nat \<Rightarrow> bool" where
  "disjoint_bufs p n q k \<longleftrightarrow> (\<forall>i < n. \<forall>j < k. p + of_nat i \<noteq> q + of_nat j)"

lemma disjoint_bufs_apart:
  assumes "disjoint_bufs d n s n" and "0 < n"
  shows "n \<le> unat (d - s)"
proof (rule ccontr)
  assume "\<not> n \<le> unat (d - s)"
  then have "unat (d - s) < n" by simp
  moreover have "d + of_nat 0 = s + of_nat (unat (d - s))" by simp
  ultimately show False using assms unfolding disjoint_bufs_def by blast
qed

lemma copy_str_cstr:
  assumes "cstr m src xs" and "disjoint_bufs dest (Suc (length xs)) src (Suc (length xs))"
  obtains m' where "copy_str dest src m = Some m'" and "cstr m' dest xs" and "cstr m' src xs"
    and "\<And>a. length xs < unat (a - dest) \<Longrightarrow> m' a = m a"
proof -
  let ?n = "Suc (length xs)"
  have far: "?n \<le> unat (dest - src)" using assms(2) by (intro disjoint_bufs_apart) simp_all
  have n: "?n \<le> 2 ^ 32" using cstr_length [OF assms(1)] by simp
  define m' where "m' = copy_up ?n dest src m"
  have at: "m' a = (if unat (a - dest) < ?n then m (src + (a - dest)) else m a)" for a
    unfolding m'_def using n far by (intro copy_up_at) simp_all
  have "copy_str dest src m = Some m'" unfolding m'_def using assms(1) far by (intro copy_str_copy_up) auto
  moreover have "cstr m' dest xs"
    using assms(1) n unfolding cstr_iff by (auto simp: at unat_of_nat)
  moreover have "m' (src + of_nat j) = m (src + of_nat j)" if "j \<le> length xs" for j
  proof -
    have "\<not> unat (src + of_nat j - dest) < ?n"
    proof
      assume "unat (src + of_nat j - dest) < ?n"
      moreover have "dest + of_nat (unat (src + of_nat j - dest)) = src + of_nat j" by simp
      ultimately show False using assms(2) that unfolding disjoint_bufs_def by (metis less_Suc_eq_le)
    qed
    then show ?thesis by (simp add: at)
  qed
  then have "cstr m' src xs" using assms(1) cstr_cong [of xs m' src m] by simp
  moreover have "m' a = m a" if "length xs < unat (a - dest)" for a using that by (simp add: at)
  ultimately show thesis by (rule that)
qed

text \<open>
  \<open>strcat\<close> of two terminated strings, with a source that does not touch the destination
  buffer, returns and leaves the concatenation at the destination; the source and every byte outside
  the appended part are unchanged.
\<close>

theorem strcat_correct:
  assumes "cstr m dest xs" and "cstr m src ys"
    and "disjoint_bufs dest (Suc (length xs + length ys)) src (Suc (length ys))"
    and "length xs + length ys < 2 ^ 32"
  shows "\<exists>m'. strcat dest src m = Some m' \<and> cstr m' dest (xs @ ys) \<and> cstr m' src ys \<and>
           (\<forall>a. length ys < unat (a - (dest + of_nat (length xs))) \<longrightarrow> m' a = m a)"
proof -
  let ?d = "dest + of_nat (length xs)"
  have "disjoint_bufs ?d (Suc (length ys)) src (Suc (length ys))"
    unfolding disjoint_bufs_def
  proof (intro allI impI)
    fix i j assume "i < Suc (length ys)" "j < Suc (length ys)"
    then have "length xs + i < Suc (length xs + length ys)" "j < Suc (length ys)" by simp_all
    then have "dest + of_nat (length xs + i) \<noteq> src + of_nat j"
      using assms(3) unfolding disjoint_bufs_def by blast
    then show "?d + of_nat i \<noteq> src + of_nat j" by (simp add: add.assoc)
  qed
  with assms(2) obtain m' where cp: "copy_str ?d src m = Some m'" "cstr m' ?d ys" "cstr m' src ys"
    "\<And>a. length ys < unat (a - ?d) \<Longrightarrow> m' a = m a" by (rule copy_str_cstr) blast
  have keep: "m' (dest + of_nat i) = m (dest + of_nat i)" if "i < length xs" for i
  proof (rule cp(4))
    define k where "k = length xs - i"
    have k: "0 < k" "k + length ys < 2 ^ 32" using that assms(4) by (simp_all add: k_def)
    have uk: "unat (of_nat k :: u32) = k" using k by (simp add: unat_of_nat)
    have "length xs = i + k" using that by (simp add: k_def)
    then have "dest + of_nat i - ?d = 0 - of_nat k" by simp
    moreover have "unat (0 - of_nat k :: u32) = 2 ^ 32 - k" using unat_diff_wrap [of 0 "of_nat k"] k(1) uk by simp
    ultimately show "length ys < unat (dest + of_nat i - ?d)" using k by simp
  qed
  have "cstr m' dest (xs @ ys)"
    using assms(1) cp(2) keep unfolding cstr_iff
    by (auto simp: nth_append add.assoc) (metis add_diff_inverse_nat add_less_cancel_left of_nat_add)
  moreover have "strcat dest src m = Some m'" using cp(1) find_end_cstr [OF assms(1)] by (simp add: strcat_def)
  ultimately show ?thesis using cp(3,4) by blast
qed

text \<open>A memory with the string \<open>ab\<close> at 100 and \<open>c\<close> at 200, zero elsewhere.\<close>

definition two_strings :: mem where
  "two_strings = (\<lambda>_. 0)(100 := 97, 101 := 98, 200 := 99)"

theorem strcat_correct_witness:
  "\<exists>m'. strcat 100 200 two_strings = Some m' \<and> cstr m' 100 [97, 98, 99]"
proof -
  have "cstr two_strings 100 [97, 98]" "cstr two_strings 200 [99]" by (simp_all add: two_strings_def)
  moreover have "disjoint_bufs 100 (Suc (length [97, 98 :: u8] + length [99 :: u8])) 200 (Suc (length [99 :: u8]))"
    by (simp add: disjoint_bufs_def less_Suc_eq)
  ultimately have "\<exists>m'. strcat 100 200 two_strings = Some m' \<and> cstr m' 100 ([97, 98] @ [99]) \<and> cstr m' 200 [99] \<and>
      (\<forall>a. length [99 :: u8] < unat (a - (100 + of_nat (length [97, 98 :: u8]))) \<longrightarrow> m' a = two_strings a)"
    by (rule strcat_correct) simp
  then show ?thesis by auto
qed

section \<open>Comparison\<close>

fun byte_cmp :: "u8 list \<Rightarrow> u8 list \<Rightarrow> int" where
  "byte_cmp [] [] = 0"
| "byte_cmp [] (y # ys) = - uint y"
| "byte_cmp (x # xs) [] = uint x"
| "byte_cmp (x # xs) (y # ys) = (if x = y then byte_cmp xs ys else uint x - uint y)"

lemma strcmp_byte_cmp: "cstr m p xs \<Longrightarrow> cstr m q ys \<Longrightarrow> strcmp p q m = Some (byte_cmp xs ys)"
proof (induction xs ys arbitrary: p q rule: byte_cmp.induct)
  case 1
  then show ?case by (simp add: strcmp.simps [of p q m])
next
  case (2 y ys)
  then show ?case by (simp add: strcmp.simps [of p q m])
next
  case (3 x xs)
  then show ?case by (simp add: strcmp.simps [of p q m])
next
  case (4 x xs y ys)
  then show ?case by (auto simp: strcmp.simps [of p q m])
qed

lemma uint_pos: "(x :: u8) \<noteq> 0 \<Longrightarrow> 0 < uint x"
  using word_gt_0 [of x] by (simp add: word_less_def)

lemma byte_cmp_zero_iff: "0 \<notin> set xs \<Longrightarrow> 0 \<notin> set ys \<Longrightarrow> byte_cmp xs ys = 0 \<longleftrightarrow> xs = ys"
  by (induction xs ys rule: byte_cmp.induct) (auto simp: word_uint_eq_iff)

lemma byte_cmp_neg_iff:
  "0 \<notin> set xs \<Longrightarrow> 0 \<notin> set ys \<Longrightarrow> byte_cmp xs ys < 0 \<longleftrightarrow> (xs, ys) \<in> lexord {(a, b). a < b}"
  by (induction xs ys rule: byte_cmp.induct) (auto simp: word_less_def uint_pos)

text \<open>
  on terminated strings \<open>strcmp\<close> returns, with 0 exactly when they are equal and a
  negative number exactly when the first comes before the second in the lexicographic order of
  unsigned bytes.
\<close>

theorem strcmp_correct:
  assumes "cstr m p xs" and "cstr m q ys"
  shows "\<exists>r. strcmp p q m = Some r \<and> (r = 0 \<longleftrightarrow> xs = ys) \<and>
             (r < 0 \<longleftrightarrow> (xs, ys) \<in> lexord {(a, b). a < b})"
proof -
  have "0 \<notin> set xs" "0 \<notin> set ys" using assms by (simp_all add: cstr_iff)
  then show ?thesis
    using strcmp_byte_cmp [OF assms] byte_cmp_zero_iff [of xs ys] byte_cmp_neg_iff [of xs ys] by blast
qed

theorem strcmp_correct_witness: "\<exists>r. strcmp 100 200 two_strings = Some r \<and> r < 0"
  using strcmp_correct [of two_strings 100 "[97, 98]" 200 "[99]"] by (auto simp: two_strings_def)

section \<open>Searching\<close>

lemma strchr_cstr:
  "cstr m p xs \<Longrightarrow> c \<noteq> 0 \<Longrightarrow>
   strchr p c m = Some (if c \<in> set xs then p + of_nat (length (takeWhile (\<lambda>x. x \<noteq> c) xs)) else 0)"
proof (induction xs arbitrary: p)
  case Nil
  then show ?case by (simp add: strchr.simps [of p c m])
next
  case (Cons x xs)
  then show ?case by (auto simp: strchr.simps [of p c m] add.assoc)
qed

text \<open>A buffer that does not contain address 0, so that no pointer into it is \<open>NULL\<close>.\<close>

definition nonnull_buf :: "u32 \<Rightarrow> nat \<Rightarrow> bool" where
  "nonnull_buf p n \<longleftrightarrow> (\<forall>i < n. p + of_nat i \<noteq> 0)"

lemma strchr_found:
  assumes "cstr m q ds" and "nonnull_buf q (length ds)" and "c \<noteq> 0"
  shows "\<exists>r. strchr q c m = Some r \<and> (r \<noteq> 0 \<longleftrightarrow> c \<in> set ds)"
proof -
  have "length (takeWhile (\<lambda>x. x \<noteq> c) ds) < length ds" if "c \<in> set ds"
    using that by (induction ds) auto
  then show ?thesis
    using strchr_cstr [OF assms(1,3)] assms(2) unfolding nonnull_buf_def by auto
qed

lemma span_loop_cstr:
  assumes "cstr m q ds" and "nonnull_buf q (length ds)" and "cstr m p xs"
  shows "span_loop want p q m = Some (p + of_nat (length (takeWhile (\<lambda>x. (x \<in> set ds) = want) xs)))"
  using assms(3)
proof (induction xs arbitrary: p)
  case Nil
  then show ?case by (simp add: span_loop.simps [of want p q m])
next
  case (Cons x xs)
  then have x: "m p = x" "x \<noteq> 0" by simp_all
  obtain r where r: "strchr q x m = Some r" "r \<noteq> 0 \<longleftrightarrow> x \<in> set ds"
    using strchr_found [OF assms(1,2) x(2)] by blast
  from Cons r show ?case by (auto simp: span_loop.simps [of want p q m] x add.assoc)
qed

lemma strncmp_prefix:
  "cstr m h xs \<Longrightarrow> cstr m n ys \<Longrightarrow> strncmp_loop (length ys) h n m = 0 \<longleftrightarrow> prefix ys xs"
proof (induction ys arbitrary: h n xs)
  case Nil
  then show ?case by simp
next
  case (Cons y ys)
  show ?case
  proof (cases xs)
    case Nil
    with Cons.prems show ?thesis by (auto simp: word_uint_eq_iff)
  next
    case (Cons x xs')
    with Cons.prems Cons.IH [of "h + 1" xs' "n + 1"] show ?thesis by (auto simp: word_uint_eq_iff)
  qed
qed

fun find_sub :: "u8 list \<Rightarrow> u8 list \<Rightarrow> nat option" where
  "find_sub ys [] = None"
| "find_sub ys (x # xs) = (if prefix ys (x # xs) then Some 0 else map_option Suc (find_sub ys xs))"

lemma strstr_loop_find_sub:
  assumes "cstr m n ys" and "cstr m h xs"
  shows "strstr_loop h n m = Some (case find_sub ys xs of None \<Rightarrow> 0 | Some i \<Rightarrow> h + of_nat i)"
  using assms(2)
proof (induction xs arbitrary: h)
  case Nil
  then show ?case by (simp add: strstr_loop.simps [of h n m])
next
  case (Cons x xs)
  have len: "unat (of_nat (length ys) :: u32) = length ys"
    using cstr_length [OF assms(1)] by (simp add: unat_of_nat)
  have "strncmp h n (of_nat (length ys)) m = 0 \<longleftrightarrow> prefix ys (x # xs)"
    using strncmp_prefix [OF Cons.prems assms(1)] by (simp add: strncmp_def len)
  with Cons show ?case
    by (auto simp: strstr_loop.simps [of h n m] strlen_cstr [OF assms(1)] add.assoc split: option.splits)
qed

lemma find_sub_Some: "find_sub ys xs = Some i \<Longrightarrow> prefix ys (drop i xs) \<and> (\<forall>j < i. \<not> prefix ys (drop j xs))"
proof (induction xs arbitrary: i)
  case Nil
  then show ?case by simp
next
  case (Cons x xs)
  show ?case
  proof (cases "prefix ys (x # xs)")
    case True
    with Cons.prems show ?thesis by simp
  next
    case False
    with Cons.prems obtain k where "find_sub ys xs = Some k" "i = Suc k" by auto
    with Cons.IH False show ?thesis by (auto simp: less_Suc_eq_0_disj)
  qed
qed

lemma find_sub_None: "find_sub ys xs = None \<Longrightarrow> ys \<noteq> [] \<Longrightarrow> \<not> sublist ys xs"
  by (induction xs) (auto simp: sublist_Cons_right split: if_splits)

text \<open>
  on terminated strings \<open>strstr\<close> returns the address of the first occurrence of the
  needle in the haystack, and \<open>NULL\<close> exactly when the needle is not a substring.
\<close>

theorem strstr_correct:
  assumes "cstr m h xs" and "cstr m n ys"
  shows "if sublist ys xs
         then \<exists>i. strstr h n m = Some (h + of_nat i) \<and> prefix ys (drop i xs) \<and> (\<forall>j < i. \<not> prefix ys (drop j xs))
         else strstr h n m = Some 0"
proof (cases "ys = []")
  case True
  with assms show ?thesis by (auto simp: strstr_def intro!: exI [of _ 0])
next
  case False
  then have "m n \<noteq> 0" using assms(2) by (cases ys) auto
  then have run: "strstr h n m = Some (case find_sub ys xs of None \<Rightarrow> 0 | Some i \<Rightarrow> h + of_nat i)"
    using strstr_loop_find_sub [OF assms(2,1)] by (simp add: strstr_def)
  show ?thesis
  proof (cases "find_sub ys xs")
    case None
    with False run show ?thesis by (simp add: find_sub_None)
  next
    case (Some i)
    then have occ: "prefix ys (drop i xs)" "\<forall>j < i. \<not> prefix ys (drop j xs)" using find_sub_Some by blast+
    then have "sublist ys xs" by (meson prefix_imp_sublist sublist_drop sublist_order.order_trans)
    with Some run occ show ?thesis by auto
  qed
qed

theorem strstr_correct_witness: "strstr 100 200 two_strings = Some 0"
  using strstr_correct [of two_strings 100 "[97, 98]" 200 "[99]"] by (simp add: two_strings_def sublist_Cons_right)

section \<open>Tokens\<close>

lemma cstr_drop: "cstr m p xs \<Longrightarrow> i \<le> length xs \<Longrightarrow> cstr m (p + of_nat i) (drop i xs)"
proof (induction i arbitrary: p xs)
  case 0
  then show ?case by simp
next
  case (Suc i)
  then obtain x xs' where "xs = x # xs'" by (cases xs) auto
  with Suc.IH [of "p + 1" xs'] Suc.prems show ?case by (simp add: add.assoc)
qed

text \<open>Cutting a terminated string in two by a zero byte.\<close>

lemma cstr_cut:
  assumes "cstr m t ys" and "k < length ys"
  shows "cstr (m(t + of_nat k := 0)) t (take k ys)"
    and "cstr (m(t + of_nat k := 0)) (t + of_nat k + 1) (drop (Suc k) ys)"
proof -
  let ?m = "m(t + of_nat k := 0)"
  have len: "length ys < 2 ^ 32" using assms(1) by (rule cstr_length)
  have ne: "t + of_nat i \<noteq> t + of_nat k" if "i \<le> length ys" "i \<noteq> k" for i
  proof
    assume "t + of_nat i = t + of_nat k"
    then have "(of_nat i :: u32) = of_nat k" by simp
    then have "unat (of_nat i :: u32) = unat (of_nat k :: u32)" by simp
    with that assms(2) len show False by (simp add: unat_of_nat)
  qed
  have at: "?m (t + of_nat i) = (if i = k then 0 else m (t + of_nat i))" if "i \<le> length ys" for i
    using ne [OF that] by auto
  show "cstr ?m t (take k ys)"
    using assms at unfolding cstr_iff by (auto dest: in_set_takeD)
  have "m (t + of_nat k + 1 + of_nat i) = ?m (t + of_nat k + 1 + of_nat i)" if "i \<le> length (drop (Suc k) ys)" for i
    using at [of "Suc (k + i)"] that assms(2) by (simp add: algebra_simps)
  then have "cstr ?m (t + of_nat k + 1) (drop (Suc k) ys) = cstr m (t + of_nat k + 1) (drop (Suc k) ys)"
    by (intro cstr_cong) simp
  also have "\<dots>" using cstr_drop [OF assms(1), of "Suc k"] assms(2) by (simp add: algebra_simps)
  finally show "cstr ?m (t + of_nat k + 1) (drop (Suc k) ys)" .
qed

lemma takeWhile_append_dropWhile_length:
  "length xs = length (takeWhile P xs) + length (dropWhile P xs)"
  by (metis length_append takeWhile_dropWhile_id)

text \<open>
  \<open>strtok\<close> on a terminated string skips leading delimiters; if nothing is left it returns
  \<open>NULL\<close> and forgets the string, otherwise it returns the address of the maximal delimiter-free
  token, terminated in place, and remembers the string after that token, or nothing when the token was
  the last one.
\<close>

theorem strtok_correct:
  assumes "cstr m str xs" and "str \<noteq> 0" and "cstr m delim ds" and "nonnull_buf delim (length ds)"
  shows "let ys = dropWhile (\<lambda>x. x \<in> set ds) xs; tok = takeWhile (\<lambda>x. x \<notin> set ds) ys;
             t = str + of_nat (length xs - length ys)
         in case ys of
              [] \<Rightarrow> strtok str delim st m = Some (0, 0, m)
            | y # _ \<Rightarrow>
                (\<exists>st' m'. strtok str delim st m = Some (t, st', m') \<and> cstr m' t tok \<and>
                   (if tok = ys then st' = 0 \<and> m' = m
                    else st' = t + of_nat (length tok) + 1 \<and> cstr m' st' (drop (Suc (length tok)) ys)))"
proof -
  define ys where "ys = dropWhile (\<lambda>x. x \<in> set ds) xs"
  define tok where "tok = takeWhile (\<lambda>x. x \<notin> set ds) ys"
  define k where "k = length (takeWhile (\<lambda>x. x \<in> set ds) xs)"
  define t where "t = str + of_nat k"
  have k: "k = length xs - length ys" "k \<le> length xs" "ys = drop k xs"
    using takeWhile_append_dropWhile_length [of xs "\<lambda>x. x \<in> set ds"]
    by (simp_all add: k_def ys_def dropWhile_eq_drop)
  have ys_at: "cstr m t ys" using cstr_drop [OF assms(1) k(2)] by (simp add: t_def k(3))
  have spn: "strspn str delim m = Some (of_nat k)"
    using span_loop_cstr [OF assms(3,4,1), of True] by (simp add: strspn_def k_def)
  have cspn: "strcspn t delim m = Some (of_nat (length tok))"
    using span_loop_cstr [OF assms(3,4) ys_at, of False] by (simp add: strcspn_def tok_def)
  have tok: "tok = take (length tok) ys" "length tok \<le> length ys"
    using takeWhile_eq_take [of "\<lambda>x. x \<notin> set ds" ys] by (simp_all add: tok_def length_takeWhile_le)
  have none: "strtok str delim st m = Some (0, 0, m)" if "ys = []"
    using that ys_at assms(2) spn by (simp add: strtok_def Let_def t_def)
  have some: "\<exists>st' m'. strtok str delim st m = Some (t, st', m') \<and> cstr m' t tok \<and>
                 (if tok = ys then st' = 0 \<and> m' = m
                  else st' = t + of_nat (length tok) + 1 \<and> cstr m' st' (drop (Suc (length tok)) ys))"
    if "ys \<noteq> []"
  proof -
    have "m t \<noteq> 0" using that ys_at by (cases ys) auto
    then have run: "strtok str delim st m =
        (if m (t + of_nat (length tok)) \<noteq> 0
         then Some (t, t + of_nat (length tok) + 1, m(t + of_nat (length tok) := 0)) else Some (t, 0, m))"
      using assms(2) spn cspn by (simp add: strtok_def Let_def t_def [symmetric])
    have rest: "m (t + of_nat (length tok)) \<noteq> 0 \<longleftrightarrow> length tok < length ys"
      using ys_at tok(2) unfolding cstr_iff by (metis le_neq_implies_less nth_mem)
    have eq: "tok = ys \<longleftrightarrow> \<not> length tok < length ys" using tok by (metis less_irrefl not_le take_all)
    show ?thesis
    proof (cases "length tok < length ys")
      case True
      with cstr_cut [OF ys_at True] run rest eq tok(1) show ?thesis by auto
    next
      case False
      with run rest eq ys_at show ?thesis by auto
    qed
  qed
  have tt: "str + of_nat (length xs - length ys) = t" by (simp add: t_def k(1))
  show ?thesis
    unfolding Let_def ys_def [symmetric] tok_def [symmetric] tt
    by (subst list.split) (use none some in blast)
qed

theorem strtok_correct_witness:
  "\<exists>m'. strtok 100 200 0 (two_strings(102 := 99, 103 := 97)) = Some (100, 103, m') \<and>
        cstr m' 100 [97, 98] \<and> cstr m' 103 [97]"
proof -
  let ?m = "two_strings(102 := 99, 103 := 97)"
  have "cstr ?m 100 [97, 98, 99, 97]" "cstr ?m 200 [99]" by (simp_all add: two_strings_def)
  moreover have "nonnull_buf 200 (length [99 :: u8])" by (simp add: nonnull_buf_def)
  ultimately show ?thesis using strtok_correct [of ?m 100 "[97, 98, 99, 97]" 200 "[99]" 0] by (simp add: Let_def)
qed

end
