(* ===== verification/Vmm.thy ===== *)
theory Vmm
  imports Keyboard Serial ByteMemory Pmm
begin

text \<open>
  The virtual memory manager, \<^verbatim>\<open>kernel/memory/vmm.c\<close>: two-level page tables in physical memory.
  The page directories and tables the code walks lie below 80 MB, where the kernel maps every address
  to itself, so a dereference is an access to the physical memory \<open>mem\<close> at the pointer. The
  link-time addresses of the static arrays \<open>kernel_page_directory\<close> and
  \<open>kernel_page_table\<close> are fields no operation changes. \<open>walk\<close> is the address translation
  of the processor.
\<close>

section \<open>State and operations\<close>

definition PAGE_PRESENT :: u32 where "PAGE_PRESENT = 0x001"
definition PAGE_WRITABLE :: u32 where "PAGE_WRITABLE = 0x002"
definition PAGE_USER :: u32 where "PAGE_USER = 0x004"

record vmm_state = kbd_state +
  mem :: mem
  cr0 :: u32
  cr3 :: u32
  invlpg_log :: "u32 list"
  pmm :: pmm_state
  kernel_page_directory :: u32
  kernel_page_table :: u32

text \<open>Reading and writing element \<open>i\<close> of a \<open>uint32_t\<close> array.\<close>

definition entry_get :: "u32 \<Rightarrow> u32 \<Rightarrow> 'a vmm_state_scheme \<Rightarrow> u32" where
  "entry_get arr i s = load32 (mem s) (arr + 4 * i)"

definition entry_set :: "u32 \<Rightarrow> u32 \<Rightarrow> u32 \<Rightarrow> 'a vmm_state_scheme \<Rightarrow> 'a vmm_state_scheme" where
  "entry_set arr i v s = s\<lparr>mem := store32 (arr + 4 * i) v (mem s)\<rparr>"

definition clear_entries :: "u32 \<Rightarrow> 'a vmm_state_scheme \<Rightarrow> 'a vmm_state_scheme" where
  "clear_entries arr = for_upto 0 1024 (\<lambda>i. entry_set arr (of_nat i) 0)"

definition alloc_page :: "'a vmm_state_scheme \<Rightarrow> u32 \<times> 'a vmm_state_scheme" where
  "alloc_page s = (let (a, p) = pmm_alloc_page (pmm s) in (a, s\<lparr>pmm := p\<rparr>))"

definition vmm_switch_directory :: "u32 \<Rightarrow> 'a vmm_state_scheme \<Rightarrow> 'a vmm_state_scheme" where
  "vmm_switch_directory page_dir s = s\<lparr>cr3 := page_dir\<rparr>"

definition vmm_get_current_directory :: "'a vmm_state_scheme \<Rightarrow> u32" where
  "vmm_get_current_directory s = cr3 s"

definition vmm_enable_paging :: "'a vmm_state_scheme \<Rightarrow> 'a vmm_state_scheme" where
  "vmm_enable_paging s = s\<lparr>cr0 := cr0 s OR 0x80000000\<rparr>"

definition vmm_disable_paging :: "'a vmm_state_scheme \<Rightarrow> 'a vmm_state_scheme" where
  "vmm_disable_paging s = s\<lparr>cr0 := cr0 s AND NOT PAGE_PRESENT\<rparr>"

definition vmm_flush_tlb_entry :: "u32 \<Rightarrow> 'a vmm_state_scheme \<Rightarrow> 'a vmm_state_scheme" where
  "vmm_flush_tlb_entry addr s = s\<lparr>invlpg_log := addr # invlpg_log s\<rparr>"

definition vmm_flush_tlb :: "'a vmm_state_scheme \<Rightarrow> 'a vmm_state_scheme" where
  "vmm_flush_tlb s = s\<lparr>cr3 := cr3 s\<rparr>"

definition line_bytes :: "string \<Rightarrow> u8 list" where
  "line_bytes s = map of_char s @ [10]"

definition kernel_tables_clear :: "'a vmm_state_scheme \<Rightarrow> 'a vmm_state_scheme" where
  "kernel_tables_clear s =
     for_upto 0 20 (\<lambda>i. for_upto 0 1024 (\<lambda>j. entry_set (kernel_page_table s + of_nat i * 0x1000) (of_nat j) 0)) s"

definition kernel_tables_fill :: "'a vmm_state_scheme \<Rightarrow> 'a vmm_state_scheme" where
  "kernel_tables_fill s =
     for_upto 0 (80 * 1024 * 1024 div 0x1000)
       (\<lambda>i. let phys_addr = of_nat i * 0x1000
             in entry_set (kernel_page_table s + of_nat (i div 1024) * 0x1000) (of_nat (i mod 1024))
                  (phys_addr OR 0x001 OR 0x002)) s"

definition kernel_directory_fill :: "'a vmm_state_scheme \<Rightarrow> 'a vmm_state_scheme" where
  "kernel_directory_fill s =
     snd (for_upto 0 20
            (\<lambda>i (pt_addr, t). (pt_addr + 0x1000, entry_set (kernel_page_directory s) (of_nat i) (pt_addr OR 0x001 OR 0x002) t))
            (kernel_page_table s, s))"

definition vmm_init :: "'a vmm_state_scheme \<Rightarrow> 'a vmm_state_scheme option" where
  "vmm_init s0 = do {
     let s1 = s0\<lparr>pmm := pmm_init (pmm s0)\<rparr>;
     let s2 = clear_entries (kernel_page_directory s1) s1;
     let s3 = kernel_tables_clear s2;
     let s4 = kernel_tables_fill s3;
     let s5 = kernel_directory_fill s4;
     s6 \<leftarrow> hal_serial_write (line_bytes ''STAGE2b-pre-enable-paging'') 26 s5;
     let s7 = vmm_switch_directory (kernel_page_directory s6) s6;
     s8 \<leftarrow> hal_serial_write (line_bytes ''STAGE2b-dir-switched'') 21 s7;
     let s9 = vmm_enable_paging s8;
     hal_serial_write (line_bytes ''STAGE2b-paging-enabled'') 23 s9
   }"

definition vmm_create_address_space :: "'a vmm_state_scheme \<Rightarrow> u32 \<times> 'a vmm_state_scheme" where
  "vmm_create_address_space s =
     (let (phys, s1) = alloc_page s
      in if phys = 0 then (0, s1)
         else let s2 = clear_entries phys s1;
                  s3 = for_upto 0 20 (\<lambda>i t. entry_set phys (of_nat i) (entry_get (kernel_page_directory s) (of_nat i) t) t) s2
              in (phys, s3))"

definition page_dir_index :: "u32 \<Rightarrow> u32" where "page_dir_index vaddr = drop_bit 22 vaddr"
definition page_table_index :: "u32 \<Rightarrow> u32" where "page_table_index vaddr = drop_bit 12 vaddr AND 0x3FF"

definition vmm_map_page :: "u32 \<Rightarrow> u32 \<Rightarrow> u32 \<Rightarrow> 'a vmm_state_scheme \<Rightarrow> int \<times> 'a vmm_state_scheme" where
  "vmm_map_page virt_addr phys_addr flags s =
     (let page_dir = vmm_get_current_directory s;
          pde = entry_get page_dir (page_dir_index virt_addr) s;
          table = (if pde AND PAGE_PRESENT = 0
                   then let (pt_phys, s1) = alloc_page s
                        in if pt_phys = 0 then Inl s1
                           else let s2 = clear_entries pt_phys s1;
                                    pde' = pt_phys OR PAGE_PRESENT OR PAGE_WRITABLE
                                in Inr (pde', entry_set page_dir (page_dir_index virt_addr) pde' s2)
                   else Inr (pde, s))
      in case table of
           Inl s' \<Rightarrow> (-1, s')
         | Inr (pde, s') \<Rightarrow>
             let pt = pde AND 0xFFFFF000;
                 s'' = entry_set pt (page_table_index virt_addr)
                         ((phys_addr AND 0xFFFFF000) OR (flags AND 0xFFF) OR PAGE_PRESENT) s'
             in (0, vmm_flush_tlb_entry virt_addr s''))"

definition vmm_unmap_page :: "u32 \<Rightarrow> 'a vmm_state_scheme \<Rightarrow> 'a vmm_state_scheme" where
  "vmm_unmap_page virt_addr s =
     (let page_dir = vmm_get_current_directory s;
          pde = entry_get page_dir (page_dir_index virt_addr) s
      in if pde AND PAGE_PRESENT = 0 then s
         else vmm_flush_tlb_entry virt_addr
                (entry_set (pde AND 0xFFFFF000) (page_table_index virt_addr) 0 s))"

partial_function (option) mark_user_loop :: "u32 \<Rightarrow> u32 \<Rightarrow> u32 \<Rightarrow> 'a vmm_state_scheme \<Rightarrow> 'a vmm_state_scheme option" where
  "mark_user_loop dir addr end s =
     (if addr < end then
        (let pde = entry_get dir (page_dir_index addr) s
         in mark_user_loop dir (addr + 0x1000) end
              (if pde AND PAGE_PRESENT = 0 then s
               else let s1 = entry_set dir (page_dir_index addr) (entry_get dir (page_dir_index addr) s OR PAGE_USER) s;
                        pt = pde AND 0xFFFFF000;
                        s2 = entry_set pt (page_table_index addr) (entry_get pt (page_table_index addr) s1 OR PAGE_USER) s1
                    in vmm_flush_tlb_entry addr s2))
      else Some s)"

definition vmm_mark_user_range :: "u32 \<Rightarrow> u32 \<Rightarrow> 'a vmm_state_scheme \<Rightarrow> 'a vmm_state_scheme option" where
  "vmm_mark_user_range start len s =
     (let addr = start AND NOT 0xFFF;
          end = (start + len + 0xFFF) AND NOT 0xFFF
      in mark_user_loop (vmm_get_current_directory s) addr end s)"

definition vmm_alloc_map_page :: "u32 \<Rightarrow> u32 \<Rightarrow> 'a vmm_state_scheme \<Rightarrow> u32 \<times> 'a vmm_state_scheme" where
  "vmm_alloc_map_page virt_addr flags s =
     (let (phys_addr, s1) = alloc_page s
      in if phys_addr = 0 then (0, s1)
         else let (r, s2) = vmm_map_page virt_addr phys_addr flags s1
              in if r \<noteq> 0 then (0, s2\<lparr>pmm := pmm_free_page phys_addr (pmm s2)\<rparr>)
                 else (virt_addr, s2))"

definition vmm_get_physical_address :: "u32 \<Rightarrow> 'a vmm_state_scheme \<Rightarrow> u32" where
  "vmm_get_physical_address virt_addr s =
     (let page_dir = vmm_get_current_directory s;
          pde = entry_get page_dir (page_dir_index virt_addr) s
      in if pde AND PAGE_PRESENT = 0 then 0
         else entry_get (pde AND 0xFFFFF000) (page_table_index virt_addr) s AND 0xFFFFF000)"

section \<open>Entries of page tables\<close>

definition frame :: "u32 \<Rightarrow> bool" where
  "frame a \<longleftrightarrow> 4096 dvd unat a"

lemma managed_is_frame: "managed_frame a \<Longrightarrow> frame a"
  by (simp add: managed_frame_def frame_def mod_eq_0_iff_dvd)

lemma unat_u32_lt: "unat (a :: u32) < 4294967296"
  using unat_u32_less [of a] by simp

lemma frame_room:
  assumes "frame a"
  shows "unat a + 4096 \<le> 4294967296"
proof -
  obtain k where k: "unat a = 4096 * k" using assms unfolding frame_def by (rule dvdE)
  with unat_u32_lt [of a] have "k < 1048576" by simp
  with k show ?thesis by simp
qed

lemma frame_mask [simp]: "frame (x AND 0xFFFFF000)"
proof -
  have "(0xFFFFF000 :: u32) = NOT (mask 12)" by (simp add: mask_eq_exp_minus_1)
  then have "take_bit 12 (x AND 0xFFFFF000) = 0" by (auto intro: bit_word_eqI simp: bit_simps)
  then have "take_bit 12 (unat (x AND 0xFFFFF000)) = 0" by (metis unsigned_0 unsigned_take_bit_eq)
  then show ?thesis by (simp add: frame_def take_bit_eq_mod mod_eq_0_iff_dvd)
qed

lemma unat_entry:
  assumes "frame B" and "unat i < 1024"
  shows "unat (B + 4 * i) = unat B + 4 * unat i"
proof -
  have "unat (4 * i) = 4 * unat i" using assms(2) by (simp add: unat_word_ariths)
  then show ?thesis using frame_room [OF assms(1)] assms(2) by (simp add: unat_word_ariths)
qed

lemma aligned_entry: "frame B \<Longrightarrow> unat i < 1024 \<Longrightarrow> aligned4 (B + 4 * i)"
  by (auto simp: aligned4_def unat_entry frame_def intro: dvd_add dvd_trans [of 4 4096])

lemma entry_inj:
  assumes "frame A" "frame B" "unat i < 1024" "unat j < 1024"
  shows "A + 4 * i = B + 4 * j \<longleftrightarrow> A = B \<and> i = j"
proof
  assume "A + 4 * i = B + 4 * j"
  then have eq: "unat A + 4 * unat i = unat B + 4 * unat j" using assms by (metis unat_entry)
  obtain k l where kl: "unat A = 4096 * k" "unat B = 4096 * l"
    using assms(1,2) unfolding frame_def by (auto elim!: dvdE)
  have "k = (unat A + 4 * unat i) div 4096" "l = (unat B + 4 * unat j) div 4096" using kl assms(3,4) by simp_all
  then have "k = l" using eq by simp
  then show "A = B \<and> i = j" using kl eq by (simp add: word_unat_eq_iff)
qed simp

lemma entry_get_set:
  assumes "frame A" "frame B" "unat i < 1024" "unat j < 1024"
  shows "entry_get A i (entry_set B j v s) = (if A = B \<and> i = j then v else entry_get A i s)"
  using load32_store32 [OF aligned_entry [OF assms(2,4)] aligned_entry [OF assms(1,3)]] entry_inj [OF assms]
  by (auto simp: entry_get_def entry_set_def)

lemma clear_entries_get:
  assumes "frame A" "frame B" "unat i < 1024"
  shows "entry_get A i (clear_entries B s) = (if A = B then 0 else entry_get A i s)"
proof -
  have "entry_get A i (clear_entries B s) = (if A = B \<and> unat i < 1024 then 0 else entry_get A i s)"
    unfolding clear_entries_def
  proof (rule for_upto_invariant [where I = "\<lambda>k t. entry_get A i t = (if A = B \<and> unat i < k then 0 else entry_get A i s)"])
    fix k t assume k: "k < (1024 :: nat)" and IH: "entry_get A i t = (if A = B \<and> unat i < k then 0 else entry_get A i s)"
    have uk: "unat (of_nat k :: u32) = k" using k by (simp add: unat_of_nat)
    have "i = of_nat k \<longleftrightarrow> unat i = k" using uk by (metis word_unat_eq_iff)
    then show "entry_get A i (entry_set B (of_nat k) 0 t) = (if A = B \<and> unat i < Suc k then 0 else entry_get A i s)"
      using IH k uk assms by (auto simp: entry_get_set)
  qed simp_all
  with assms(3) show ?thesis by simp
qed

section \<open>Address translation\<close>

text \<open>The page walk of the processor from a page directory: the page table entry that maps a virtual
  address, if both levels are present.\<close>

definition walk_in :: "u32 \<Rightarrow> 'a vmm_state_scheme \<Rightarrow> u32 \<Rightarrow> u32 option" where
  "walk_in dir s va =
     (let pde = entry_get dir (page_dir_index va) s
      in if pde AND PAGE_PRESENT = 0 then None
         else let pte = entry_get (pde AND 0xFFFFF000) (page_table_index va) s
              in if pte AND PAGE_PRESENT = 0 then None else Some pte)"

abbreviation walk :: "'a vmm_state_scheme \<Rightarrow> u32 \<Rightarrow> u32 option" where
  "walk s \<equiv> walk_in (cr3 s) s"

abbreviation present :: "u32 \<Rightarrow> u32 \<Rightarrow> 'a vmm_state_scheme \<Rightarrow> bool" where
  "present dir i s \<equiv> entry_get dir i s AND PAGE_PRESENT \<noteq> 0"

abbreviation table_of :: "u32 \<Rightarrow> u32 \<Rightarrow> 'a vmm_state_scheme \<Rightarrow> u32" where
  "table_of dir i s \<equiv> entry_get dir i s AND 0xFFFFF000"

text \<open>A directory is well formed when its tables are different frames, none of them is the directory,
  and none of all these frames is free.\<close>

definition dir_wf :: "u32 \<Rightarrow> 'a vmm_state_scheme \<Rightarrow> bool" where
  "dir_wf dir s \<longleftrightarrow> frame dir \<and> pmm_wf (pmm s) \<and> dir \<notin> free_frames (pmm s) \<and>
     (\<forall>i. unat i < 1024 \<longrightarrow> present dir i s \<longrightarrow> table_of dir i s \<noteq> dir \<and> table_of dir i s \<notin> free_frames (pmm s)) \<and>
     (\<forall>i j. unat i < 1024 \<longrightarrow> unat j < 1024 \<longrightarrow> i \<noteq> j \<longrightarrow> present dir i s \<longrightarrow> present dir j s \<longrightarrow>
            table_of dir i s \<noteq> table_of dir j s)"

lemma entry_get_simps [simp]:
  "entry_get A i (s\<lparr>pmm := p\<rparr>) = entry_get A i s"
  "entry_get A i (vmm_flush_tlb_entry a s) = entry_get A i s"
  "entry_get A i (s\<lparr>cr3 := c\<rparr>) = entry_get A i s"
  by (simp_all add: entry_get_def vmm_flush_tlb_entry_def)

lemma vmm_fields [simp]:
  "pmm (entry_set A i v s) = pmm s" "cr3 (entry_set A i v s) = cr3 s"
  "pmm (vmm_flush_tlb_entry a s) = pmm s" "cr3 (vmm_flush_tlb_entry a s) = cr3 s"
  by (simp_all add: entry_set_def vmm_flush_tlb_entry_def)

lemma clear_entries_fields [simp]:
  "pmm (clear_entries A s) = pmm s" "cr3 (clear_entries A s) = cr3 s"
proof -
  have "pmm (clear_entries A s) = pmm s \<and> cr3 (clear_entries A s) = cr3 s"
    unfolding clear_entries_def
    by (rule for_upto_invariant [where I = "\<lambda>k t. pmm t = pmm s \<and> cr3 t = cr3 s"]) simp_all
  then show "pmm (clear_entries A s) = pmm s" "cr3 (clear_entries A s) = cr3 s" by simp_all
qed

lemma walk_in_flush [simp]: "walk_in d (vmm_flush_tlb_entry a s) = walk_in d s"
  by (simp add: walk_in_def fun_eq_iff Let_def)

lemma unat_page_dir_index: "unat (page_dir_index va) = unat va div 4194304"
  by (simp only: page_dir_index_def unat_drop_bit_eq) (simp add: drop_bit_eq_div)

lemma unat_page_table_index: "unat (page_table_index va) = unat va div 4096 mod 1024"
  unfolding page_table_index_def mask_literals take_bit_eq_mask [symmetric]
  by (simp only: unsigned_take_bit_eq unat_drop_bit_eq) (simp add: drop_bit_eq_div take_bit_eq_mod)

lemma index_bounds [simp]: "unat (page_dir_index va) < 1024" "unat (page_table_index va) < 1024"
  using unat_u32_lt [of va] by (simp_all add: unat_page_dir_index unat_page_table_index)

lemma same_page_iff:
  "page_dir_index vb = page_dir_index va \<and> page_table_index vb = page_table_index va \<longleftrightarrow>
   drop_bit 12 vb = drop_bit 12 va"
proof -
  have up: "n div 4194304 = n div 4096 div 1024" for n :: nat using div_mult2_eq [of n 4096 1024] by simp
  have both: "x = y \<longleftrightarrow> x div 1024 = y div 1024 \<and> x mod 1024 = y mod 1024" for x y :: nat
    by (metis div_mult_mod_eq)
  have "unat (drop_bit 12 v) = unat v div 4096" for v :: u32
    by (simp only: unat_drop_bit_eq) (simp add: drop_bit_eq_div)
  then have "drop_bit 12 vb = drop_bit 12 va \<longleftrightarrow> unat vb div 4096 = unat va div 4096"
    by (metis word_unat_eq_iff)
  also have "\<dots> \<longleftrightarrow> unat vb div 4194304 = unat va div 4194304 \<and> unat vb div 4096 mod 1024 = unat va div 4096 mod 1024"
    unfolding up by (rule both)
  finally show ?thesis by (simp add: word_unat_eq_iff unat_page_dir_index unat_page_table_index)
qed

lemma frame_low_bits: "frame a \<Longrightarrow> n < 12 \<Longrightarrow> \<not> bit a n"
proof -
  assume "frame a" "n < 12"
  then have "take_bit 12 (unat a) = 0" by (simp add: frame_def take_bit_eq_mod mod_eq_0_iff_dvd)
  then have "take_bit 12 a = 0" by (metis unsigned_0 unsigned_take_bit_eq word_unat_eq_iff)
  moreover have "bit (take_bit 12 a) n = bit a n" using \<open>n < 12\<close> by (simp add: bit_take_bit_iff)
  ultimately show ?thesis by simp
qed

lemma high_mask: "(0xFFFFF000 :: u32) = NOT (mask 12)"
  by (simp add: mask_eq_exp_minus_1)

lemma pde_table:
  assumes "frame a"
  shows "(a OR 3) AND 0xFFFFF000 = a" and "(a OR 3) AND PAGE_PRESENT \<noteq> 0"
proof -
  have three: "(3 :: u32) = mask 2" by (simp add: mask_eq_exp_minus_1)
  have "(a OR mask 2) AND NOT (mask 12) = a"
    using frame_low_bits [OF assms] by (intro bit_word_eqI) (auto simp: bit_simps)
  then show "(a OR 3) AND 0xFFFFF000 = a" by (simp only: high_mask three)
  have "bit (a OR 3) 0" unfolding three by (simp add: bit_simps)
  then show "(a OR 3) AND PAGE_PRESENT \<noteq> 0"
    unfolding PAGE_PRESENT_def by (metis and_flag_eq_0_iff power_0)
qed

lemma pte_present: "((p AND 0xFFFFF000) OR (f AND 0xFFF) OR PAGE_PRESENT) AND PAGE_PRESENT \<noteq> 0"
proof -
  have "bit ((p AND 0xFFFFF000) OR (f AND 0xFFF) OR 1) 0" by (simp add: bit_simps)
  then show ?thesis unfolding PAGE_PRESENT_def by (metis and_flag_eq_0_iff power_0)
qed

lemma dir_wfD:
  assumes "dir_wf dir s"
  shows "frame dir" and "pmm_wf (pmm s)" and "dir \<notin> free_frames (pmm s)"
    and "unat i < 1024 \<Longrightarrow> present dir i s \<Longrightarrow> table_of dir i s \<noteq> dir"
    and "unat i < 1024 \<Longrightarrow> present dir i s \<Longrightarrow> table_of dir i s \<notin> free_frames (pmm s)"
    and "unat i < 1024 \<Longrightarrow> unat j < 1024 \<Longrightarrow> present dir i s \<Longrightarrow> present dir j s \<Longrightarrow>
         table_of dir i s = table_of dir j s \<Longrightarrow> i = j"
  using assms unfolding dir_wf_def by blast+

lemma dir_wf_cong:
  assumes "pmm s' = pmm s" and "\<And>i. unat i < 1024 \<Longrightarrow> entry_get dir i s' = entry_get dir i s"
  shows "dir_wf dir s' = dir_wf dir s"
  using assms unfolding dir_wf_def by simp

text \<open>Writing an entry of a table that the directory points to.\<close>

lemma set_table_entry:
  assumes wf: "dir_wf dir s" and pr: "present dir (page_dir_index va) s"
    and s'_def: "s' = entry_set (table_of dir (page_dir_index va) s) (page_table_index va) v s"
  shows "dir_wf dir s'"
    and "walk_in dir s' vb = (if drop_bit 12 vb = drop_bit 12 va
           then (if v AND PAGE_PRESENT = 0 then None else Some v) else walk_in dir s vb)"
proof -
  let ?T = "table_of dir (page_dir_index va) s"
  have ne: "?T \<noteq> dir" using dir_wfD(4) [OF wf _ pr] by simp
  have dir: "entry_get dir i s' = entry_get dir i s" if "unat i < 1024" for i
    using ne that dir_wfD(1) [OF wf] by (simp add: s'_def entry_get_set)
  have p: "pmm s' = pmm s" by (simp add: s'_def)
  show "dir_wf dir s'" using dir_wf_cong [OF p dir] wf by simp
  show "walk_in dir s' vb = (if drop_bit 12 vb = drop_bit 12 va
           then (if v AND PAGE_PRESENT = 0 then None else Some v) else walk_in dir s vb)"
  proof (cases "present dir (page_dir_index vb) s")
    case True
    have "table_of dir (page_dir_index vb) s = ?T \<longleftrightarrow> page_dir_index vb = page_dir_index va"
      using dir_wfD(6) [OF wf _ _ True pr] by auto
    then show ?thesis
      using True dir by (auto simp: walk_in_def Let_def s'_def entry_get_set same_page_iff [symmetric])
  next
    case False
    with pr have "page_dir_index vb \<noteq> page_dir_index va" by auto
    with False dir show ?thesis by (auto simp: walk_in_def Let_def same_page_iff [symmetric])
  qed
qed

text \<open>Installing a cleared table from a free frame.\<close>

lemma install_table:
  assumes wf: "dir_wf dir s" and ab: "\<not> present dir (page_dir_index va) s"
    and fr: "f \<in> free_frames (pmm s)" "free_frames p = free_frames (pmm s) - {f}" "pmm_wf p"
    and s'_def: "s' = entry_set dir (page_dir_index va) (f OR 3) (clear_entries f (s\<lparr>pmm := p\<rparr>))"
  shows "dir_wf dir s'" and "present dir (page_dir_index va) s'" and "table_of dir (page_dir_index va) s' = f"
    and "walk_in dir s' vb = walk_in dir s vb"
proof -
  have f: "frame f" "f \<noteq> dir" using fr(1) pa.frames_managed dir_wfD(3) [OF wf] managed_is_frame by blast+
  have fdir: "frame dir" using wf by (rule dir_wfD)
  have dir: "entry_get dir i s' = (if i = page_dir_index va then f OR 3 else entry_get dir i s)"
    if "unat i < 1024" for i
    using that f fdir by (simp add: s'_def entry_get_set clear_entries_get)
  have other: "entry_get A i s' = (if A = f then 0 else entry_get A i s)"
    if "unat i < 1024" "frame A" "A \<noteq> dir" for A i
    using that f fdir by (simp add: s'_def entry_get_set clear_entries_get)
  have p: "pmm s' = p" by (simp add: s'_def)
  note tab = pde_table [OF f(1)]
  show pr: "present dir (page_dir_index va) s'" and tb: "table_of dir (page_dir_index va) s' = f"
    by (simp_all add: dir tab)
  have old: "table_of dir i s \<noteq> f" if "unat i < 1024" "present dir i s" for i
    using dir_wfD(5) [OF wf that] fr(1) by blast
  show "dir_wf dir s'"
    unfolding dir_wf_def p
  proof (intro conjI allI impI)
    show "frame dir" "pmm_wf p" "dir \<notin> free_frames p" using fdir fr dir_wfD(3) [OF wf] by simp_all
    fix i assume i: "unat i < 1024" "present dir i s'"
    show "table_of dir i s' \<noteq> dir" and "table_of dir i s' \<notin> free_frames p"
      using i dir_wfD(4,5) [OF wf i(1)] f(2) fr(2) by (auto simp: dir tab split: if_splits)
    fix j assume j: "unat j < 1024" "i \<noteq> j" "present dir j s'"
    show "table_of dir i s' \<noteq> table_of dir j s'"
      using i j dir_wfD(6) [OF wf i(1) j(1)] old by (auto simp: dir tab split: if_splits)
  qed
  show "walk_in dir s' vb = walk_in dir s vb"
  proof (cases "page_dir_index vb = page_dir_index va")
    case True
    then show ?thesis using ab f by (simp add: walk_in_def Let_def dir tab other)
  next
    case False
    show ?thesis
    proof (cases "present dir (page_dir_index vb) s")
      case pb: True
      have "table_of dir (page_dir_index vb) s \<noteq> dir" "table_of dir (page_dir_index vb) s \<noteq> f"
        using dir_wfD(4) [OF wf _ pb] old [OF _ pb] by simp_all
      with False show ?thesis by (simp add: walk_in_def Let_def dir other)
    next
      case False
      with \<open>page_dir_index vb \<noteq> page_dir_index va\<close> show ?thesis by (simp add: walk_in_def Let_def dir)
    qed
  qed
qed

section \<open>Mapping and unmapping\<close>

lemma alloc_page_cases:
  assumes "pmm_wf (pmm s)" and "alloc_page s = (a, s1)"
  obtains (full) "a = 0" "s1 = s" "free_frames (pmm s) = {}"
        | (frame) p where "a \<noteq> 0" "a \<in> free_frames (pmm s)" "frame a" "s1 = s\<lparr>pmm := p\<rparr>"
            "free_frames p = free_frames (pmm s) - {a}" "pmm_wf p"
proof -
  obtain p where p: "pmm_alloc_page (pmm s) = (a, p)" "s1 = s\<lparr>pmm := p\<rparr>"
    using assms(2) by (auto simp: alloc_page_def split: prod.splits)
  from assms(1) p(1) show thesis
  proof (cases rule: pa.alloc_cases)
    case empty
    then show ?thesis using full p(2) by simp
  next
    case frame
    then show ?thesis using that(2) p(2) managed_is_frame by blast
  qed
qed

text \<open>The page table entry \<open>vmm_map_page\<close> writes.\<close>

abbreviation new_pte :: "u32 \<Rightarrow> u32 \<Rightarrow> u32" where
  "new_pte pa fl \<equiv> (pa AND 0xFFFFF000) OR (fl AND 0xFFF) OR PAGE_PRESENT"

lemma vmm_map_page_present:
  assumes wf: "dir_wf (cr3 s) s" and pr: "present (cr3 s) (page_dir_index va) s"
  obtains s' where "vmm_map_page va pa fl s = (0, s')" and "dir_wf (cr3 s) s'" and "cr3 s' = cr3 s"
    and "pmm s' = pmm s"
    and "\<And>vb. walk s' vb = (if drop_bit 12 vb = drop_bit 12 va then Some (new_pte pa fl) else walk s vb)"
proof -
  let ?t = "entry_set (table_of (cr3 s) (page_dir_index va) s) (page_table_index va) (new_pte pa fl) s"
  let ?s = "vmm_flush_tlb_entry va ?t"
  have run: "vmm_map_page va pa fl s = (0, ?s)"
    using pr by (simp add: vmm_map_page_def vmm_get_current_directory_def Let_def)
  note st = set_table_entry [OF wf pr, of ?t "new_pte pa fl", OF refl]
  have "dir_wf (cr3 s) ?s" using st(1) dir_wf_cong [of ?s ?t "cr3 s"] by simp
  then show thesis using that [OF run] st(2) pte_present by simp
qed

lemma vmm_map_page_absent:
  assumes wf: "dir_wf (cr3 s) s" and ab: "\<not> present (cr3 s) (page_dir_index va) s"
    and al: "alloc_page s = (f, s\<lparr>pmm := p\<rparr>)" "f \<noteq> 0" "f \<in> free_frames (pmm s)"
      "free_frames p = free_frames (pmm s) - {f}" "pmm_wf p"
  obtains s' where "vmm_map_page va pa fl s = (0, s')" and "dir_wf (cr3 s) s'" and "cr3 s' = cr3 s"
    and "pmm s' = p"
    and "\<And>vb. walk s' vb = (if drop_bit 12 vb = drop_bit 12 va then Some (new_pte pa fl) else walk s vb)"
proof -
  let ?t = "entry_set (cr3 s) (page_dir_index va) (f OR 3) (clear_entries f (s\<lparr>pmm := p\<rparr>))"
  note it = install_table [OF wf ab al(3-5), of ?t, OF refl]
  have cr: "cr3 ?t = cr3 s" "pmm ?t = p" by simp_all
  have wf_t: "dir_wf (cr3 ?t) ?t" and pr_t: "present (cr3 ?t) (page_dir_index va) ?t" using it(1,2) cr(1) by simp_all
  have f: "frame f" using al(3) pa.frames_managed managed_is_frame by blast
  obtain s' where s': "vmm_map_page va pa fl ?t = (0, s')" "dir_wf (cr3 ?t) s'" "cr3 s' = cr3 ?t" "pmm s' = pmm ?t"
    "\<And>vb. walk s' vb = (if drop_bit 12 vb = drop_bit 12 va then Some (new_pte pa fl) else walk ?t vb)"
    using wf_t pr_t by (rule vmm_map_page_present [where pa = pa and fl = fl]) (rule that)
  have "vmm_map_page va pa fl s = vmm_map_page va pa fl ?t"
    using ab al(1,2) it(2) pde_table [OF f]
    by (simp add: vmm_map_page_def vmm_get_current_directory_def Let_def entry_get_set dir_wfD(1) [OF wf]
        PAGE_WRITABLE_def) (simp add: PAGE_PRESENT_def)
  then show thesis using that [of s'] s' it(4) cr by simp
qed

lemma frame_masked: "frame a \<Longrightarrow> a AND 0xFFFFF000 = a"
  unfolding high_mask using frame_low_bits [of a] by (intro bit_word_eqI) (auto simp: bit_simps)

lemma dir_wf_shrink:
  assumes "dir_wf dir s" and "pmm_wf p" and "free_frames p \<subseteq> free_frames (pmm s)"
  shows "dir_wf dir (s\<lparr>pmm := p\<rparr>)"
  using assms unfolding dir_wf_def by (auto simp: subset_iff)

lemma vmm_map_page_cases:
  assumes "dir_wf (cr3 s) s" and "vmm_map_page va pa fl s = (r, s')"
  obtains (fail) "r = -1" "s' = s" "entry_get (cr3 s) (page_dir_index va) s AND PAGE_PRESENT = 0" "free_frames (pmm s) = {}"
        | (ok) "r = 0" "cr3 s' = cr3 s" "dir_wf (cr3 s) s'" "free_frames (pmm s') \<subseteq> free_frames (pmm s)"
            "entry_get (cr3 s) (page_dir_index va) s AND PAGE_PRESENT \<noteq> 0 \<or> free_frames (pmm s) \<noteq> {}"
            "\<And>vb. walk_in (cr3 s) s' vb =
               (if drop_bit 12 vb = drop_bit 12 va then Some (new_pte pa fl) else walk_in (cr3 s) s vb)"
proof (cases "present (cr3 s) (page_dir_index va) s")
  case True
  from assms(1) True show thesis
    by (rule vmm_map_page_present [where pa = pa and fl = fl]) (rule ok, use True assms(2) in auto)
next
  case False
  obtain f s1 where al: "alloc_page s = (f, s1)" by fastforce
  from dir_wfD(2) [OF assms(1)] al show thesis
  proof (cases rule: alloc_page_cases)
    case full
    then have "vmm_map_page va pa fl s = (-1, s)"
      using False al by (simp add: vmm_map_page_def vmm_get_current_directory_def Let_def)
    with full False assms(2) fail show ?thesis by simp
  next
    case (frame p)
    then have ne: "free_frames (pmm s) \<noteq> {}" by blast
    from frame al have "alloc_page s = (f, s\<lparr>pmm := p\<rparr>)" by simp
    from assms(1) False this frame(1,2,5,6) show ?thesis
      by (rule vmm_map_page_absent [where pa = pa and fl = fl]) (rule ok, use ne frame(5) assms(2) in auto)
  qed
qed

text \<open>
  C2: in a well-formed address space \<open>vmm_map_page\<close> fails, changing nothing, exactly when
  the page table is missing and no frame is free; otherwise the processor translates the page to the
  given frame with the given flags, every other page translates as before, and the address space stays
  well formed.
\<close>

theorem vmm_map_page_correct:
  assumes "dir_wf (cr3 s) s" and "vmm_map_page va pa fl s = (r, s')"
  shows "if entry_get (cr3 s) (page_dir_index va) s AND PAGE_PRESENT = 0 \<and> free_frames (pmm s) = {}
         then r = -1 \<and> s' = s
         else r = 0 \<and> cr3 s' = cr3 s \<and> dir_wf (cr3 s) s' \<and>
              (\<forall>vb. walk_in (cr3 s) s' vb =
                 (if drop_bit 12 vb = drop_bit 12 va
                  then Some ((pa AND 0xFFFFF000) OR (fl AND 0xFFF) OR PAGE_PRESENT)
                  else walk_in (cr3 s) s vb))"
  using assms by (cases rule: vmm_map_page_cases) auto

text \<open>A machine with an empty directory at 1 MB, right after \<open>pmm_init\<close>.\<close>

definition sample_vm :: vmm_state where
  "sample_vm = \<lparr>device = (\<lambda>_ _. 0x20), io_log = [], pit_tick_count = 0, pit_timer_callback = None,
     dma_initialized = False, shift_pressed = 0, caps_lock_on = 0, keyboard_scan_code = 0,
     keyboard_key_available_flag = 0, keyboard_interrupts = 0, mem = (\<lambda>_. 0), cr0 = 1, cr3 = 0x100000,
     invlpg_log = [], pmm = pmm_init blank_pmm, kernel_page_directory = 0x100000, kernel_page_table = 0x101000\<rparr>"

lemma load32_zero [simp]: "load32 (\<lambda>_. 0) a = 0"
  by (simp add: load32_def)

lemma booted_frames: "free_frames (pmm_init blank_pmm) = page_addr ` {256..<16128}"
  by (simp add: free_frames_def booted_pmm(2))

lemma booted_frame_high: "a \<in> free_frames (pmm_init blank_pmm) \<Longrightarrow> 0x200000 \<le> unat a"
  unfolding booted_frames using managed_frame_upper by blast

lemma sample_vm_wf: "dir_wf (cr3 sample_vm) sample_vm" "cr3 sample_vm = 0x100000"
  "entry_get A i sample_vm = 0" "free_frames (pmm sample_vm) \<noteq> {}"
proof -
  show zero: "entry_get A i sample_vm = 0" for A i by (simp add: entry_get_def sample_vm_def)
  show cr: "cr3 sample_vm = 0x100000" by (simp add: sample_vm_def)
  have p: "pmm sample_vm = pmm_init blank_pmm" by (simp add: sample_vm_def)
  have "0x100000 \<notin> free_frames (pmm_init blank_pmm)" using booted_frame_high [of "0x100000"] by auto
  then show "dir_wf (cr3 sample_vm) sample_vm"
    unfolding dir_wf_def cr p zero using booted_pmm(1) by (simp add: frame_def)
  show "free_frames (pmm sample_vm) \<noteq> {}" unfolding p free_frames_def using booted_pmm(4) by blast
qed

theorem vmm_map_page_correct_witness:
  "walk_in 0x100000 (snd (vmm_map_page 0xD0000123 0x300000 2 sample_vm)) 0xD0000456 = Some 0x300003"
proof -
  let ?r = "vmm_map_page 0xD0000123 0x300000 2 sample_vm"
  have "?r = (fst ?r, snd ?r)" by simp
  from vmm_map_page_correct [OF sample_vm_wf(1) this]
  have "walk_in 0x100000 (snd ?r) vb =
     (if drop_bit 12 vb = drop_bit 12 (0xD0000123 :: u32)
      then Some ((0x300000 AND 0xFFFFF000) OR (2 AND 0xFFF) OR PAGE_PRESENT)
      else walk_in 0x100000 sample_vm vb)" for vb
    using sample_vm_wf(4) unfolding sample_vm_wf(2) by auto
  from this [of "0xD0000456"] show ?thesis by (simp add: PAGE_PRESENT_def)
qed

lemma alloc_map_page_cases:
  assumes "dir_wf (cr3 s) s" and "vmm_alloc_map_page va fl s = (r, s')"
  obtains (fail) "r = 0" "cr3 s' = cr3 s" "mem s' = mem s" "dir_wf (cr3 s) s'" "free_frames (pmm s') = free_frames (pmm s)"
        | (ok) f p where "r = va" "alloc_page s = (f, s\<lparr>pmm := p\<rparr>)" "f \<in> free_frames (pmm s)" "frame f"
            "free_frames p = free_frames (pmm s) - {f}" "dir_wf (cr3 s) (s\<lparr>pmm := p\<rparr>)"
            "vmm_map_page va f fl (s\<lparr>pmm := p\<rparr>) = (0, s')" "cr3 s' = cr3 s" "dir_wf (cr3 s) s'"
            "free_frames (pmm s') \<subseteq> free_frames p"
            "\<And>vb. walk_in (cr3 s) s' vb =
               (if drop_bit 12 vb = drop_bit 12 va then Some (new_pte f fl) else walk_in (cr3 s) s vb)"
proof -
  obtain f s1 where al: "alloc_page s = (f, s1)" by fastforce
  from dir_wfD(2) [OF assms(1)] al show thesis
  proof (cases rule: alloc_page_cases)
    case full
    then show ?thesis using al assms by (intro fail) (simp_all add: vmm_alloc_map_page_def)
  next
    case (frame p)
    have wf1: "dir_wf (cr3 s) (s\<lparr>pmm := p\<rparr>)"
      using dir_wf_shrink [OF assms(1) frame(6)] frame(5) by (simp add: Diff_subset)
    have wk: "walk_in d (s\<lparr>pmm := p\<rparr>) = walk_in d s" for d by (simp add: walk_in_def fun_eq_iff Let_def)
    obtain k s2 where mp: "vmm_map_page va f fl (s\<lparr>pmm := p\<rparr>) = (k, s2)" by fastforce
    from wf1 have "dir_wf (cr3 (s\<lparr>pmm := p\<rparr>)) (s\<lparr>pmm := p\<rparr>)" by simp
    from this mp show ?thesis
    proof (cases rule: vmm_map_page_cases)
      case k: fail
      let ?q = "pmm_free_page f p"
      have q: "free_frames ?q = free_frames (pmm s)" "pmm_wf ?q"
        using pa.free_frame [OF frame(6)] pa.frames_managed [OF frame(2)] frame(2,5) by auto
      have "s' = s\<lparr>pmm := ?q\<rparr>" "r = 0"
        using al mp k frame(1,4) assms(2) by (simp_all add: vmm_alloc_map_page_def)
      moreover have "dir_wf (cr3 s) (s\<lparr>pmm := ?q\<rparr>)" using dir_wf_shrink [OF assms(1) q(2)] q(1) by simp
      ultimately show ?thesis using q(1) by (intro fail) simp_all
    next
      case k: ok
      have "s' = s2" "r = va" using al mp k(1) frame(1,4) assms(2) by (simp_all add: vmm_alloc_map_page_def)
      then show ?thesis using al mp k frame wf1 wk by (intro ok [of f p]) simp_all
    qed
  qed
qed

text \<open>
  in a well-formed address space \<open>vmm_alloc_map_page\<close> either returns the address, mapped
  to a frame that was free before and is not free any more, with every other translation as before; or
  it returns \<open>NULL\<close>, and then every translation and the set of free frames are as before.
\<close>

theorem vmm_alloc_map_page_correct:
  assumes "dir_wf (cr3 s) s" and "vmm_alloc_map_page va fl s = (r, s')" and "va \<noteq> 0"
  shows "dir_wf (cr3 s) s' \<and> cr3 s' = cr3 s \<and>
    (if r = 0
     then free_frames (pmm s') = free_frames (pmm s) \<and> (\<forall>vb. walk_in (cr3 s) s' vb = walk_in (cr3 s) s vb)
     else r = va \<and> (\<exists>f \<in> free_frames (pmm s) - free_frames (pmm s'). free_frames (pmm s') \<subseteq> free_frames (pmm s) \<and>
       (\<forall>vb. walk_in (cr3 s) s' vb =
          (if drop_bit 12 vb = drop_bit 12 va then Some (f OR (fl AND 0xFFF) OR PAGE_PRESENT) else walk_in (cr3 s) s vb))))"
  using assms(1,2)
proof (cases rule: alloc_map_page_cases)
  case fail
  then have "walk_in d s' vb = walk_in d s vb" for d vb by (simp add: walk_in_def entry_get_def Let_def)
  with fail show ?thesis by simp
next
  case (ok f p)
  then show ?thesis using assms(3) frame_masked [OF ok(4)] by (auto intro!: bexI [of _ f])
qed

theorem vmm_alloc_map_page_correct_witness:
  "dir_wf 0x100000 (snd (vmm_alloc_map_page 0xD0000000 2 sample_vm)) \<and>
   fst (vmm_alloc_map_page 0xD0000000 2 sample_vm) \<in> {0, 0xD0000000}"
proof -
  let ?r = "vmm_alloc_map_page 0xD0000000 2 sample_vm"
  have "?r = (fst ?r, snd ?r)" by simp
  from vmm_alloc_map_page_correct [OF sample_vm_wf(1) this]
  show ?thesis unfolding sample_vm_wf(2) by (auto split: if_splits)
qed

section \<open>The kernel's address space\<close>

text \<open>
  What the code relies on for the two static arrays: both are page aligned, lie below the 2 MB the
  physical memory manager reserves for the kernel, and do not overlap.
\<close>

definition kernel_layout :: "u32 \<Rightarrow> u32 \<Rightarrow> bool" where
  "kernel_layout kpd kpt \<longleftrightarrow> frame kpd \<and> frame kpt \<and> unat kpd < 0x200000 \<and> unat kpt + 20 * 4096 \<le> 0x200000 \<and>
     \<not> (unat kpt \<le> unat kpd \<and> unat kpd < unat kpt + 20 * 4096)"

abbreviation ktable :: "u32 \<Rightarrow> nat \<Rightarrow> u32" where
  "ktable kpt i \<equiv> kpt + of_nat i * 0x1000"

lemma unat_ktable: "kernel_layout kpd kpt \<Longrightarrow> i < 20 \<Longrightarrow> unat (ktable kpt i) = unat kpt + i * 4096"
proof -
  assume "kernel_layout kpd kpt" "i < 20"
  moreover have "unat (of_nat i * 0x1000 :: u32) = i * 4096"
    using \<open>i < 20\<close> by (simp add: unat_word_ariths unat_of_nat)
  ultimately show ?thesis by (simp add: kernel_layout_def unat_word_ariths)
qed

lemma ktable_facts:
  assumes "kernel_layout kpd kpt" and "i < 20"
  shows "frame (ktable kpt i)" and "ktable kpt i \<noteq> kpd" and "unat (ktable kpt i) < 0x200000"
    and "j < 20 \<Longrightarrow> ktable kpt i = ktable kpt j \<longleftrightarrow> i = j"
proof -
  note u = unat_ktable [OF assms(1)]
  show "frame (ktable kpt i)"
    using assms u [OF assms(2)] by (simp add: frame_def kernel_layout_def)
  show "ktable kpt i \<noteq> kpd" "unat (ktable kpt i) < 0x200000"
    using assms u [OF assms(2)] by (auto simp: kernel_layout_def)
  show "ktable kpt i = ktable kpt j \<longleftrightarrow> i = j" if "j < 20"
    using u [OF assms(2)] u [OF that] by (metis add_left_cancel mult_cancel2 zero_neq_numeral)
qed

text \<open>Loops over entries change nothing but the memory.\<close>

definition only_mem :: "'a vmm_state_scheme \<Rightarrow> 'a vmm_state_scheme \<Rightarrow> bool" where
  "only_mem s t \<longleftrightarrow> (\<exists>m. t = s\<lparr>mem := m\<rparr>)"

lemma only_mem_refl [simp]: "only_mem s s"
  unfolding only_mem_def by (rule exI [of _ "mem s"]) simp

lemma only_mem_set [simp]: "only_mem s t \<Longrightarrow> only_mem s (entry_set A i v t)"
  by (auto simp: only_mem_def entry_set_def)

lemma only_mem_trans: "only_mem s t \<Longrightarrow> only_mem t u \<Longrightarrow> only_mem s u"
  by (auto simp: only_mem_def)

lemma only_memD:
  assumes "only_mem s t"
  shows "pmm t = pmm s" "cr3 t = cr3 s" "cr0 t = cr0 s" "device t = device s"
    "kernel_page_directory t = kernel_page_directory s" "kernel_page_table t = kernel_page_table s"
  using assms by (auto simp: only_mem_def)

text \<open>Writes to tables other than \<open>A\<close> keep the entries of \<open>A\<close>.\<close>

definition keeps :: "u32 \<Rightarrow> 'a vmm_state_scheme \<Rightarrow> 'a vmm_state_scheme \<Rightarrow> bool" where
  "keeps A s t \<longleftrightarrow> only_mem s t \<and> (\<forall>i. unat i < 1024 \<longrightarrow> entry_get A i t = entry_get A i s)"

lemma keeps_set:
  "keeps A s t \<Longrightarrow> frame A \<Longrightarrow> frame B \<Longrightarrow> A \<noteq> B \<Longrightarrow> unat j < 1024 \<Longrightarrow> keeps A s (entry_set B j v t)"
  by (simp add: keeps_def entry_get_set)

lemma keeps_refl [simp]: "keeps A s s"
  by (simp add: keeps_def)

lemma keeps_trans: "keeps A s t \<Longrightarrow> keeps A t u \<Longrightarrow> keeps A s u"
  by (auto simp: keeps_def intro: only_mem_trans)

lemma unat_small: "k < 1024 \<Longrightarrow> unat (of_nat k :: u32) < 1024" "k < 1024 \<Longrightarrow> unat (of_nat k :: u32) = k"
  by (simp_all add: unat_of_nat)

lemma kernel_tables_clear_keeps:
  assumes "kernel_layout (kernel_page_directory s) (kernel_page_table s)"
  shows "keeps (kernel_page_directory s) s (kernel_tables_clear s)"
  unfolding kernel_tables_clear_def
proof (rule for_upto_invariant [where I = "\<lambda>_. keeps (kernel_page_directory s) s"])
  fix i t assume i: "i < (20 :: nat)" and t: "keeps (kernel_page_directory s) s t"
  note kt = ktable_facts [OF assms i]
  have fr: "frame (kernel_page_directory s)" using assms by (simp add: kernel_layout_def)
  show "keeps (kernel_page_directory s) s (for_upto 0 1024 (\<lambda>j. entry_set (ktable (kernel_page_table s) i) (of_nat j) 0) t)"
    by (rule for_upto_invariant [where I = "\<lambda>_. keeps (kernel_page_directory s) s"])
       (use t kt fr in \<open>auto intro: keeps_set unat_small\<close>)
qed simp_all

lemma kernel_tables_fill_spec:
  assumes lay: "kernel_layout (kernel_page_directory s) (kernel_page_table s)"
  shows "keeps (kernel_page_directory s) s (kernel_tables_fill s)"
    and "i < 20 \<Longrightarrow> j < 1024 \<Longrightarrow>
      entry_get (ktable (kernel_page_table s) i) (of_nat j) (kernel_tables_fill s) = of_nat (i * 1024 + j) * 0x1000 OR 3"
proof -
  let ?K = "kernel_page_table s" and ?D = "kernel_page_directory s"
  let ?I = "\<lambda>n t. keeps ?D s t \<and>
    (\<forall>i < 20. \<forall>j < 1024. i * 1024 + j < n \<longrightarrow> entry_get (ktable ?K i) (of_nat j) t = of_nat (i * 1024 + j) * 0x1000 OR 3)"
  have "?I (80 * 1024 * 1024 div 0x1000) (kernel_tables_fill s)"
    unfolding kernel_tables_fill_def
  proof (rule for_upto_invariant [where I = ?I])
    fix n t assume n: "n < 80 * 1024 * 1024 div (0x1000 :: nat)" and t: "?I n t"
    let ?a = "n div 1024" and ?b = "n mod 1024"
    have ab: "?a < 20" "?b < 1024" "n = ?a * 1024 + ?b" using n by simp_all
    note ka = ktable_facts [OF lay ab(1)]
    let ?t = "entry_set (ktable ?K ?a) (of_nat ?b) (of_nat n * 0x1000 OR 3) t"
    have "keeps ?D s ?t" using t ka lay ab(2) by (auto simp: kernel_layout_def intro!: keeps_set unat_small)
    moreover have "entry_get (ktable ?K i) (of_nat j) ?t = of_nat (i * 1024 + j) * 0x1000 OR 3"
      if ij: "i < 20" "j < 1024" "i * 1024 + j < Suc n" for i j
    proof -
      have g: "entry_get (ktable ?K i) (of_nat j) ?t =
          (if i = ?a \<and> j = ?b then of_nat n * 0x1000 OR 3 else entry_get (ktable ?K i) (of_nat j) t)"
        using entry_get_set [OF ktable_facts(1) [OF lay ij(1)] ka(1) unat_small(1) [OF ij(2)] unat_small(1) [OF ab(2)]]
          ktable_facts(4) [OF lay ij(1) ab(1)] unat_small(2) [OF ij(2)] unat_small(2) [OF ab(2)] by metis
      show ?thesis
      proof (cases "i = ?a \<and> j = ?b")
        case True
        then have "i * 1024 + j = n" using ab(3) by simp
        then show ?thesis unfolding g if_P [OF True] by (simp only:)
      next
        case False
        then have "i * 1024 + j \<noteq> n" using ij(2) by auto
        then have "i * 1024 + j < n" using ij(3) by simp
        then have "entry_get (ktable ?K i) (of_nat j) t = of_nat (i * 1024 + j) * 0x1000 OR 3" using t ij by blast
        then show ?thesis unfolding g if_not_P [OF False] .
      qed
    qed
    ultimately show "?I (Suc n) ((let phys_addr = of_nat n * 0x1000
             in entry_set (ktable ?K (n div 1024)) (of_nat (n mod 1024)) (phys_addr OR 0x001 OR 0x002)) t)"
      by (simp add: Let_def)
  qed simp_all
  then show "keeps ?D s (kernel_tables_fill s)"
    and "i < 20 \<Longrightarrow> j < 1024 \<Longrightarrow>
      entry_get (ktable ?K i) (of_nat j) (kernel_tables_fill s) = of_nat (i * 1024 + j) * 0x1000 OR 3"
    by auto
qed

lemma kernel_directory_fill_spec:
  assumes lay: "kernel_layout (kernel_page_directory s) (kernel_page_table s)"
  shows "only_mem s (kernel_directory_fill s)"
    and "unat k < 1024 \<Longrightarrow> entry_get (kernel_page_directory s) k (kernel_directory_fill s) =
      (if unat k < 20 then ktable (kernel_page_table s) (unat k) OR 3 else entry_get (kernel_page_directory s) k s)"
    and "frame A \<Longrightarrow> A \<noteq> kernel_page_directory s \<Longrightarrow> unat k < 1024 \<Longrightarrow>
      entry_get A k (kernel_directory_fill s) = entry_get A k s"
proof -
  let ?K = "kernel_page_table s" and ?D = "kernel_page_directory s"
  have fd: "frame ?D" using lay by (simp add: kernel_layout_def)
  let ?body = "\<lambda>i (pt_addr, t). (pt_addr + 0x1000, entry_set ?D (of_nat i) (pt_addr OR 0x001 OR 0x002) t)"
  let ?I = "\<lambda>n (pt, t). pt = ktable ?K n \<and> only_mem s t \<and>
    (\<forall>k. unat k < 1024 \<longrightarrow> entry_get ?D k t = (if unat k < n then ktable ?K (unat k) OR 3 else entry_get ?D k s)) \<and>
    (\<forall>A k. frame A \<longrightarrow> A \<noteq> ?D \<longrightarrow> unat k < 1024 \<longrightarrow> entry_get A k t = entry_get A k s)"
  have "?I 20 (for_upto 0 20 ?body (?K, s))"
  proof (rule for_upto_invariant [where I = ?I])
    fix n pt_t assume n: "n < (20 :: nat)" and I: "?I n pt_t"
    obtain pt t where pt_t: "pt_t = (pt, t)" by fastforce
    have un: "unat (of_nat n :: u32) = n" "unat (of_nat n :: u32) < 1024" using n by (simp_all add: unat_of_nat)
    have "k = of_nat n \<longleftrightarrow> unat k = n" for k :: u32 using un by (metis word_unat_eq_iff)
    then have "entry_get ?D k (entry_set ?D (of_nat n) (pt OR 3) t) =
        (if unat k < Suc n then ktable ?K (unat k) OR 3 else entry_get ?D k s)" if "unat k < 1024" for k
      using I pt_t that by (auto simp: entry_get_set [OF fd fd that un(2)])
    moreover have "entry_get A k (entry_set ?D (of_nat n) (pt OR 3) t) = entry_get A k s"
      if "frame A" "A \<noteq> ?D" "unat k < 1024" for A k
      using I pt_t that fd un by (simp add: entry_get_set)
    ultimately show "?I (Suc n) (?body n pt_t)" using I pt_t by (simp add: algebra_simps)
  qed simp_all
  then show "only_mem s (kernel_directory_fill s)"
    and "unat k < 1024 \<Longrightarrow> entry_get ?D k (kernel_directory_fill s) =
      (if unat k < 20 then ktable ?K (unat k) OR 3 else entry_get ?D k s)"
    and "frame A \<Longrightarrow> A \<noteq> ?D \<Longrightarrow> unat k < 1024 \<Longrightarrow> entry_get A k (kernel_directory_fill s) = entry_get A k s"
    by (auto simp: kernel_directory_fill_def split: prod.splits)
qed

text \<open>\<open>identity_dir dir kpt s\<close>: the directory maps exactly the first 80 MB, through the kernel's tables,
  each page to itself, writable and for the kernel only.\<close>

definition identity_dir :: "u32 \<Rightarrow> u32 \<Rightarrow> 'a vmm_state_scheme \<Rightarrow> bool" where
  "identity_dir dir kpt s \<longleftrightarrow>
     (\<forall>k. unat k < 1024 \<longrightarrow> entry_get dir k s = (if unat k < 20 then ktable kpt (unat k) OR 3 else 0)) \<and>
     (\<forall>i < 20. \<forall>j < 1024. entry_get (ktable kpt i) (of_nat j) s = of_nat (i * 1024 + j) * 0x1000 OR 3)"

lemma page_number:
  "of_nat (unat va div 4194304 * 1024 + unat va div 4096 mod 1024) * 0x1000 = va AND (0xFFFFF000 :: u32)"
proof -
  let ?n = "unat va div 4096"
  have "unat va div 4194304 * 1024 + ?n mod 1024 = ?n"
    using div_mult2_eq [of "unat va" 4096 1024] div_mult_mod_eq [of ?n 1024] by simp
  moreover have lt: "?n < 4294967296" using unat_u32_lt [of va] div_le_dividend [of "unat va" 4096] by linarith
  moreover have "of_nat ?n * 0x1000 = va AND (0xFFFFF000 :: u32)"
  proof -
    have "of_nat ?n = drop_bit 12 va"
      using lt by (simp only: word_unat_eq_iff unat_drop_bit_eq) (simp add: drop_bit_eq_div unat_of_nat take_bit_eq_mod)
    moreover have "drop_bit 12 va * 0x1000 = push_bit 12 (drop_bit 12 va)" by (simp add: push_bit_eq_mult)
    moreover have "push_bit 12 (drop_bit 12 va) = va AND 0xFFFFF000"
      unfolding high_mask by (rule bit_word_eqI) (auto simp: bit_simps)
    ultimately show ?thesis by simp
  qed
  ultimately show ?thesis by (simp only:)
qed

lemma low_address_iff: "unat va div 4194304 < 20 \<longleftrightarrow> unat va < 83886080"
  by (simp add: div_less_iff_less_mult)

lemma identity_dir_walk:
  assumes "kernel_layout kpd kpt" and "identity_dir dir kpt s"
  shows "walk_in dir s va = (if unat va < 83886080 then Some ((va AND 0xFFFFF000) OR 3) else None)"
proof (cases "unat va < 83886080")
  case True
  let ?i = "unat va div 4194304" and ?j = "unat va div 4096 mod 1024"
  have i: "?i < 20" using True low_address_iff by blast
  have pde: "entry_get dir (page_dir_index va) s = ktable kpt ?i OR 3"
    using assms(2) i unfolding identity_dir_def by (metis index_bounds(1) unat_page_dir_index)
  have j: "page_table_index va = of_nat ?j"
    using unat_page_table_index [of va] by (metis unat_small(2) index_bounds(2) word_unat_eq_iff)
  have "entry_get (ktable kpt ?i) (of_nat ?j) s = of_nat (?i * 1024 + ?j) * 0x1000 OR 3"
    using assms(2) i unfolding identity_dir_def by simp
  then have pte: "entry_get (ktable kpt ?i) (page_table_index va) s = (va AND 0xFFFFF000) OR 3"
    unfolding j page_number .
  show ?thesis
    unfolding walk_in_def Let_def pde using pde_table [OF ktable_facts(1) [OF assms(1) i]] True
    by (simp add: pte pde_table(2) [OF frame_mask])
next
  case False
  then have "\<not> unat (page_dir_index va) < 20" unfolding unat_page_dir_index low_address_iff .
  then have "entry_get dir (page_dir_index va) s = 0" using assms(2) unfolding identity_dir_def by simp
  with False show ?thesis by (simp add: walk_in_def Let_def)
qed

lemma identity_dir_wf:
  assumes lay: "kernel_layout kpd kpt" and idn: "identity_dir dir kpt s" and "frame dir" "pmm_wf (pmm s)"
    and "dir \<notin> free_frames (pmm s)" "\<forall>i < 20. dir \<noteq> ktable kpt i" "\<forall>a \<in> free_frames (pmm s). 0x200000 \<le> unat a"
  shows "dir_wf dir s"
proof -
  have pde: "entry_get dir k s = (if unat k < 20 then ktable kpt (unat k) OR 3 else 0)" if "unat k < 1024" for k
    using idn that unfolding identity_dir_def by blast
  have pres: "unat k < 20" if "unat k < 1024" "present dir k s" for k
    using that pde [OF that(1)] by (cases "unat k < 20") auto
  have tab: "table_of dir k s = ktable kpt (unat k)" if "unat k < 1024" "present dir k s" for k
    using pde [OF that(1)] pres [OF that] pde_table(1) [OF ktable_facts(1) [OF lay pres [OF that]]] by simp
  have nf: "ktable kpt i \<notin> free_frames (pmm s)" if "i < 20" for i
    using ktable_facts(3) [OF lay that] assms(7) by auto
  show ?thesis
    unfolding dir_wf_def
  proof (intro conjI allI impI assms(3-5))
    fix i assume i: "unat i < 1024" "present dir i s"
    show "table_of dir i s \<noteq> dir" using tab [OF i] pres [OF i] assms(6) by metis
    show "table_of dir i s \<notin> free_frames (pmm s)" using tab [OF i] nf [OF pres [OF i]] by (simp only: simp_thms)
    fix j assume j: "unat j < 1024" "i \<noteq> j" "present dir j s"
    show "table_of dir i s \<noteq> table_of dir j s"
      using tab [OF i] tab [OF j(1,3)] ktable_facts(4) [OF lay pres [OF i] pres [OF j(1,3)]] j(2)
      by (simp only: word_unat_eq_iff simp_thms)
  qed
qed

lemma clear_entries_only_mem [simp]: "only_mem s (clear_entries A s)"
  unfolding clear_entries_def by (rule for_upto_invariant [where I = "\<lambda>_. only_mem s"]) simp_all

lemma vmm_init_tables:
  assumes lay: "kernel_layout (kernel_page_directory s) (kernel_page_table s)"
  shows "only_mem s (kernel_directory_fill (kernel_tables_fill (kernel_tables_clear (clear_entries (kernel_page_directory s) s))))"
    and "identity_dir (kernel_page_directory s) (kernel_page_table s)
           (kernel_directory_fill (kernel_tables_fill (kernel_tables_clear (clear_entries (kernel_page_directory s) s))))"
proof -
  let ?D = "kernel_page_directory s" and ?K = "kernel_page_table s"
  define s2 where "s2 = clear_entries ?D s"
  define s3 where "s3 = kernel_tables_clear s2"
  define s4 where "s4 = kernel_tables_fill s3"
  define s5 where "s5 = kernel_directory_fill s4"
  have fd: "frame ?D" using lay by (simp add: kernel_layout_def)
  have o2: "only_mem s s2" by (simp add: s2_def)
  have k2: "kernel_page_directory s2 = ?D" "kernel_page_table s2 = ?K" using only_memD [OF o2] by simp_all
  have kp3: "keeps ?D s2 s3" using kernel_tables_clear_keeps [of s2] lay k2 by (simp add: s3_def)
  then have o3: "only_mem s s3" using o2 by (auto simp: keeps_def intro: only_mem_trans)
  have k3: "kernel_page_directory s3 = ?D" "kernel_page_table s3 = ?K" using only_memD [OF o3] by simp_all
  have lay3: "kernel_layout (kernel_page_directory s3) (kernel_page_table s3)" using lay k3 by simp
  note f4 = kernel_tables_fill_spec [OF lay3, folded s4_def, unfolded k3]
  have o4: "only_mem s s4" using o3 f4(1) by (auto simp: keeps_def intro: only_mem_trans)
  have k4: "kernel_page_directory s4 = ?D" "kernel_page_table s4 = ?K" using only_memD [OF o4] by simp_all
  have lay4: "kernel_layout (kernel_page_directory s4) (kernel_page_table s4)" using lay k4 by simp
  note f5 = kernel_directory_fill_spec [OF lay4, folded s5_def, unfolded k4]
  have zero: "entry_get ?D k s4 = 0" if "unat k < 1024" for k
    using f4(1) kp3 that clear_entries_get [OF fd fd that] by (simp add: keeps_def s2_def)
  have "identity_dir ?D ?K s5"
    unfolding identity_dir_def
  proof (intro conjI allI impI)
    fix k :: u32 assume "unat k < 1024"
    then show "entry_get ?D k s5 = (if unat k < 20 then ktable ?K (unat k) OR 3 else 0)"
      using f5(2) zero by (simp only:)
  next
    fix i j :: nat assume ij: "i < 20" "j < 1024"
    show "entry_get (ktable ?K i) (of_nat j) s5 = of_nat (i * 1024 + j) * 0x1000 OR 3"
      using f5(3) [OF ktable_facts(1,2) [OF lay ij(1)] unat_small(1) [OF ij(2)]] f4(2) [OF ij] by (simp only:)
  qed
  moreover have "only_mem s s5" using o4 f5(1) by (rule only_mem_trans)
  ultimately show "only_mem s (kernel_directory_fill (kernel_tables_fill (kernel_tables_clear (clear_entries ?D s))))"
    and "identity_dir ?D ?K (kernel_directory_fill (kernel_tables_fill (kernel_tables_clear (clear_entries ?D s))))"
    by (simp_all add: s5_def s4_def s3_def s2_def)
qed

lemma entry_get_mem: "mem t = mem s \<Longrightarrow> entry_get A i t = entry_get A i s"
  by (simp add: entry_get_def)

lemma identity_dir_mem: "mem t = mem s \<Longrightarrow> identity_dir d k t = identity_dir d k s"
  unfolding identity_dir_def by (simp add: entry_get_mem [of t s])

lemma serial_line:
  assumes "thr_answers (device s)" and "n = length l + 1"
  obtains log where "hal_serial_write (line_bytes l) n s = Some (s\<lparr>io_log := log\<rparr>)"
  using hal_serial_write_returns [OF assms(1), of n "line_bytes l"] assms(2) that by (auto simp: line_bytes_def)

lemma pmm_init_frames: "pmm_wf p \<Longrightarrow> free_frames (pmm_init p) = page_addr ` {256..<16128}"
  by (simp add: free_frames_def pmm_init_free_pages)

lemma vmm_init_run:
  assumes uart: "thr_answers (device s)" and wf: "pmm_wf (pmm s)"
    and lay: "kernel_layout (kernel_page_directory s) (kernel_page_table s)"
  obtains s' where "vmm_init s = Some s'" and "cr3 s' = kernel_page_directory s" and "cr0 s' = cr0 s OR 0x80000000"
    and "pmm s' = pmm_init (pmm s)" and "identity_dir (kernel_page_directory s) (kernel_page_table s) s'"
    and "device s' = device s" and "kernel_page_directory s' = kernel_page_directory s"
    and "kernel_page_table s' = kernel_page_table s"
proof -
  define s1 where "s1 = s\<lparr>pmm := pmm_init (pmm s)\<rparr>"
  define s5 where "s5 = kernel_directory_fill (kernel_tables_fill (kernel_tables_clear (clear_entries (kernel_page_directory s1) s1)))"
  have lay1: "kernel_layout (kernel_page_directory s1) (kernel_page_table s1)" using lay by (simp add: s1_def)
  note b = vmm_init_tables [OF lay1, folded s5_def]
  note f = only_memD [OF b(1)]
  have "thr_answers (device s5)" using f(4) uart by (simp add: s1_def)
  then obtain l1 where w1: "hal_serial_write (line_bytes ''STAGE2b-pre-enable-paging'') 26 s5 = Some (s5\<lparr>io_log := l1\<rparr>)"
    by (rule serial_line [where l = "''STAGE2b-pre-enable-paging''" and n = 26]) simp_all
  define s7 where "s7 = vmm_switch_directory (kernel_page_directory s5) (s5\<lparr>io_log := l1\<rparr>)"
  have "thr_answers (device s7)" using f(4) uart by (simp add: s7_def s1_def vmm_switch_directory_def)
  then obtain l2 where w2: "hal_serial_write (line_bytes ''STAGE2b-dir-switched'') 21 s7 = Some (s7\<lparr>io_log := l2\<rparr>)"
    by (rule serial_line [where l = "''STAGE2b-dir-switched''" and n = 21]) simp_all
  define s9 where "s9 = vmm_enable_paging (s7\<lparr>io_log := l2\<rparr>)"
  have "thr_answers (device s9)"
    using f(4) uart by (simp add: s9_def s7_def s1_def vmm_switch_directory_def vmm_enable_paging_def)
  then obtain l3 where w3: "hal_serial_write (line_bytes ''STAGE2b-paging-enabled'') 23 s9 = Some (s9\<lparr>io_log := l3\<rparr>)"
    by (rule serial_line [where l = "''STAGE2b-paging-enabled''" and n = 23]) simp_all
  define s' where "s' = s9\<lparr>io_log := l3\<rparr>"
  have "vmm_init s = Some s'"
    using w1 w2 w3 unfolding vmm_init_def Let_def s1_def [symmetric] s5_def [symmetric]
    by (simp add: s7_def s9_def s'_def)
  moreover have "mem s' = mem s5" by (simp add: s'_def s9_def s7_def vmm_switch_directory_def vmm_enable_paging_def)
  then have "identity_dir (kernel_page_directory s) (kernel_page_table s) s'"
    using b(2) by (simp add: identity_dir_mem [of s' s5] s1_def)
  ultimately show thesis
    using that f by (simp add: s'_def s9_def s7_def s1_def vmm_switch_directory_def vmm_enable_paging_def)
qed

text \<open>
  C25: \<open>vmm_init\<close> returns and turns paging on with the kernel's directory; the processor then
  translates every address below 80 MB to itself, writable and for the kernel only, and no other
  address; the directory is well formed and the free frames are those above the 2 MB reserved for the
  kernel.
\<close>

theorem vmm_init_correct:
  assumes "answers (device s) 0x3FD serial_is_transmit_empty" and "pmm_wf (pmm s)"
    and "kernel_layout (kernel_page_directory s) (kernel_page_table s)"
  shows "\<exists>s'. vmm_init s = Some s' \<and> cr3 s' = kernel_page_directory s \<and> bit (cr0 s') 31 \<and> dir_wf (cr3 s') s' \<and>
    free_frames (pmm s') = page_addr ` {256..<16128} \<and>
    (\<forall>va. walk_in (cr3 s') s' va =
       (if unat va < 80 * 1024 * 1024 then Some ((va AND 0xFFFFF000) OR PAGE_PRESENT OR PAGE_WRITABLE) else None))"
proof -
  let ?D = "kernel_page_directory s" and ?K = "kernel_page_table s"
  obtain s' where run: "vmm_init s = Some s'" and cr: "cr3 s' = ?D" "cr0 s' = cr0 s OR 0x80000000"
    and p: "pmm s' = pmm_init (pmm s)" and idn: "identity_dir ?D ?K s'"
    using assms by (rule vmm_init_run) blast
  have fr: "free_frames (pmm s') = page_addr ` {256..<16128}" unfolding p using assms(2) by (rule pmm_init_frames)
  then have high: "\<forall>a \<in> free_frames (pmm s'). 0x200000 \<le> unat a" using managed_frame_upper by blast
  have lay: "unat ?D < 0x200000" "frame ?D" using assms(3) by (simp_all add: kernel_layout_def)
  have "dir_wf ?D s'"
    using assms(3) idn lay(2)
  proof (rule identity_dir_wf)
    show "pmm_wf (pmm s')" using assms(2) p by (simp add: pmm_init_free_pages)
    show "?D \<notin> free_frames (pmm s')" using high lay(1) by auto
    show "\<forall>i < 20. ?D \<noteq> ktable ?K i" using ktable_facts(2) [OF assms(3)] by metis
    show "\<forall>a \<in> free_frames (pmm s'). 0x200000 \<le> unat a" by (rule high)
  qed
  moreover have "bit (cr0 s') 31" unfolding cr(2) using bit_set_flag [of 31 "cr0 s" 31] by simp
  ultimately show ?thesis
    using run cr(1) fr identity_dir_walk [OF assms(3) idn] by (simp add: PAGE_PRESENT_def PAGE_WRITABLE_def)
qed

theorem vmm_init_correct_witness:
  "\<exists>s'. vmm_init sample_vm = Some s' \<and> walk_in (cr3 s') s' 0x12345 = Some 0x12003"
proof -
  have "answers (device sample_vm) 0x3FD serial_is_transmit_empty"
    by (simp add: answers_def sample_vm_def serial_is_transmit_empty_def SERIAL_LSR_THRE_def)
  moreover have "pmm_wf (pmm sample_vm)" by (simp add: sample_vm_def booted_pmm(1))
  moreover have "kernel_layout (kernel_page_directory sample_vm) (kernel_page_table sample_vm)"
    by (simp add: kernel_layout_def frame_def sample_vm_def)
  ultimately obtain s' where "vmm_init sample_vm = Some s'"
    "walk_in (cr3 s') s' va =
       (if unat va < 80 * 1024 * 1024 then Some ((va AND 0xFFFFF000) OR PAGE_PRESENT OR PAGE_WRITABLE) else None)" for va
    using vmm_init_correct [of sample_vm] by blast
  from this(1) this(2) [of "0x12345"] show ?thesis by (simp add: PAGE_PRESENT_def PAGE_WRITABLE_def)
qed

section \<open>A new address space\<close>

lemma copy_kernel_entries:
  assumes "frame new" "frame kpd" "new \<noteq> kpd" "\<forall>k. unat k < 1024 \<longrightarrow> entry_get new k s = 0"
  defines "t \<equiv> for_upto 0 20 (\<lambda>i t. entry_set new (of_nat i) (entry_get kpd (of_nat i) t) t) s"
  shows "only_mem s t"
    and "unat k < 1024 \<Longrightarrow> entry_get new k t = (if unat k < 20 then entry_get kpd k s else 0)"
    and "frame A \<Longrightarrow> A \<noteq> new \<Longrightarrow> unat k < 1024 \<Longrightarrow> entry_get A k t = entry_get A k s"
proof -
  let ?body = "\<lambda>i t. entry_set new (of_nat i) (entry_get kpd (of_nat i) t) t"
  let ?I = "\<lambda>n t. only_mem s t \<and>
    (\<forall>k. unat k < 1024 \<longrightarrow> entry_get new k t = (if unat k < n then entry_get kpd k s else 0)) \<and>
    (\<forall>A k. frame A \<longrightarrow> A \<noteq> new \<longrightarrow> unat k < 1024 \<longrightarrow> entry_get A k t = entry_get A k s)"
  have "?I 20 t"
    unfolding t_def
  proof (rule for_upto_invariant [where I = ?I])
    fix n t assume n: "n < (20 :: nat)" and I: "?I n t"
    have un: "unat (of_nat n :: u32) < 1024" "k = of_nat n \<longleftrightarrow> unat k = n" for k :: u32
      using n unat_small(2) [of n] by (simp_all add: word_unat_eq_iff unat_of_nat)
    have old: "entry_get kpd (of_nat n) t = entry_get kpd (of_nat n) s" using I assms(2,3) un(1) by simp
    have "entry_get new k (?body n t) = (if unat k < Suc n then entry_get kpd k s else 0)" if "unat k < 1024" for k
      using I that old un(2) [of k] by (auto simp: entry_get_set [OF assms(1,1) that un(1)])
    moreover have "entry_get A k (?body n t) = entry_get A k s" if "frame A" "A \<noteq> new" "unat k < 1024" for A k
      using I that assms(1) un(1) by (simp add: entry_get_set)
    ultimately show "?I (Suc n) (?body n t)" using I by simp
  qed (simp_all add: assms(4))
  then show "only_mem s t"
    and "unat k < 1024 \<Longrightarrow> entry_get new k t = (if unat k < 20 then entry_get kpd k s else 0)"
    and "frame A \<Longrightarrow> A \<noteq> new \<Longrightarrow> unat k < 1024 \<Longrightarrow> entry_get A k t = entry_get A k s" by simp_all
qed

text \<open>The state of the memory managers while the kernel runs: its directory maps the first 80 MB to
  themselves (and, once the heap is in use, further pages), and no free frame lies in the 2 MB reserved
  for the kernel.\<close>

definition identity_low :: "u32 \<Rightarrow> u32 \<Rightarrow> 'a vmm_state_scheme \<Rightarrow> bool" where
  "identity_low dir kpt s \<longleftrightarrow>
     (\<forall>k. unat k < 20 \<longrightarrow> entry_get dir k s = ktable kpt (unat k) OR 3) \<and>
     (\<forall>i < 20. \<forall>j < 1024. entry_get (ktable kpt i) (of_nat j) s = of_nat (i * 1024 + j) * 0x1000 OR 3)"

lemma identity_dir_low: "identity_dir dir kpt s \<Longrightarrow> identity_low dir kpt s"
  unfolding identity_dir_def identity_low_def by simp

definition kernel_space :: "'a vmm_state_scheme \<Rightarrow> bool" where
  "kernel_space s \<longleftrightarrow> kernel_layout (kernel_page_directory s) (kernel_page_table s) \<and> pmm_wf (pmm s) \<and>
     identity_low (kernel_page_directory s) (kernel_page_table s) s \<and>
     (\<forall>a \<in> free_frames (pmm s). 0x200000 \<le> unat a)"

lemma create_address_space_run:
  assumes ks: "kernel_space s" and run: "vmm_create_address_space s = (d, s')"
  shows "if free_frames (pmm s) = {} then d = 0 \<and> s' = s
         else d \<in> free_frames (pmm s) \<and> free_frames (pmm s') = free_frames (pmm s) - {d} \<and> pmm_wf (pmm s') \<and>
              d \<noteq> 0 \<and> identity_dir d (kernel_page_table s) s' \<and> kernel_space s' \<and>
              (\<exists>m p. s' = s\<lparr>pmm := p, mem := m\<rparr>) \<and>
              (\<forall>A k. frame A \<longrightarrow> A \<noteq> d \<longrightarrow> unat k < 1024 \<longrightarrow> entry_get A k s' = entry_get A k s)"
proof -
  let ?D = "kernel_page_directory s" and ?K = "kernel_page_table s"
  have lay: "kernel_layout ?D ?K" and wf: "pmm_wf (pmm s)" and idn: "identity_low ?D ?K s"
    and high: "\<forall>a \<in> free_frames (pmm s). 0x200000 \<le> unat a" using ks by (simp_all add: kernel_space_def)
  obtain f s1 where al: "alloc_page s = (f, s1)" by fastforce
  from wf al show ?thesis
  proof (cases rule: alloc_page_cases)
    case full
    then show ?thesis using al run by (simp add: vmm_create_address_space_def)
  next
    case (frame p)
    have hf: "0x200000 \<le> unat f" using high frame(2) by blast
    have nf: "f \<noteq> ?D" "\<And>i. i < 20 \<Longrightarrow> f \<noteq> ktable ?K i"
      using hf lay ktable_facts(3) [OF lay] unfolding kernel_layout_def by (metis not_le)+
    have fd: "frame ?D" using lay by (simp add: kernel_layout_def)
    define s2 where "s2 = clear_entries f s1"
    define t where "t = for_upto 0 20 (\<lambda>i t. entry_set f (of_nat i) (entry_get ?D (of_nat i) t) t) s2"
    have res: "d = f" "s' = t" using al frame(1) run by (auto simp: vmm_create_address_space_def s2_def t_def Let_def)
    have z: "\<forall>k. unat k < 1024 \<longrightarrow> entry_get f k s2 = 0"
      using frame(3) by (simp add: s2_def clear_entries_get)
    have keep2: "entry_get A k s2 = entry_get A k s" if "frame A" "A \<noteq> f" "unat k < 1024" for A k
      using that frame(3,4) by (simp add: s2_def clear_entries_get)
    note cp = copy_kernel_entries [OF frame(3) fd nf(1) z, folded t_def]
    have keep: "entry_get A k t = entry_get A k s" if "frame A" "A \<noteq> f" "unat k < 1024" for A k
      using cp(3) [OF that] keep2 [OF that] by simp
    have om: "only_mem s1 t" using cp(1) unfolding s2_def by (rule only_mem_trans [OF clear_entries_only_mem])
    have pm: "pmm t = p" "kernel_page_directory t = ?D" "kernel_page_table t = ?K"
      using only_memD [OF om] frame(4) by simp_all
    have upd: "\<exists>m p. t = s\<lparr>pmm := p, mem := m\<rparr>" using om frame(4) by (auto simp: only_mem_def)
    have tabs: "entry_get (ktable ?K i) (of_nat j) t = of_nat (i * 1024 + j) * 0x1000 OR 3" if "i < 20" "j < 1024" for i j
      using keep [OF ktable_facts(1) [OF lay that(1)] nf(2) [OF that(1), symmetric] unat_small(1) [OF that(2)]] idn that
      unfolding identity_low_def by (simp only: simp_thms)
    have "entry_get f k t = (if unat k < 20 then ktable ?K (unat k) OR 3 else 0)" if "unat k < 1024" for k
      using cp(2) [OF that] keep2 [OF fd nf(1) [symmetric] that] idn that unfolding identity_low_def by (simp only: if_cancel) metis
    then have idf: "identity_dir f ?K t" using tabs by (simp add: identity_dir_def)
    have "identity_low ?D ?K t"
      using idn keep [OF fd nf(1) [symmetric]] tabs unfolding identity_low_def by simp
    then have "kernel_space t" using lay frame(5,6) high pm by (simp add: kernel_space_def)
    with idf upd keep frame pm res show ?thesis by auto
  qed
qed

text \<open>
  C24: \<open>vmm_create_address_space\<close> returns \<open>NULL\<close>, changing nothing, exactly when no
  frame is free; otherwise it returns a fresh frame holding a well-formed directory that translates
  the first 80 MB to themselves and nothing else. The kernel's own directory is not changed.
\<close>

theorem vmm_create_address_space_correct:
  assumes "kernel_space s" and "vmm_create_address_space s = (d, s')"
  shows "if free_frames (pmm s) = {} then d = 0 \<and> s' = s
         else d \<in> free_frames (pmm s) - free_frames (pmm s') \<and> dir_wf d s' \<and> kernel_space s' \<and>
              (\<forall>va. walk_in d s' va = (if unat va < 80 * 1024 * 1024 then Some ((va AND 0xFFFFF000) OR 3) else None))"
proof (cases "free_frames (pmm s) = {}")
  case True
  with create_address_space_run [OF assms] show ?thesis by simp
next
  case False
  note r = create_address_space_run [OF assms, unfolded if_not_P [OF False]]
  let ?K = "kernel_page_table s"
  have lay: "kernel_layout (kernel_page_directory s) ?K" and high: "0x200000 \<le> unat d"
    using assms(1) r by (auto simp: kernel_space_def)
  have fd: "frame d" using r pa.frames_managed managed_is_frame by blast
  have "\<forall>i < 20. d \<noteq> ktable ?K i" using high ktable_facts(3) [OF lay] by fastforce
  moreover have "\<forall>a \<in> free_frames (pmm s'). 0x200000 \<le> unat a" using r by (simp add: kernel_space_def)
  ultimately have "dir_wf d s'" using r lay fd by (intro identity_dir_wf [where kpt = ?K]) auto
  moreover have "walk_in d s' va = (if unat va < 80 * 1024 * 1024 then Some ((va AND 0xFFFFF000) OR 3) else None)" for va
    using identity_dir_walk [OF lay, of d s' va] r by simp
  ultimately show ?thesis using r False by auto
qed

lemma booted_vm:
  obtains s where "vmm_init sample_vm = Some s" and "kernel_space s" and "free_frames (pmm s) \<noteq> {}"
    and "cr3 s = 0x100000" and "cr3 s = kernel_page_directory s"
proof -
  have pre: "thr_answers (device sample_vm)" "pmm_wf (pmm sample_vm)"
    "kernel_layout (kernel_page_directory sample_vm) (kernel_page_table sample_vm)"
    by (simp_all add: answers_def sample_vm_def serial_is_transmit_empty_def SERIAL_LSR_THRE_def booted_pmm(1)
        kernel_layout_def frame_def)
  obtain s where s: "vmm_init sample_vm = Some s" "cr3 s = kernel_page_directory sample_vm"
    "pmm s = pmm_init (pmm sample_vm)" "identity_dir (kernel_page_directory sample_vm) (kernel_page_table sample_vm) s"
    "kernel_page_directory s = kernel_page_directory sample_vm" "kernel_page_table s = kernel_page_table sample_vm"
    using pre by (rule vmm_init_run) blast
  have fr: "free_frames (pmm s) = page_addr ` {256..<16128}" unfolding s(3) using pre(2) by (rule pmm_init_frames)
  have "kernel_space s"
    unfolding kernel_space_def fr using s(3-6) pre(2,3) managed_frame_upper by (auto simp: pmm_init_free_pages intro: identity_dir_low)
  then show thesis using that s fr by (simp add: sample_vm_def)
qed

theorem vmm_create_address_space_correct_witness:
  "\<exists>(s :: vmm_state) d s'. vmm_create_address_space s = (d, s') \<and> d \<noteq> 0 \<and> dir_wf d s' \<and> kernel_space s'"
proof -
  obtain s :: vmm_state where s: "kernel_space s" "free_frames (pmm s) \<noteq> {}" by (rule booted_vm) blast
  obtain d s' where r: "vmm_create_address_space s = (d, s')" by fastforce
  note c = vmm_create_address_space_correct [OF s(1) r, unfolded if_not_P [OF s(2)]]
  then have "d \<noteq> 0" using pa.frame_nonzero by blast
  with c r show ?thesis by blast
qed

section \<open>User access\<close>

lemma or_user_bits:
  "(x OR PAGE_USER) AND 0xFFFFF000 = x AND 0xFFFFF000" "(x OR PAGE_USER) AND PAGE_PRESENT = x AND PAGE_PRESENT"
proof -
  have u: "bit PAGE_USER n \<longleftrightarrow> n = 2" and p: "bit PAGE_PRESENT n \<longleftrightarrow> n = 0" for n
  proof -
    have lit: "PAGE_USER = 2 ^ 2" "PAGE_PRESENT = 2 ^ 0" by (simp_all add: PAGE_USER_def PAGE_PRESENT_def)
    show "bit PAGE_USER n \<longleftrightarrow> n = 2" unfolding lit bit_exp_iff by (auto simp: possible_bit_def)
    show "bit PAGE_PRESENT n \<longleftrightarrow> n = 0" unfolding lit bit_exp_iff by (auto simp: possible_bit_def)
  qed
  show "(x OR PAGE_USER) AND 0xFFFFF000 = x AND 0xFFFFF000"
    unfolding high_mask by (rule bit_word_eqI) (auto simp: bit_simps u)
  show "(x OR PAGE_USER) AND PAGE_PRESENT = x AND PAGE_PRESENT"
    by (rule bit_word_eqI) (auto simp: bit_simps u p)
qed

lemma set_dir_user:
  assumes wf: "dir_wf dir s" and i: "unat i < 1024"
    and t: "t = entry_set dir i (entry_get dir i s OR PAGE_USER) s"
  shows "dir_wf dir t" and "walk_in dir t vb = walk_in dir s vb" and "table_of dir k t = table_of dir k s \<or> \<not> unat k < 1024"
    and "unat k < 1024 \<Longrightarrow> present dir k t = present dir k s"
proof -
  have fd: "frame dir" using wf by (rule dir_wfD)
  have dir: "entry_get dir k t = (if k = i then entry_get dir i s OR PAGE_USER else entry_get dir k s)"
    if "unat k < 1024" for k
    using entry_get_set [OF fd fd that i] t by auto
  have tab: "table_of dir k t = table_of dir k s" and pr: "present dir k t = present dir k s" if "unat k < 1024" for k
    using dir [OF that] by (auto simp: or_user_bits)
  then show "table_of dir k t = table_of dir k s \<or> \<not> unat k < 1024"
    and "unat k < 1024 \<Longrightarrow> present dir k t = present dir k s" by auto
  have p: "pmm t = pmm s" using t by simp
  show "dir_wf dir t"
    unfolding dir_wf_def p using wf tab pr unfolding dir_wf_def by (metis (no_types, lifting))
  have "entry_get A j t = entry_get A j s" if "frame A" "A \<noteq> dir" "unat j < 1024" for A j
    using that fd i t by (simp add: entry_get_set)
  then show "walk_in dir t vb = walk_in dir s vb"
    unfolding walk_in_def Let_def using tab [of "page_dir_index vb"] pr [of "page_dir_index vb"]
      dir_wfD(4) [OF wf, of "page_dir_index vb"] by auto
qed

text \<open>One round of the loop of \<open>vmm_mark_user_range\<close>.\<close>

definition mark_user_step :: "u32 \<Rightarrow> u32 \<Rightarrow> 'a vmm_state_scheme \<Rightarrow> 'a vmm_state_scheme" where
  "mark_user_step dir addr s =
     (let pde = entry_get dir (page_dir_index addr) s
      in if pde AND PAGE_PRESENT = 0 then s
         else let s1 = entry_set dir (page_dir_index addr) (entry_get dir (page_dir_index addr) s OR PAGE_USER) s;
                  pt = pde AND 0xFFFFF000;
                  s2 = entry_set pt (page_table_index addr) (entry_get pt (page_table_index addr) s1 OR PAGE_USER) s1
              in vmm_flush_tlb_entry addr s2)"

lemma mark_user_loop_step:
  "mark_user_loop dir addr end s = (if addr < end then mark_user_loop dir (addr + 0x1000) end (mark_user_step dir addr s) else Some s)"
  by (subst mark_user_loop.simps) (simp add: mark_user_step_def Let_def)

lemma mark_user_step_correct:
  assumes wf: "dir_wf dir s"
  shows "dir_wf dir (mark_user_step dir addr s)"
    and "walk_in dir (mark_user_step dir addr s) vb =
      (if drop_bit 12 vb = drop_bit 12 addr then map_option (\<lambda>e. e OR PAGE_USER) (walk_in dir s vb) else walk_in dir s vb)"
proof -
  let ?i = "page_dir_index addr" and ?j = "page_table_index addr"
  let ?T = "table_of dir ?i s"
  have "dir_wf dir (mark_user_step dir addr s) \<and> walk_in dir (mark_user_step dir addr s) vb =
      (if drop_bit 12 vb = drop_bit 12 addr then map_option (\<lambda>e. e OR PAGE_USER) (walk_in dir s vb) else walk_in dir s vb)"
  proof (cases "present dir ?i s")
    case False
    moreover have "walk_in dir s vb = None" if "drop_bit 12 vb = drop_bit 12 addr"
      using False that by (simp add: walk_in_def Let_def same_page_iff [symmetric])
    ultimately show ?thesis using wf by (simp add: mark_user_step_def)
  next
    case True
    define s1 where "s1 = entry_set dir ?i (entry_get dir ?i s OR PAGE_USER) s"
    define v where "v = entry_get ?T ?j s1 OR PAGE_USER"
    note d = set_dir_user [OF wf index_bounds(1) s1_def]
    have wf1: "dir_wf dir s1" and pr1: "present dir ?i s1" and t1: "table_of dir ?i s1 = ?T"
      and w1: "walk_in dir s1 vb = walk_in dir s vb" for vb
      using d(1,2) d(3,4) [of ?i] True by auto
    define s2 where "s2 = entry_set (table_of dir ?i s1) ?j v s1"
    note e = set_table_entry [OF wf1 pr1 s2_def]
    have run: "mark_user_step dir addr s = vmm_flush_tlb_entry addr s2"
      using True unfolding mark_user_step_def Let_def s2_def t1 v_def s1_def [symmetric] by simp
    have old: "walk_in dir s1 addr = (if entry_get ?T ?j s1 AND PAGE_PRESENT = 0 then None else Some (entry_get ?T ?j s1))"
      using pr1 t1 by (simp add: walk_in_def Let_def)
    have same: "walk_in dir s1 vb = walk_in dir s1 addr" if "drop_bit 12 vb = drop_bit 12 addr"
      using that by (simp add: walk_in_def Let_def same_page_iff [symmetric])
    have "dir_wf dir (mark_user_step dir addr s)" unfolding run using e(1) dir_wf_cong [of "vmm_flush_tlb_entry addr s2" s2] by simp
    then show ?thesis unfolding run using e(2) [of vb] old same w1 by (auto simp: v_def or_user_bits)
  qed
  then show "dir_wf dir (mark_user_step dir addr s)"
    and "walk_in dir (mark_user_step dir addr s) vb =
      (if drop_bit 12 vb = drop_bit 12 addr then map_option (\<lambda>e. e OR PAGE_USER) (walk_in dir s vb) else walk_in dir s vb)"
    by simp_all
qed

lemma frame_step:
  assumes "frame addr" "frame end" "addr < end"
  shows "unat (addr + 0x1000) = unat addr + 4096" and "frame (addr + 0x1000)" and "unat addr + 4096 \<le> unat end"
proof -
  obtain a b where ab: "unat addr = 4096 * a" "unat end = 4096 * b"
    using assms(1,2) unfolding frame_def by (auto elim!: dvdE)
  then show le: "unat addr + 4096 \<le> unat end" using assms(3) by (simp add: word_less_nat_alt)
  then show u: "unat (addr + 0x1000) = unat addr + 4096"
    using unat_u32_lt [of "end"] by (simp add: unat_word_ariths)
  then show "frame (addr + 0x1000)" using assms(1) by (simp add: frame_def)
qed

lemma unat_page: "unat (drop_bit 12 (v :: u32)) = unat v div 4096"
  by (simp only: unat_drop_bit_eq) (simp add: drop_bit_eq_div)

lemma mark_user_loop_correct:
  assumes "dir_wf dir s" "frame addr" "frame end"
  shows "\<exists>s'. mark_user_loop dir addr end s = Some s' \<and> dir_wf dir s' \<and>
    (\<forall>vb. walk_in dir s' vb =
       (if unat addr div 4096 \<le> unat vb div 4096 \<and> unat vb div 4096 < unat end div 4096
        then map_option (\<lambda>e. e OR PAGE_USER) (walk_in dir s vb) else walk_in dir s vb))"
  using assms
proof (induction "unat end - unat addr" arbitrary: addr s rule: less_induct)
  case less
  show ?case
  proof (cases "addr < end")
    case False
    then have "unat end div 4096 \<le> unat addr div 4096" by (simp add: word_le_nat_alt not_less div_le_mono)
    with False less.prems(1) show ?thesis by (auto simp: mark_user_loop_step [of dir addr])
  next
    case True
    let ?s = "mark_user_step dir addr s"
    note fs = frame_step [OF less.prems(2,3) True]
    have "unat end - unat (addr + 0x1000) < unat end - unat addr" using fs by linarith
    note IH = less.hyps [OF this mark_user_step_correct(1) [OF less.prems(1), of addr] fs(2) less.prems(3)]
    have dv: "(unat addr + 4096) div 4096 = unat addr div 4096 + 1" by simp
    obtain s' where s': "mark_user_loop dir (addr + 0x1000) end ?s = Some s'" "dir_wf dir s'"
      "\<And>vb. walk_in dir s' vb =
       (if unat addr div 4096 + 1 \<le> unat vb div 4096 \<and> unat vb div 4096 < unat end div 4096
        then map_option (\<lambda>e. e OR PAGE_USER) (walk_in dir ?s vb) else walk_in dir ?s vb)"
      using IH unfolding fs(1) dv by blast
    have "unat addr div 4096 < unat end div 4096"
      using fs(3) less.prems(2,3) unfolding frame_def by (auto elim!: dvdE)
    moreover have "drop_bit 12 vb = drop_bit 12 addr \<longleftrightarrow> unat vb div 4096 = unat addr div 4096" for vb :: u32
      by (metis unat_page word_unat_eq_iff)
    ultimately have "walk_in dir s' vb =
       (if unat addr div 4096 \<le> unat vb div 4096 \<and> unat vb div 4096 < unat end div 4096
        then map_option (\<lambda>e. e OR PAGE_USER) (walk_in dir s vb) else walk_in dir s vb)" for vb
      using s'(3) [of vb] mark_user_step_correct(2) [OF less.prems(1), of addr vb] by auto
    with s' True show ?thesis by (simp add: mark_user_loop_step [of dir addr])
  qed
qed

lemma page_down: "frame (x AND NOT 0xFFF)" "unat (x AND NOT 0xFFF) div 4096 = unat (x :: u32) div 4096"
proof -
  have eq: "x AND NOT 0xFFF = x AND 0xFFFFF000" by (simp only: high_mask mask_literals)
  show "frame (x AND NOT 0xFFF)" unfolding eq by (rule frame_mask)
  have "drop_bit 12 (x AND NOT (mask 12)) = drop_bit 12 x"
    by (rule bit_word_eqI) (auto simp: bit_simps dest: bit_imp_le_length)
  then have "drop_bit 12 (x AND NOT 0xFFF) = drop_bit 12 x" by (simp only: mask_literals)
  then show "unat (x AND NOT 0xFFF) div 4096 = unat x div 4096" by (metis unat_page)
qed

lemma mark_user_range_walk:
  assumes "dir_wf (cr3 s) s" and "unat start + unat len + 0xFFF < 2 ^ 32"
  shows "\<exists>s'. vmm_mark_user_range start len s = Some s' \<and> dir_wf (cr3 s) s' \<and>
    (\<forall>vb. walk_in (cr3 s) s' vb =
       (if unat start div 4096 \<le> unat vb div 4096 \<and> unat vb div 4096 < (unat start + unat len + 4095) div 4096
        then map_option (\<lambda>e. e OR PAGE_USER) (walk_in (cr3 s) s vb) else walk_in (cr3 s) s vb))"
proof -
  have "unat (start + len + 0xFFF) = unat start + unat len + 4095" using assms(2) by (simp add: unat_word_ariths)
  with mark_user_loop_correct [OF assms(1) page_down(1) page_down(1), of start "start + len + 0xFFF"]
  show ?thesis
    unfolding page_down(2) vmm_mark_user_range_def vmm_get_current_directory_def Let_def by simp
qed

lemma mark_user_step_dir:
  assumes "dir_wf dir s" and "unat i < 1024"
  shows "entry_get dir i (mark_user_step dir addr s) =
    (if i = page_dir_index addr \<and> present dir i s then entry_get dir i s OR PAGE_USER else entry_get dir i s)"
proof (cases "present dir (page_dir_index addr) s")
  case False
  then show ?thesis by (auto simp: mark_user_step_def)
next
  case True
  have fd: "frame dir" "frame (table_of dir (page_dir_index addr) s)" using dir_wfD(1) [OF assms(1)] frame_mask by blast+
  have "table_of dir (page_dir_index addr) s \<noteq> dir" by (rule dir_wfD(4) [OF assms(1)]) (use True in simp_all)
  then show ?thesis using True assms(2) fd by (auto simp: mark_user_step_def Let_def entry_get_set)
qed

lemma or_user_set: "(x OR PAGE_USER) AND PAGE_USER \<noteq> 0"
proof
  assume "(x OR PAGE_USER) AND PAGE_USER = 0"
  then have "bit ((x OR PAGE_USER) AND PAGE_USER) 2 = bit (0 :: u32) 2" by simp
  then show False by (simp add: bit_simps PAGE_USER_def bit_numeral_rec)
qed

text \<open>The directory entries of the range are opened to user mode as well.\<close>

lemma mark_user_loop_dir:
  assumes "dir_wf dir s" "frame addr" "frame end" and "mark_user_loop dir addr end s = Some s'"
  shows "(unat i < 1024 \<longrightarrow> entry_get dir i s' \<in> {entry_get dir i s, entry_get dir i s OR PAGE_USER}) \<and>
    (unat addr div 4096 \<le> unat vb div 4096 \<and> unat vb div 4096 < unat end div 4096 \<and> present dir (page_dir_index vb) s \<longrightarrow>
       entry_get dir (page_dir_index vb) s' AND PAGE_USER \<noteq> 0)"
  using assms
proof (induction "unat end - unat addr" arbitrary: addr s i rule: less_induct)
  case less
  show ?case
  proof (cases "addr < end")
    case False
    then have "unat end div 4096 \<le> unat addr div 4096" by (simp add: word_le_nat_alt not_less div_le_mono)
    then have no: "\<not> (unat addr div 4096 \<le> unat vb div 4096 \<and> unat vb div 4096 < unat end div 4096)" by linarith
    have "s' = s" using less.prems(4) unfolding mark_user_loop_step [of dir addr "end" s] by (simp only: False if_False option.inject)
    then show ?thesis using no by blast
  next
    case True
    let ?s = "mark_user_step dir addr s"
    note fs = frame_step [OF less.prems(2,3) True]
    have "unat end - unat (addr + 0x1000) < unat end - unat addr" using fs by linarith
    note IH = less.hyps [OF this mark_user_step_correct(1) [OF less.prems(1), of addr] fs(2) less.prems(3)]
    have run: "mark_user_loop dir (addr + 0x1000) end ?s = Some s'" using less.prems(4) unfolding mark_user_loop_step [of dir addr "end" s] by (simp only: True if_True)
    have dv: "unat (addr + 0x1000) div 4096 = unat addr div 4096 + 1" unfolding fs(1) by simp
    note step = mark_user_step_dir [OF less.prems(1), of _ addr]
    have keep: "entry_get dir j s' \<in> {entry_get dir j ?s, entry_get dir j ?s OR PAGE_USER}" if "unat j < 1024" for j
      using IH [OF run, of j] that by blast
    have pres: "present dir (page_dir_index vb) ?s = present dir (page_dir_index vb) s"
      using step [of "page_dir_index vb"] by (simp add: or_user_bits)
    have here: "entry_get dir (page_dir_index vb) s' AND PAGE_USER \<noteq> 0"
      if "unat vb div 4096 = unat addr div 4096" "present dir (page_dir_index vb) s"
    proof -
      have "drop_bit 12 vb = drop_bit 12 addr" using that(1) by (metis unat_page word_unat_eq_iff)
      then have "page_dir_index vb = page_dir_index addr" using same_page_iff by blast
      then show ?thesis using keep [of "page_dir_index vb"] step [of "page_dir_index vb"] that(2) or_user_set by (auto simp: or.assoc)
    qed
    have "entry_get dir (page_dir_index vb) s' AND PAGE_USER \<noteq> 0"
      if "unat addr div 4096 \<le> unat vb div 4096" "unat vb div 4096 < unat end div 4096" "present dir (page_dir_index vb) s"
    proof (cases "unat vb div 4096 = unat addr div 4096")
      case True
      then show ?thesis using here that by blast
    next
      case False
      then have "unat addr div 4096 + 1 \<le> unat vb div 4096" using that(1) by linarith
      then show ?thesis using IH [OF run] that(2,3) pres unfolding dv by blast
    qed
    moreover have "entry_get dir i s' \<in> {entry_get dir i s, entry_get dir i s OR PAGE_USER}" if "unat i < 1024"
      using keep [of i] step [of i] that by (cases "i = page_dir_index addr \<and> present dir i s") (auto simp: or.assoc)
    ultimately show ?thesis by blast
  qed
qed

lemma mark_user_loop_mem:
  assumes "frame addr" "frame end" and "mark_user_loop dir addr end s = Some s'"
  shows "\<exists>m l. s' = s\<lparr>mem := m, invlpg_log := l\<rparr>"
  using assms
proof (induction "unat end - unat addr" arbitrary: addr s rule: less_induct)
  case less
  note run = less.prems(3) [unfolded mark_user_loop_step [of dir addr "end" s]]
  show ?case
  proof (cases "addr < end")
    case False
    then have "s' = s" using run by (simp only: if_False option.inject)
    then have "s' = s\<lparr>mem := mem s, invlpg_log := invlpg_log s\<rparr>" by simp
    then show ?thesis by blast
  next
    case True
    note fs = frame_step [OF less.prems(1,2) True]
    have "unat end - unat (addr + 0x1000) < unat end - unat addr" using fs by linarith
    from less.hyps [OF this fs(2) less.prems(2), of "mark_user_step dir addr s"] run True obtain m l where "s' = (mark_user_step dir addr s)\<lparr>mem := m, invlpg_log := l\<rparr>" by (simp only: if_True) blast
    moreover obtain m' l' where "mark_user_step dir addr s = s\<lparr>mem := m', invlpg_log := l'\<rparr>"
    proof (cases "present dir (page_dir_index addr) s")
      case False
      then have "mark_user_step dir addr s = s\<lparr>mem := mem s, invlpg_log := invlpg_log s\<rparr>" by (simp add: mark_user_step_def)
      then show thesis by (rule that)
    qed (auto simp: mark_user_step_def Let_def entry_set_def vmm_flush_tlb_entry_def intro: that)
    ultimately have "s' = s\<lparr>mem := m, invlpg_log := l\<rparr>" by simp
    then show ?thesis by blast
  qed
qed

lemma mark_user_range_access:
  assumes "dir_wf (cr3 s) s" and "unat start + unat len + 0xFFF < 2 ^ 32"
  shows "\<exists>m l. vmm_mark_user_range start len s = Some (s\<lparr>mem := m, invlpg_log := l\<rparr>) \<and> dir_wf (cr3 s) (s\<lparr>mem := m, invlpg_log := l\<rparr>) \<and>
    (\<forall>vb. walk_in (cr3 s) (s\<lparr>mem := m, invlpg_log := l\<rparr>) vb =
       (if unat start div 4096 \<le> unat vb div 4096 \<and> unat vb div 4096 < (unat start + unat len + 4095) div 4096
        then map_option (\<lambda>e. e OR PAGE_USER) (walk_in (cr3 s) s vb) else walk_in (cr3 s) s vb)) \<and>
    (\<forall>i. unat i < 1024 \<longrightarrow> entry_get (cr3 s) i (s\<lparr>mem := m, invlpg_log := l\<rparr>) \<in> {entry_get (cr3 s) i s, entry_get (cr3 s) i s OR PAGE_USER}) \<and>
    (\<forall>vb. unat start div 4096 \<le> unat vb div 4096 \<and> unat vb div 4096 < (unat start + unat len + 4095) div 4096 \<and>
       present (cr3 s) (page_dir_index vb) s \<longrightarrow> entry_get (cr3 s) (page_dir_index vb) (s\<lparr>mem := m, invlpg_log := l\<rparr>) AND PAGE_USER \<noteq> 0)"
proof -
  let ?a = "start AND NOT 0xFFF" and ?e = "(start + len + 0xFFF) AND NOT 0xFFF"
  obtain t where t: "vmm_mark_user_range start len s = Some t" "dir_wf (cr3 s) t"
    "\<forall>vb. walk_in (cr3 s) t vb =
       (if unat start div 4096 \<le> unat vb div 4096 \<and> unat vb div 4096 < (unat start + unat len + 4095) div 4096
        then map_option (\<lambda>e. e OR PAGE_USER) (walk_in (cr3 s) s vb) else walk_in (cr3 s) s vb)"
    using mark_user_range_walk [OF assms] by blast
  have run: "mark_user_loop (cr3 s) ?a ?e s = Some t"
    using t(1) by (simp add: vmm_mark_user_range_def vmm_get_current_directory_def)
  obtain m l where m: "t = s\<lparr>mem := m, invlpg_log := l\<rparr>" using mark_user_loop_mem [OF page_down(1) page_down(1) run] by blast
  have e: "unat (start + len + 0xFFF) = unat start + unat len + 4095" using assms(2) by (simp add: unat_word_ariths)
  note d = mark_user_loop_dir [OF assms(1) page_down(1) page_down(1) run, unfolded page_down(2) e]
  show ?thesis using t d unfolding m by blast
qed

text \<open>The directory entries of the range, exactly.\<close>

lemma mark_user_loop_entries:
  assumes "dir_wf dir s" "frame addr" "frame end" and "mark_user_loop dir addr end s = Some s'" and "unat i < 1024"
  shows "entry_get dir i s' =
    (if present dir i s \<and> (\<exists>va. unat addr div 4096 \<le> unat va div 4096 \<and> unat va div 4096 < unat end div 4096 \<and> page_dir_index va = i)
     then entry_get dir i s OR PAGE_USER else entry_get dir i s)"
  using assms(1-4)
proof (induction "unat end - unat addr" arbitrary: addr s rule: less_induct)
  case less
  let ?in = "\<lambda>a va. unat a div 4096 \<le> unat (va :: u32) div 4096 \<and> unat va div 4096 < unat end div 4096 \<and> page_dir_index va = i"
  show ?case
  proof (cases "addr < end")
    case False
    then have "unat end div 4096 \<le> unat addr div 4096" by (simp add: word_le_nat_alt not_less div_le_mono)
    then have no: "\<not> (\<exists>va. ?in addr va)" by auto
    have "s' = s" using less.prems(4) unfolding mark_user_loop_step [of dir addr "end" s] by (simp only: False if_False option.inject)
    then show ?thesis using no by (simp only: simp_thms if_False)
  next
    case True
    let ?s = "mark_user_step dir addr s"
    note fs = frame_step [OF less.prems(2,3) True]
    have "unat end - unat (addr + 0x1000) < unat end - unat addr" using fs by linarith
    note IH = less.hyps [OF this mark_user_step_correct(1) [OF less.prems(1), of addr] fs(2) less.prems(3)]
    have run: "mark_user_loop dir (addr + 0x1000) end ?s = Some s'"
      using less.prems(4) unfolding mark_user_loop_step [of dir addr "end" s] by (simp only: True if_True)
    have dv: "unat (addr + 0x1000) div 4096 = unat addr div 4096 + 1" unfolding fs(1) by simp
    have lt: "unat addr div 4096 < unat end div 4096"
      using fs(3) less.prems(2,3) unfolding frame_def by (auto elim!: dvdE)
    have same: "page_dir_index va = page_dir_index addr" if "unat va div 4096 = unat addr div 4096" for va :: u32
    proof -
      have "drop_bit 12 va = drop_bit 12 addr" using that by (metis unat_page word_unat_eq_iff)
      then show ?thesis using same_page_iff by blast
    qed
    have ex: "(\<exists>va. ?in addr va) \<longleftrightarrow> i = page_dir_index addr \<or> (\<exists>va. ?in (addr + 0x1000) va)"
    proof
      assume "\<exists>va. ?in addr va"
      then obtain va where va: "?in addr va" ..
      show "i = page_dir_index addr \<or> (\<exists>va. ?in (addr + 0x1000) va)"
      proof (cases "unat va div 4096 = unat addr div 4096")
        case True
        then show ?thesis using same va by blast
      next
        case False
        then have "unat (addr + 0x1000) div 4096 \<le> unat va div 4096" using va unfolding dv by linarith
        then show ?thesis using va by blast
      qed
    next
      assume "i = page_dir_index addr \<or> (\<exists>va. ?in (addr + 0x1000) va)"
      then show "\<exists>va. ?in addr va" using lt unfolding dv by (metis Suc_eq_plus1 Suc_leD order_refl)
    qed
    note step = mark_user_step_dir [OF less.prems(1) assms(5), of addr]
    have pres: "present dir i ?s = present dir i s" using step by (simp add: or_user_bits)
    show ?thesis using IH [OF run] unfolding ex pres step by (auto simp: or.assoc)
  qed
qed

text \<open>
  User code reaches an address when directory and table entry are both present and open to user mode.
\<close>

definition user_access :: "'a vmm_state_scheme \<Rightarrow> u32 \<Rightarrow> bool" where
  "user_access s va \<longleftrightarrow> entry_get (cr3 s) (page_dir_index va) s AND PAGE_USER \<noteq> 0 \<and>
     (case walk s va of None \<Rightarrow> False | Some pte \<Rightarrow> pte AND PAGE_USER \<noteq> 0)"

definition in_pages :: "u32 \<Rightarrow> u32 \<Rightarrow> u32 \<Rightarrow> bool" where
  "in_pages start len va \<longleftrightarrow> unat start div 4096 \<le> unat va div 4096 \<and> unat va div 4096 < (unat start + unat len + 4095) div 4096"

text \<open>
  C26: for a range that does not reach the end of the address space,
  \<open>vmm_mark_user_range\<close> terminates. Afterwards user code reaches an address exactly when it is mapped, its page intersects the
  range or had an entry open to user mode before, and the entry of the directory is open: it was before, or the range has a page under the same entry.
  In particular every mapped page of the range is reachable. All addresses translate to the same frames as before.
\<close>

theorem vmm_mark_user_range_correct:
  assumes "dir_wf (cr3 s) s" and "unat start + unat len + 0xFFF < 2 ^ 32"
  shows "\<exists>s'. vmm_mark_user_range start len s = Some s' \<and> dir_wf (cr3 s) s' \<and> cr3 s' = cr3 s \<and>
    (\<forall>vb. walk_in (cr3 s) s' vb =
       (if in_pages start len vb then map_option (\<lambda>e. e OR PAGE_USER) (walk_in (cr3 s) s vb) else walk_in (cr3 s) s vb)) \<and>
    (\<forall>vb. user_access s' vb \<longleftrightarrow>
       (case walk_in (cr3 s) s vb of
          None \<Rightarrow> False
        | Some pte \<Rightarrow> (in_pages start len vb \<or> pte AND PAGE_USER \<noteq> 0) \<and>
            (entry_get (cr3 s) (page_dir_index vb) s AND PAGE_USER \<noteq> 0 \<or> (\<exists>va. in_pages start len va \<and> page_dir_index va = page_dir_index vb))))"
proof -
  let ?a = "start AND NOT 0xFFF" and ?e = "(start + len + 0xFFF) AND NOT 0xFFF"
  obtain m l where t: "vmm_mark_user_range start len s = Some (s\<lparr>mem := m, invlpg_log := l\<rparr>)" "dir_wf (cr3 s) (s\<lparr>mem := m, invlpg_log := l\<rparr>)"
    and w: "\<forall>vb. walk_in (cr3 s) (s\<lparr>mem := m, invlpg_log := l\<rparr>) vb =
       (if in_pages start len vb then map_option (\<lambda>e. e OR PAGE_USER) (walk_in (cr3 s) s vb) else walk_in (cr3 s) s vb)"
    using mark_user_range_access [OF assms] unfolding in_pages_def by blast
  let ?t = "s\<lparr>mem := m, invlpg_log := l\<rparr>"
  have run: "mark_user_loop (cr3 s) ?a ?e s = Some ?t"
    using t(1) by (simp add: vmm_mark_user_range_def vmm_get_current_directory_def)
  have e: "unat (start + len + 0xFFF) = unat start + unat len + 4095" using assms(2) by (simp add: unat_word_ariths)
  have d: "entry_get (cr3 s) (page_dir_index vb) ?t =
      (if present (cr3 s) (page_dir_index vb) s \<and> (\<exists>va. in_pages start len va \<and> page_dir_index va = page_dir_index vb)
       then entry_get (cr3 s) (page_dir_index vb) s OR PAGE_USER else entry_get (cr3 s) (page_dir_index vb) s)" for vb
    using mark_user_loop_entries [OF assms(1) page_down(1) page_down(1) run, of "page_dir_index vb", unfolded page_down(2) e]
    by (simp add: in_pages_def conj_assoc)
  have p: "walk_in (cr3 s) s vb \<noteq> None \<Longrightarrow> present (cr3 s) (page_dir_index vb) s" for vb
    by (simp add: walk_in_def Let_def split: if_splits)
  have acc: "user_access ?t vb \<longleftrightarrow>
       (case walk_in (cr3 s) s vb of
          None \<Rightarrow> False
        | Some pte \<Rightarrow> (in_pages start len vb \<or> pte AND PAGE_USER \<noteq> 0) \<and>
            (entry_get (cr3 s) (page_dir_index vb) s AND PAGE_USER \<noteq> 0 \<or> (\<exists>va. in_pages start len va \<and> page_dir_index va = page_dir_index vb)))" for vb
  proof (cases "walk_in (cr3 s) s vb")
    case None
    then show ?thesis using w by (simp add: user_access_def)
  next
    case (Some pte)
    have c: "cr3 ?t = cr3 s" by simp
    have "walk_in (cr3 s) ?t vb = Some (if in_pages start len vb then pte OR PAGE_USER else pte)" using w Some by simp
    then show ?thesis using p [of vb] Some or_user_set unfolding user_access_def c d by auto
  qed
  show ?thesis by (intro exI [of _ ?t] conjI t w allI acc) simp
qed

theorem vmm_mark_user_range_correct_witness:
  "\<exists>s'. vmm_mark_user_range 0x5000 0x1000 (snd (vmm_map_page 0x5000 0x300000 2 sample_vm)) = Some s' \<and>
     \<not> user_access (snd (vmm_map_page 0x5000 0x300000 2 sample_vm)) 0x5123 \<and> user_access s' 0x5123 \<and> \<not> user_access s' 0x6000"
proof -
  let ?r = "vmm_map_page 0x5000 0x300000 2 sample_vm"
  have "?r = (fst ?r, snd ?r)" by simp
  from sample_vm_wf(1) this obtain wf: "dir_wf 0x100000 (snd ?r)" and cr: "cr3 (snd ?r) = 0x100000"
    and w: "\<And>vb. walk_in 0x100000 (snd ?r) vb =
      (if drop_bit 12 vb = drop_bit 12 (0x5000 :: u32) then Some (new_pte 0x300000 2) else walk_in 0x100000 sample_vm vb)"
    by (cases rule: vmm_map_page_cases) (use sample_vm_wf in auto)
  have z: "walk_in 0x100000 sample_vm vb = None" for vb by (simp add: walk_in_def sample_vm_wf)
  have wv: "walk_in 0x100000 (snd ?r) 0x5123 = Some 0x300003" "walk_in 0x100000 (snd ?r) 0x6000 = None"
    using w z by (simp_all add: PAGE_PRESENT_def)
  have r: "unat (0x5000 :: u32) + unat (0x1000 :: u32) + 0xFFF < 2 ^ 32" by simp
  have in5: "in_pages 0x5000 0x1000 0x5123" by (simp add: in_pages_def)
  obtain s' where s': "vmm_mark_user_range 0x5000 0x1000 (snd ?r) = Some s'"
    and a: "\<forall>vb. user_access s' vb \<longleftrightarrow>
       (case walk_in 0x100000 (snd ?r) vb of
          None \<Rightarrow> False
        | Some pte \<Rightarrow> (in_pages 0x5000 0x1000 vb \<or> pte AND PAGE_USER \<noteq> 0) \<and>
            (entry_get 0x100000 (page_dir_index vb) (snd ?r) AND PAGE_USER \<noteq> 0 \<or>
             (\<exists>va. in_pages 0x5000 0x1000 va \<and> page_dir_index va = page_dir_index vb)))"
    using vmm_mark_user_range_correct [of "snd ?r", OF _ r, unfolded cr, OF wf] by blast
  have "user_access s' 0x5123" using a [rule_format, of "0x5123"] wv(1) in5 by auto
  moreover have "\<not> user_access s' 0x6000" using a [rule_format, of "0x6000"] wv(2) by simp
  moreover have "\<not> user_access (snd ?r) 0x5123" using wv(1) by (simp add: user_access_def cr PAGE_USER_def)
  ultimately show ?thesis using s' by blast
qed

text \<open>
  \<open>vmm_disable_paging\<close> clears the protection-enable bit (bit 0) of CR0 and no other bit:
  it never turns paging (bit 31) off.
\<close>

theorem vmm_disable_paging_effect:
  "bit (cr0 (vmm_disable_paging s)) n \<longleftrightarrow> bit (cr0 s) n \<and> n \<noteq> 0"
proof -
  have "vmm_disable_paging s = s\<lparr>cr0 := cr0 s AND NOT (2 ^ 0)\<rparr>" by (simp add: vmm_disable_paging_def PAGE_PRESENT_def)
  then have "cr0 (vmm_disable_paging s) = cr0 s AND NOT (2 ^ 0)" by simp
  then show ?thesis by (simp only: bit_clear_flag)
qed

section \<open>Looking up and unmapping\<close>

lemma get_physical_walk:
  "walk s va = Some e \<Longrightarrow> vmm_get_physical_address va s = e AND 0xFFFFF000"
  by (auto simp: walk_in_def vmm_get_physical_address_def vmm_get_current_directory_def Let_def split: if_splits)

lemma pte_frame: "((pa AND 0xFFFFF000) OR (fl AND 0xFFF) OR PAGE_PRESENT) AND 0xFFFFF000 = pa AND 0xFFFFF000"
proof -
  have one: "PAGE_PRESENT = mask 1" by (simp add: PAGE_PRESENT_def mask_eq_exp_minus_1)
  show ?thesis unfolding high_mask mask_literals one by (rule bit_word_eqI) (auto simp: bit_simps)
qed

lemma vmm_unmap_page_walk:
  assumes wf: "dir_wf (cr3 s) s"
  shows "dir_wf (cr3 s) (vmm_unmap_page va s)" and "cr3 (vmm_unmap_page va s) = cr3 s"
    and "walk_in (cr3 s) (vmm_unmap_page va s) vb = (if drop_bit 12 vb = drop_bit 12 va then None else walk s vb)"
proof -
  let ?i = "page_dir_index va"
  have "dir_wf (cr3 s) (vmm_unmap_page va s) \<and> cr3 (vmm_unmap_page va s) = cr3 s \<and>
      walk_in (cr3 s) (vmm_unmap_page va s) vb = (if drop_bit 12 vb = drop_bit 12 va then None else walk s vb)"
  proof (cases "present (cr3 s) ?i s")
    case True
    define t where "t = entry_set (table_of (cr3 s) ?i s) (page_table_index va) 0 s"
    note e = set_table_entry [OF wf True t_def]
    have "vmm_unmap_page va s = vmm_flush_tlb_entry va t"
      using True by (simp add: vmm_unmap_page_def vmm_get_current_directory_def Let_def t_def)
    moreover have "dir_wf (cr3 s) (vmm_flush_tlb_entry va t)" using e(1) dir_wf_cong [of "vmm_flush_tlb_entry va t" t] by simp
    ultimately show ?thesis using e(2) [of vb] by (simp add: t_def)
  next
    case False
    then have "vmm_unmap_page va s = s" by (simp add: vmm_unmap_page_def vmm_get_current_directory_def Let_def)
    moreover have "walk s vb = None" if "drop_bit 12 vb = drop_bit 12 va"
      using False that by (simp add: walk_in_def Let_def same_page_iff [symmetric])
    ultimately show ?thesis using wf by simp
  qed
  then show "dir_wf (cr3 s) (vmm_unmap_page va s)" "cr3 (vmm_unmap_page va s) = cr3 s"
    "walk_in (cr3 s) (vmm_unmap_page va s) vb = (if drop_bit 12 vb = drop_bit 12 va then None else walk s vb)" by simp_all
qed

text \<open>
  map, look up, unmap: after a successful \<open>vmm_map_page\<close> the lookup gives back the frame;
  after unmapping again the page is not translated and every other page translates as before the two
  calls.
\<close>

theorem vmm_map_unmap_roundtrip:
  assumes "dir_wf (cr3 s) s" and "vmm_map_page va pa fl s = (0, s')"
  shows "vmm_get_physical_address va s' = pa AND 0xFFFFF000 \<and>
    (\<forall>vb. walk_in (cr3 s) (vmm_unmap_page va s') vb =
       (if drop_bit 12 vb = drop_bit 12 va then None else walk_in (cr3 s) s vb))"
  using assms
proof (cases rule: vmm_map_page_cases)
  case ok
  have "walk s' va = Some (new_pte pa fl)" using ok(2) ok(6) [of va] by simp
  then have "vmm_get_physical_address va s' = pa AND 0xFFFFF000" by (simp add: get_physical_walk pte_frame)
  moreover have "dir_wf (cr3 s') s'" using ok(2,3) by simp
  ultimately show ?thesis using vmm_unmap_page_walk(3) [of s' va] ok(2,6) by simp
qed simp

theorem vmm_map_unmap_roundtrip_witness:
  "\<exists>s'. vmm_map_page 0xD0000000 0x300123 2 sample_vm = (0, s') \<and> vmm_get_physical_address 0xD0000000 s' = 0x300000"
proof -
  obtain r s' where run: "vmm_map_page 0xD0000000 0x300123 2 sample_vm = (r, s')" by fastforce
  from sample_vm_wf(1) run have "r = 0" by (cases rule: vmm_map_page_cases) (use sample_vm_wf(4) in simp_all)
  with run vmm_map_unmap_roundtrip [OF sample_vm_wf(1), of "0xD0000000" "0x300123" 2 s'] show ?thesis by auto
qed

end
