(* ===== verification/VirtualMemory.thy ===== *)
theory VirtualMemory
  imports Vmm
begin

text \<open>
  Accesses of C code to addresses above the identity-mapped 80 MB. Every byte goes through the page
  tables of the current directory; an access to a page that is not mapped is a page fault, from which
  \<open>exception_handler\<close> never returns, and is the result \<open>None\<close>. A \<open>window\<close> is a range of
  addresses that is mapped to frames of its own; inside it, memory behaves as a flat array of bytes.
\<close>

section \<open>Accesses\<close>

definition phys_addr :: "'a vmm_state_scheme \<Rightarrow> u32 \<Rightarrow> u32 option" where
  "phys_addr s va = map_option (\<lambda>pte. (pte AND 0xFFFFF000) OR (va AND 0xFFF)) (walk s va)"

definition vload8 :: "u32 \<Rightarrow> 'a vmm_state_scheme \<Rightarrow> u8 option" where
  "vload8 va s = map_option (mem s) (phys_addr s va)"

definition vstore8 :: "u32 \<Rightarrow> u8 \<Rightarrow> 'a vmm_state_scheme \<Rightarrow> 'a vmm_state_scheme option" where
  "vstore8 va b s = map_option (\<lambda>p. s\<lparr>mem := (mem s)(p := b)\<rparr>) (phys_addr s va)"

definition vload32 :: "u32 \<Rightarrow> 'a vmm_state_scheme \<Rightarrow> u32 option" where
  "vload32 va s = do {
     b0 \<leftarrow> vload8 va s; b1 \<leftarrow> vload8 (va + 1) s; b2 \<leftarrow> vload8 (va + 2) s; b3 \<leftarrow> vload8 (va + 3) s;
     Some (ucast b0 OR push_bit 8 (ucast b1) OR push_bit 16 (ucast b2) OR push_bit 24 (ucast b3)) }"

definition vstore32 :: "u32 \<Rightarrow> u32 \<Rightarrow> 'a vmm_state_scheme \<Rightarrow> 'a vmm_state_scheme option" where
  "vstore32 va v s = do {
     p0 \<leftarrow> phys_addr s va; p1 \<leftarrow> phys_addr s (va + 1); p2 \<leftarrow> phys_addr s (va + 2); p3 \<leftarrow> phys_addr s (va + 3);
     Some (s\<lparr>mem := (mem s)(p0 := ucast v, p1 := ucast (drop_bit 8 v),
                           p2 := ucast (drop_bit 16 v), p3 := ucast (drop_bit 24 v))\<rparr>) }"

section \<open>Frames outside the page tables\<close>

text \<open>A frame is private in a state when it is neither free nor the current directory nor one of its
  tables: storing into it changes no translation.\<close>

definition private_frame :: "'a vmm_state_scheme \<Rightarrow> u32 \<Rightarrow> bool" where
  "private_frame s f \<longleftrightarrow> f \<noteq> cr3 s \<and> f \<notin> free_frames (pmm s) \<and>
     (\<forall>i. unat i < 1024 \<longrightarrow> present (cr3 s) i s \<longrightarrow> table_of (cr3 s) i s \<noteq> f)"

lemma unat_frame_of: "unat (p AND 0xFFFFF000 :: u32) = unat p div 4096 * 4096"
proof -
  have "4096 dvd unat (p AND 0xFFFFF000)" using frame_mask [of p] by (simp add: frame_def)
  moreover have "(0xFFFFF000 :: u32) = NOT 0xFFF" by simp
  then have "unat (p AND 0xFFFFF000) div 4096 = unat p div 4096"
    using page_down(2) [of p] by (simp only:)
  ultimately show ?thesis by (metis dvd_div_mult_self)
qed

lemma frame_of_add:
  assumes "frame A" and "n < 4096"
  shows "(A + of_nat n) AND 0xFFFFF000 = A"
proof -
  have "unat (A + of_nat n) = unat A + n"
    using frame_room [OF assms(1)] assms(2) by (intro unat_add_less) simp
  then have "unat ((A + of_nat n) AND 0xFFFFF000) = unat A"
    using assms by (auto simp: unat_frame_of frame_def elim!: dvdE)
  then show ?thesis by (simp add: word_unat_eq_iff)
qed

lemma entry_get_store_other:
  assumes "frame A" and "unat i < 1024" and "p AND 0xFFFFF000 \<noteq> A"
  shows "entry_get A i (s\<lparr>mem := (mem s)(p := b)\<rparr>) = entry_get A i s"
proof -
  have "A + 4 * i + of_nat k \<noteq> p" if "k < 4" for k
  proof -
    have "A + 4 * i + of_nat k = A + of_nat (4 * unat i + k)" by simp
    moreover have "4 * unat i + k < 4096" using assms(2) that by simp
    ultimately have "(A + 4 * i + of_nat k) AND 0xFFFFF000 = A" using frame_of_add [OF assms(1)] by metis
    with assms(3) show ?thesis by auto
  qed
  then show ?thesis unfolding entry_get_def by (intro load32_cong) auto
qed

text \<open>What a store into a private frame keeps.\<close>

lemma private_store:
  assumes wf: "dir_wf (cr3 s) s" and pf: "private_frame s (p AND 0xFFFFF000)"
    and t: "t = s\<lparr>mem := (mem s)(p := b)\<rparr>"
  shows "dir_wf (cr3 t) t" and "walk t va = walk s va" and "private_frame t f = private_frame s f"
proof -
  have dir: "entry_get (cr3 s) i t = entry_get (cr3 s) i s" if "unat i < 1024" for i
    using pf that dir_wfD(1) [OF wf] unfolding t private_frame_def by (intro entry_get_store_other) auto
  have tab: "entry_get (table_of (cr3 s) i s) j t = entry_get (table_of (cr3 s) i s) j s"
    if "unat i < 1024" "unat j < 1024" "present (cr3 s) i s" for i j
    using pf that unfolding t private_frame_def by (intro entry_get_store_other) auto
  have eq: "cr3 t = cr3 s" "pmm t = pmm s" by (simp_all add: t)
  show "dir_wf (cr3 t) t" unfolding eq using dir_wf_cong [OF eq(2) dir] wf by simp
  show "walk t va = walk s va" unfolding eq using dir tab by (simp add: walk_in_def Let_def)
  show "private_frame t f = private_frame s f" unfolding private_frame_def eq using dir by simp
qed

section \<open>Windows\<close>

definition window :: "'a vmm_state_scheme \<Rightarrow> nat \<Rightarrow> nat \<Rightarrow> bool" where
  "window s lo hi \<longleftrightarrow> dir_wf (cr3 s) s \<and>
     (\<forall>va. lo \<le> unat va \<longrightarrow> unat va < hi \<longrightarrow>
        (\<exists>pte. walk s va = Some pte \<and> private_frame s (pte AND 0xFFFFF000))) \<and>
     (\<forall>va vb p q. lo \<le> unat va \<longrightarrow> unat va < hi \<longrightarrow> lo \<le> unat vb \<longrightarrow> unat vb < hi \<longrightarrow>
        walk s va = Some p \<longrightarrow> walk s vb = Some q \<longrightarrow> p AND 0xFFFFF000 = q AND 0xFFFFF000 \<longrightarrow>
        drop_bit 12 va = drop_bit 12 vb)"

definition view :: "'a vmm_state_scheme \<Rightarrow> mem" where
  "view s va = (case phys_addr s va of None \<Rightarrow> 0 | Some p \<Rightarrow> mem s p)"

definition put32 :: "u32 \<Rightarrow> u32 \<Rightarrow> 'a vmm_state_scheme \<Rightarrow> 'a vmm_state_scheme" where
  "put32 w v s = the (vstore32 w v s)"

lemma windowD:
  assumes "window s lo hi" and "lo \<le> unat va" and "unat va < hi"
  obtains p where "phys_addr s va = Some p" and "private_frame s (p AND 0xFFFFF000)"
proof -
  obtain pte where pte: "walk s va = Some pte" "private_frame s (pte AND 0xFFFFF000)"
    using assms unfolding window_def by blast
  let ?p = "(pte AND 0xFFFFF000) OR (va AND 0xFFF)"
  have "?p AND 0xFFFFF000 = pte AND 0xFFFFF000"
    unfolding high_mask mask_literals by (rule bit_word_eqI) (auto simp: bit_simps)
  with pte that [of ?p] show thesis by (simp add: phys_addr_def)
qed

lemma window_inj:
  assumes "window s lo hi" and "lo \<le> unat va" "unat va < hi" and "lo \<le> unat vb" "unat vb < hi"
    and "phys_addr s va = Some p" and "phys_addr s vb = Some p"
  shows "va = vb"
proof -
  obtain x y where xy: "walk s va = Some x" "walk s vb = Some y"
      "p = (x AND 0xFFFFF000) OR (va AND 0xFFF)" "p = (y AND 0xFFFFF000) OR (vb AND 0xFFF)"
    using assms(6,7) by (auto simp: phys_addr_def)
  have hi: "((z AND 0xFFFFF000) OR (v AND 0xFFF)) AND 0xFFFFF000 = z AND 0xFFFFF000"
    and lo: "((z AND 0xFFFFF000) OR (v AND 0xFFF)) AND 0xFFF = v AND 0xFFF" for z v :: u32
    unfolding high_mask mask_literals by (rule bit_word_eqI, auto simp: bit_simps)+
  have "x AND 0xFFFFF000 = y AND 0xFFFFF000" using hi [of x va] hi [of y vb] xy(3,4) by simp
  with assms(1-5) xy(1,2) have "drop_bit 12 va = drop_bit 12 vb" unfolding window_def by blast
  moreover have "va AND 0xFFF = vb AND 0xFFF" using lo [of x va] lo [of y vb] xy(3,4) by simp
  then have "take_bit 12 va = take_bit 12 vb" by (simp add: mask_literals flip: take_bit_eq_mask)
  ultimately show ?thesis by (metis bits_ident)
qed

lemma window_store:
  assumes win: "window s lo hi" and va: "lo \<le> unat va" "unat va < hi"
    and p: "phys_addr s va = Some p" and t: "t = s\<lparr>mem := (mem s)(p := b)\<rparr>"
  shows "window t lo hi" and "phys_addr t = phys_addr s"
    and "lo \<le> unat vb \<Longrightarrow> unat vb < hi \<Longrightarrow> view t vb = (if vb = va then b else view s vb)"
proof -
  have wf: "dir_wf (cr3 s) s" using win by (simp add: window_def)
  have pf: "private_frame s (p AND 0xFFFFF000)" using windowD [OF win va] p by auto
  note ps = private_store [OF wf pf t]
  from win ps(1) show "window t lo hi" unfolding window_def ps(2,3) by blast
  show ph: "phys_addr t = phys_addr s" using ps(2) by (simp add: phys_addr_def fun_eq_iff)
  assume vb: "lo \<le> unat vb" "unat vb < hi"
  obtain q where q: "phys_addr s vb = Some q" using windowD [OF win vb] by blast
  have "q = p \<longleftrightarrow> vb = va" using window_inj [OF win vb va q] p q by auto
  with q ph show "view t vb = (if vb = va then b else view s vb)" by (simp add: view_def t)
qed

text \<open>The aligned words that lie in a window.\<close>

definition word_in :: "nat \<Rightarrow> nat \<Rightarrow> u32 \<Rightarrow> bool" where
  "word_in lo hi w \<longleftrightarrow> aligned4 w \<and> lo \<le> unat w \<and> unat w + 4 \<le> hi"

lemma word_in_bytes:
  assumes "word_in lo hi w" and "k < 4"
  shows "lo \<le> unat (w + of_nat k)" "unat (w + of_nat k) < hi"
  using assms aligned4_add [of w k] unfolding word_in_def by linarith+

abbreviation vword :: "'a vmm_state_scheme \<Rightarrow> u32 \<Rightarrow> u32" where
  "vword s w \<equiv> load32 (view s) w"

lemma vload8_view:
  assumes "window s lo hi" "lo \<le> unat a" "unat a < hi"
  shows "vload8 a s = Some (view s a)"
  by (rule windowD [OF assms]) (simp add: vload8_def view_def)

lemma vload32_view:
  assumes "window s lo hi" and "word_in lo hi w"
  shows "vload32 w s = Some (vword s w)"
proof -
  have "vload8 (w + of_nat k) s = Some (view s (w + of_nat k))" if "k < 4" for k
    using vload8_view [OF assms(1) word_in_bytes [OF assms(2) that]] .
  from this [of 0] this [of 1] this [of 2] this [of 3] show ?thesis
    by (simp add: vload32_def load32_def)
qed

lemma vstore32_put32:
  assumes win: "window s lo hi" and w: "word_in lo hi w"
  shows "vstore32 w v s = Some (put32 w v s)" and "window (put32 w v s) lo hi"
    and "lo \<le> unat a \<Longrightarrow> unat a < hi \<Longrightarrow> view (put32 w v s) a = store32 w v (view s) a"
    and "\<exists>m. put32 w v s = s\<lparr>mem := m\<rparr>"
proof -
  have k: "lo \<le> unat (w + of_nat k) \<and> unat (w + of_nat k) < hi" if "k < 4" for k
    using word_in_bytes [OF w that] by blast
  have k0: "lo \<le> unat w" "unat w < hi" and k1: "lo \<le> unat (w + 1)" "unat (w + 1) < hi"
    and k2: "lo \<le> unat (w + 2)" "unat (w + 2) < hi" and k3: "lo \<le> unat (w + 3)" "unat (w + 3) < hi"
    using k [of 0] k [of 1] k [of 2] k [of 3] by simp_all
  obtain p0 p1 p2 p3 where p: "phys_addr s w = Some p0" "phys_addr s (w + 1) = Some p1"
      "phys_addr s (w + 2) = Some p2" "phys_addr s (w + 3) = Some p3"
    using windowD [OF win k0] windowD [OF win k1] windowD [OF win k2] windowD [OF win k3] by metis
  define t0 where "t0 = s\<lparr>mem := (mem s)(p0 := ucast v)\<rparr>"
  define t1 where "t1 = t0\<lparr>mem := (mem t0)(p1 := ucast (drop_bit 8 v))\<rparr>"
  define t2 where "t2 = t1\<lparr>mem := (mem t1)(p2 := ucast (drop_bit 16 v))\<rparr>"
  define t3 where "t3 = t2\<lparr>mem := (mem t2)(p3 := ucast (drop_bit 24 v))\<rparr>"
  have run: "vstore32 w v s = Some t3" by (simp add: vstore32_def p t0_def t1_def t2_def t3_def)
  then have put: "put32 w v s = t3" by (simp add: put32_def)
  note w0 = window_store [OF win k0 p(1) t0_def]
  note w1 = window_store [OF w0(1) k1 p(2) [folded w0(2)] t1_def]
  note w2 = window_store [OF w1(1) k2 p(3) [folded w0(2), folded w1(2)] t2_def]
  note w3 = window_store [OF w2(1) k3 p(4) [folded w0(2), folded w1(2), folded w2(2)] t3_def]
  show "vstore32 w v s = Some (put32 w v s)" "window (put32 w v s) lo hi"
    using run put w3(1) by simp_all
  show "view (put32 w v s) a = store32 w v (view s) a" if "lo \<le> unat a" "unat a < hi"
    unfolding put using that by (simp add: w0(3) w1(3) w2(3) w3(3) store32_def)
  show "\<exists>m. put32 w v s = s\<lparr>mem := m\<rparr>" unfolding put by (simp add: t0_def t1_def t2_def t3_def) blast
qed

lemma vword_put32:
  assumes win: "window s lo hi" and w: "word_in lo hi w" and x: "word_in lo hi x"
  shows "vword (put32 w v s) x = (if x = w then v else vword s x)"
proof -
  have "vword (put32 w v s) x = load32 (store32 w v (view s)) x"
    using vstore32_put32(3) [OF win w] word_in_bytes [OF x] by (intro load32_cong) auto
  then show ?thesis using w x by (auto simp: load32_store32 word_in_def)
qed

section \<open>Growing a window\<close>

text \<open>\<open>keeps_private s s'\<close>: the frames that are private in \<open>s\<close> are private in \<open>s'\<close> and hold the same bytes.\<close>

definition keeps_private :: "'a vmm_state_scheme \<Rightarrow> 'a vmm_state_scheme \<Rightarrow> bool" where
  "keeps_private s s' \<longleftrightarrow>
     (\<forall>f. private_frame s f \<longrightarrow> private_frame s' f \<and> (\<forall>p. p AND 0xFFFFF000 = f \<longrightarrow> mem s' p = mem s p))"

lemma entry_set_byte_other:
  assumes "frame A" and "unat i < 1024" and "p AND 0xFFFFF000 \<noteq> A"
  shows "mem (entry_set A i v s) p = mem s p"
proof -
  have "p \<noteq> A + 4 * i + of_nat k" if "k < 4" for k
  proof -
    have "A + 4 * i + of_nat k = A + of_nat (4 * unat i + k)" by simp
    moreover have "4 * unat i + k < 4096" using assms(2) that by simp
    ultimately have "(A + 4 * i + of_nat k) AND 0xFFFFF000 = A" using frame_of_add [OF assms(1)] by metis
    with assms(3) show ?thesis by auto
  qed
  from this [of 0] this [of 1] this [of 2] this [of 3] show ?thesis
    by (simp add: entry_set_def store32_def)
qed

lemma clear_entries_byte_other:
  assumes "frame A" and "p AND 0xFFFFF000 \<noteq> A"
  shows "mem (clear_entries A s) p = mem s p"
  unfolding clear_entries_def
proof (rule for_upto_invariant [where I = "\<lambda>k t. mem t p = mem s p"])
  fix k t assume "k < (1024 :: nat)" "mem t p = mem s p"
  then show "mem (entry_set A (of_nat k) 0 t) p = mem s p"
    by (simp add: entry_set_byte_other [OF assms(1) unat_small(1) assms(2)])
qed simp_all

lemma keeps_private_trans: "keeps_private s t \<Longrightarrow> keeps_private t u \<Longrightarrow> keeps_private s u"
  unfolding keeps_private_def by metis

lemma keeps_private_flush [simp]: "keeps_private s (vmm_flush_tlb_entry a t) = keeps_private s t"
  unfolding keeps_private_def private_frame_def by (simp add: vmm_flush_tlb_entry_def entry_get_def)

lemma keeps_private_table:
  assumes wf: "dir_wf (cr3 s) s" and pr: "present (cr3 s) (page_dir_index va) s"
  shows "keeps_private s (entry_set (table_of (cr3 s) (page_dir_index va) s) (page_table_index va) v s)"
    (is "keeps_private s ?t")
proof -
  let ?T = "table_of (cr3 s) (page_dir_index va) s"
  have ne: "?T \<noteq> cr3 s" using dir_wfD(4) [OF wf _ pr] by simp
  have "entry_get (cr3 s) i ?t = entry_get (cr3 s) i s" if "unat i < 1024" for i
    using ne that dir_wfD(1) [OF wf] by (simp add: entry_get_set)
  moreover have "mem ?t p = mem s p" if "private_frame s (p AND 0xFFFFF000)" for p
  proof (rule entry_set_byte_other)
    show "p AND 0xFFFFF000 \<noteq> ?T" using that pr index_bounds(1) unfolding private_frame_def by metis
  qed simp_all
  ultimately show ?thesis unfolding keeps_private_def private_frame_def by simp
qed

lemma keeps_private_install:
  assumes wf: "dir_wf (cr3 s) s" and f: "f \<in> free_frames (pmm s)" "free_frames p \<subseteq> free_frames (pmm s)"
  shows "keeps_private s (entry_set (cr3 s) (page_dir_index va) (f OR 3) (clear_entries f (s\<lparr>pmm := p\<rparr>)))"
    (is "keeps_private s ?t")
proof -
  have fr: "frame f" "frame (cr3 s)" "f \<noteq> cr3 s"
    using f pa.frames_managed managed_is_frame dir_wfD(1,3) [OF wf] by blast+
  have "entry_get (cr3 s) i ?t = (if i = page_dir_index va then f OR 3 else entry_get (cr3 s) i s)"
    if "unat i < 1024" for i
    using that fr by (simp add: entry_get_set clear_entries_get)
  moreover have "mem ?t q = mem s q" if "q AND 0xFFFFF000 \<noteq> f" "q AND 0xFFFFF000 \<noteq> cr3 s" for q
    using that fr by (simp add: entry_set_byte_other clear_entries_byte_other)
  moreover have "g \<noteq> f" if "private_frame s g" for g using that f(1) unfolding private_frame_def by auto
  ultimately show ?thesis
    using f(2) pde_table(1) [OF fr(1)] unfolding keeps_private_def private_frame_def by auto
qed

lemma vmm_map_page_keeps_private:
  assumes wf: "dir_wf (cr3 s) s" and run: "vmm_map_page va pa fl s = (0, s')"
  shows "keeps_private s s'"
proof (cases "present (cr3 s) (page_dir_index va) s")
  case True
  with run have "s' = vmm_flush_tlb_entry va
      (entry_set (table_of (cr3 s) (page_dir_index va) s) (page_table_index va) (new_pte pa fl) s)"
    by (simp add: vmm_map_page_def vmm_get_current_directory_def Let_def)
  with keeps_private_table [OF wf True] show ?thesis by simp
next
  case False
  obtain f s1 where al: "alloc_page s = (f, s1)" by fastforce
  from dir_wfD(2) [OF wf] al show ?thesis
  proof (cases rule: alloc_page_cases)
    case full
    with run al False show ?thesis by (simp add: vmm_map_page_def vmm_get_current_directory_def Let_def)
  next
    case (frame p)
    let ?t = "entry_set (cr3 s) (page_dir_index va) (f OR 3) (clear_entries f (s\<lparr>pmm := p\<rparr>))"
    note it = install_table [OF wf False frame(2,5,6), of ?t, OF refl]
    have s': "s' = vmm_flush_tlb_entry va (entry_set f (page_table_index va) (new_pte pa fl) ?t)"
      using run al False frame pde_table [OF frame(3)]
      by (simp add: vmm_map_page_def vmm_get_current_directory_def Let_def PAGE_WRITABLE_def)
        (simp add: PAGE_PRESENT_def)
    have "keeps_private s ?t" using keeps_private_install [OF wf frame(2)] frame(5) by auto
    moreover have "dir_wf (cr3 ?t) ?t" "present (cr3 ?t) (page_dir_index va) ?t" using it(1,2) by simp_all
    then have "keeps_private ?t (entry_set f (page_table_index va) (new_pte pa fl) ?t)"
      using keeps_private_table [of ?t va "new_pte pa fl"] it(3) by simp
    ultimately show ?thesis unfolding s' using keeps_private_trans by simp
  qed
qed

text \<open>Mapping a fresh page at the upper end of a window extends it and keeps its bytes; a failed
  mapping changes nothing in it.\<close>

lemma window_mono: "window s lo hi \<Longrightarrow> hi' \<le> hi \<Longrightarrow> window s lo hi'"
  unfolding window_def by (meson less_le_trans)

lemma view_keeps:
  assumes "window s lo hi" and "keeps_private s s'" and "lo \<le> unat a" "unat a < hi"
    and "walk s' a = walk s a"
  shows "view s' a = view s a"
proof -
  obtain p where p: "phys_addr s a = Some p" "private_frame s (p AND 0xFFFFF000)"
    using windowD [OF assms(1,3,4)] by blast
  with assms(2) have "mem s' p = mem s p" unfolding keeps_private_def by blast
  moreover have "phys_addr s' a = Some p" using p(1) assms(5) by (simp add: phys_addr_def)
  ultimately show ?thesis using p(1) by (simp add: view_def)
qed

lemma window_keeps:
  assumes win: "window s lo hi" and "keeps_private s s'" and "dir_wf (cr3 s') s'"
    and wk: "\<And>a. lo \<le> unat a \<Longrightarrow> unat a < hi \<Longrightarrow> walk s' a = walk s a"
  shows "window s' lo hi"
  unfolding window_def
proof (intro conjI allI impI)
  fix va :: u32 assume va: "lo \<le> unat va" "unat va < hi"
  then obtain pte where "walk s va = Some pte" "private_frame s (pte AND 0xFFFFF000)"
    using win unfolding window_def by blast
  with assms(2) wk [OF va] show "\<exists>pte. walk s' va = Some pte \<and> private_frame s' (pte AND 0xFFFFF000)"
    unfolding keeps_private_def by auto
next
  fix va vb p q :: u32 assume "lo \<le> unat va" "unat va < hi" "lo \<le> unat vb" "unat vb < hi"
    "walk s' va = Some p" "walk s' vb = Some q" "p AND 0xFFFFF000 = q AND 0xFFFFF000"
  with win wk show "drop_bit 12 va = drop_bit 12 vb" unfolding window_def by metis
qed (rule assms(3))

lemma page_of_frame:
  assumes "frame hi" and "unat hi \<le> unat (a :: u32)" and "unat a < unat hi + 4096"
  shows "drop_bit 12 a = drop_bit 12 hi"
proof -
  obtain k where k: "unat hi = 4096 * k" using assms(1) unfolding frame_def by (rule dvdE)
  then have "unat a div 4096 = k" using assms(2,3) by (intro div_nat_eqI) simp_all
  then have "unat (drop_bit 12 a) = unat (drop_bit 12 hi)" using k by (simp add: unat_page)
  then show ?thesis by (simp add: word_unat_eq_iff)
qed

lemma page_below_frame:
  assumes "frame hi" and "unat (a :: u32) < unat hi"
  shows "drop_bit 12 a \<noteq> drop_bit 12 hi"
proof
  assume "drop_bit 12 a = drop_bit 12 hi"
  then have "unat a div 4096 = unat hi div 4096" using unat_page by metis
  moreover obtain k where "unat hi = 4096 * k" using assms(1) unfolding frame_def by (rule dvdE)
  ultimately show False using assms(2) by (simp add: div_less_iff_less_mult mult.commute)
qed

lemma fresh_page_private:
  assumes wf: "dir_wf (cr3 s) s" and f: "f \<in> free_frames (pmm s)" "free_frames p = free_frames (pmm s) - {f}"
    and wf1: "dir_wf (cr3 s) (s\<lparr>pmm := p\<rparr>)" and run: "vmm_map_page va pa fl (s\<lparr>pmm := p\<rparr>) = (0, s')"
  shows "keeps_private s s'" and "private_frame s' f"
proof -
  let ?s1 = "s\<lparr>pmm := p\<rparr>"
  have "keeps_private s ?s1" using f(2) unfolding keeps_private_def private_frame_def by auto
  moreover have k: "keeps_private ?s1 s'" using vmm_map_page_keeps_private [OF _ run] wf1 by simp
  ultimately show "keeps_private s s'" by (rule keeps_private_trans)
  have "private_frame ?s1 f"
    using f dir_wfD(3,5) [OF wf] unfolding private_frame_def by auto
  with k show "private_frame s' f" unfolding keeps_private_def by blast
qed

lemma window_add_page:
  assumes win: "window s lo hi" and f: "private_frame s f"
    and other: "\<And>a pte. lo \<le> unat a \<Longrightarrow> unat a < hi \<Longrightarrow> walk s a = Some pte \<Longrightarrow> pte AND 0xFFFFF000 \<noteq> f"
    and new: "\<And>a. hi \<le> unat a \<Longrightarrow> unat a < hi + 4096 \<Longrightarrow> walk s a = Some q" and q: "q AND 0xFFFFF000 = f"
    and page: "\<And>a b :: u32. hi \<le> unat a \<Longrightarrow> unat a < hi + 4096 \<Longrightarrow> hi \<le> unat b \<Longrightarrow> unat b < hi + 4096 \<Longrightarrow>
                 drop_bit 12 a = drop_bit 12 b"
  shows "window s lo (hi + 4096)"
  unfolding window_def
proof (intro conjI allI impI)
  show "dir_wf (cr3 s) s" using win by (simp add: window_def)
next
  fix a :: u32 assume a: "lo \<le> unat a" "unat a < hi + 4096"
  show "\<exists>pte. walk s a = Some pte \<and> private_frame s (pte AND 0xFFFFF000)"
  proof (cases "unat a < hi")
    case True
    with win a show ?thesis unfolding window_def by blast
  next
    case False
    with new [of a] a q f show ?thesis by simp
  qed
next
  fix a b x y :: u32 assume a: "lo \<le> unat a" "unat a < hi + 4096" and b: "lo \<le> unat b" "unat b < hi + 4096"
    and w: "walk s a = Some x" "walk s b = Some y" "x AND 0xFFFFF000 = y AND 0xFFFFF000"
  have "unat a < hi \<longleftrightarrow> unat b < hi"
    using new [of a] new [of b] other [OF a(1) _ w(1)] other [OF b(1) _ w(2)] a b w q by (metis not_le option.inject)
  then show "drop_bit 12 a = drop_bit 12 b"
    using win a b w page [of a b] unfolding window_def by (metis not_le)
qed

lemma fresh_not_mapped:
  assumes "window s lo hi" and "f \<in> free_frames (pmm s)" and "\<And>a. unat a < hi \<Longrightarrow> walk s' a = walk s a"
    and "lo \<le> unat a" "unat a < hi" and "walk s' a = Some pte"
  shows "pte AND 0xFFFFF000 \<noteq> f"
proof -
  obtain x where "walk s a = Some x" "private_frame s (x AND 0xFFFFF000)"
    using assms(1,4,5) unfolding window_def by blast
  with assms(2,3,5,6) show ?thesis unfolding private_frame_def by auto
qed

lemma window_grow:
  assumes win: "window s lo (unat hi)" and hi: "frame hi" and run: "vmm_alloc_map_page hi fl s = (r, s')"
  shows "r = 0 \<or> r = hi" and "cr3 s' = cr3 s" and "window s' lo (unat hi)"
    and "r \<noteq> 0 \<Longrightarrow> window s' lo (unat hi + 4096)"
    and "lo \<le> unat a \<Longrightarrow> unat a < unat hi \<Longrightarrow> view s' a = view s a"
proof -
  have wf: "dir_wf (cr3 s) s" using win by (simp add: window_def)
  have "(r = 0 \<or> r = hi) \<and> cr3 s' = cr3 s \<and> window s' lo (unat hi) \<and>
      (r \<noteq> 0 \<longrightarrow> window s' lo (unat hi + 4096)) \<and> (\<forall>a. lo \<le> unat a \<longrightarrow> unat a < unat hi \<longrightarrow> view s' a = view s a)"
    using wf run
  proof (cases rule: alloc_map_page_cases)
    case fail
    have "entry_get A i s' = entry_get A i s" for A i using fail(3) by (simp add: entry_get_def)
    then have wk: "walk s' a = walk s a" for a using fail(2) by (simp add: walk_in_def Let_def)
    have "keeps_private s s'"
      using fail unfolding keeps_private_def private_frame_def by (simp add: entry_get_def)
    then show ?thesis
      using fail wk window_keeps [OF win, of s'] view_keeps [OF win, of s'] by simp
  next
    case (ok f p)
    have k: "keeps_private s s'" "private_frame s' f"
      using fresh_page_private [OF wf ok(3,5) ok(6,7)] by simp_all
    have below: "walk s' a = walk s a" if "unat a < unat hi" for a
      using ok(8,11) page_below_frame [OF hi that] by simp
    have new: "walk s' a = Some (new_pte f fl)" if "unat hi \<le> unat a" "unat a < unat hi + 4096" for a
      using ok(8,11) page_of_frame [OF hi that] by simp
    have pf: "new_pte f fl AND 0xFFFFF000 = f" using pte_frame [of f fl] frame_masked [OF ok(4)] by metis
    have win': "window s' lo (unat hi)" using window_keeps [OF win k(1)] ok(8,9) below by simp
    have "window s' lo (unat hi + 4096)"
    proof (rule window_add_page [OF win' k(2) _ new pf])
      show "pte AND 0xFFFFF000 \<noteq> f" if "lo \<le> unat a" "unat a < unat hi" "walk s' a = Some pte" for a pte
        using fresh_not_mapped [OF win ok(3) below that] by simp
      show "drop_bit 12 a = drop_bit 12 b"
        if "unat hi \<le> unat a" "unat a < unat hi + 4096" "unat hi \<le> unat b" "unat b < unat hi + 4096" for a b :: u32
        using page_of_frame [OF hi that(1,2)] page_of_frame [OF hi that(3,4)] by simp
    qed
    then show ?thesis using ok(1,8) win' view_keeps [OF win k(1)] below by simp
  qed
  then show "r = 0 \<or> r = hi" and "cr3 s' = cr3 s" and "window s' lo (unat hi)"
    and "r \<noteq> 0 \<Longrightarrow> window s' lo (unat hi + 4096)"
    and "lo \<le> unat a \<Longrightarrow> unat a < unat hi \<Longrightarrow> view s' a = view s a" by blast+
qed

text \<open>\<open>vm_only s t\<close>: \<open>t\<close> differs from \<open>s\<close> at most in the memory contents, the allocator
  and the log of invalidated translations.\<close>

definition vm_only :: "'a vmm_state_scheme \<Rightarrow> 'a vmm_state_scheme \<Rightarrow> bool" where
  "vm_only s t \<longleftrightarrow> t\<lparr>mem := mem s, pmm := pmm s, invlpg_log := invlpg_log s\<rparr> = s"

lemma vm_only_simps [simp]:
  "vm_only s s" "vm_only s (t\<lparr>mem := m\<rparr>) = vm_only s t" "vm_only s (t\<lparr>pmm := p\<rparr>) = vm_only s t"
  "vm_only s (vmm_flush_tlb_entry a t) = vm_only s t" "vm_only s (entry_set A i v t) = vm_only s t"
  by (simp_all add: vm_only_def vmm_flush_tlb_entry_def entry_set_def)

lemma vm_only_clear [simp]: "vm_only s (clear_entries A t) = vm_only s t"
  using clear_entries_only_mem [of t A] unfolding only_mem_def by auto

lemma vm_only_trans:
  assumes "vm_only s t" and "vm_only t u"
  shows "vm_only s u"
proof -
  have "u\<lparr>mem := mem s, pmm := pmm s, invlpg_log := invlpg_log s\<rparr> =
      u\<lparr>mem := mem t, pmm := pmm t, invlpg_log := invlpg_log t\<rparr>\<lparr>mem := mem s, pmm := pmm s, invlpg_log := invlpg_log s\<rparr>"
    by simp
  also have "\<dots> = s" using assms unfolding vm_only_def by (simp only:)
  finally show ?thesis unfolding vm_only_def .
qed

lemma vmm_map_page_vm_only:
  "vmm_map_page va pa fl t = (r, s') \<Longrightarrow> vm_only s s' = vm_only s t"
  unfolding vmm_map_page_def vmm_get_current_directory_def Let_def alloc_page_def
  by (auto split: prod.splits if_splits simp del: entry_get_simps)

lemma alloc_map_page_vm_only:
  "vmm_alloc_map_page va fl t = (r, s') \<Longrightarrow> vm_only s s' = vm_only s t"
  unfolding vmm_alloc_map_page_def alloc_page_def
  by (auto split: prod.splits if_splits simp: vmm_map_page_vm_only)

end
