(* ===== verification/Kmalloc.thy ===== *)
theory Kmalloc
  imports VirtualMemory "HOL-Library.Monad_Syntax"
begin

text \<open>
  The kernel heap, \<^verbatim>\<open>kernel/memory/kmalloc.c\<close>: a list of blocks in memory order from
  \<open>KHEAP_START\<close> to \<open>heap_end\<close>, each a 16-byte header followed by its data. Headers and
  data are at virtual addresses, so every access goes through the page tables; \<open>None\<close> is a page
  fault or a block list that never ends. Unallocated and allocated blocks are described by a list of
  (header address, size, free) triples, which the operations refine.
\<close>

section \<open>State and operations\<close>

record heap_state = vmm_state +
  heap_head :: u32
  heap_end :: u32

definition KHEAP_START :: u32 where "KHEAP_START = 0xD0000000"
definition KMALLOC_PAGE :: u32 where "KMALLOC_PAGE = 0x1000"

record block_header =
  bh_size :: u32
  bh_free :: u32
  bh_next :: u32
  bh_prev :: u32

text \<open>Reading and writing the fields of the header at an address; its size is 16 bytes.\<close>

definition get_size :: "u32 \<Rightarrow> 'a heap_state_scheme \<Rightarrow> u32 option" where "get_size b s = vload32 b s"
definition get_free :: "u32 \<Rightarrow> 'a heap_state_scheme \<Rightarrow> u32 option" where "get_free b s = vload32 (b + 4) s"
definition get_next :: "u32 \<Rightarrow> 'a heap_state_scheme \<Rightarrow> u32 option" where "get_next b s = vload32 (b + 8) s"
definition get_prev :: "u32 \<Rightarrow> 'a heap_state_scheme \<Rightarrow> u32 option" where "get_prev b s = vload32 (b + 12) s"
definition set_size :: "u32 \<Rightarrow> u32 \<Rightarrow> 'a heap_state_scheme \<Rightarrow> 'a heap_state_scheme option" where
  "set_size b v s = vstore32 b v s"
definition set_free :: "u32 \<Rightarrow> u32 \<Rightarrow> 'a heap_state_scheme \<Rightarrow> 'a heap_state_scheme option" where
  "set_free b v s = vstore32 (b + 4) v s"
definition set_next :: "u32 \<Rightarrow> u32 \<Rightarrow> 'a heap_state_scheme \<Rightarrow> 'a heap_state_scheme option" where
  "set_next b v s = vstore32 (b + 8) v s"
definition set_prev :: "u32 \<Rightarrow> u32 \<Rightarrow> 'a heap_state_scheme \<Rightarrow> 'a heap_state_scheme option" where
  "set_prev b v s = vstore32 (b + 12) v s"

definition kmalloc_init :: "'a heap_state_scheme \<Rightarrow> 'a heap_state_scheme" where
  "kmalloc_init s = s\<lparr>heap_head := 0, heap_end := KHEAP_START\<rparr>"

fun map_heap_pages :: "nat \<Rightarrow> u32 \<Rightarrow> 'a heap_state_scheme \<Rightarrow> bool \<times> 'a heap_state_scheme" where
  "map_heap_pages 0 vaddr s = (True, s)"
| "map_heap_pages (Suc n) vaddr s =
     (let (r, s1) = vmm_alloc_map_page vaddr PAGE_WRITABLE s
      in if r = 0 then (False, s1) else map_heap_pages n (vaddr + KMALLOC_PAGE) s1)"

definition expand_heap :: "u32 \<Rightarrow> 'a heap_state_scheme \<Rightarrow> (u32 \<times> 'a heap_state_scheme) option" where
  "expand_heap min_size s =
     (let total = min_size + 16;
          pages = (total + KMALLOC_PAGE - 1) div KMALLOC_PAGE;
          block = heap_end s;
          (ok, s1) = map_heap_pages (unat pages) (heap_end s) s
      in if \<not> ok then Some (0, s1)
         else do {
           let s2 = s1\<lparr>heap_end := heap_end s1 + pages * KMALLOC_PAGE\<rparr>;
           s3 \<leftarrow> set_size block (pages * KMALLOC_PAGE - 16) s2;
           s4 \<leftarrow> set_free block 1 s3;
           s5 \<leftarrow> set_next block 0 s4;
           s6 \<leftarrow> set_prev block 0 s5;
           Some (block, s6)
         })"

definition split_block :: "u32 \<Rightarrow> u32 \<Rightarrow> 'a heap_state_scheme \<Rightarrow> 'a heap_state_scheme option" where
  "split_block block sz s = do {
     bsize \<leftarrow> get_size block s;
     let remaining = bsize - sz;
     if remaining \<le> 16 + 16 then Some s
     else do {
       let new_block = block + 16 + sz;
       s1 \<leftarrow> set_size new_block (remaining - 16) s;
       s2 \<leftarrow> set_free new_block 1 s1;
       nx \<leftarrow> get_next block s2;
       s3 \<leftarrow> set_next new_block nx s2;
       s4 \<leftarrow> set_prev new_block block s3;
       nx' \<leftarrow> get_next block s4;
       s5 \<leftarrow> (if nx' \<noteq> 0 then set_prev nx' new_block s4 else Some s4);
       s6 \<leftarrow> set_next block new_block s5;
       set_size block sz s6
     }
   }"

text \<open>The search loop of \<open>kmalloc\<close>; the result is the block found (0 if none) and the last
  block passed.\<close>

partial_function (option) find_fit :: "u32 \<Rightarrow> u32 \<Rightarrow> u32 \<Rightarrow> 'a heap_state_scheme \<Rightarrow> (u32 \<times> u32) option" where
  "find_fit sz block lst s =
     (if block = 0 then Some (0, lst)
      else do {
        fr \<leftarrow> get_free block s;
        fits \<leftarrow> (if fr \<noteq> 0 then map_option (\<lambda>bsz. sz \<le> bsz) (get_size block s) else Some False);
        if fits then Some (block, lst)
        else do { nx \<leftarrow> get_next block s; find_fit sz nx block s }
      })"

definition kmalloc :: "u32 \<Rightarrow> 'a heap_state_scheme \<Rightarrow> (u32 \<times> 'a heap_state_scheme) option" where
  "kmalloc n s =
     (if n = 0 then Some (0, s)
      else let sz = (n + 7) AND NOT 7
           in do {
             (block, lst) \<leftarrow> find_fit sz (heap_head s) 0 s;
             if block \<noteq> 0 then do {
               s1 \<leftarrow> split_block block sz s;
               s2 \<leftarrow> set_free block 0 s1;
               Some (block + 16, s2)
             } else do {
               (fresh, s1) \<leftarrow> expand_heap sz s;
               if fresh = 0 then Some (0, s1)
               else do {
                 s2 \<leftarrow> (if lst \<noteq> 0 then do { t \<leftarrow> set_next lst fresh s1; set_prev fresh lst t }
                        else Some (s1\<lparr>heap_head := fresh\<rparr>));
                 s3 \<leftarrow> split_block fresh sz s2;
                 s4 \<leftarrow> set_free fresh 0 s3;
                 Some (fresh + 16, s4)
               }
             }
           })"

text \<open>Both merges of \<open>kfree\<close> absorb the second of two neighbouring blocks into the first.\<close>

definition merge_blocks :: "u32 \<Rightarrow> u32 \<Rightarrow> 'a heap_state_scheme \<Rightarrow> 'a heap_state_scheme option" where
  "merge_blocks b c s = do {
     bs \<leftarrow> get_size b s;
     cs \<leftarrow> get_size c s;
     s1 \<leftarrow> set_size b (bs + (16 + cs)) s;
     n \<leftarrow> get_next c s1;
     s2 \<leftarrow> set_next b n s1;
     n' \<leftarrow> get_next c s2;
     if n' \<noteq> 0 then set_prev n' b s2 else Some s2
   }"

definition merge_if_free :: "u32 \<Rightarrow> u32 \<Rightarrow> u32 \<Rightarrow> 'a heap_state_scheme \<Rightarrow> 'a heap_state_scheme option" where
  "merge_if_free neighbour b c s = do {
     fr \<leftarrow> (if neighbour \<noteq> 0 then get_free neighbour s else Some 0);
     if fr \<noteq> 0 then merge_blocks b c s else Some s
   }"

definition kfree :: "u32 \<Rightarrow> 'a heap_state_scheme \<Rightarrow> 'a heap_state_scheme option" where
  "kfree ptr s =
     (if ptr = 0 then Some s
      else do {
        let block = ptr - 16;
        s1 \<leftarrow> set_free block 1 s;
        nx \<leftarrow> get_next block s1;
        s2 \<leftarrow> merge_if_free nx block nx s1;
        pv \<leftarrow> get_prev block s2;
        merge_if_free pv pv block s2
      })"

text \<open>\<open>memcpy\<close> of \<^verbatim>\<open>libc/string.c\<close> at virtual addresses.\<close>

definition vmemcpy :: "u32 \<Rightarrow> u32 \<Rightarrow> u32 \<Rightarrow> 'a vmm_state_scheme \<Rightarrow> 'a vmm_state_scheme option" where
  "vmemcpy dst src n =
     for_opt 0 (unat n) (\<lambda>i s. do { b \<leftarrow> vload8 (src + of_nat i) s; vstore8 (dst + of_nat i) b s })"

definition krealloc :: "u32 \<Rightarrow> u32 \<Rightarrow> 'a heap_state_scheme \<Rightarrow> (u32 \<times> 'a heap_state_scheme) option" where
  "krealloc ptr n s =
     (if ptr = 0 then kmalloc n s
      else if n = 0 then do { s1 \<leftarrow> kfree ptr s; Some (0, s1) }
      else do {
        let block = ptr - 16;
        bsize \<leftarrow> get_size block s;
        if n \<le> bsize then Some (ptr, s)
        else do {
          (new_ptr, s1) \<leftarrow> kmalloc n s;
          if new_ptr = 0 then Some (0, s1)
          else do {
            len \<leftarrow> get_size block s1;
            s2 \<leftarrow> vmemcpy new_ptr ptr len s1;
            s3 \<leftarrow> kfree ptr s2;
            Some (new_ptr, s3)
          }
        }
      })"

section \<open>Headers in the heap window\<close>

abbreviation KH :: nat where "KH \<equiv> 0xD0000000"

definition heap_win :: "'a heap_state_scheme \<Rightarrow> bool" where
  "heap_win s \<longleftrightarrow> window s KH (unat (heap_end s))"

definition in_hdr :: "'a heap_state_scheme \<Rightarrow> u32 \<Rightarrow> bool" where
  "in_hdr s a \<longleftrightarrow> 8 dvd unat a \<and> KH \<le> unat a \<and> unat a + 16 \<le> unat (heap_end s)"

definition hdr :: "'a heap_state_scheme \<Rightarrow> u32 \<Rightarrow> block_header" where
  "hdr s a = \<lparr>bh_size = vword s a, bh_free = vword s (a + 4), bh_next = vword s (a + 8), bh_prev = vword s (a + 12)\<rparr>"

definition apart :: "u32 \<Rightarrow> u32 \<Rightarrow> bool" where
  "apart a b \<longleftrightarrow> unat a + 16 \<le> unat b \<or> unat b + 16 \<le> unat a"

lemma in_hdr_offset:
  assumes "in_hdr s a" and "n < 16"
  shows "unat (a + of_nat n) = unat a + n"
proof (rule unat_add_less)
  have "unat a + n < 4294967296" using assms unat_u32_lt [of "heap_end s"] unfolding in_hdr_def by linarith
  then show "unat a + n < 2 ^ LENGTH(32)" by simp
qed

lemma in_hdr_words:
  assumes "in_hdr s a"
  shows "word_in KH (unat (heap_end s)) a" "word_in KH (unat (heap_end s)) (a + 4)"
    "word_in KH (unat (heap_end s)) (a + 8)" "word_in KH (unat (heap_end s)) (a + 12)"
proof -
  have "word_in KH (unat (heap_end s)) (a + of_nat (4 * k))" if "k < 4" for k
  proof -
    have u: "unat (a + of_nat (4 * k)) = unat a + 4 * k" using in_hdr_offset [OF assms, of "4 * k"] that by simp
    have "4 dvd unat a" using assms unfolding in_hdr_def by (auto intro: dvd_trans [of 4 8])
    then have "4 dvd unat a + 4 * k" by (rule dvd_add) simp
    then show ?thesis using assms that unfolding word_in_def aligned4_def u in_hdr_def by linarith
  qed
  from this [of 0] this [of 1] this [of 2] this [of 3]
  show "word_in KH (unat (heap_end s)) a" "word_in KH (unat (heap_end s)) (a + 4)"
    "word_in KH (unat (heap_end s)) (a + 8)" "word_in KH (unat (heap_end s)) (a + 12)" by simp_all
qed

lemma get_fields [simp]:
  assumes "heap_win s" and "in_hdr s a"
  shows "get_size a s = Some (bh_size (hdr s a))" "get_free a s = Some (bh_free (hdr s a))"
    "get_next a s = Some (bh_next (hdr s a))" "get_prev a s = Some (bh_prev (hdr s a))"
  using assms(1) in_hdr_words [OF assms(2)]
  by (simp_all add: get_size_def get_free_def get_next_def get_prev_def hdr_def heap_win_def vload32_view)

text \<open>Total versions of the four stores.\<close>

definition put_size :: "u32 \<Rightarrow> u32 \<Rightarrow> 'a heap_state_scheme \<Rightarrow> 'a heap_state_scheme" where "put_size a v = put32 a v"
definition put_free :: "u32 \<Rightarrow> u32 \<Rightarrow> 'a heap_state_scheme \<Rightarrow> 'a heap_state_scheme" where "put_free a v = put32 (a + 4) v"
definition put_next :: "u32 \<Rightarrow> u32 \<Rightarrow> 'a heap_state_scheme \<Rightarrow> 'a heap_state_scheme" where "put_next a v = put32 (a + 8) v"
definition put_prev :: "u32 \<Rightarrow> u32 \<Rightarrow> 'a heap_state_scheme \<Rightarrow> 'a heap_state_scheme" where "put_prev a v = put32 (a + 12) v"

lemmas put_defs = put_size_def put_free_def put_next_def put_prev_def

lemma put32_keeps:
  assumes "heap_win s" and "word_in KH (unat (heap_end s)) w"
  shows "heap_end (put32 w v s) = heap_end s" and "heap_head (put32 w v s) = heap_head s"
    and "heap_win (put32 w v s)" and "vm_only s (put32 w v s)"
proof -
  obtain m where m: "put32 w v s = s\<lparr>mem := m\<rparr>"
    using vstore32_put32(4) [of s KH "unat (heap_end s)" w v] assms by (auto simp: heap_win_def)
  show e: "heap_end (put32 w v s) = heap_end s" and "heap_head (put32 w v s) = heap_head s"
    and "vm_only s (put32 w v s)" by (simp_all add: m)
  show "heap_win (put32 w v s)"
    using vstore32_put32(2) [of s KH "unat (heap_end s)" w v] assms e by (simp add: heap_win_def)
qed

lemma in_hdr_end: "heap_end t = heap_end s \<Longrightarrow> in_hdr t a = in_hdr s a"
  by (simp add: in_hdr_def)

lemma set_fields [simp]:
  assumes "heap_win s" and "in_hdr s a"
  shows "set_size a v s = Some (put_size a v s)" "set_free a v s = Some (put_free a v s)"
    "set_next a v s = Some (put_next a v s)" "set_prev a v s = Some (put_prev a v s)"
  using assms(1) in_hdr_words [OF assms(2)] vstore32_put32(1)
  by (simp_all add: set_size_def set_free_def set_next_def set_prev_def put_defs heap_win_def)

lemma put_keeps [simp]:
  assumes "heap_win s" and "in_hdr s a"
  shows "heap_win (put_size a v s)" "heap_win (put_free a v s)" "heap_win (put_next a v s)" "heap_win (put_prev a v s)"
    and "heap_end (put_size a v s) = heap_end s" "heap_end (put_free a v s) = heap_end s"
    "heap_end (put_next a v s) = heap_end s" "heap_end (put_prev a v s) = heap_end s"
    and "heap_head (put_size a v s) = heap_head s" "heap_head (put_free a v s) = heap_head s"
    "heap_head (put_next a v s) = heap_head s" "heap_head (put_prev a v s) = heap_head s"
    and "in_hdr (put_size a v s) b = in_hdr s b" "in_hdr (put_free a v s) b = in_hdr s b"
    "in_hdr (put_next a v s) b = in_hdr s b" "in_hdr (put_prev a v s) b = in_hdr s b"
  using put32_keeps [OF assms(1)] in_hdr_words [OF assms(2)] by (simp_all add: put_defs in_hdr_def)

lemma offset_neq:
  assumes "in_hdr s a" and "in_hdr s b" and "i < 16" and "j < 16" and "apart a b"
  shows "a + of_nat i \<noteq> b + of_nat j"
proof
  assume "a + of_nat i = b + of_nat j"
  then have "unat a + i = unat b + j"
    using in_hdr_offset [OF assms(1,3)] in_hdr_offset [OF assms(2,4)] by metis
  with assms(3-5) show False unfolding apart_def by linarith
qed

lemma of_nat_small_inj:
  assumes "(of_nat i :: u32) = of_nat j" and "i < 16" and "j < 16"
  shows "i = j"
proof -
  have "unat (of_nat i :: u32) = i" "unat (of_nat j :: u32) = j"
    using assms(2,3) by (auto intro!: unat_small(2))
  with assms(1) show ?thesis by metis
qed

lemma hdr_put:
  assumes win: "heap_win s" and a: "in_hdr s a" and b: "in_hdr s b" and ap: "b = a \<or> apart a b"
  shows "hdr (put_size a v s) b = (if b = a then (hdr s a)\<lparr>bh_size := v\<rparr> else hdr s b)"
    and "hdr (put_free a v s) b = (if b = a then (hdr s a)\<lparr>bh_free := v\<rparr> else hdr s b)"
    and "hdr (put_next a v s) b = (if b = a then (hdr s a)\<lparr>bh_next := v\<rparr> else hdr s b)"
    and "hdr (put_prev a v s) b = (if b = a then (hdr s a)\<lparr>bh_prev := v\<rparr> else hdr s b)"
proof -
  have ne: "b + of_nat j \<noteq> a + of_nat i" if "b \<noteq> a" "i < 16" "j < 16" for i j
    using offset_neq [OF a b that(2,3)] ap that(1) by auto
  have ne': "b + of_nat j = a + of_nat i \<longleftrightarrow> b = a \<and> i = j" if "i < 16" "j < 16" for i j
    using ne [OF _ that] that by (cases "b = a") (auto dest: of_nat_small_inj)
  note words = in_hdr_words [OF a] in_hdr_words [OF b]
  note up = vword_put32 [OF win [unfolded heap_win_def]]
  show "hdr (put_size a v s) b = (if b = a then (hdr s a)\<lparr>bh_size := v\<rparr> else hdr s b)"
    using words ne' [of 0 0] ne' [of 0 4] ne' [of 0 8] ne' [of 0 12] by (simp add: put_defs hdr_def up)
  show "hdr (put_free a v s) b = (if b = a then (hdr s a)\<lparr>bh_free := v\<rparr> else hdr s b)"
    using words ne' [of 4 0] ne' [of 4 4] ne' [of 4 8] ne' [of 4 12] by (simp add: put_defs hdr_def up)
  show "hdr (put_next a v s) b = (if b = a then (hdr s a)\<lparr>bh_next := v\<rparr> else hdr s b)"
    using words ne' [of 8 0] ne' [of 8 4] ne' [of 8 8] ne' [of 8 12] by (simp add: put_defs hdr_def up)
  show "hdr (put_prev a v s) b = (if b = a then (hdr s a)\<lparr>bh_prev := v\<rparr> else hdr s b)"
    using words ne' [of 12 0] ne' [of 12 4] ne' [of 12 8] ne' [of 12 12] by (simp add: put_defs hdr_def up)
qed

text \<open>\<open>hdr_only s t A\<close>: \<open>t\<close> differs from \<open>s\<close> only inside the 16 bytes of the headers in \<open>A\<close>.\<close>

definition hdr_only :: "'a heap_state_scheme \<Rightarrow> 'a heap_state_scheme \<Rightarrow> u32 set \<Rightarrow> bool" where
  "hdr_only s t A \<longleftrightarrow> vm_only s t \<and> pmm t = pmm s \<and> cr3 t = cr3 s \<and> heap_win t \<and> heap_end t = heap_end s \<and> heap_head t = heap_head s \<and>
     (\<forall>x. KH \<le> unat x \<longrightarrow> unat x < unat (heap_end s) \<longrightarrow>
        (\<forall>a \<in> A. unat x < unat a \<or> unat a + 16 \<le> unat x) \<longrightarrow> view t x = view s x)"

lemma hdr_only_refl: "heap_win s \<Longrightarrow> hdr_only s s A"
  by (simp add: hdr_only_def)

lemma hdr_only_trans: "hdr_only s t A \<Longrightarrow> hdr_only t u A \<Longrightarrow> hdr_only s u A"
  unfolding hdr_only_def by (auto intro: vm_only_trans)

lemma hdr_only_put32:
  assumes win: "heap_win s" and a: "in_hdr s a" "a \<in> A" and n: "n < 4"
  shows "hdr_only s (put32 (a + of_nat (4 * n)) v s) A"
proof -
  let ?w = "a + of_nat (4 * n)"
  have cases: "n = 0 \<or> n = 1 \<or> n = 2 \<or> n = 3" using n by linarith
  have w: "word_in KH (unat (heap_end s)) ?w" using in_hdr_words [OF a(1)] cases by auto
  obtain m where m: "put32 ?w v s = s\<lparr>mem := m\<rparr>"
    using vstore32_put32(4) [OF win [unfolded heap_win_def] w] by blast
  have fields: "pmm (put32 ?w v s) = pmm s" "cr3 (put32 ?w v s) = cr3 s" unfolding m by simp_all
  have "view (put32 ?w v s) x = view s x"
    if x: "KH \<le> unat x" "unat x < unat (heap_end s)" "unat x < unat a \<or> unat a + 16 \<le> unat x" for x
  proof -
    have "x \<noteq> ?w + of_nat k" if "k < 4" for k
    proof -
      have "?w + of_nat k = a + of_nat (4 * n + k)" by simp
      then have "unat (?w + of_nat k) = unat a + (4 * n + k)"
        using in_hdr_offset [OF a(1), of "4 * n + k"] n that by (simp add: add.assoc)
      with x(3) n that show ?thesis by auto
    qed
    from this [of 0] this [of 1] this [of 2] this [of 3]
    show ?thesis
      unfolding vstore32_put32(3) [OF win [unfolded heap_win_def] w x(1,2)] store32_def by simp
  qed
  then show ?thesis
    using put32_keeps [OF win w] a(2) fields unfolding hdr_only_def by blast
qed

lemma hdr_only_put:
  assumes st: "hdr_only s t A" and a: "in_hdr s a" "a \<in> A"
  shows "hdr_only s (put_size a v t) A" "hdr_only s (put_free a v t) A"
    "hdr_only s (put_next a v t) A" "hdr_only s (put_prev a v t) A"
proof -
  have t: "heap_win t" "in_hdr t a" using st a(1) by (simp_all add: hdr_only_def in_hdr_def)
  have "hdr_only s (put32 (a + of_nat (4 * n)) v t) A" if "n < 4" for n
    using st hdr_only_put32 [OF t a(2) that] by (rule hdr_only_trans)
  from this [of 0] this [of 1] this [of 2] this [of 3]
  show "hdr_only s (put_size a v t) A" "hdr_only s (put_free a v t) A"
    "hdr_only s (put_next a v t) A" "hdr_only s (put_prev a v t) A" by (simp_all add: put_defs)
qed

lemma hdr_cong:
  assumes byte: "\<And>k. k < 16 \<Longrightarrow> view t (b + of_nat k) = view s (b + of_nat k)"
  shows "hdr t b = hdr s b"
proof -
  have "vword t (b + of_nat j) = vword s (b + of_nat j)" if "j + 4 \<le> 16" for j
  proof (rule load32_cong)
    fix i :: nat assume "i < 4"
    with byte [of "j + i"] that show "view t (b + of_nat j + of_nat i) = view s (b + of_nat j + of_nat i)"
      by (simp add: add.assoc)
  qed
  from this [of 0] this [of 4] this [of 8] this [of 12] show ?thesis by (simp add: hdr_def)
qed

lemma hdr_only_hdr:
  assumes st: "hdr_only s t A" and b: "in_hdr s b" and ap: "\<And>a. a \<in> A \<Longrightarrow> apart a b"
  shows "hdr t b = hdr s b"
proof -
  have byte: "view t (b + of_nat k) = view s (b + of_nat k)" if "k < 16" for k
  proof -
    let ?x = "b + of_nat k"
    have x: "unat ?x = unat b + k" by (rule in_hdr_offset [OF b that])
    have "KH \<le> unat ?x" "unat ?x < unat (heap_end s)" using b that unfolding x in_hdr_def by linarith+
    moreover have "\<forall>a \<in> A. unat ?x < unat a \<or> unat a + 16 \<le> unat ?x"
      using ap that unfolding x apart_def by fastforce
    ultimately show ?thesis using st unfolding hdr_only_def by blast
  qed
  from byte show ?thesis by (rule hdr_cong)
qed

lemma apart_sym: "apart a b \<Longrightarrow> apart b a"
  by (auto simp: apart_def)

lemma apart_neq: "apart a b \<Longrightarrow> a \<noteq> b"
  by (auto simp: apart_def)

lemma split_room:
  assumes a: "in_hdr s a" and k: "8 dvd unat k" and room: "unat a + 16 + unat sz \<le> unat (heap_end s)"
    and le: "k \<le> sz" and big: "\<not> sz - k \<le> 32"
  shows "unat (a + 16 + k) = unat a + 16 + unat k" and "in_hdr s (a + 16 + k)"
    and "unat (sz - k - 16) = unat sz - unat k - 16" and "unat k + 32 < unat sz"
proof -
  have lt: "unat k + 32 < unat sz" and sub: "unat (sz - k) = unat sz - unat k"
    using le big unat_sub [OF le] by (simp_all add: word_le_nat_alt)
  then show "unat k + 32 < unat sz" by simp
  have bound: "unat (heap_end s) < 4294967296" by (rule unat_u32_lt)
  have "unat a + (16 + unat k) < 2 ^ LENGTH(32)" using lt room bound by simp
  from unat_add_less [OF this] show nb: "unat (a + 16 + k) = unat a + 16 + unat k" by (simp add: add.assoc)
  show "in_hdr s (a + 16 + k)" using a k lt room unfolding in_hdr_def nb by (auto intro: dvd_add)
  have "16 \<le> sz - k" using lt sub by (simp add: word_le_nat_alt)
  then show "unat (sz - k - 16) = unat sz - unat k - 16" using sub by (simp add: unat_sub)
qed

lemma split_block_run:
  assumes win: "heap_win s" and a: "in_hdr s a" and k: "8 dvd unat k" and sz: "bh_size (hdr s a) = sz"
    and le: "k \<le> sz" and room: "unat a + 16 + unat sz \<le> unat (heap_end s)" and n: "bh_next (hdr s a) = n"
    and ok: "n \<noteq> 0 \<Longrightarrow> in_hdr s n \<and> unat a + 16 + unat sz \<le> unat n"
    and big: "\<not> sz - k \<le> 32"
  obtains t where "split_block a k s = Some t" and "hdr_only s t ({a, a + 16 + k} \<union> ({n} - {0}))"
    and "hdr t a = (hdr s a)\<lparr>bh_size := k, bh_next := a + 16 + k\<rparr>"
    and "hdr t (a + 16 + k) = \<lparr>bh_size = sz - k - 16, bh_free = 1, bh_next = n, bh_prev = a\<rparr>"
    and "n \<noteq> 0 \<Longrightarrow> hdr t n = (hdr s n)\<lparr>bh_prev := a + 16 + k\<rparr>"
proof -
  let ?nb = "a + 16 + k"
  let ?A = "{a, ?nb} \<union> ({n} - {0})"
  note sr = split_room [OF a k room le big]
  have ap: "apart a ?nb" "n \<noteq> 0 \<Longrightarrow> apart a n" "n \<noteq> 0 \<Longrightarrow> apart ?nb n"
    using sr(1,4) ok unfolding apart_def by auto
  note ap' = ap ap [THEN apart_sym]
  define s4 where "s4 = put_prev ?nb a (put_next ?nb n (put_free ?nb 1 (put_size ?nb (sz - k - 16) s)))"
  define s5 where "s5 = (if n \<noteq> 0 then put_prev n ?nb s4 else s4)"
  define t where "t = put_size a k (put_next a ?nb s5)"
  have nx: "n \<noteq> 0 \<Longrightarrow> in_hdr s n" using ok by blast
  note [simp] = sr(2) win a nx hdr_put ap' apart_neq [OF ap(1)] apart_neq [OF ap(1), symmetric]
  have s4: "heap_win s4" "in_hdr s4 b = in_hdr s b" "hdr s4 a = hdr s a" "n \<noteq> 0 \<Longrightarrow> hdr s4 n = hdr s n"
      "hdr s4 ?nb = \<lparr>bh_size = sz - k - 16, bh_free = 1, bh_next = n, bh_prev = a\<rparr>" for b
    using apart_neq [OF ap(3)] by (auto simp: s4_def)
  have run: "split_block a k s = Some t"
    using big by (cases "n = 0") (simp_all add: split_block_def sz n Let_def t_def s5_def s4_def)
  have s5: "heap_win s5" "in_hdr s5 b = in_hdr s b" "hdr s5 a = hdr s a"
      "hdr s5 ?nb = hdr s4 ?nb" "n \<noteq> 0 \<Longrightarrow> hdr s5 n = (hdr s n)\<lparr>bh_prev := ?nb\<rparr>" for b
    using s4 ap apart_neq [OF ap(2)] apart_neq [OF ap(3)] by (auto simp: s5_def)
  have "hdr_only s s4 ?A" unfolding s4_def by (intro hdr_only_put hdr_only_refl) simp_all
  then have "hdr_only s s5 ?A" unfolding s5_def by (auto intro!: hdr_only_put)
  then have only: "hdr_only s t ?A" unfolding t_def by (intro hdr_only_put) simp_all
  show thesis
  proof (rule that [OF run only])
    show "hdr t a = (hdr s a)\<lparr>bh_size := k, bh_next := ?nb\<rparr>" by (simp add: t_def s5)
    show "hdr t ?nb = \<lparr>bh_size = sz - k - 16, bh_free = 1, bh_next = n, bh_prev = a\<rparr>"
      by (simp add: t_def s5 s4)
    show "hdr t n = (hdr s n)\<lparr>bh_prev := ?nb\<rparr>" if "n \<noteq> 0"
      using that apart_neq [OF ap(2)] by (simp add: t_def s5)
  qed
qed

lemma merge_blocks_run:
  assumes win: "heap_win s" and b: "in_hdr s b" and c: "in_hdr s c" and bc: "apart b c"
    and n: "bh_next (hdr s c) = n" and ok: "n \<noteq> 0 \<Longrightarrow> in_hdr s n \<and> apart b n \<and> apart c n"
  obtains t where "merge_blocks b c s = Some t" and "hdr_only s t ({b} \<union> ({n} - {0}))"
    and "hdr t b = (hdr s b)\<lparr>bh_size := bh_size (hdr s b) + (16 + bh_size (hdr s c)), bh_next := n\<rparr>"
    and "n \<noteq> 0 \<Longrightarrow> hdr t n = (hdr s n)\<lparr>bh_prev := b\<rparr>"
proof -
  let ?A = "{b} \<union> ({n} - {0})"
  define s2 where "s2 = put_next b n (put_size b (bh_size (hdr s b) + (16 + bh_size (hdr s c))) s)"
  define t where "t = (if n \<noteq> 0 then put_prev n b s2 else s2)"
  have nx: "n \<noteq> 0 \<Longrightarrow> in_hdr s n" and ap: "n \<noteq> 0 \<Longrightarrow> apart b n" "n \<noteq> 0 \<Longrightarrow> apart c n" using ok by blast+
  note [simp] = win b c nx hdr_put bc bc [THEN apart_sym] ap ap [THEN apart_sym]
    apart_neq [OF bc] apart_neq [OF bc, symmetric]
  have run: "merge_blocks b c s = Some t"
    by (cases "n = 0") (simp_all add: merge_blocks_def n Let_def t_def s2_def)
  have "hdr_only s s2 ?A" unfolding s2_def by (intro hdr_only_put hdr_only_refl) simp_all
  then have only: "hdr_only s t ?A" unfolding t_def by (auto intro!: hdr_only_put)
  show thesis
  proof (rule that [OF run only])
    show "hdr t b = (hdr s b)\<lparr>bh_size := bh_size (hdr s b) + (16 + bh_size (hdr s c)), bh_next := n\<rparr>"
      using apart_neq [OF ap(1)] by (cases "n = 0") (auto simp: t_def s2_def)
    show "hdr t n = (hdr s n)\<lparr>bh_prev := b\<rparr>" if "n \<noteq> 0"
      using that apart_neq [OF ap(1)] by (simp add: t_def s2_def)
  qed
qed

section \<open>The block list\<close>

type_synonym block = "u32 \<times> u32 \<times> bool"

fun first_addr :: "block list \<Rightarrow> u32 \<Rightarrow> u32" where
  "first_addr [] n = n"
| "first_addr ((a, _, _) # bs) n = a"

fun last_addr :: "block list \<Rightarrow> u32 \<Rightarrow> u32" where
  "last_addr [] q = q"
| "last_addr ((a, _, _) # bs) q = last_addr bs a"

text \<open>The blocks of a segment follow each other without gaps from \<open>x\<close> to \<open>e\<close>.\<close>

fun tiles :: "nat \<Rightarrow> block list \<Rightarrow> nat \<Rightarrow> bool" where
  "tiles x [] e \<longleftrightarrow> x = e"
| "tiles x ((a, sz, fr) # bs) e \<longleftrightarrow>
     unat a = x \<and> 8 dvd unat sz \<and> 0 < unat sz \<and> tiles (x + 16 + unat sz) bs e"

text \<open>Their headers hold the size, the free flag and the links; \<open>q\<close> and \<open>n\<close> are the
  addresses before and behind the segment.\<close>

fun seg :: "'a heap_state_scheme \<Rightarrow> u32 \<Rightarrow> block list \<Rightarrow> u32 \<Rightarrow> bool" where
  "seg s q [] n \<longleftrightarrow> True"
| "seg s q ((a, sz, fr) # bs) n \<longleftrightarrow> bh_size (hdr s a) = sz \<and> (bh_free (hdr s a) \<noteq> 0 \<longleftrightarrow> fr) \<and>
     bh_next (hdr s a) = first_addr bs n \<and> bh_prev (hdr s a) = q \<and> seg s a bs n"

definition no_adjacent_free :: "block list \<Rightarrow> bool" where
  "no_adjacent_free bs \<longleftrightarrow> successively (\<lambda>b c. \<not> (snd (snd b) \<and> snd (snd c))) bs"

definition heap_chain :: "'a heap_state_scheme \<Rightarrow> block list \<Rightarrow> bool" where
  "heap_chain s bs \<longleftrightarrow> heap_win s \<and> frame (heap_end s) \<and> heap_head s = first_addr bs 0 \<and>
     tiles KH bs (unat (heap_end s)) \<and> seg s 0 bs 0"

definition heap_inv :: "'a heap_state_scheme \<Rightarrow> block list \<Rightarrow> bool" where
  "heap_inv s bs \<longleftrightarrow> heap_chain s bs \<and> no_adjacent_free bs"

lemma tiles_append: "tiles x (xs @ ys) e \<longleftrightarrow> (\<exists>m. tiles x xs m \<and> tiles m ys e)"
  by (induction x xs e rule: tiles.induct) auto

lemma tiles_le: "tiles x bs e \<Longrightarrow> x \<le> e"
  by (induction x bs e rule: tiles.induct) auto

lemma tiles_member:
  assumes "tiles x bs e" and "(a, sz, fr) \<in> set bs"
  shows "x \<le> unat a" and "unat a + 16 + unat sz \<le> e" and "8 dvd unat sz" and "0 < unat sz"
    and "8 dvd x \<Longrightarrow> 8 dvd unat a"
proof -
  have "x \<le> unat a \<and> unat a + 16 + unat sz \<le> e \<and> 8 dvd unat sz \<and> 0 < unat sz \<and> (8 dvd x \<longrightarrow> 8 dvd unat a)"
    using assms
  proof (induction x bs e rule: tiles.induct)
    case (2 x b tz gr bs e)
    show ?case
    proof (cases "(a, sz, fr) = (b, tz, gr)")
      case True
      with 2 tiles_le [of "x + 16 + unat tz" bs e] show ?thesis by auto
    next
      case False
      with 2 have IH: "x + 16 + unat tz \<le> unat a \<and> unat a + 16 + unat sz \<le> e \<and> 8 dvd unat sz \<and> 0 < unat sz \<and>
        (8 dvd x + 16 + unat tz \<longrightarrow> 8 dvd unat a)" by auto
      moreover have "8 dvd x + 16 + unat tz" if "8 dvd x" using that 2(2) by (auto intro: dvd_add)
      ultimately show ?thesis by auto
    qed
  qed simp
  then show "x \<le> unat a" "unat a + 16 + unat sz \<le> e" "8 dvd unat sz" "0 < unat sz" "8 dvd x \<Longrightarrow> 8 dvd unat a"
    by blast+
qed

lemma seg_append: "seg s q (xs @ ys) n \<longleftrightarrow> seg s q xs (first_addr ys n) \<and> seg s (last_addr xs q) ys n"
proof (induction xs arbitrary: q)
  case (Cons b xs)
  obtain a sz fr where "b = (a, sz, fr)" by (cases b)
  moreover have "first_addr (xs @ ys) n = first_addr xs (first_addr ys n)" by (cases xs) auto
  ultimately show ?case using Cons by auto
qed simp

lemma seg_cong:
  "(\<And>a sz fr. (a, sz, fr) \<in> set bs \<Longrightarrow> hdr t a = hdr s a) \<Longrightarrow> seg t q bs n = seg s q bs n"
proof (induction bs arbitrary: q)
  case (Cons b bs)
  obtain a sz fr where b: "b = (a, sz, fr)" by (cases b)
  with Cons.prems have "hdr t a = hdr s a" by auto
  moreover have "seg t q' bs n = seg s q' bs n" for q' using Cons.prems by (intro Cons.IH) auto
  ultimately show ?case using b by simp
qed simp

lemma chain_member:
  assumes "heap_chain s bs" and "(a, sz, fr) \<in> set bs"
  shows "in_hdr s a" and "unat a + 16 + unat sz \<le> unat (heap_end s)" and "8 dvd unat sz" and "a \<noteq> 0"
proof -
  have t: "tiles KH bs (unat (heap_end s))" using assms(1) by (simp add: heap_chain_def)
  note m = tiles_member [OF t assms(2)]
  show "unat a + 16 + unat sz \<le> unat (heap_end s)" "8 dvd unat sz" using m by simp_all
  show "in_hdr s a" unfolding in_hdr_def using m(1,2) m(5) by simp
  show "a \<noteq> 0" using m(1) by auto
qed

text \<open>The blocks before a block end below its header, those after it start behind its data.\<close>

lemma chain_order:
  assumes "heap_chain s (xs @ (a, sz, fr) # ys)"
  shows "(b, bz, bf) \<in> set xs \<Longrightarrow> unat b + 16 + unat bz \<le> unat a"
    and "(c, cz, cf) \<in> set ys \<Longrightarrow> unat a + 16 + unat sz \<le> unat c"
proof -
  have "tiles KH (xs @ (a, sz, fr) # ys) (unat (heap_end s))" using assms by (simp add: heap_chain_def)
  then have t: "tiles KH xs (unat a)" "tiles (unat a + 16 + unat sz) ys (unat (heap_end s))"
    by (auto simp: tiles_append)
  show "(b, bz, bf) \<in> set xs \<Longrightarrow> unat b + 16 + unat bz \<le> unat a" using tiles_member(2) [OF t(1)] by blast
  show "(c, cz, cf) \<in> set ys \<Longrightarrow> unat a + 16 + unat sz \<le> unat c" using tiles_member(1) [OF t(2)] by blast
qed

lemma first_addr_cases:
  obtains "first_addr ys n = n" "ys = []" | c cz cf zs where "ys = (c, cz, cf) # zs" "first_addr ys n = c"
  by (cases ys) auto

lemma chain_next:
  assumes "heap_chain s (xs @ (a, sz, fr) # ys)" and "first_addr ys 0 \<noteq> 0"
  shows "in_hdr s (first_addr ys 0)" and "unat a + 16 + unat sz \<le> unat (first_addr ys 0)"
proof -
  obtain c cz cf zs where ys: "ys = (c, cz, cf) # zs" using assms(2) by (cases ys) auto
  then show "in_hdr s (first_addr ys 0)" "unat a + 16 + unat sz \<le> unat (first_addr ys 0)"
    using chain_member(1) [OF assms(1), of c] chain_order(2) [OF assms(1), of c] by auto
qed

lemma chain_split:
  "heap_chain s (xs @ (a, sz, fr) # ys) \<longleftrightarrow>
     heap_win s \<and> frame (heap_end s) \<and> heap_head s = first_addr xs a \<and> tiles KH xs (unat a) \<and>
     8 dvd unat sz \<and> 0 < unat sz \<and> tiles (unat a + 16 + unat sz) ys (unat (heap_end s)) \<and>
     seg s 0 xs a \<and> bh_size (hdr s a) = sz \<and> (bh_free (hdr s a) \<noteq> 0 \<longleftrightarrow> fr) \<and>
     bh_next (hdr s a) = first_addr ys 0 \<and> bh_prev (hdr s a) = last_addr xs 0 \<and> seg s a ys 0"
proof -
  have "first_addr (xs @ (a, sz, fr) # ys) 0 = first_addr xs a" by (cases xs) auto
  then show ?thesis unfolding heap_chain_def seg_append tiles_append by auto
qed

text \<open>Changing only the back link of the first block.\<close>

lemma seg_new_prev:
  assumes "seg s q ys n" and "\<And>c cz cf zs. ys = (c, cz, cf) # zs \<Longrightarrow> hdr t c = (hdr s c)\<lparr>bh_prev := q'\<rparr>"
    and "\<And>c cz cf. (c, cz, cf) \<in> set (tl ys) \<Longrightarrow> hdr t c = hdr s c"
  shows "seg t q' ys n"
proof (cases ys)
  case (Cons y zs)
  obtain c cz cf where y: "y = (c, cz, cf)" by (cases y)
  have "seg t c zs n = seg s c zs n" using assms(3) Cons by (intro seg_cong) auto
  then show ?thesis using assms(1,2) Cons y by simp
qed simp

text \<open>Setting the free flag of a block.\<close>

lemma chain_put_free:
  assumes ch: "heap_chain s (xs @ (a, sz, fr) # ys)" and fr': "fr' \<longleftrightarrow> v \<noteq> 0"
  shows "heap_chain (put_free a v s) (xs @ (a, sz, fr') # ys)" and "hdr_only s (put_free a v s) {a}"
proof -
  have win: "heap_win s" and a: "in_hdr s a" using ch chain_member(1) [OF ch] by (auto simp: heap_chain_def)
  show only: "hdr_only s (put_free a v s) {a}" using hdr_only_put(2) [OF hdr_only_refl [OF win] a] by blast
  have hd: "hdr (put_free a v s) a = (hdr s a)\<lparr>bh_free := v\<rparr>" using win a by (simp add: hdr_put)
  have "hdr (put_free a v s) b = hdr s b" if "(b, bz, bf) \<in> set xs \<union> set ys" for b bz bf
  proof (rule hdr_only_hdr [OF only])
    show "in_hdr s b" using that chain_member(1) [OF ch] by auto
    show "apart c b" if "c \<in> {a}" for c
      using that \<open>(b, bz, bf) \<in> set xs \<union> set ys\<close> chain_order [OF ch, of b bz bf] unfolding apart_def by auto
  qed
  then have "seg (put_free a v s) q xs n = seg s q xs n" "seg (put_free a v s) q ys n = seg s q ys n" for q n
    by (intro seg_cong; blast)+
  then show "heap_chain (put_free a v s) (xs @ (a, sz, fr') # ys)"
    using ch hd fr' only unfolding chain_split hdr_only_def by simp
qed

text \<open>The data bytes of the listed blocks are the same in both states.\<close>

definition keeps_data :: "'a heap_state_scheme \<Rightarrow> 'a heap_state_scheme \<Rightarrow> block list \<Rightarrow> bool" where
  "keeps_data s t bs \<longleftrightarrow> (\<forall>(b, bz, bf) \<in> set bs. \<forall>x. unat b + 16 \<le> unat x \<longrightarrow> unat x < unat b + 16 + unat bz \<longrightarrow>
     view t x = view s x)"

lemma keeps_dataI:
  assumes only: "hdr_only s t A" and ch: "heap_chain s cs" and sub: "set bs \<subseteq> set cs"
    and dj: "\<And>b bz bf c. (b, bz, bf) \<in> set bs \<Longrightarrow> c \<in> A \<Longrightarrow> unat c \<le> unat b \<or> unat b + 16 + unat bz \<le> unat c"
  shows "keeps_data s t bs"
  unfolding keeps_data_def
proof (intro ballI allI impI, clarify)
  fix b bz bf and x :: u32 assume b: "(b, bz, bf) \<in> set bs" and x: "unat b + 16 \<le> unat x" "unat x < unat b + 16 + unat bz"
  have "in_hdr s b" "unat b + 16 + unat bz \<le> unat (heap_end s)" using chain_member [OF ch] b sub by blast+
  then have "KH \<le> unat x" "unat x < unat (heap_end s)" using x unfolding in_hdr_def by linarith+
  moreover have "\<forall>c \<in> A. unat x < unat c \<or> unat c + 16 \<le> unat x" using dj [OF b] x by fastforce
  ultimately show "view t x = view s x" using only unfolding hdr_only_def by blast
qed

lemma chain_here:
  assumes ch: "heap_chain s (xs @ (a, sz, fr) # ys)"
  shows "heap_win s" "in_hdr s a" "unat a + 16 + unat sz \<le> unat (heap_end s)" "8 dvd unat sz" "0 < unat sz"
    "bh_size (hdr s a) = sz" "bh_next (hdr s a) = first_addr ys 0" "bh_prev (hdr s a) = last_addr xs 0"
    "bh_free (hdr s a) \<noteq> 0 \<longleftrightarrow> fr"
proof -
  have m: "(a, sz, fr) \<in> set (xs @ (a, sz, fr) # ys)" by simp
  show "in_hdr s a" "unat a + 16 + unat sz \<le> unat (heap_end s)" using chain_member [OF ch m] by simp_all
  show "heap_win s" "8 dvd unat sz" "0 < unat sz" "bh_size (hdr s a) = sz" "bh_next (hdr s a) = first_addr ys 0"
    "bh_prev (hdr s a) = last_addr xs 0" "bh_free (hdr s a) \<noteq> 0 \<longleftrightarrow> fr"
    using ch unfolding chain_split by simp_all
qed

lemma chain_next_apart:
  assumes ch: "heap_chain s (xs @ (a, sz, fr) # ys)" and n: "first_addr ys 0 \<noteq> 0"
    and b: "(b, bz, bf) \<in> set xs \<union> set (tl ys)"
  shows "unat b + 16 + unat bz \<le> unat (first_addr ys 0) \<or> unat (first_addr ys 0) + 16 \<le> unat b"
proof -
  obtain c cz cf zs where ys: "ys = (c, cz, cf) # zs" using n by (cases ys) auto
  then have "heap_chain s ((xs @ [(a, sz, fr)]) @ (c, cz, cf) # zs)" using ch by simp
  from chain_order [OF this, of b bz bf] b ys show ?thesis by auto
qed

lemma chain_split_block:
  assumes ch: "heap_chain s (xs @ (a, sz, fr) # ys)" and k: "k \<le> sz" "8 dvd unat k" "0 < unat k"
  obtains t where "split_block a k s = Some t" and "hdr_only s t ({a, a + 16 + k} \<union> ({first_addr ys 0} - {0}))"
    and "sz - k \<le> 32 \<Longrightarrow> t = s"
    and "\<not> sz - k \<le> 32 \<Longrightarrow> heap_chain t (xs @ (a, k, fr) # (a + 16 + k, sz - k - 16, True) # ys)"
proof (cases "sz - k \<le> 32")
  case True
  note h = chain_here [OF ch]
  then have "split_block a k s = Some s" using True by (simp add: split_block_def Let_def)
  with True that [of s] h(1) show thesis by (simp add: hdr_only_refl)
next
  case False
  let ?nb = "a + 16 + k" and ?n = "first_addr ys 0"
  note h = chain_here [OF ch]
  note sr = split_room [OF h(2) k(2) h(3) k(1) False]
  have "?n \<noteq> 0 \<Longrightarrow> in_hdr s ?n \<and> unat a + 16 + unat sz \<le> unat ?n" using chain_next [OF ch] by blast
  with h(1,2) k(2) h(6) k(1) h(3,7) obtain t where t: "split_block a k s = Some t"
    "hdr_only s t ({a, ?nb} \<union> ({?n} - {0}))" "hdr t a = (hdr s a)\<lparr>bh_size := k, bh_next := ?nb\<rparr>"
    "hdr t ?nb = \<lparr>bh_size = sz - k - 16, bh_free = 1, bh_next = ?n, bh_prev = a\<rparr>"
    "?n \<noteq> 0 \<Longrightarrow> hdr t ?n = (hdr s ?n)\<lparr>bh_prev := ?nb\<rparr>"
    by (rule split_block_run) (use False in blast)+
  have other: "hdr t b = hdr s b" if b: "(b, bz, bf) \<in> set xs \<union> set (tl ys)" for b bz bf
  proof (rule hdr_only_hdr [OF t(2)])
    have b': "(b, bz, bf) \<in> set xs \<union> set ys" using b by (cases ys) auto
    then show "in_hdr s b" using chain_member(1) [OF ch] by auto
    fix c assume "c \<in> {a, ?nb} \<union> ({?n} - {0})"
    then show "apart c b"
      using b b' chain_order [OF ch, of b bz bf] chain_next_apart [OF ch, of b bz bf] sr(1,4) unfolding apart_def by auto
  qed
  have "heap_chain t (xs @ (a, k, fr) # (?nb, sz - k - 16, True) # ys)"
  proof -
    have "seg t 0 xs a" using h other ch seg_cong [of xs t s 0 a] by (auto simp: chain_split)
    moreover have "seg t ?nb ys 0"
    proof (rule seg_new_prev [of s a])
      show "seg s a ys 0" using ch by (simp add: chain_split)
      show "hdr t c = (hdr s c)\<lparr>bh_prev := ?nb\<rparr>" if "ys = (c, cz, cf) # zs" for c cz cf zs
        using t(5) that chain_member(4) [OF ch, of c cz cf] by simp
      show "hdr t c = hdr s c" if "(c, cz, cf) \<in> set (tl ys)" for c cz cf using other that by blast
    qed
    moreover have "8 dvd unat sz - unat k - 16" using h(4) k(2) sr(4) by (intro dvd_diff_nat) simp_all
    ultimately show ?thesis
      using ch t(2,3,4) sr k unfolding chain_split hdr_only_def by (simp add: ac_simps)
  qed
  with t False that [of t] show thesis by simp
qed

lemma chain_merge:
  assumes ch: "heap_chain s (xs @ (b, bz, bf) # (c, cz, cf) # ys)"
  obtains t where "merge_blocks b c s = Some t" and "hdr_only s t ({b} \<union> ({first_addr ys 0} - {0}))"
    and "heap_chain t (xs @ (b, bz + (16 + cz), bf) # ys)"
proof -
  let ?n = "first_addr ys 0"
  have ch': "heap_chain s ((xs @ [(b, bz, bf)]) @ (c, cz, cf) # ys)" using ch by simp
  note hb = chain_here [OF ch] and hc = chain_here [OF ch']
  have bc: "unat b + 16 + unat bz = unat c" using ch by (simp add: chain_split)
  then have ap: "apart b c" by (simp add: apart_def)
  have n: "in_hdr s ?n" "unat c + 16 + unat cz \<le> unat ?n" if "?n \<noteq> 0" using chain_next [OF ch' that] by blast+
  then have "?n \<noteq> 0 \<Longrightarrow> in_hdr s ?n \<and> apart b ?n \<and> apart c ?n" using bc unfolding apart_def by fastforce
  with hb(1,2) hc(2) ap hc(7) obtain t where t: "merge_blocks b c s = Some t"
    "hdr_only s t ({b} \<union> ({?n} - {0}))"
    "hdr t b = (hdr s b)\<lparr>bh_size := bh_size (hdr s b) + (16 + bh_size (hdr s c)), bh_next := ?n\<rparr>"
    "?n \<noteq> 0 \<Longrightarrow> hdr t ?n = (hdr s ?n)\<lparr>bh_prev := b\<rparr>"
    by (rule merge_blocks_run) blast+
  have other: "hdr t x = hdr s x" if x: "(x, xz, xf) \<in> set xs \<union> set (tl ys)" for x xz xf
  proof (rule hdr_only_hdr [OF t(2)])
    have x': "(x, xz, xf) \<in> set xs \<union> set ys" using x by (cases ys) auto
    then show "in_hdr s x" using chain_member(1) [OF ch] by auto
    fix y assume "y \<in> {b} \<union> ({?n} - {0})"
    then show "apart y x"
      using x x' chain_order [OF ch, of x xz xf] chain_next_apart [OF ch', of x xz xf] unfolding apart_def by auto
  qed
  have sum: "unat (bz + (16 + cz)) = unat bz + 16 + unat cz"
  proof -
    have "unat bz + (16 + unat cz) < 2 ^ LENGTH(32)" using bc hc(3) unat_u32_lt [of "heap_end s"] by simp
    from unat_add_less [OF this] show ?thesis by (simp add: add.assoc)
  qed
  have "seg t 0 xs b" using other ch seg_cong [of xs t s 0 b] by (auto simp: chain_split)
  moreover have "seg t b ys 0"
  proof (rule seg_new_prev [of s c])
    show "seg s c ys 0" using ch by (simp add: chain_split)
    show "hdr t x = (hdr s x)\<lparr>bh_prev := b\<rparr>" if "ys = (x, xz, xf) # zs" for x xz xf zs
      using t(4) that chain_member(4) [OF ch, of x xz xf] by simp
    show "hdr t x = hdr s x" if "(x, xz, xf) \<in> set (tl ys)" for x xz xf using other that by blast
  qed
  ultimately have "heap_chain t (xs @ (b, bz + (16 + cz), bf) # ys)"
    using ch t(2,3) hc(6) bc sum unfolding chain_split hdr_only_def by (simp add: ac_simps)
  with t(1,2) that show thesis by blast
qed

lemma find_fit_none:
  assumes "heap_win s" and "seg s q bs 0" and "\<And>a sz fr. (a, sz, fr) \<in> set bs \<Longrightarrow> in_hdr s a \<and> a \<noteq> 0"
    and "\<And>a sz fr. (a, sz, fr) \<in> set bs \<Longrightarrow> \<not> (fr \<and> k \<le> sz)"
  shows "find_fit k (first_addr bs 0) q s = Some (0, last_addr bs q)"
  using assms
proof (induction bs arbitrary: q)
  case Nil
  then show ?case by (simp add: find_fit.simps)
next
  case (Cons b bs)
  obtain a sz fr where b: "b = (a, sz, fr)" by (cases b)
  have a: "in_hdr s a" "a \<noteq> 0" "\<not> (fr \<and> k \<le> sz)"
    using Cons.prems(3,4) [of a sz fr] b by simp_all
  have "find_fit k (first_addr bs 0) a s = Some (0, last_addr bs a)"
  proof (rule Cons.IH)
    show "seg s a bs 0" using Cons.prems(2) b by simp
  qed (use Cons.prems(1,3,4) in \<open>simp_all, blast+\<close>)
  then show ?case
    using Cons.prems(1,2) a b by (subst find_fit.simps) auto
qed

lemma find_fit_found:
  assumes "heap_win s" and "seg s q (xs @ (a, sz, True) # ys) 0" and "k \<le> sz"
    and "in_hdr s a \<and> a \<noteq> 0" and "\<And>b bz bf. (b, bz, bf) \<in> set xs \<Longrightarrow> in_hdr s b \<and> b \<noteq> 0"
    and "\<And>b bz bf. (b, bz, bf) \<in> set xs \<Longrightarrow> \<not> (bf \<and> k \<le> bz)"
  shows "find_fit k (first_addr (xs @ (a, sz, True) # ys) 0) q s = Some (a, last_addr xs q)"
  using assms
proof (induction xs arbitrary: q)
  case Nil
  then show ?case by (subst find_fit.simps) auto
next
  case (Cons b xs)
  obtain c cz cf where b: "b = (c, cz, cf)" by (cases b)
  have c: "in_hdr s c" "c \<noteq> 0" "\<not> (cf \<and> k \<le> cz)"
    using Cons.prems(5,6) [of c cz cf] b by simp_all
  have "find_fit k (first_addr (xs @ (a, sz, True) # ys) 0) c s = Some (a, last_addr xs c)"
  proof (rule Cons.IH)
    show "seg s c (xs @ (a, sz, True) # ys) 0" using Cons.prems(2) b by simp
  qed (use Cons.prems(1,3-6) in \<open>simp_all, blast+\<close>)
  then show ?case
    using Cons.prems(1,2) c b by (subst find_fit.simps) auto
qed

section \<open>Growing the heap\<close>

lemma vm_only_heap:
  fixes s t :: "'a heap_state_scheme"
  assumes "vm_only s t"
  shows "heap_end t = heap_end s" and "heap_head t = heap_head s" and "cr3 t = cr3 s"
proof -
  note e = assms [unfolded vm_only_def]
  show "heap_end t = heap_end s" using arg_cong [OF e, of heap_end] by simp
  show "heap_head t = heap_head s" using arg_cong [OF e, of heap_head] by simp
  show "cr3 t = cr3 s" using arg_cong [OF e, of cr3] by simp
qed

text \<open>The two variables of the allocator are not part of the address space.\<close>

lemma entry_get_heap [simp]:
  "entry_get A i (t\<lparr>heap_end := e\<rparr>) = entry_get A i t" "entry_get A i (t\<lparr>heap_head := e\<rparr>) = entry_get A i t"
  by (simp_all add: entry_get_def)

lemma space_heap [simp]:
  "walk_in d (t\<lparr>heap_end := e\<rparr>) = walk_in d t" "walk_in d (t\<lparr>heap_head := e\<rparr>) = walk_in d t"
  "private_frame (t\<lparr>heap_end := e\<rparr>) = private_frame t" "private_frame (t\<lparr>heap_head := e\<rparr>) = private_frame t"
  "dir_wf d (t\<lparr>heap_end := e\<rparr>) = dir_wf d t" "dir_wf d (t\<lparr>heap_head := e\<rparr>) = dir_wf d t"
  by (simp_all add: walk_in_def private_frame_def dir_wf_def fun_eq_iff Let_def)

lemma window_heap [simp]:
  "window (t\<lparr>heap_end := e\<rparr>) lo hi = window t lo hi" "window (t\<lparr>heap_head := e\<rparr>) lo hi = window t lo hi"
  by (simp_all only: window_def space_heap) simp_all

lemma view_heap [simp]: "view (t\<lparr>heap_end := e\<rparr>) = view t" "view (t\<lparr>heap_head := e\<rparr>) = view t"
proof -
  have m: "mem (t\<lparr>heap_end := e\<rparr>) = mem t" "mem (t\<lparr>heap_head := e\<rparr>) = mem t" by simp_all
  show "view (t\<lparr>heap_end := e\<rparr>) = view t" "view (t\<lparr>heap_head := e\<rparr>) = view t"
    unfolding view_def phys_addr_def space_heap m fun_eq_iff by simp_all
qed

lemma hdr_heap [simp]: "hdr (t\<lparr>heap_end := e\<rparr>) = hdr t" "hdr (t\<lparr>heap_head := e\<rparr>) = hdr t"
  by (simp_all add: hdr_def fun_eq_iff)

lemma page_step:
  assumes "frame va" and "unat va + Suc n * 4096 < 4294967296"
  shows "unat (va + KMALLOC_PAGE) = unat va + 4096" and "frame (va + KMALLOC_PAGE)"
proof -
  have "unat va + 4096 < 2 ^ LENGTH(32)" using assms(2) by simp
  from unat_add_less [OF this] show u: "unat (va + KMALLOC_PAGE) = unat va + 4096" by (simp add: KMALLOC_PAGE_def)
  show "frame (va + KMALLOC_PAGE)" using assms(1) unfolding frame_def u by simp
qed

lemma map_heap_pages_run:
  assumes "window s KH (unat va)" and "frame va" and "unat va + n * 4096 < 4294967296" and "0 < unat va"
    and "map_heap_pages n va s = (ok, t)"
  shows "vm_only s t" and "window t KH (unat va)" and "ok \<Longrightarrow> window t KH (unat va + n * 4096)"
    and "KH \<le> unat x \<Longrightarrow> unat x < unat va \<Longrightarrow> view t x = view s x"
proof -
  have "vm_only s t \<and> window t KH (unat va) \<and> (ok \<longrightarrow> window t KH (unat va + n * 4096)) \<and>
      (\<forall>x. KH \<le> unat x \<longrightarrow> unat x < unat va \<longrightarrow> view t x = view s x)"
    using assms
  proof (induction n va s rule: map_heap_pages.induct)
    case (1 va s)
    then show ?case by simp
  next
    case (2 n va s)
    obtain r s1 where r: "vmm_alloc_map_page va PAGE_WRITABLE s = (r, s1)" by fastforce
    note g = window_grow [OF 2(2,3) r]
    have v: "vm_only s s1" using alloc_map_page_vm_only [OF r, of s] by simp
    show ?case
    proof (cases "r = 0")
      case True
      then have "t = s1" "\<not> ok" using 2(6) r by simp_all
      with v g show ?thesis by simp
    next
      case False
      note st = page_step [OF 2(3,4)]
      have w1: "window s1 KH (unat (va + KMALLOC_PAGE))" using g(4) [OF False] st(1) by simp
      have m: "map_heap_pages n (va + KMALLOC_PAGE) s1 = (ok, t)" using 2(6) r False by simp
      have b: "unat (va + KMALLOC_PAGE) + n * 4096 < 4294967296" "0 < unat (va + KMALLOC_PAGE)"
        using 2(4) st(1) by simp_all
      have IH: "vm_only s1 t \<and> window t KH (unat (va + KMALLOC_PAGE)) \<and>
          (ok \<longrightarrow> window t KH (unat (va + KMALLOC_PAGE) + n * 4096)) \<and>
          (\<forall>x. KH \<le> unat x \<longrightarrow> unat x < unat (va + KMALLOC_PAGE) \<longrightarrow> view t x = view s1 x)"
        using r [symmetric] False w1 st(2) b m by (rule 2(1) [OF _ refl])
      then have "window t KH (unat va)" using window_mono st(1) by force
      with IH v g(5) st(1) show ?thesis by (auto intro: vm_only_trans simp: ac_simps)
    qed
  qed
  then show "vm_only s t" and "window t KH (unat va)" and "ok \<Longrightarrow> window t KH (unat va + n * 4096)"
    and "KH \<le> unat x \<Longrightarrow> unat x < unat va \<Longrightarrow> view t x = view s x" by blast+
qed

text \<open>The number of pages for a request that does not wrap around.\<close>

definition heap_pages :: "u32 \<Rightarrow> u32" where
  "heap_pages k = (k + 16 + KMALLOC_PAGE - 1) div KMALLOC_PAGE"

lemma heap_pages_bounds:
  assumes "unat e + unat k + 0x2000 < 4294967296"
  shows "unat (heap_pages k * KMALLOC_PAGE) = unat (heap_pages k) * 4096"
    and "unat k + 16 \<le> unat (heap_pages k) * 4096" and "unat (heap_pages k) * 4096 < unat k + 16 + 4096"
    and "unat (heap_pages k * KMALLOC_PAGE - 16) = unat (heap_pages k) * 4096 - 16"
    and "unat (e + heap_pages k * KMALLOC_PAGE) = unat e + unat (heap_pages k) * 4096"
proof -
  have "unat k + 4111 < 2 ^ LENGTH(32)" using assms by simp
  from unat_add_less [OF this] have "unat (k + 16 + KMALLOC_PAGE - 1) = unat k + 4111"
    by (simp add: KMALLOC_PAGE_def add.commute)
  then have p: "unat (heap_pages k) = (unat k + 4111) div 4096"
    by (simp add: heap_pages_def unat_div KMALLOC_PAGE_def)
  then show lo: "unat k + 16 \<le> unat (heap_pages k) * 4096" and hi: "unat (heap_pages k) * 4096 < unat k + 16 + 4096"
    using div_mult_mod_eq [of "unat k + 4111" 4096] mod_less_divisor [of 4096 "unat k + 4111"] by linarith+
  then show m: "unat (heap_pages k * KMALLOC_PAGE) = unat (heap_pages k) * 4096"
    using assms by (simp add: unat_word_ariths KMALLOC_PAGE_def)
  have "16 \<le> heap_pages k * KMALLOC_PAGE" using lo m by (simp add: word_le_nat_alt)
  then show "unat (heap_pages k * KMALLOC_PAGE - 16) = unat (heap_pages k) * 4096 - 16" using m by (simp add: unat_sub)
  show "unat (e + heap_pages k * KMALLOC_PAGE) = unat e + unat (heap_pages k) * 4096"
    using assms hi m by (simp add: unat_word_ariths)
qed

lemma expand_heap_run:
  assumes ch: "heap_chain s bs" and room: "unat (heap_end s) + unat k + 0x2000 < 4294967296"
    and KH: "KH \<le> unat (heap_end s)"
  obtains (fail) t where "expand_heap k s = Some (0, t)" "vm_only s t" "window t KH (unat (heap_end s))"
      "\<And>x. KH \<le> unat x \<Longrightarrow> unat x < unat (heap_end s) \<Longrightarrow> view t x = view s x"
    | (ok) t where "expand_heap k s = Some (heap_end s, t)" "heap_win t" "frame (heap_end t)"
      "unat (heap_end t) = unat (heap_end s) + unat (heap_pages k) * 4096" "heap_head t = heap_head s" "cr3 t = cr3 s"
      "hdr t (heap_end s) = \<lparr>bh_size = heap_pages k * KMALLOC_PAGE - 16, bh_free = 1, bh_next = 0, bh_prev = 0\<rparr>"
      "\<And>x. KH \<le> unat x \<Longrightarrow> unat x < unat (heap_end s) \<Longrightarrow> view t x = view s x"
proof -
  let ?e = "heap_end s" and ?n = "unat (heap_pages k)"
  note b = heap_pages_bounds [OF room]
  have win: "window s KH (unat ?e)" and fr: "frame ?e" using ch by (simp_all add: heap_chain_def heap_win_def)
  obtain good t1 where m: "map_heap_pages ?n ?e s = (good, t1)" by fastforce
  have lt: "unat ?e + ?n * 4096 < 4294967296" using b(3) room by simp
  note r = map_heap_pages_run [OF win fr lt _ m]
  show thesis
  proof (cases good)
    case False
    then have "expand_heap k s = Some (0, t1)"
      using m by (simp add: expand_heap_def Let_def heap_pages_def)
    then show thesis using r KH by (intro fail [of t1]) auto
  next
    case True
    define t2 where "t2 = t1\<lparr>heap_end := heap_end t1 + heap_pages k * KMALLOC_PAGE\<rparr>"
    have v: "vm_only s t1" using r(1) KH by simp
    have e2: "unat (heap_end t2) = unat ?e + ?n * 4096" using vm_only_heap(1) [OF v] b(5) by (simp add: t2_def)
    have view2: "view t2 = view t1" by (simp add: t2_def)
    have "window t1 KH (unat ?e + ?n * 4096)" using r(3) True KH by simp
    then have w2: "heap_win t2"
      unfolding heap_win_def e2 by (simp add: t2_def)
    have f8: "8 dvd unat ?e" using fr unfolding frame_def by (rule dvd_trans [rotated]) simp
    have in2: "in_hdr t2 ?e" using f8 KH b(2) unfolding in_hdr_def e2 by simp
    define t where "t = put_prev ?e 0 (put_next ?e 0 (put_free ?e 1 (put_size ?e (heap_pages k * KMALLOC_PAGE - 16) t2)))"
    have only: "hdr_only t2 t {?e}" unfolding t_def using in2 w2 by (intro hdr_only_put hdr_only_refl) simp_all
    have run: "expand_heap k s = Some (?e, t)"
      using m True w2 in2 by (simp add: expand_heap_def Let_def heap_pages_def t_def t2_def)
    show thesis
    proof (rule ok [OF run])
      show "hdr t ?e = \<lparr>bh_size = heap_pages k * KMALLOC_PAGE - 16, bh_free = 1, bh_next = 0, bh_prev = 0\<rparr>"
        using w2 in2 by (simp add: t_def hdr_put)
      show "view t x = view s x" if "KH \<le> unat x" "unat x < unat ?e" for x
        using that only r(4) [OF _ that] e2 view2 KH unfolding hdr_only_def by simp
      have "4096 dvd unat ?e + ?n * 4096" using fr unfolding frame_def by simp
      then show "frame (heap_end t)" using only e2 unfolding hdr_only_def frame_def by simp
      show "heap_win t" "unat (heap_end t) = unat ?e + ?n * 4096" "heap_head t = heap_head s" "cr3 t = cr3 s"
        using only e2 vm_only_heap(2,3) [OF v] unfolding hdr_only_def by (simp_all add: t2_def)
    qed
  qed
qed

section \<open>Allocation\<close>

text \<open>What becomes of a block of size \<open>sz\<close> in which \<open>k\<close> bytes are allocated.\<close>

definition place :: "u32 \<Rightarrow> u32 \<Rightarrow> u32 \<Rightarrow> block list" where
  "place a sz k = (if sz - k \<le> 32 then [(a, sz, False)] else [(a, k, False), (a + 16 + k, sz - k - 16, True)])"

lemma align8:
  fixes n :: u32
  assumes "unat n + 7 < 4294967296"
  shows "8 dvd unat ((n + 7) AND NOT 7)" and "unat n \<le> unat ((n + 7) AND NOT 7)" and "unat ((n + 7) AND NOT 7) \<le> unat n + 7"
proof -
  have u: "unat (n + 7) = unat n + 7" using unat_add_less [of n 7] assms by simp
  have "(n + 7) AND NOT (7 :: u32) = (n + 7) - take_bit 3 (n + 7)"
  proof -
    have m: "(7 :: u32) = mask 3" by (simp add: mask_eq_exp_minus_1)
    have "x AND NOT (mask 3) = push_bit 3 (drop_bit 3 x)" for x :: u32
      by (auto intro!: bit_word_eqI simp: bit_simps)
    from this [of "n + 7"] have "(n + 7) AND NOT (7 :: u32) = push_bit 3 (drop_bit 3 (n + 7))" by (simp only: m)
    then show ?thesis by (metis add_diff_cancel_left' bits_ident add.commute)
  qed
  moreover have tb: "unat (take_bit 3 (n + 7)) = unat (n + 7) mod 8"
    by (simp only: unsigned_take_bit_eq) (simp add: take_bit_eq_mod)
  moreover have "take_bit 3 (n + 7) \<le> n + 7" using tb by (simp add: word_le_nat_alt)
  ultimately have k: "unat ((n + 7) AND NOT 7) = unat (n + 7) - unat (n + 7) mod 8" by (simp add: unat_sub)
  show "8 dvd unat ((n + 7) AND NOT 7)" unfolding k by (simp add: minus_mod_eq_mult_div)
  show "unat n \<le> unat ((n + 7) AND NOT 7)" "unat ((n + 7) AND NOT 7) \<le> unat n + 7"
    unfolding k u using mod_less_divisor [of 8 "unat n + 7"] by linarith+
qed

lemma chain_first:
  assumes "heap_chain s (xs @ (a, sz, fr) # ys)" and "first_addr ys 0 \<noteq> 0"
  shows "unat (first_addr ys 0) = unat a + 16 + unat sz"
  using assms by (cases ys) (auto simp: chain_split)

lemma chain_allocate:
  assumes ch: "heap_chain s (xs @ (a, sz, fr) # ys)" and k: "k \<le> sz" "8 dvd unat k" "0 < unat k"
  obtains t where "split_block a k s = Some t" and "set_free a 0 t = Some (put_free a 0 t)"
    and "heap_chain (put_free a 0 t) (xs @ place a sz k @ ys)" and "keeps_data s (put_free a 0 t) (xs @ ys)"
    and "heap_end (put_free a 0 t) = heap_end s" and "cr3 (put_free a 0 t) = cr3 s" and "pmm (put_free a 0 t) = pmm s"
proof -
  let ?A = "{a, a + 16 + k} \<union> ({first_addr ys 0} - {0})"
  obtain t where t: "split_block a k s = Some t" "hdr_only s t ?A" "sz - k \<le> 32 \<Longrightarrow> t = s"
    "\<not> sz - k \<le> 32 \<Longrightarrow> heap_chain t (xs @ (a, k, fr) # (a + 16 + k, sz - k - 16, True) # ys)"
    using ch k by (rule chain_split_block) blast
  note h = chain_here [OF ch]
  have a: "heap_win t" "in_hdr t a" using t(2) h(2) by (auto simp: hdr_only_def in_hdr_def)
  have set: "set_free a 0 t = Some (put_free a 0 t)" using a by simp
  have ch': "heap_chain (put_free a 0 t) (xs @ place a sz k @ ys)"
  proof (cases "sz - k \<le> 32")
    case True
    then show ?thesis using chain_put_free(1) [OF ch, of False 0] t(3) by (simp add: place_def)
  next
    case False
    then show ?thesis using chain_put_free(1) [OF t(4), of False 0] by (simp add: place_def)
  qed
  have only: "hdr_only s (put_free a 0 t) ?A" using hdr_only_put(2) [OF t(2) h(2)] by simp
  have "keeps_data s (put_free a 0 t) (xs @ ys)"
  proof (rule keeps_dataI [OF only ch])
    fix b bz bf c assume b: "(b, bz, bf) \<in> set (xs @ ys)" and c: "c \<in> ?A"
    have nb: "unat (a + 16 + k) = unat a + 16 + unat k" "unat k \<le> unat sz"
    proof -
      show le: "unat k \<le> unat sz" using k(1) by (simp add: word_le_nat_alt)
      have "unat a + (16 + unat k) < 2 ^ LENGTH(32)" using le h(3) unat_u32_lt [of "heap_end s"] by simp
      from unat_add_less [OF this] show "unat (a + 16 + k) = unat a + 16 + unat k" by (simp add: add.assoc)
    qed
    from b c show "unat c \<le> unat b \<or> unat b + 16 + unat bz \<le> unat c"
      using nb chain_order [OF ch, of b bz bf] chain_first [OF ch] by auto
  qed auto
  with t(1) set ch' only that show thesis unfolding hdr_only_def by blast
qed

lemma kmalloc_fit:
  assumes ch: "heap_chain s (xs @ (a, sz, True) # ys)" and n: "n \<noteq> 0" "unat n + 7 < 4294967296"
    and k: "k = (n + 7) AND NOT 7" "k \<le> sz" and before: "\<And>b bz bf. (b, bz, bf) \<in> set xs \<Longrightarrow> \<not> (bf \<and> k \<le> bz)"
  obtains t where "kmalloc n s = Some (a + 16, t)" and "heap_chain t (xs @ place a sz k @ ys)"
    and "keeps_data s t (xs @ ys)" and "heap_end t = heap_end s" and "cr3 t = cr3 s" and "pmm t = pmm s"
proof -
  note al = align8 [OF n(2), folded k(1)]
  have "0 < unat k" using al(2) n(1) unat_gt_0 [of n] by linarith
  with ch k(2) al(1) obtain t where t: "split_block a k s = Some t" "set_free a 0 t = Some (put_free a 0 t)"
    "heap_chain (put_free a 0 t) (xs @ place a sz k @ ys)" "keeps_data s (put_free a 0 t) (xs @ ys)"
    "heap_end (put_free a 0 t) = heap_end s" "cr3 (put_free a 0 t) = cr3 s" "pmm (put_free a 0 t) = pmm s"
    by (rule chain_allocate) blast
  have "find_fit k (first_addr (xs @ (a, sz, True) # ys) 0) 0 s = Some (a, last_addr xs 0)"
  proof (rule find_fit_found [OF _ _ k(2)])
    show "heap_win s" "seg s 0 (xs @ (a, sz, True) # ys) 0" using ch by (simp_all add: heap_chain_def)
    show "in_hdr s b \<and> b \<noteq> 0" if "(b, bz, bf) \<in> set xs" for b bz bf
      using that chain_member(1,4) [OF ch, of b bz bf] by simp
    show "in_hdr s a \<and> a \<noteq> 0" using chain_member(1,4) [OF ch, of a sz True] by simp
  qed (use before in blast)
  moreover have "heap_head s = first_addr (xs @ (a, sz, True) # ys) 0" using ch by (simp add: heap_chain_def)
  ultimately have "kmalloc n s = Some (a + 16, put_free a 0 t)"
    using n(1) t(1,2) chain_member(4) [OF ch, of a sz True] unfolding kmalloc_def Let_def k(1) [symmetric] by simp
  with t that show thesis by blast
qed

text \<open>Behind the last block: the fresh block is linked to the list.\<close>

lemma view_hdr:
  assumes "\<And>x. KH \<le> unat x \<Longrightarrow> unat x < unat (heap_end s) \<Longrightarrow> view t x = view s x" and "in_hdr s b"
  shows "hdr t b = hdr s b"
proof (rule hdr_cong)
  fix i :: nat assume "i < 16"
  then show "view t (b + of_nat i) = view s (b + of_nat i)"
    using assms(1) [of "b + of_nat i"] in_hdr_offset [OF assms(2), of i] assms(2) unfolding in_hdr_def by linarith
qed

lemma keeps_data_view:
  assumes ch: "heap_chain s bs" and "\<And>x. KH \<le> unat x \<Longrightarrow> unat x < unat (heap_end s) \<Longrightarrow> view t x = view s x"
  shows "keeps_data s t bs"
  unfolding keeps_data_def
proof (intro ballI allI impI, clarify)
  fix b bz bf and x :: u32 assume b: "(b, bz, bf) \<in> set bs" and x: "unat b + 16 \<le> unat x" "unat x < unat b + 16 + unat bz"
  then show "view t x = view s x" using chain_member(1,2) [OF ch b] by (intro assms(2)) (auto simp: in_hdr_def)
qed

lemma tiles_Nil_end: "heap_chain s [] \<Longrightarrow> unat (heap_end s) = KH"
  by (simp add: heap_chain_def)

lemma chain_KH: "heap_chain s bs \<Longrightarrow> KH \<le> unat (heap_end s)"
  unfolding heap_chain_def using tiles_le by blast

lemma last_addr_snoc [simp]: "last_addr (xs @ [(a, sz, fr)]) q = a"
  by (induction xs arbitrary: q) auto

lemma seg_new_next:
  assumes "seg s q (xs @ [(l, lz, lf)]) n" and "hdr t l = (hdr s l)\<lparr>bh_next := n'\<rparr>"
    and "\<And>b bz bf. (b, bz, bf) \<in> set xs \<Longrightarrow> hdr t b = hdr s b"
  shows "seg t q (xs @ [(l, lz, lf)]) n'"
proof -
  have "seg t q xs l = seg s q xs l" using assms(3) by (rule seg_cong)
  with assms(1,2) show ?thesis by (simp add: seg_append)
qed

lemma f8_end: "heap_chain s bs \<Longrightarrow> 8 dvd unat (heap_end s)"
  unfolding heap_chain_def frame_def by (auto intro: dvd_trans [of 8 4096])

lemma chain_append:
  assumes ch: "heap_chain s bs" and t: "heap_win t" "frame (heap_end t)" "heap_head t = heap_head s"
    "unat (heap_end t) = unat (heap_end s) + 16 + unat sz" "8 dvd unat sz" "0 < unat sz"
    and hd: "hdr t (heap_end s) = \<lparr>bh_size = sz, bh_free = 1, bh_next = 0, bh_prev = 0\<rparr>"
    and old: "\<And>x. KH \<le> unat x \<Longrightarrow> unat x < unat (heap_end s) \<Longrightarrow> view t x = view s x"
  defines "e \<equiv> heap_end s" and "l \<equiv> last_addr bs 0"
  obtains u where "(if l \<noteq> 0 then do { t' \<leftarrow> set_next l e t; set_prev e l t' } else Some (t\<lparr>heap_head := e\<rparr>)) = Some u"
    and "heap_chain u (bs @ [(e, sz, True)])" and "heap_end u = heap_end t" and "cr3 u = cr3 t"
    and "keeps_data s u bs"
proof (cases bs rule: rev_cases)
  case Nil
  then have "unat e = KH" using ch tiles_Nil_end unfolding e_def by blast
  then have "heap_chain (t\<lparr>heap_head := e\<rparr>) (bs @ [(e, sz, True)])"
    using Nil t hd by (simp add: heap_chain_def heap_win_def e_def)
  moreover have "keeps_data s (t\<lparr>heap_head := e\<rparr>) bs" using Nil by (simp add: keeps_data_def)
  ultimately show thesis using Nil that by (simp add: l_def)
next
  case (snoc xs b)
  obtain la lz lf where b: "b = (la, lz, lf)" by (cases b)
  have l: "l = la" using snoc b by (simp add: l_def)
  have bs: "bs = xs @ [(l, lz, lf)]" using snoc b l by simp
  note h = chain_here [OF ch [unfolded bs]]
  have le: "unat l + 16 \<le> unat e" "l \<noteq> 0" using h(2,3) chain_member(4) [OF ch] bs by (auto simp: e_def in_hdr_def)
  have in_t: "in_hdr t l" "in_hdr t e"
    using h(2) t(4) le f8_end [OF ch] chain_KH [OF ch] by (auto simp: in_hdr_def e_def)
  have ap: "apart l e" using le by (simp add: apart_def)
  define u where "u = put_prev e l (put_next l e t)"
  have run: "(if l \<noteq> 0 then do { t' \<leftarrow> set_next l e t; set_prev e l t' } else Some (t\<lparr>heap_head := e\<rparr>)) = Some u"
    using le t(1) in_t by (simp add: u_def)
  have only: "hdr_only t u {l, e}"
    unfolding u_def using in_t t(1) by (intro hdr_only_put hdr_only_refl) simp_all
  have old_hdr: "hdr t b = hdr s b" if "in_hdr s b" for b using old that by (rule view_hdr)
  have hu: "hdr u l = (hdr s l)\<lparr>bh_next := e\<rparr>" "hdr u e = \<lparr>bh_size = sz, bh_free = 1, bh_next = 0, bh_prev = l\<rparr>"
    using t(1) in_t ap apart_neq [OF ap] old_hdr [OF h(2)] hd by (auto simp: u_def hdr_put apart_sym e_def)
  have "hdr u b = hdr s b" if b: "(b, bz, bf) \<in> set xs" for b bz bf
  proof -
    have ib: "in_hdr s b" using chain_member(1) [OF ch] b bs by auto
    have "unat b + 16 + unat bz \<le> unat l" using chain_order(1) [OF ch [unfolded bs]] b by blast
    then have "hdr u b = hdr t b" using ib t(4) le
      by (intro hdr_only_hdr [OF only]) (auto simp: apart_def in_hdr_def)
    with old_hdr [OF ib] show ?thesis by simp
  qed
  then have "seg u 0 (xs @ [(l, lz, lf)]) e"
    using seg_new_next [of s 0 xs l lz lf 0 u e] ch hu(1) unfolding bs heap_chain_def by blast
  moreover have "heap_head s = first_addr (bs @ [(e, sz, True)]) 0" using ch bs unfolding heap_chain_def by (cases xs) auto
  ultimately have "heap_chain u (bs @ [(e, sz, True)])"
    using ch t hu(2) only unfolding heap_chain_def hdr_only_def bs seg_append [of u 0 "xs @ [(l, lz, lf)]"]
    by (auto simp: tiles_append e_def)
  moreover have "keeps_data s u bs"
    unfolding keeps_data_def
  proof (intro ballI allI impI, clarify)
    fix b bz bf and x :: u32 assume b: "(b, bz, bf) \<in> set bs" and x: "unat b + 16 \<le> unat x" "unat x < unat b + 16 + unat bz"
    have in_s: "KH \<le> unat x" "unat x < unat e"
      using chain_member(1,2) [OF ch b] x by (auto simp: in_hdr_def e_def)
    have "unat x < unat l \<or> unat l + 16 \<le> unat x"
      using b x chain_order(1) [OF ch [unfolded bs], of b bz bf] unfolding bs by auto
    then have "view u x = view t x" using only in_s t(4) unfolding hdr_only_def e_def by auto
    with old in_s show "view u x = view s x" unfolding e_def by simp
  qed
  ultimately show thesis using that [OF run] only unfolding hdr_only_def by blast
qed

lemma keeps_data_trans: "keeps_data s t bs \<Longrightarrow> keeps_data t u bs \<Longrightarrow> keeps_data s u bs"
  unfolding keeps_data_def by fastforce

lemma kmalloc_grow:
  assumes ch: "heap_chain s bs" and n: "n \<noteq> 0" "unat (heap_end s) + unat n + 0x2007 < 4294967296"
    and k: "k = (n + 7) AND NOT 7" and none: "\<And>b bz bf. (b, bz, bf) \<in> set bs \<Longrightarrow> \<not> (bf \<and> k \<le> bz)"
  obtains (fail) t where "kmalloc n s = Some (0, t)" "heap_chain t bs" "keeps_data s t bs" "heap_end t = heap_end s" "cr3 t = cr3 s"
    | (ok) t where "kmalloc n s = Some (heap_end s + 16, t)" "keeps_data s t bs" "cr3 t = cr3 s"
      "heap_chain t (bs @ place (heap_end s) (heap_pages k * KMALLOC_PAGE - 16) k)" "k \<le> heap_pages k * KMALLOC_PAGE - 16"
proof -
  have n7: "unat n + 7 < 4294967296" using n(2) by simp
  note al = align8 [OF n7, folded k]
  have k0: "0 < unat k" using al(2) n(1) unat_gt_0 [of n] by linarith
  have ff: "find_fit k (heap_head s) 0 s = Some (0, last_addr bs 0)"
    using find_fit_none [of s 0 bs k] ch none chain_member(1,4) [OF ch] unfolding heap_chain_def by auto
  have room: "unat (heap_end s) + unat k + 0x2000 < 4294967296" using al(3) n(2) by simp
  let ?sz = "heap_pages k * KMALLOC_PAGE - 16" and ?e = "heap_end s"
  note hp = heap_pages_bounds [OF room]
  from ch room chain_KH [OF ch] show thesis
  proof (cases rule: expand_heap_run)
    case (fail t)
    note v = vm_only_heap [OF fail(2)]
    have "kmalloc n s = Some (0, t)"
      using n(1) ff fail(1) unfolding kmalloc_def Let_def k [symmetric] by simp
    moreover have "heap_chain t bs"
    proof -
      have "hdr t b = hdr s b" if "in_hdr s b" for b using fail(4) that by (rule view_hdr)
      then have "seg t 0 bs 0 = seg s 0 bs 0" using chain_member(1) [OF ch] by (intro seg_cong) blast
      with ch fail(3) v show ?thesis by (simp add: heap_chain_def heap_win_def)
    qed
    ultimately show ?thesis using that(1) keeps_data_view [OF ch fail(4)] v by blast
  next
    case (ok t)
    have sz: "unat ?sz = unat (heap_pages k) * 4096 - 16" "unat k \<le> unat ?sz" using hp by simp_all
    have e: "unat (heap_end t) = unat ?e + 16 + unat ?sz" using ok(4) sz(1) hp(2) by simp
    have d: "8 dvd unat ?sz" "0 < unat ?sz" using sz k0 by (auto intro!: dvd_diff_nat)
    have ksz: "k \<le> ?sz" using sz(2) by (simp add: word_le_nat_alt)
    obtain u where u: "(if last_addr bs 0 \<noteq> 0 then do { t' \<leftarrow> set_next (last_addr bs 0) ?e t; set_prev ?e (last_addr bs 0) t' }
        else Some (t\<lparr>heap_head := ?e\<rparr>)) = Some u" "heap_chain u (bs @ [(?e, ?sz, True)])" "cr3 u = cr3 t" "keeps_data s u bs"
      using ch ok(2,3,5) e d ok(7,8) by (rule chain_append) blast
    obtain w where w: "split_block ?e k u = Some w" "set_free ?e 0 w = Some (put_free ?e 0 w)"
      "heap_chain (put_free ?e 0 w) (bs @ place ?e ?sz k @ [])" "keeps_data u (put_free ?e 0 w) (bs @ [])"
      "cr3 (put_free ?e 0 w) = cr3 u"
      using u(2) ksz al(1) k0 by (rule chain_allocate) blast
    have "?e \<noteq> 0" using chain_KH [OF ch] by auto
    then have "kmalloc n s = Some (?e + 16, put_free ?e 0 w)"
      using n(1) ff ok(1) u(1) w(1,2) unfolding kmalloc_def Let_def k [symmetric] by simp
    moreover have "keeps_data s (put_free ?e 0 w) bs" using keeps_data_trans [OF u(4)] w(4) by simp
    ultimately show ?thesis using that(2) w(3,5) u(3) ok(6) ksz by auto
  qed
qed

section \<open>Release\<close>

text \<open>A free block absorbs a free block behind it.\<close>

fun absorb :: "block \<Rightarrow> block list \<Rightarrow> block list" where
  "absorb (a, sz, True) ((c, cz, True) # zs) = (a, sz + (16 + cz), True) # zs"
| "absorb b zs = b # zs"

fun release_block :: "block list \<Rightarrow> block \<Rightarrow> block list \<Rightarrow> block list" where
  "release_block [] (a, sz, fr) ys = absorb (a, sz, True) ys"
| "release_block [x] (a, sz, fr) ys = absorb x (absorb (a, sz, True) ys)"
| "release_block (x # y # xs) b ys = x # release_block (y # xs) b ys"

lemma release_block_snoc: "release_block (xs @ [x]) (a, sz, fr) ys = xs @ absorb x (absorb (a, sz, True) ys)"
proof (induction xs)
  case (Cons y xs)
  then show ?case by (cases xs) auto
qed simp

lemma tiles_disjoint:
  "tiles x bs e \<Longrightarrow> (b, bz, bf) \<in> set bs \<Longrightarrow> (c, cz, cf) \<in> set bs \<Longrightarrow> unat c \<le> unat b \<or> unat b + 16 + unat bz \<le> unat c"
proof (induction x bs e rule: tiles.induct)
  case (2 x a sz fr bs e)
  then have t: "tiles (x + 16 + unat sz) bs e" by simp
  show ?case
  proof (cases "(b, bz, bf) = (a, sz, fr)")
    case True
    then show ?thesis using 2 tiles_member(1) [OF t, of c cz cf] by auto
  next
    case False
    then have "(b, bz, bf) \<in> set bs" using 2 by auto
    then show ?thesis using 2 tiles_member(1) [OF t, of b bz bf] by auto
  qed
qed simp

lemma hdr_only_mono: "hdr_only s t A \<Longrightarrow> A \<subseteq> B \<Longrightarrow> hdr_only s t B"
  unfolding hdr_only_def by blast

lemma keeps_data_hdrs:
  assumes ch: "heap_chain s bs" and only: "hdr_only s t (fst ` set bs)"
  shows "keeps_data s t bs"
proof (rule keeps_dataI [OF only ch])
  fix b bz bf c assume b: "(b, bz, bf) \<in> set bs" and "c \<in> fst ` set bs"
  then obtain cz cf where c: "(c, cz, cf) \<in> set bs" by auto
  show "unat c \<le> unat b \<or> unat b + 16 + unat bz \<le> unat c"
    using ch tiles_disjoint [OF _ b c] unfolding heap_chain_def by blast
qed simp

text \<open>The two merge steps of \<open>kfree\<close>.\<close>

lemma chain_merge_next:
  assumes ch: "heap_chain s (xs @ (a, sz, True) # ys)"
  obtains t where "merge_if_free (first_addr ys 0) a (first_addr ys 0) s = Some t"
    and "heap_chain t (xs @ absorb (a, sz, True) ys)" and "hdr_only s t (fst ` set (xs @ (a, sz, True) # ys))"
proof (cases ys)
  case Nil
  then show thesis using that [of s] ch by (simp add: merge_if_free_def heap_chain_def hdr_only_refl)
next
  case (Cons y zs)
  obtain c cz cf where y: "y = (c, cz, cf)" by (cases y)
  have ch': "heap_chain s ((xs @ [(a, sz, True)]) @ (c, cz, cf) # zs)" using ch Cons y by simp
  note h = chain_here [OF ch'] and c0 = chain_member(4) [OF ch, of c cz cf]
  show thesis
  proof (cases cf)
    case False
    then show thesis using that [of s] ch h c0 Cons y by (simp add: merge_if_free_def hdr_only_refl)
  next
    case True
    obtain t where t: "merge_blocks a c s = Some t" "hdr_only s t ({a} \<union> ({first_addr zs 0} - {0}))"
        "heap_chain t (xs @ (a, sz + (16 + cz), True) # zs)"
      using ch Cons y by (auto intro: chain_merge [of s xs a sz True c cz cf zs])
    have "{a} \<union> ({first_addr zs 0} - {0}) \<subseteq> fst ` set (xs @ (a, sz, True) # ys)"
      using Cons by (cases zs) auto
    with t(2) have "hdr_only s t (fst ` set (xs @ (a, sz, True) # ys))" by (rule hdr_only_mono)
    then show thesis using that [of t] t h c0 Cons y True by (simp add: merge_if_free_def)
  qed
qed

lemma chain_merge_prev:
  assumes ch: "heap_chain s (xs @ (p, pz, pf) # (a, sz, True) # ys)"
  obtains t where "merge_if_free p p a s = Some t"
    and "heap_chain t (xs @ absorb (p, pz, pf) ((a, sz, True) # ys))"
    and "hdr_only s t (fst ` set (xs @ (p, pz, pf) # (a, sz, True) # ys))"
proof -
  note h = chain_here [OF ch] and p0 = chain_member(4) [OF ch, of p pz pf]
  show thesis
  proof (cases pf)
    case False
    then show thesis using that [of s] ch h p0 by (simp add: merge_if_free_def hdr_only_refl)
  next
    case True
    obtain t where t: "merge_blocks p a s = Some t" "hdr_only s t ({p} \<union> ({first_addr ys 0} - {0}))"
        "heap_chain t (xs @ (p, pz + (16 + sz), pf) # ys)"
      using ch by (rule chain_merge) blast
    have "{p} \<union> ({first_addr ys 0} - {0}) \<subseteq> fst ` set (xs @ (p, pz, pf) # (a, sz, True) # ys)" by (cases ys) auto
    with t(2) have "hdr_only s t (fst ` set (xs @ (p, pz, pf) # (a, sz, True) # ys))" by (rule hdr_only_mono)
    then show thesis using that [of t] t h p0 True by (simp add: merge_if_free_def)
  qed
qed

lemma absorb_head:
  obtains bz zs where "absorb (a, sz, True) ys = (a, bz, True) # zs" and "fst ` set zs \<subseteq> fst ` set ys"
  by (cases "((a, sz, True), ys)" rule: absorb.cases) auto

lemma kfree_run:
  assumes ch: "heap_chain s (xs @ (a, sz, False) # ys)"
  obtains t where "kfree (a + 16) s = Some t" and "heap_chain t (release_block xs (a, sz, False) ys)"
    and "hdr_only s t (fst ` set (xs @ (a, sz, False) # ys))"
proof -
  let ?A = "fst ` set (xs @ (a, sz, False) # ys)" and ?s1 = "put_free a 1 s"
  note h = chain_here [OF ch]
  have "unat (a + 16) = unat a + 16"
    using unat_add_less [of a 16] h(3,5) unat_u32_lt [of "heap_end s"] by simp
  then have a16: "a + 16 \<noteq> 0" by auto
  have A: "fst ` set (xs @ (a, sz, True) # ys) = ?A" by simp
  have ch1: "heap_chain ?s1 (xs @ (a, sz, True) # ys)" and only1: "hdr_only s ?s1 ?A"
    using chain_put_free [OF ch, of True 1] hdr_only_mono [of s ?s1 "{a}" ?A] by auto
  note h1 = chain_here [OF ch1]
  obtain s2 where s2: "merge_if_free (first_addr ys 0) a (first_addr ys 0) ?s1 = Some s2"
    "heap_chain s2 (xs @ absorb (a, sz, True) ys)" "hdr_only ?s1 s2 ?A"
    using ch1 unfolding A [symmetric] by (rule chain_merge_next) blast
  obtain bz zs where ab: "absorb (a, sz, True) ys = (a, bz, True) # zs" "fst ` set zs \<subseteq> fst ` set ys"
    by (rule absorb_head)
  note h2 = chain_here [OF s2(2) [unfolded ab(1)]]
  have run: "kfree (a + 16) s = merge_if_free (last_addr xs 0) (last_addr xs 0) a s2"
    using a16 h h1 s2(1) h2 by (simp add: kfree_def Let_def)
  have only2: "hdr_only s s2 ?A" using only1 s2(3) by (rule hdr_only_trans)
  show thesis
  proof (cases xs rule: rev_cases)
    case Nil
    then show thesis using that [of s2] run s2(2) only2 by (simp add: merge_if_free_def)
  next
    case (snoc ps q)
    obtain p pz pf where q: "q = (p, pz, pf)" by (cases q)
    have "heap_chain s2 (ps @ (p, pz, pf) # (a, bz, True) # zs)" using s2(2) snoc q ab(1) by simp
    then obtain t where t: "merge_if_free p p a s2 = Some t"
      "heap_chain t (ps @ absorb (p, pz, pf) ((a, bz, True) # zs))"
      "hdr_only s2 t (fst ` set (ps @ (p, pz, pf) # (a, bz, True) # zs))"
      by (rule chain_merge_prev) blast
    have "fst ` set (ps @ (p, pz, pf) # (a, bz, True) # zs) \<subseteq> ?A" using snoc q ab(2) by auto
    with t(3) have "hdr_only s2 t ?A" by (rule hdr_only_mono)
    with only2 have "hdr_only s t ?A" by (rule hdr_only_trans)
    then show thesis using that [of t] t run snoc q ab(1) by (simp add: release_block_snoc)
  qed
qed

section \<open>The contract of the allocator\<close>

definition allocated :: "block list \<Rightarrow> (u32 \<times> u32) set" where
  "allocated bs = {(a, sz). (a, sz, False) \<in> set bs}"

text \<open>First fit on the list of blocks.\<close>

fun first_fit :: "u32 \<Rightarrow> block list \<Rightarrow> (u32 \<times> block list) option" where
  "first_fit k [] = None"
| "first_fit k ((a, sz, fr) # bs) =
     (if fr \<and> k \<le> sz then Some (a + 16, place a sz k @ bs)
      else map_option (\<lambda>(p, bs'). (p, (a, sz, fr) # bs')) (first_fit k bs))"

lemma first_fit_Some:
  assumes "first_fit k bs = Some (p, bs')"
  obtains xs a sz ys where "bs = xs @ (a, sz, True) # ys" and "k \<le> sz" and "p = a + 16" and "bs' = xs @ place a sz k @ ys"
    and "\<And>b bz bf. (b, bz, bf) \<in> set xs \<Longrightarrow> \<not> (bf \<and> k \<le> bz)"
proof -
  have "\<exists>xs a sz ys. bs = xs @ (a, sz, True) # ys \<and> k \<le> sz \<and> p = a + 16 \<and> bs' = xs @ place a sz k @ ys \<and>
      (\<forall>(b, bz, bf) \<in> set xs. \<not> (bf \<and> k \<le> bz))"
    using assms
  proof (induction k bs arbitrary: bs' rule: first_fit.induct)
    case (2 k a sz fr bs)
    show ?case
    proof (cases "fr \<and> k \<le> sz")
      case True
      with 2 show ?thesis by (intro exI [of _ "[]"]) auto
    next
      case False
      then obtain bs1 where "first_fit k bs = Some (p, bs1)" "bs' = (a, sz, fr) # bs1" using 2 by auto
      with 2(1) [OF False] obtain xs b bz ys where "bs = xs @ (b, bz, True) # ys \<and> k \<le> bz \<and> p = b + 16 \<and>
          bs1 = xs @ place b bz k @ ys \<and> (\<forall>(b, bz, bf) \<in> set xs. \<not> (bf \<and> k \<le> bz))" by blast
      with False \<open>bs' = _\<close> show ?thesis
        by (intro exI [of _ "(a, sz, fr) # xs"] exI [of _ b] exI [of _ bz] exI [of _ ys]) auto
    qed
  qed simp
  then show thesis by (elim exE conjE) (rule that, auto)
qed

lemma first_fit_None: "first_fit k bs = None \<Longrightarrow> (b, bz, bf) \<in> set bs \<Longrightarrow> \<not> (bf \<and> k \<le> bz)"
  by (induction k bs rule: first_fit.induct) (auto split: if_splits)

lemma no_adjacent_place:
  "no_adjacent_free (xs @ (a, sz, True) # ys) \<Longrightarrow> no_adjacent_free (xs @ place a sz k @ ys)"
  by (cases ys; auto simp: no_adjacent_free_def place_def successively_append_iff)

lemma no_adjacent_grow: "no_adjacent_free bs \<Longrightarrow> no_adjacent_free (bs @ place a sz k)"
  by (auto simp: no_adjacent_free_def place_def successively_append_iff)

lemma no_adjacent_release:
  assumes "no_adjacent_free (xs @ (a, sz, False) # ys)"
  shows "no_adjacent_free (release_block xs (a, sz, False) ys)"
proof -
  have ab: "no_adjacent_free (absorb (a, sz, True) ys)"
    using assms by (cases "((a, sz, True), ys)" rule: absorb.cases)
      (auto simp: no_adjacent_free_def successively_append_iff successively_Cons)
  show ?thesis
  proof (cases xs rule: rev_cases)
    case Nil
    with ab show ?thesis by simp
  next
    case (snoc ps q)
    obtain bz zs where "absorb (a, sz, True) ys = (a, bz, True) # zs" by (rule absorb_head)
    moreover obtain p pz pf where "q = (p, pz, pf)" by (cases q)
    ultimately show ?thesis using assms ab snoc unfolding release_block_snoc
      by (cases pf) (auto simp: release_block_snoc no_adjacent_free_def successively_append_iff successively_Cons)
  qed
qed

lemma allocated_append: "allocated (xs @ ys) = allocated xs \<union> allocated ys"
  by (auto simp: allocated_def)

lemma allocated_Cons: "allocated ((a, sz, fr) # ys) = (if fr then {} else {(a, sz)}) \<union> allocated ys" "allocated [] = {}"
  by (auto simp: allocated_def)

lemma allocated_absorb: "allocated (absorb b ys) = allocated (b # ys)"
  by (cases "(b, ys)" rule: absorb.cases) (auto simp: allocated_def)

lemma allocated_release: "allocated (release_block xs (a, sz, fr) ys) = allocated xs \<union> allocated ys"
proof (cases xs rule: rev_cases)
  case (snoc ps q)
  obtain p pz pf where "q = (p, pz, pf)" by (cases q)
  with snoc show ?thesis
    by (auto simp: release_block_snoc allocated_append allocated_absorb allocated_Cons)
qed (simp add: allocated_absorb allocated_Cons)

text \<open>The block a successful request gets, and its place among the other allocated blocks.\<close>

definition served :: "block list \<Rightarrow> block list \<Rightarrow> u32 \<Rightarrow> u32 \<Rightarrow> bool" where
  "served bs bs' n p \<longleftrightarrow> (\<exists>sz. unat n \<le> unat sz \<and> 8 dvd unat p \<and> allocated bs' = insert (p - 16, sz) (allocated bs) \<and>
     (\<forall>(a, az) \<in> allocated bs. unat a + 16 + unat az \<le> unat p - 16 \<or> unat p + unat sz \<le> unat a))"

lemma place_head: "\<exists>sz' zs. place a sz k = (a, sz', False) # zs \<and> (k \<le> sz \<longrightarrow> k \<le> sz') \<and> allocated zs = {}"
  by (auto simp: place_def allocated_def)

lemma served_place:
  assumes ch: "heap_chain t (xs @ place a sz k @ ys)" and k: "k \<le> sz" "unat n \<le> unat k"
    and al: "allocated bs = allocated (xs @ ys)"
  shows "served bs (xs @ place a sz k @ ys) n (a + 16)" and "a + 16 \<noteq> 0"
proof -
  obtain sz' zs where p: "place a sz k = (a, sz', False) # zs" "k \<le> sz'" "allocated zs = {}"
    using place_head k(1) by blast
  have ch': "heap_chain t (xs @ (a, sz', False) # (zs @ ys))" using ch p by simp
  note h = chain_here [OF ch']
  have u: "unat (a + 16) = unat a + 16" using unat_add_less [of a 16] h(3,5) unat_u32_lt [of "heap_end t"] by simp
  then show "a + 16 \<noteq> 0" by auto
  have "unat b + 16 + unat bz \<le> unat a \<or> unat a + 16 + unat sz' \<le> unat b" if "(b, bz) \<in> allocated (xs @ ys)" for b bz
    using that chain_order [OF ch', of b bz False] by (auto simp: allocated_def)
  moreover have "8 dvd unat a + 16" using h(2) by (auto simp: in_hdr_def)
  moreover have "unat k \<le> unat sz'" using p(2) by (simp add: word_le_nat_alt)
  moreover have "allocated (xs @ place a sz k @ ys) = insert (a, sz') (allocated (xs @ ys))"
    using p by (auto simp: allocated_append allocated_Cons)
  ultimately show "served bs (xs @ place a sz k @ ys) n (a + 16)"
    using k(2) unfolding served_def al u by (intro exI [of _ sz']) auto
qed

text \<open>The data of the blocks allocated before are the same afterwards.\<close>

definition same_contents :: "'a heap_state_scheme \<Rightarrow> 'a heap_state_scheme \<Rightarrow> (u32 \<times> u32) set \<Rightarrow> bool" where
  "same_contents s t A \<longleftrightarrow>
     (\<forall>(a, sz) \<in> A. \<forall>x. unat a + 16 \<le> unat x \<longrightarrow> unat x < unat a + 16 + unat sz \<longrightarrow> view t x = view s x)"

lemma keeps_contents: "keeps_data s t bs \<Longrightarrow> A \<subseteq> allocated bs \<Longrightarrow> same_contents s t A"
  unfolding keeps_data_def allocated_def same_contents_def by fastforce

lemma kmalloc_served:
  assumes inv: "heap_inv s bs" and n: "n \<noteq> 0" "unat n + 7 < 4294967296"
    and ff: "first_fit ((n + 7) AND NOT 7) bs = Some (p, bs')"
  obtains t where "kmalloc n s = Some (p, t)" and "heap_inv t bs'" and "cr3 t = cr3 s" and "same_contents s t (allocated bs)"
    and "p \<noteq> 0" and "served bs bs' n p" and "heap_end t = heap_end s" and "pmm t = pmm s"
proof -
  let ?k = "(n + 7) AND NOT 7"
  obtain xs a sz ys where bs: "bs = xs @ (a, sz, True) # ys" "?k \<le> sz" "p = a + 16" "bs' = xs @ place a sz ?k @ ys"
    "\<And>b bz bf. (b, bz, bf) \<in> set xs \<Longrightarrow> \<not> (bf \<and> ?k \<le> bz)"
    using ff by (rule first_fit_Some) blast
  have ch: "heap_chain s (xs @ (a, sz, True) # ys)" using inv bs(1) by (simp add: heap_inv_def)
  obtain t where t: "kmalloc n s = Some (a + 16, t)" "heap_chain t bs'" "keeps_data s t (xs @ ys)" "cr3 t = cr3 s"
    "heap_end t = heap_end s" "pmm t = pmm s"
    using ch n refl bs(2,5) unfolding bs(4) by (rule kmalloc_fit) blast
  have eq: "allocated bs = allocated (xs @ ys)" by (simp add: bs(1) allocated_append allocated_Cons)
  have "served bs bs' n p" "p \<noteq> 0"
    using served_place [OF t(2) [unfolded bs(4)] bs(2) align8(2) [OF n(2)] eq] by (simp_all add: bs(3,4))
  moreover have "heap_inv t bs'" using t(2) inv no_adjacent_place unfolding bs(1,4) by (simp add: heap_inv_def)
  moreover have "same_contents s t (allocated bs)" using keeps_contents [OF t(3)] eq by simp
  ultimately show thesis using that t bs(3) by blast
qed

text \<open>
  C21: \<open>kmalloc\<close> implements first fit. When some free block is large enough, \<open>kmalloc\<close>
  terminates without a page fault, returns the data address that first fit on the list of blocks
  chooses, and leaves exactly the list of blocks that first fit leaves, with the remainder split off.
\<close>

theorem kmalloc_refines_first_fit:
  assumes "heap_inv s bs" and "n \<noteq> 0" and "unat n + 7 < 2 ^ 32" and "first_fit ((n + 7) AND NOT 7) bs = Some (p, bs')"
  shows "\<exists>t. kmalloc n s = Some (p, t) \<and> heap_inv t bs' \<and> heap_end t = heap_end s \<and> pmm t = pmm s"
proof -
  have "unat n + 7 < 4294967296" using assms(3) by simp
  from assms(1,2) this assms(4) show ?thesis by (rule kmalloc_served) blast
qed

lemma kmalloc_unfit:
  assumes inv: "heap_inv s bs" and n: "n \<noteq> 0" "unat (heap_end s) + unat n + 0x2007 < 4294967296"
    and ff: "first_fit ((n + 7) AND NOT 7) bs = None"
  obtains (full) t where "kmalloc n s = Some (0, t)" "heap_inv t bs" "cr3 t = cr3 s" "same_contents s t (allocated bs)"
      "\<And>a sz. (a, sz, True) \<in> set bs \<Longrightarrow> unat sz < unat n"
    | (grown) p t bs' where "kmalloc n s = Some (p, t)" "heap_inv t bs'" "cr3 t = cr3 s" "same_contents s t (allocated bs)"
      "p \<noteq> 0" "served bs bs' n p"
proof -
  let ?k = "(n + 7) AND NOT 7"
  have n7: "unat n + 7 < 4294967296" using n(2) by simp
  note al = align8 [OF n7] and none = first_fit_None [OF ff]
  have ch: "heap_chain s bs" and na: "no_adjacent_free bs" using inv by (simp_all add: heap_inv_def)
  from ch n refl none show thesis
  proof (rule kmalloc_grow)
    fix t assume t: "kmalloc n s = Some (0, t)" "heap_chain t bs" "keeps_data s t bs" "cr3 t = cr3 s"
    have "unat sz < unat n" if "(a, sz, True) \<in> set bs" for a sz
    proof -
      have "unat sz < unat ?k" "8 dvd unat sz" using none [OF that] chain_member(3) [OF ch that] by (simp_all add: word_le_nat_alt)
      with al show ?thesis by (auto elim!: dvdE)
    qed
    with t na show thesis using full keeps_contents [OF t(3)] by (simp add: heap_inv_def)
  next
    let ?bs = "bs @ place (heap_end s) (heap_pages ?k * KMALLOC_PAGE - 16) ?k"
    fix t assume t: "kmalloc n s = Some (heap_end s + 16, t)" "keeps_data s t bs" "cr3 t = cr3 s" "heap_chain t ?bs"
      "?k \<le> heap_pages ?k * KMALLOC_PAGE - 16"
    have "served bs ?bs n (heap_end s + 16)" "heap_end s + 16 \<noteq> 0"
      using served_place [of t bs "heap_end s" _ ?k "[]"] t(4,5) al(2) by simp_all
    moreover have "heap_inv t ?bs" using t(4) na no_adjacent_grow by (simp add: heap_inv_def)
    ultimately show thesis using grown t keeps_contents [OF t(2)] by simp
  qed
qed

lemma kmalloc_outcome:
  assumes "heap_inv s bs" and "n \<noteq> 0" and "unat (heap_end s) + unat n + 0x2007 < 2 ^ 32"
  shows "\<exists>p t bs'. kmalloc n s = Some (p, t) \<and> heap_inv t bs' \<and> cr3 t = cr3 s \<and> same_contents s t (allocated bs) \<and>
           (if p = 0 then bs' = bs \<and> (\<forall>(a, sz, fr) \<in> set bs. fr \<longrightarrow> unat sz < unat n) else served bs bs' n p)"
proof (cases "first_fit ((n + 7) AND NOT 7) bs")
  case None
  from assms(3) have "unat (heap_end s) + unat n + 0x2007 < 4294967296" by simp
  from assms(1,2) this None show ?thesis
  proof (cases rule: kmalloc_unfit)
    case (full t)
    then show ?thesis by (intro exI [of _ 0] exI [of _ t] exI [of _ bs]) auto
  next
    case (grown p t bs')
    then show ?thesis by (intro exI [of _ p] exI [of _ t] exI [of _ bs']) simp
  qed
next
  case (Some r)
  obtain p bs' where r: "first_fit ((n + 7) AND NOT 7) bs = Some (p, bs')" using Some by (cases r) auto
  have "unat n + 7 < 4294967296" using assms(3) by simp
  from assms(1,2) this r obtain t where "kmalloc n s = Some (p, t)" "heap_inv t bs'" "cr3 t = cr3 s"
    "same_contents s t (allocated bs)" "p \<noteq> 0" "served bs bs' n p"
    by (rule kmalloc_served) blast
  then show ?thesis by (intro exI [of _ p] exI [of _ t] exI [of _ bs']) simp
qed

lemma tiles_place_end: "tiles x (place a sz k) e \<Longrightarrow> k \<le> sz \<Longrightarrow> e = x + 16 + unat sz"
proof (cases "sz - k \<le> 32")
  case False
  assume "tiles x (place a sz k) e" and k: "k \<le> sz"
  then have e: "e = x + 16 + unat k + 16 + unat (sz - k - 16)" using False by (simp add: place_def)
  have "unat (sz - k) = unat sz - unat k" using k by (rule unat_sub)
  moreover have "32 < unat (sz - k)" using False by (simp add: word_le_nat_alt)
  moreover from this have "16 \<le> sz - k" by (simp add: word_le_nat_alt)
  then have "unat (sz - k - 16) = unat (sz - k) - 16" using unat_sub [of 16 "sz - k"] by simp
  ultimately show ?thesis using e by simp
qed (simp add: place_def)

text \<open>The heap grows by at most the request and two pages.\<close>

lemma kmalloc_heap_end:
  assumes inv: "heap_inv s bs" and n: "n \<noteq> 0" "unat (heap_end s) + unat n + 0x2007 < 2 ^ 32" and run: "kmalloc n s = Some (p, t)"
  shows "unat (heap_end t) \<le> unat (heap_end s) + unat n + 0x2007"
proof (cases "first_fit ((n + 7) AND NOT 7) bs")
  case (Some r)
  obtain q bs' where r: "first_fit ((n + 7) AND NOT 7) bs = Some (q, bs')" using Some by (cases r) auto
  have "unat n + 7 < 4294967296" using n(2) by simp
  from kmalloc_served [OF inv n(1) this r] obtain t' where "kmalloc n s = Some (q, t')" "heap_end t' = heap_end s" by blast
  then show ?thesis using run by simp
next
  case None
  let ?k = "(n + 7) AND NOT 7"
  have n': "unat (heap_end s) + unat n + 0x2007 < 4294967296" using n(2) by simp
  have n7: "unat n + 7 < 4294967296" using n' by simp
  note al = align8 [OF n7]
  have ch: "heap_chain s bs" using inv by (simp add: heap_inv_def)
  have room: "unat (heap_end s) + unat ?k + 0x2000 < 4294967296" using al(3) n' by simp
  note hp = heap_pages_bounds [OF room]
  from ch n(1) n' refl first_fit_None [OF None] show ?thesis
  proof (rule kmalloc_grow)
    fix t' assume "kmalloc n s = Some (0, t')" "heap_end t' = heap_end s"
    then show ?thesis using run by simp
  next
    fix t' assume ok: "kmalloc n s = Some (heap_end s + 16, t')"
      "heap_chain t' (bs @ place (heap_end s) (heap_pages ?k * KMALLOC_PAGE - 16) ?k)" "?k \<le> heap_pages ?k * KMALLOC_PAGE - 16"
    then obtain m where m: "tiles KH bs m" "tiles m (place (heap_end s) (heap_pages ?k * KMALLOC_PAGE - 16) ?k) (unat (heap_end t'))"
      unfolding heap_chain_def tiles_append by blast
    have "m = unat (heap_end s)" using m(2) by (simp add: place_def split: if_splits)
    then have "unat (heap_end t') = unat (heap_end s) + 16 + (unat (heap_pages ?k) * 4096 - 16)"
      using tiles_place_end [OF m(2) ok(3)] hp(4) by simp
    then show ?thesis using run ok(1) hp(3) al(3) by simp
  qed
qed

text \<open>
  C1: a request that cannot wrap around ends without a page fault and keeps the heap well formed.
  Either it returns \<open>NULL\<close>, no free block was large enough, and the list of blocks is as before; or
  it returns an address that is a multiple of 8, of a block of at least \<open>n\<close> bytes that overlaps no
  block allocated before, and the other allocated blocks are the same. In both cases the contents of all
  blocks allocated before are unchanged.
\<close>

theorem kmalloc_correct:
  assumes "heap_inv s bs" and "n \<noteq> 0" and "unat (heap_end s) + unat n + 0x2007 < 2 ^ 32"
  shows "\<exists>p t bs'. kmalloc n s = Some (p, t) \<and> heap_inv t bs' \<and> cr3 t = cr3 s \<and> same_contents s t (allocated bs) \<and>
           (if p = 0 then bs' = bs \<and> (\<forall>(a, sz, fr) \<in> set bs. fr \<longrightarrow> unat sz < unat n) else served bs bs' n p)"
  using assms by (rule kmalloc_outcome)

lemma allocated_split:
  assumes "heap_chain s bs" and "(a, sz) \<in> allocated bs"
  obtains xs ys where "bs = xs @ (a, sz, False) # ys" and "allocated bs - {(a, sz)} = allocated xs \<union> allocated ys"
proof -
  obtain xs ys where bs: "bs = xs @ (a, sz, False) # ys"
    using assms(2) split_list [of "(a, sz, False)" bs] by (auto simp: allocated_def)
  have "(a, z, f) \<notin> set xs" "(a, z, f) \<notin> set ys" for z f
    using chain_order [OF assms(1) [unfolded bs], of a z f] chain_here(5) [OF assms(1) [unfolded bs]] by auto
  then have "allocated bs - {(a, sz)} = allocated xs \<union> allocated ys"
    by (auto simp: bs allocated_def)
  with bs that show thesis by blast
qed

lemma kfree_outcome:
  assumes inv: "heap_inv s bs" and a: "(a, sz) \<in> allocated bs"
  obtains xs ys t where "bs = xs @ (a, sz, False) # ys" and "kfree (a + 16) s = Some t"
    and "heap_inv t (release_block xs (a, sz, False) ys)"
    and "allocated (release_block xs (a, sz, False) ys) = allocated bs - {(a, sz)}"
    and "heap_end t = heap_end s" and "cr3 t = cr3 s" and "pmm t = pmm s" and "same_contents s t (allocated bs)"
proof -
  have ch: "heap_chain s bs" using inv by (simp add: heap_inv_def)
  from ch a obtain xs ys where bs: "bs = xs @ (a, sz, False) # ys" "allocated bs - {(a, sz)} = allocated xs \<union> allocated ys"
    by (rule allocated_split)
  obtain t where t: "kfree (a + 16) s = Some t" "heap_chain t (release_block xs (a, sz, False) ys)"
    "hdr_only s t (fst ` set bs)"
    using ch unfolding bs(1) by (rule kfree_run) blast
  moreover have "heap_inv t (release_block xs (a, sz, False) ys)"
    using t(2) inv no_adjacent_release bs(1) by (simp add: heap_inv_def)
  moreover have "same_contents s t (allocated bs)" using keeps_contents [OF keeps_data_hdrs [OF ch t(3)]] by simp
  ultimately show thesis using that [OF bs(1) t(1)] bs(2) by (simp add: allocated_release hdr_only_def)
qed

text \<open>
  C8: \<open>kfree\<close> of an allocated block ends without a page fault. The block is free afterwards and merged
  with its free neighbours, so that again no two neighbouring blocks are free; every other block stays
  allocated with its contents, and the heap keeps its extent.
\<close>

theorem kfree_correct:
  assumes "heap_inv s bs" and "(a, sz) \<in> allocated bs"
  shows "\<exists>t bs'. kfree (a + 16) s = Some t \<and> heap_inv t bs' \<and> allocated bs' = allocated bs - {(a, sz)} \<and>
           same_contents s t (allocated bs) \<and> heap_end t = heap_end s \<and> pmm t = pmm s"
  using assms by (rule kfree_outcome) blast

lemma release_place:
  assumes "no_adjacent_free (xs @ (a, sz, True) # ys)" and "k \<le> sz"
  shows "\<exists>sz' zs. xs @ place a sz k @ ys = xs @ (a, sz', False) # zs \<and>
           release_block xs (a, sz', False) zs = xs @ (a, sz, True) # ys"
proof -
  have nf: "\<not> (\<exists>c cz zs. ys = (c, cz, True) # zs)" "\<not> (\<exists>ps p pz. xs = ps @ [(p, pz, True)])"
    using assms(1) by (auto simp: no_adjacent_free_def successively_append_iff)
  have ab: "absorb (a, sz, True) ys = (a, sz, True) # ys" using nf(1) by (cases "((a, sz, True), ys)" rule: absorb.cases) auto
  have rel: "release_block xs (a, z, False) zs = xs @ (a, sz, True) # ys"
    if "absorb (a, z, True) zs = (a, sz, True) # ys" for z zs
  proof (cases xs rule: rev_cases)
    case (snoc ps q)
    obtain p pz pf where "q = (p, pz, pf)" by (cases q)
    with that snoc nf(2) show ?thesis by (cases pf) (auto simp: release_block_snoc)
  qed (simp add: that)
  show ?thesis
  proof (cases "sz - k \<le> 32")
    case True
    with rel [OF ab] show ?thesis by (auto simp: place_def)
  next
    case False
    have "k + (16 + (sz - k - 16)) = sz" by simp
    then have "absorb (a, k, True) ((a + 16 + k, sz - k - 16, True) # ys) = (a, sz, True) # ys" by simp
    from rel [OF this] False show ?thesis by (auto simp: place_def)
  qed
qed

text \<open>
  releasing a block right after it was served from an existing free block restores the list of
  blocks exactly: the remainder that was split off is merged back.
\<close>

theorem kmalloc_kfree_roundtrip:
  assumes "heap_inv s bs" and "n \<noteq> 0" and "unat n + 7 < 2 ^ 32" and "first_fit ((n + 7) AND NOT 7) bs = Some (p, bs')"
  shows "\<exists>t u. kmalloc n s = Some (p, t) \<and> kfree p t = Some u \<and> heap_inv u bs"
proof -
  let ?k = "(n + 7) AND NOT 7"
  obtain xs a sz ys where bs: "bs = xs @ (a, sz, True) # ys" "?k \<le> sz" "p = a + 16" "bs' = xs @ place a sz ?k @ ys"
    using assms(4) by (rule first_fit_Some) blast
  have na: "no_adjacent_free bs" using assms(1) by (simp add: heap_inv_def)
  obtain sz' zs where r: "bs' = xs @ (a, sz', False) # zs" "release_block xs (a, sz', False) zs = bs"
    using release_place [OF na [unfolded bs(1)] bs(2)] bs(1,4) by metis
  have n7: "unat n + 7 < 4294967296" using assms(3) by simp
  obtain t where t: "kmalloc n s = Some (p, t)" "heap_inv t bs'"
    using assms(1,2) n7 assms(4) by (rule kmalloc_served) blast
  have "heap_chain t (xs @ (a, sz', False) # zs)" using t(2) r(1) by (simp add: heap_inv_def)
  then obtain u where "kfree (a + 16) t = Some u" "heap_chain u bs" unfolding r(2) [symmetric] by (rule kfree_run) blast
  with t na bs(3) show ?thesis by (auto simp: heap_inv_def)
qed

section \<open>Moving a block\<close>

lemma unat_range:
  fixes d :: u32
  assumes "unat d + n \<le> 4294967296" and "i < n"
  shows "unat (d + of_nat i) = unat d + i"
  by (rule unat_add_less) (use assms in simp)

text \<open>A loop that stores a byte at each address of a range.\<close>

lemma store_run:
  assumes win: "window s lo hi" and hi: "hi \<le> 4294967296" and dst: "lo \<le> unat dst" "unat dst + n \<le> hi"
  obtains t where "for_opt 0 n (\<lambda>i. vstore8 (dst + of_nat i) (f i)) s = Some t" and "vm_only s t" and "pmm t = pmm s" and "window t lo hi"
    and "\<And>i. i < n \<Longrightarrow> view t (dst + of_nat i) = f i"
    and "\<And>x. lo \<le> unat x \<Longrightarrow> unat x < hi \<Longrightarrow> unat x < unat dst \<or> unat dst + n \<le> unat x \<Longrightarrow> view t x = view s x"
proof -
  let ?I = "\<lambda>k t. vm_only s t \<and> pmm t = pmm s \<and> window t lo hi \<and> (\<forall>i < k. view t (dst + of_nat i) = f i) \<and>
     (\<forall>x. lo \<le> unat x \<longrightarrow> unat x < hi \<longrightarrow> unat x < unat dst \<or> unat dst + k \<le> unat x \<longrightarrow> view t x = view s x)"
  have u: "unat (dst + of_nat i) = unat dst + i" if "i < n" for i
    using that hi dst by (auto intro!: unat_range [of _ n])
  have "\<exists>t. for_opt 0 n (\<lambda>i. vstore8 (dst + of_nat i) (f i)) s = Some t \<and> ?I n t"
  proof (rule for_opt_invariant [where I = ?I])
    fix k t assume k: "k < n" and I: "?I k t"
    let ?d = "dst + of_nat k"
    have d: "lo \<le> unat ?d" "unat ?d < hi" using u [OF k] dst k by simp_all
    have w: "window t lo hi" using I by blast
    obtain p where p: "phys_addr t ?d = Some p" using windowD [OF w d] by blast
    let ?t = "t\<lparr>mem := (mem t)(p := f k)\<rparr>"
    note ws = window_store [OF w d p refl]
    have "?I (Suc k) ?t"
    proof (intro conjI allI impI)
      show "vm_only s ?t" "pmm ?t = pmm s" "window ?t lo hi" using I ws(1) by simp_all
      fix i assume i: "i < Suc k"
      then have ui: "unat (dst + of_nat i) = unat dst + i" using u k by simp
      have "lo \<le> unat (dst + of_nat i)" "unat (dst + of_nat i) < hi" unfolding ui using dst k i by simp_all
      moreover have "dst + of_nat i = ?d \<longleftrightarrow> i = k" using ui u [OF k] by (metis add_left_cancel)
      ultimately show "view ?t (dst + of_nat i) = f i" using ws(3) I i by (auto simp: less_Suc_eq)
    next
      fix x :: u32 assume x: "lo \<le> unat x" "unat x < hi" "unat x < unat dst \<or> unat dst + Suc k \<le> unat x"
      then have "x \<noteq> ?d" using u [OF k] by auto
      with ws(3) [OF x(1,2)] I x show "view ?t x = view s x" by auto
    qed
    then show "\<exists>t'. vstore8 ?d (f k) t = Some t' \<and> ?I (Suc k) t'" using p by (auto simp: vstore8_def)
  qed (use win in simp_all)
  with that show thesis by blast
qed

lemma vmemcpy_run:
  assumes win: "window s lo hi" and hi: "hi \<le> 4294967296" and dst: "lo \<le> unat dst" "unat dst + unat len \<le> hi"
    and src: "lo \<le> unat src" "unat src + unat len \<le> hi"
    and dj: "unat dst + unat len \<le> unat src \<or> unat src + unat len \<le> unat dst"
  obtains t where "vmemcpy dst src len s = Some t" and "vm_only s t" and "pmm t = pmm s" and "window t lo hi"
    and "\<And>i. i < unat len \<Longrightarrow> view t (dst + of_nat i) = view s (src + of_nat i)"
    and "\<And>x. lo \<le> unat x \<Longrightarrow> unat x < hi \<Longrightarrow> unat x < unat dst \<or> unat dst + unat len \<le> unat x \<Longrightarrow> view t x = view s x"
proof -
  let ?I = "\<lambda>k t. vm_only s t \<and> pmm t = pmm s \<and> window t lo hi \<and>
     (\<forall>i < k. view t (dst + of_nat i) = view s (src + of_nat i)) \<and>
     (\<forall>x. lo \<le> unat x \<longrightarrow> unat x < hi \<longrightarrow> unat x < unat dst \<or> unat dst + k \<le> unat x \<longrightarrow> view t x = view s x)"
  have u: "unat (dst + of_nat i) = unat dst + i" "unat (src + of_nat i) = unat src + i" if "i < unat len" for i
    using that hi dst src by (auto intro!: unat_range [of _ "unat len"])
  have "\<exists>t. vmemcpy dst src len s = Some t \<and> ?I (unat len) t"
    unfolding vmemcpy_def
  proof (rule for_opt_invariant [where I = ?I])
    fix k t assume k: "k < unat len" and I: "?I k t"
    let ?d = "dst + of_nat k" and ?s = "src + of_nat k"
    have d: "lo \<le> unat ?d" "unat ?d < hi" and s: "lo \<le> unat ?s" "unat ?s < hi" using u [OF k] dst src k by simp_all
    have w: "window t lo hi" using I by blast
    have ld: "vload8 ?s t = Some (view s ?s)"
      using vload8_view [OF w s] I s u(2) [OF k] dj k by auto
    obtain p where p: "phys_addr t ?d = Some p" using windowD [OF w d] by blast
    let ?t = "t\<lparr>mem := (mem t)(p := view s ?s)\<rparr>"
    note ws = window_store [OF w d p refl]
    have "?I (Suc k) ?t"
    proof (intro conjI allI impI)
      show "vm_only s ?t" "pmm ?t = pmm s" "window ?t lo hi" using I ws(1) by simp_all
      fix i assume i: "i < Suc k"
      then have ui: "unat (dst + of_nat i) = unat dst + i" using u k by simp
      have "lo \<le> unat (dst + of_nat i)" "unat (dst + of_nat i) < hi" unfolding ui using dst k i by simp_all
      from ws(3) [OF this] show "view ?t (dst + of_nat i) = view s (src + of_nat i)"
        using I i ui u(1) [OF k] by (cases "i = k") (auto simp: less_Suc_eq)
    next
      fix x :: u32 assume x: "lo \<le> unat x" "unat x < hi" "unat x < unat dst \<or> unat dst + Suc k \<le> unat x"
      then have "x \<noteq> ?d" using u(1) [OF k] by auto
      with ws(3) [OF x(1,2)] I x show "view ?t x = view s x" by auto
    qed
    moreover have "(do { b \<leftarrow> vload8 ?s t; vstore8 ?d b t }) = Some ?t" using ld p by (simp add: vstore8_def)
    ultimately show "\<exists>t'. (do { b \<leftarrow> vload8 ?s t; vstore8 ?d b t }) = Some t' \<and> ?I (Suc k) t'" by blast
  qed (use win in simp_all)
  with that show thesis by blast
qed

lemma tiles_unique: "tiles x bs e \<Longrightarrow> (b, bz, bf) \<in> set bs \<Longrightarrow> (b, cz, cf) \<in> set bs \<Longrightarrow> bz = cz \<and> bf = cf"
proof (induction x bs e rule: tiles.induct)
  case (2 x a sz fr bs e)
  then have t: "tiles (x + 16 + unat sz) bs e" "unat a = x" by simp_all
  have "(a, z, f) \<notin> set bs" for z f using tiles_member(1) [OF t(1), of a z f] t(2) by auto
  with 2 t show ?case by auto
qed simp

lemma chain_data_write:
  assumes ch: "heap_chain t bs" and c: "(c, cz, cf) \<in> set bs" and u: "vm_only t u" "window u KH (unat (heap_end t))"
    and same: "\<And>x. KH \<le> unat x \<Longrightarrow> unat x < unat (heap_end t) \<Longrightarrow> unat x < unat c + 16 \<or> unat c + 16 + unat cz \<le> unat x \<Longrightarrow>
                 view u x = view t x"
  shows "heap_chain u bs" and "same_contents t u (allocated bs - {(c, cz)})"
proof -
  note v = vm_only_heap [OF u(1)]
  have dj: "unat c \<le> unat b \<or> unat b + 16 + unat bz \<le> unat c" "unat b \<le> unat c \<or> unat c + 16 + unat cz \<le> unat b"
    if "(b, bz, bf) \<in> set bs" for b bz bf
    using ch tiles_disjoint [OF _ that c] tiles_disjoint [OF _ c that] unfolding heap_chain_def by blast+
  have "hdr u b = hdr t b" if b: "(b, bz, bf) \<in> set bs" for b bz bf
  proof (rule hdr_cong)
    fix k :: nat assume k: "k < 16"
    have ib: "in_hdr t b" using chain_member(1) [OF ch b] .
    have "KH \<le> unat (b + of_nat k)" "unat (b + of_nat k) < unat (heap_end t)"
      "unat (b + of_nat k) < unat c + 16 \<or> unat c + 16 + unat cz \<le> unat (b + of_nat k)"
      using ib dj(2) [OF b] k unfolding in_hdr_offset [OF ib k] in_hdr_def by auto
    then show "view u (b + of_nat k) = view t (b + of_nat k)" by (rule same)
  qed
  then have "seg u 0 bs 0 = seg t 0 bs 0" by (intro seg_cong) blast
  with ch v u(2) show "heap_chain u bs" by (simp add: heap_chain_def heap_win_def)
  have "view u x = view t x" if b: "(b, bz) \<in> allocated bs" "(b, bz) \<noteq> (c, cz)"
    and x: "unat b + 16 \<le> unat x" "unat x < unat b + 16 + unat bz" for b bz x
  proof -
    have b': "(b, bz, False) \<in> set bs" using b(1) by (simp add: allocated_def)
    have "tiles KH bs (unat (heap_end t))" using ch by (simp add: heap_chain_def)
    then have "b \<noteq> c" using tiles_unique [OF _ b', of _ _ cz cf] b(2) c by blast
    then have "unat b \<noteq> unat c" by (simp add: word_unat_eq_iff)
    moreover have "KH \<le> unat x" "unat x < unat (heap_end t)"
      using x chain_member(1,2) [OF ch b'] by (auto simp: in_hdr_def)
    ultimately show ?thesis using x dj [OF b'] by (intro same) auto
  qed
  then show "same_contents t u (allocated bs - {(c, cz)})" unfolding same_contents_def by auto
qed

lemma same_contents_trans: "same_contents s t A \<Longrightarrow> same_contents t u B \<Longrightarrow> A \<subseteq> B \<Longrightarrow> same_contents s u A"
  unfolding same_contents_def by fastforce

lemma same_contents_mono: "same_contents s t A \<Longrightarrow> B \<subseteq> A \<Longrightarrow> same_contents s t B"
  unfolding same_contents_def by fastforce

lemma same_contents_byte:
  assumes "same_contents s t A" and "(a, sz) \<in> A" and "i < unat sz" and "unat a + 16 + unat sz \<le> 4294967296"
  shows "view t (a + 16 + of_nat i) = view s (a + 16 + of_nat i)"
proof -
  have "unat (a + of_nat (16 + i)) = unat a + (16 + i)" using assms(3,4) by (intro unat_range [of _ "16 + unat sz"]) simp_all
  then have "unat (a + 16 + of_nat i) = unat a + 16 + i" by (simp add: add.assoc)
  with assms(1-3) show ?thesis unfolding same_contents_def by auto
qed

lemma krealloc_move:
  assumes inv: "heap_inv t bs" and a: "(a, sz) \<in> allocated bs" and c: "(c, cz) \<in> allocated bs"
    and dj: "unat a + 16 + unat sz \<le> unat c \<or> unat c + 16 + unat cz \<le> unat a" and le: "unat sz \<le> unat cz"
  obtains u1 u bs' where "vmemcpy (c + 16) (a + 16) sz t = Some u1" and "kfree (a + 16) u1 = Some u" and "heap_inv u bs'"
    and "allocated bs' = allocated bs - {(a, sz)}" and "same_contents t u (allocated bs - {(c, cz)})"
    and "\<And>i. i < unat sz \<Longrightarrow> view u (c + 16 + of_nat i) = view t (a + 16 + of_nat i)"
proof -
  have ch: "heap_chain t bs" and na: "no_adjacent_free bs" using inv by (simp_all add: heap_inv_def)
  have a': "(a, sz, False) \<in> set bs" and c': "(c, cz, False) \<in> set bs" using a c by (simp_all add: allocated_def)
  note ma = chain_member [OF ch a'] and mc = chain_member [OF ch c']
  have e: "unat (heap_end t) < 4294967296" by (rule unat_u32_lt)
  have u16: "unat (a + 16) = unat a + 16" "unat (c + 16) = unat c + 16"
    using ma(2) mc(2) e unat_range [of a 17 16] unat_range [of c 17 16] by (simp_all add: in_hdr_def)
  have win: "window t KH (unat (heap_end t))" using ch by (simp add: heap_chain_def heap_win_def)
  obtain u1 where u1: "vmemcpy (c + 16) (a + 16) sz t = Some u1" "vm_only t u1" "window u1 KH (unat (heap_end t))"
    "\<And>i. i < unat sz \<Longrightarrow> view u1 (c + 16 + of_nat i) = view t (a + 16 + of_nat i)"
    "\<And>x. KH \<le> unat x \<Longrightarrow> unat x < unat (heap_end t) \<Longrightarrow> unat x < unat (c + 16) \<or> unat (c + 16) + unat sz \<le> unat x \<Longrightarrow>
       view u1 x = view t x"
    by (rule vmemcpy_run [OF win, of "c + 16" sz "a + 16"])
      (use ma mc e u16 dj le in \<open>auto simp: in_hdr_def\<close>)
  note dw = chain_data_write [OF ch c' u1(2,3)]
  have ch1: "heap_chain u1 bs" "same_contents t u1 (allocated bs - {(c, cz)})"
    by (rule dw, rule u1(5), use u16 le in auto)+
  have inv1: "heap_inv u1 bs" using ch1(1) na by (simp add: heap_inv_def)
  obtain u bs' where u: "kfree (a + 16) u1 = Some u" "heap_inv u bs'" "allocated bs' = allocated bs - {(a, sz)}"
    "same_contents u1 u (allocated bs)"
    using inv1 a by (rule kfree_outcome) blast
  have "view u (c + 16 + of_nat i) = view t (a + 16 + of_nat i)" if "i < unat sz" for i
    using same_contents_byte [OF u(4) c, of i] u1(4) [OF that] that le mc(2) e by simp
  moreover have "same_contents t u (allocated bs - {(c, cz)})"
    using same_contents_trans [OF ch1(2) u(4)] by blast
  ultimately show thesis using that u1(1) u(1-3) by blast
qed

lemma allocated_size:
  assumes "heap_inv s bs" and "(a, sz) \<in> allocated bs"
  shows "get_size a s = Some sz"
proof -
  have ch: "heap_chain s bs" using assms(1) by (simp add: heap_inv_def)
  obtain xs ys where "bs = xs @ (a, sz, False) # ys"
    using assms(2) split_list [of "(a, sz, False)" bs] by (auto simp: allocated_def)
  from chain_here [OF ch [unfolded this]] show ?thesis by simp
qed

lemma served_pointer:
  assumes "heap_inv s bs" and "(q - 16, sz, fr) \<in> set bs"
  shows "unat q = unat (q - 16) + 16"
proof -
  have ch: "heap_chain s bs" using assms(1) by (simp add: heap_inv_def)
  from chain_member(2) [OF ch assms(2)] show ?thesis
    using unat_range [of "q - 16" 17 16] unat_u32_lt [of "heap_end s"] by simp
qed

lemma krealloc_outcome:
  assumes inv: "heap_inv s bs" and a: "(a, sz) \<in> allocated bs" and n: "sz < n"
    and room: "unat (heap_end s) + unat n + 0x2007 < 2 ^ 32"
  shows "\<exists>q u bs'. krealloc (a + 16) n s = Some (q, u) \<and> heap_inv u bs' \<and> same_contents s u (allocated bs - {(a, sz)}) \<and>
     (if q = 0 then bs' = bs \<and> same_contents s u (allocated bs)
      else (\<exists>nsz. n \<le> nsz \<and> allocated bs' = insert (q - 16, nsz) (allocated bs - {(a, sz)})) \<and> q - 16 \<notin> fst ` allocated bs \<and>
           (\<forall>i < unat sz. view u (q + of_nat i) = view s (a + 16 + of_nat i)))"
proof -
  have n0: "n \<noteq> 0" using n by auto
  obtain q t bs1 where k: "kmalloc n s = Some (q, t)" "heap_inv t bs1" "same_contents s t (allocated bs)"
    "if q = 0 then bs1 = bs \<and> (\<forall>(a, sz, fr) \<in> set bs. fr \<longrightarrow> unat sz < unat n) else served bs bs1 n q"
    using kmalloc_outcome [OF inv n0 room] by (elim exE conjE) (rule that)
  have ch: "heap_chain s bs" using inv by (simp add: heap_inv_def)
  have a': "(a, sz, False) \<in> set bs" using a by (simp add: allocated_def)
  note ma = chain_member [OF ch a']
  have size: "get_size a u = Some sz" if "heap_inv u cs" "(a, sz) \<in> allocated cs" for u :: "'a heap_state_scheme" and cs
    using that allocated_size by blast
  have a16: "a + 16 \<noteq> 0" "n \<noteq> 0" "\<not> n \<le> sz"
    using ma(2) n unat_range [of a 17 16] unat_u32_lt [of "heap_end s"] by auto
  have run: "krealloc (a + 16) n s =
      (if q = 0 then Some (0, t)
       else do { len \<leftarrow> get_size a t; s2 \<leftarrow> vmemcpy q (a + 16) len t; s3 \<leftarrow> kfree (a + 16) s2; Some (q, s3) })"
    using a16 size [OF inv a] k(1) by (simp add: krealloc_def Let_def)
  show ?thesis
  proof (cases "q = 0")
    case True
    then show ?thesis using run k same_contents_mono [OF k(3)]
      by (intro exI [of _ 0] exI [of _ t] exI [of _ bs]) auto
  next
    case False
    then obtain nsz where nz: "unat n \<le> unat nsz" "allocated bs1 = insert (q - 16, nsz) (allocated bs)"
      "\<forall>(b, bz) \<in> allocated bs. unat b + 16 + unat bz \<le> unat q - 16 \<or> unat q + unat nsz \<le> unat b"
      using k(4) by (auto simp: served_def)
    have c': "(q - 16, nsz, False) \<in> set bs1" using nz(2) by (auto simp: allocated_def)
    have uq: "unat q = unat (q - 16) + 16"
      using served_pointer [OF k(2) c'] by simp
    have new: "q - 16 \<notin> fst ` allocated bs" "(q - 16, nsz) \<notin> allocated bs" using nz(3) uq by fastforce+
    have al: "(a, sz) \<in> allocated bs1" "(q - 16, nsz) \<in> allocated bs1" using nz(2) a by simp_all
    have dj: "unat a + 16 + unat sz \<le> unat (q - 16) \<or> unat (q - 16) + 16 + unat nsz \<le> unat a"
      using bspec [OF nz(3) a] uq by simp
    have le: "unat sz \<le> unat nsz" using nz(1) n by (simp add: word_less_nat_alt)
    from k(2) al dj le obtain u1 u bs' where u: "vmemcpy (q - 16 + 16) (a + 16) sz t = Some u1" "kfree (a + 16) u1 = Some u"
      "heap_inv u bs'" "allocated bs' = allocated bs1 - {(a, sz)}" "same_contents t u (allocated bs1 - {(q - 16, nsz)})"
      "\<And>i. i < unat sz \<Longrightarrow> view u (q - 16 + 16 + of_nat i) = view t (a + 16 + of_nat i)"
      by (rule krealloc_move) blast
    have "krealloc (a + 16) n s = Some (q, u)" using run False size [OF k(2)] nz(2) a u(1,2) by simp
    moreover have "allocated bs' = insert (q - 16, nsz) (allocated bs - {(a, sz)})" using u(4) nz(2) new a by auto
    moreover have "same_contents s u (allocated bs - {(a, sz)})"
      using same_contents_trans [OF same_contents_mono [OF k(3)] u(5), of "allocated bs - {(a, sz)}"] nz(2) new by auto
    moreover have "view u (q + of_nat i) = view s (a + 16 + of_nat i)" if "i < unat sz" for i
      using u(6) [OF that] same_contents_byte [OF k(3) a that] ma(2) unat_u32_lt [of "heap_end s"] by simp
    ultimately show ?thesis using u(3) False nz(1) new(1)
      by (intro exI [of _ q] exI [of _ u] exI [of _ bs']) (auto simp: word_le_nat_alt)
  qed
qed


section \<open>A heap of one page\<close>

text \<open>A machine whose heap is one page, mapped to the frame at \<open>0x102000\<close>, with a single block
  whose free flag is \<open>f\<close>.\<close>

definition sample_heap :: "u32 \<Rightarrow> heap_state" where
  "sample_heap f = entry_set 0x102000 1 f (entry_set 0x102000 0 4080 (entry_set 0x101000 0 0x102003
     (entry_set 0x100000 832 0x101003
       (vmm_state.extend sample_vm (heap_state.fields 0xD0000000 0xD0001000)))))"

lemma sample_heap_entry:
  assumes "frame A" and "unat i < 1024"
  shows "entry_get A i (sample_heap f) =
    (if A = 0x102000 \<and> i = 1 then f else if A = 0x102000 \<and> i = 0 then 4080
     else if A = 0x101000 \<and> i = 0 then 0x102003 else if A = 0x100000 \<and> i = 832 then 0x101003 else 0)"
proof -
  have fr: "frame 0x100000" "frame 0x101000" "frame 0x102000" by (simp_all add: frame_def)
  have base: "entry_get A i (vmm_state.extend sample_vm x) = 0" for x :: "unit heap_state_ext"
    by (simp add: entry_get_def sample_vm_def vmm_state.extend_def)
  show ?thesis unfolding sample_heap_def by (simp add: entry_get_set assms fr base)
qed

lemma sample_heap_fields:
  "cr3 (sample_heap f) = 0x100000" "pmm (sample_heap f) = pmm_init blank_pmm"
  "heap_head (sample_heap f) = 0xD0000000" "heap_end (sample_heap f) = 0xD0001000"
  by (simp_all add: sample_heap_def sample_vm_def vmm_state.extend_def heap_state.fields_def entry_set_def)

lemma low_not_free: "unat a < 0x200000 \<Longrightarrow> a \<notin> free_frames (pmm_init blank_pmm)"
  using booted_frame_high [of a] by auto

lemma sample_heap_dir: "dir_wf 0x100000 (sample_heap f)"
proof -
  have fr: "frame 0x100000" by (simp add: frame_def)
  have "entry_get 0x100000 i (sample_heap f) = (if i = 832 then 0x101003 else 0)" if "unat i < 1024" for i
    using that fr by (simp add: sample_heap_entry)
  then show ?thesis
    unfolding dir_wf_def sample_heap_fields
    using fr booted_pmm(1) low_not_free [of "0x100000"] low_not_free [of "0x101000"] by auto
qed

lemma sample_heap_walk:
  assumes "0xD0000000 \<le> unat va" and "unat va < 0xD0001000"
  shows "walk (sample_heap f) va = Some 0x102003"
proof -
  have "unat va div 4194304 = 832" "unat va div 4096 = 851968" using assms by (auto intro!: div_nat_eqI)
  then have i: "page_dir_index va = 832" "page_table_index va = 0"
    using unat_page_dir_index [of va] unat_page_table_index [of va] by (simp_all add: word_unat_eq_iff)
  have "frame 0x100000" "frame 0x101000" by (simp_all add: frame_def)
  then show ?thesis
    unfolding sample_heap_fields walk_in_def Let_def i by (simp add: sample_heap_entry PAGE_PRESENT_def)
qed

lemma sample_heap_private: "private_frame (sample_heap f) 0x102000"
proof -
  have fr: "frame 0x100000" by (simp add: frame_def)
  have "entry_get 0x100000 i (sample_heap f) = (if i = 832 then 0x101003 else 0)" if "unat i < 1024" for i
    using that fr by (simp add: sample_heap_entry)
  then show ?thesis unfolding private_frame_def sample_heap_fields using low_not_free [of "0x102000"] by auto
qed

lemma sample_heap_win: "heap_win (sample_heap f)"
  unfolding heap_win_def window_def
proof (intro conjI allI impI)
  show "dir_wf (cr3 (sample_heap f)) (sample_heap f)" using sample_heap_dir by (simp add: sample_heap_fields)
  fix va :: u32 assume "KH \<le> unat va" "unat va < unat (heap_end (sample_heap f))"
  then show "\<exists>pte. walk (sample_heap f) va = Some pte \<and> private_frame (sample_heap f) (pte AND 0xFFFFF000)"
    using sample_heap_walk [of va f] sample_heap_private by (simp add: sample_heap_fields(4))
next
  fix va vb :: u32 assume "KH \<le> unat va" "unat va < unat (heap_end (sample_heap f))" "KH \<le> unat vb" "unat vb < unat (heap_end (sample_heap f))"
  moreover have "frame 0xD0000000" by (simp add: frame_def)
  ultimately show "drop_bit 12 va = drop_bit 12 vb"
    using page_of_frame [of "0xD0000000" va] page_of_frame [of "0xD0000000" vb] by (simp add: sample_heap_fields(4))
qed

lemma sample_heap_word:
  assumes "j < 4"
  shows "vword (sample_heap f) (0xD0000000 + 4 * of_nat j) = entry_get 0x102000 (of_nat j) (sample_heap f)"
proof -
  have "phys_addr (sample_heap f) (0xD0000000 + of_nat n) = Some (0x102000 + of_nat n)" if "n < 16" for n
  proof -
    have n: "n \<in> {0, 1, 2, 3, 4, 5, 6, 7, 8, 9, 10, 11, 12, 13, 14, 15}" using that unfolding insert_iff empty_iff by arith
    have "unat (0xD0000000 + of_nat n :: u32) = 0xD0000000 + n" using unat_range [of "0xD0000000" 16 n] that by simp
    then have "walk (sample_heap f) (0xD0000000 + of_nat n) = Some 0x102003" using that by (intro sample_heap_walk) simp_all
    then show ?thesis using n by (auto simp: phys_addr_def)
  qed
  then have v: "view (sample_heap f) (0xD0000000 + of_nat n) = mem (sample_heap f) (0x102000 + of_nat n)" if "n < 16" for n
    using that by (simp add: view_def)
  have "j = 0 \<or> j = 1 \<or> j = 2 \<or> j = 3" using assms by linarith
  then show ?thesis
    using v [of 0] v [of 1] v [of 2] v [of 3] v [of 4] v [of 5] v [of 6] v [of 7] v [of 8] v [of 9] v [of 10] v [of 11]
      v [of 12] v [of 13] v [of 14] v [of 15]
    by (auto simp: load32_def entry_get_def)
qed

lemma sample_heap_inv: "heap_inv (sample_heap f) [(0xD0000000, 4080, f \<noteq> 0)]"
proof -
  have "frame 0x102000" by (simp add: frame_def)
  then have "hdr (sample_heap f) 0xD0000000 = \<lparr>bh_size = 4080, bh_free = f, bh_next = 0, bh_prev = 0\<rparr>"
    using sample_heap_word [of 0 f] sample_heap_word [of 1 f] sample_heap_word [of 2 f] sample_heap_word [of 3 f]
    by (simp add: hdr_def sample_heap_entry)
  moreover have "frame 0xD0001000" by (simp add: frame_def)
  ultimately show ?thesis
    using sample_heap_win by (simp add: heap_inv_def heap_chain_def sample_heap_fields no_adjacent_free_def)
qed

theorem kmalloc_correct_witness:
  "\<exists>p t bs'. kmalloc 100 (sample_heap 1) = Some (p, t) \<and> heap_inv t bs'"
proof -
  have "unat (heap_end (sample_heap 1)) + unat (100 :: u32) + 0x2007 < 2 ^ 32" by (simp add: sample_heap_fields)
  from kmalloc_correct [OF sample_heap_inv _ this] show ?thesis by auto
qed

theorem kmalloc_refines_first_fit_witness:
  "\<exists>t. kmalloc 100 (sample_heap 1) = Some (0xD0000010, t) \<and>
     heap_inv t [(0xD0000000, 104, False), (0xD0000078, 3960, True)]"
proof -
  have "first_fit ((100 + 7) AND NOT 7) [(0xD0000000, 4080, (1 :: u32) \<noteq> 0)] =
      Some (0xD0000010, [(0xD0000000, 104, False), (0xD0000078, 3960, True)])"
    by (simp add: place_def)
  from kmalloc_refines_first_fit [OF sample_heap_inv _ _ this] show ?thesis by auto
qed

theorem kmalloc_kfree_roundtrip_witness:
  "\<exists>t u. kmalloc 100 (sample_heap 1) = Some (0xD0000010, t) \<and> kfree 0xD0000010 t = Some u \<and>
     heap_inv u [(0xD0000000, 4080, True)]"
proof -
  have "first_fit ((100 + 7) AND NOT 7) [(0xD0000000, 4080, (1 :: u32) \<noteq> 0)] =
      Some (0xD0000010, [(0xD0000000, 104, False), (0xD0000078, 3960, True)])"
    by (simp add: place_def)
  from kmalloc_kfree_roundtrip [OF sample_heap_inv _ _ this] show ?thesis by auto
qed

theorem kfree_correct_witness:
  "\<exists>t bs'. kfree (0xD0000000 + 16) (sample_heap 0) = Some t \<and> heap_inv t bs' \<and> allocated bs' = {}"
proof -
  have "(0xD0000000, 4080) \<in> allocated [(0xD0000000, 4080, (0 :: u32) \<noteq> 0)]" by (simp add: allocated_def)
  from kfree_correct [OF sample_heap_inv this] show ?thesis by (auto simp: allocated_def)
qed


section \<open>The heap and new address spaces\<close>

lemma kmalloc_unmapped:
  assumes "walk_in d s (heap_head s + 4) = None" and "n \<noteq> 0" and "heap_head s \<noteq> 0"
  shows "kmalloc n (vmm_switch_directory d s) = None"
proof -
  have "walk_in d (s\<lparr>cr3 := d\<rparr>) = walk_in d s" by (simp add: walk_in_def fun_eq_iff Let_def)
  then have "vload8 (heap_head s + 4) (vmm_switch_directory d s) = None"
    using assms(1) by (simp add: vload8_def phys_addr_def vmm_switch_directory_def)
  then have "get_free (heap_head s) (vmm_switch_directory d s) = None" by (simp add: get_free_def vload32_def)
  then have "find_fit k (heap_head s) 0 (vmm_switch_directory d s) = None" for k
    using assms(3) by (subst find_fit.simps) simp
  moreover have "heap_head (vmm_switch_directory d s) = heap_head s" by (simp add: vmm_switch_directory_def)
  ultimately show ?thesis using assms(2) by (simp add: kmalloc_def Let_def)
qed

text \<open>
  the heap belongs to the address space in which it grew. Once the heap has a first block,
  \<open>kmalloc\<close> called while the directory of a new address space is loaded takes a page fault, because
  \<open>vmm_create_address_space\<close> copies only the entries of the first 80 MB.
\<close>

theorem kmalloc_faults_in_new_space:
  assumes "kernel_space s" and "vmm_create_address_space s = (d, s')" and "d \<noteq> 0"
    and "KHEAP_START \<le> heap_head s" and "heap_head s < 0xFFFFFFF0" and "n \<noteq> 0"
  shows "kmalloc n (vmm_switch_directory d s') = None"
proof -
  have ne: "free_frames (pmm s) \<noteq> {}" using create_address_space_run [OF assms(1,2)] assms(3) by auto
  note r = create_address_space_run [OF assms(1,2), unfolded if_not_P [OF ne]]
  have lay: "kernel_layout (kernel_page_directory s) (kernel_page_table s)" using assms(1) by (simp add: kernel_space_def)
  have hd: "heap_head s' = heap_head s" using r by auto
  have h: "0xD0000000 \<le> unat (heap_head s)" "unat (heap_head s) < 0xFFFFFFF0"
    using assms(4,5) by (simp_all add: KHEAP_START_def word_le_nat_alt word_less_nat_alt)
  then have "unat (heap_head s + 4) = unat (heap_head s) + 4" using unat_range [of "heap_head s" 5 4] by simp
  then have "walk_in d s' (heap_head s' + 4) = None"
    using identity_dir_walk [OF lay, of d s'] r h hd by simp
  moreover have "heap_head s' \<noteq> 0" using h hd by auto
  ultimately show ?thesis using assms(6) by (intro kmalloc_unmapped)
qed

lemma kernel_space_heap [simp]: "kernel_space (s\<lparr>heap_head := e\<rparr>) = kernel_space s"
  by (simp add: kernel_space_def identity_low_def)

theorem kmalloc_faults_in_new_space_witness:
  "\<exists>(s :: heap_state) d s'. vmm_create_address_space s = (d, s') \<and> kmalloc 16 (vmm_switch_directory d s') = None"
proof -
  let ?v = "vmm_state.extend sample_vm (heap_state.fields 0 0)"
  have pre: "thr_answers (device ?v)" "pmm_wf (pmm ?v)" "kernel_layout (kernel_page_directory ?v) (kernel_page_table ?v)"
    by (simp_all add: answers_def sample_vm_def serial_is_transmit_empty_def SERIAL_LSR_THRE_def booted_pmm(1)
        kernel_layout_def frame_def vmm_state.extend_def)
  obtain b :: heap_state where b: "pmm b = pmm_init (pmm ?v)" "identity_dir (kernel_page_directory ?v) (kernel_page_table ?v) b"
    "kernel_page_directory b = kernel_page_directory ?v" "kernel_page_table b = kernel_page_table ?v"
    using pre by (rule vmm_init_run) blast
  have fr: "free_frames (pmm b) = page_addr ` {256..<16128}" unfolding b(1) using pre(2) by (rule pmm_init_frames)
  have "kernel_space b"
    unfolding kernel_space_def fr using b pre(2,3) managed_frame_upper
    by (auto simp: pmm_init_free_pages intro: identity_dir_low)
  then have ks: "kernel_space (b\<lparr>heap_head := 0xD0000000\<rparr>)" (is "kernel_space ?s") by simp
  obtain d s' where r: "vmm_create_address_space ?s = (d, s')" by fastforce
  have "d \<noteq> 0" using create_address_space_run [OF ks r] fr by auto
  from kmalloc_faults_in_new_space [OF ks r this, of 16] r show ?thesis by (auto simp: KHEAP_START_def)
qed

end
