(* ===== verification/Stdlib.thy ===== *)
theory Stdlib
  imports Kmalloc
begin

text \<open>
  The allocation functions of the C library, \<^verbatim>\<open>libc/stdlib.c\<close>, on top of the kernel heap.
\<close>

section \<open>Operations\<close>

definition malloc :: "u32 \<Rightarrow> 'a heap_state_scheme \<Rightarrow> (u32 \<times> 'a heap_state_scheme) option" where
  "malloc n s = kmalloc n s"

definition free :: "u32 \<Rightarrow> 'a heap_state_scheme \<Rightarrow> 'a heap_state_scheme option" where
  "free ptr s = kfree ptr s"

text \<open>\<open>memset\<close> of \<^verbatim>\<open>libc/string.c\<close> at virtual addresses.\<close>

definition vmemset :: "u32 \<Rightarrow> u8 \<Rightarrow> u32 \<Rightarrow> 'a vmm_state_scheme \<Rightarrow> 'a vmm_state_scheme option" where
  "vmemset dst c n = for_opt 0 (unat n) (\<lambda>i. vstore8 (dst + of_nat i) c)"

definition calloc :: "u32 \<Rightarrow> u32 \<Rightarrow> 'a heap_state_scheme \<Rightarrow> (u32 \<times> 'a heap_state_scheme) option" where
  "calloc nmemb sz s =
     (let total = nmemb * sz
      in if nmemb \<noteq> 0 \<and> total div nmemb \<noteq> sz then Some (0, s)
         else do {
           (ptr, s1) \<leftarrow> kmalloc total s;
           if ptr \<noteq> 0 then do { s2 \<leftarrow> vmemset ptr 0 total s1; Some (ptr, s2) }
           else Some (ptr, s1)
         })"

definition realloc :: "u32 \<Rightarrow> u32 \<Rightarrow> 'a heap_state_scheme \<Rightarrow> (u32 \<times> 'a heap_state_scheme) option" where
  "realloc ptr sz s =
     (if ptr = 0 then kmalloc sz s
      else if sz = 0 then do { s1 \<leftarrow> kfree ptr s; Some (0, s1) }
      else do {
        (new_ptr, s1) \<leftarrow> kmalloc sz s;
        if new_ptr \<noteq> 0 then do { s2 \<leftarrow> vmemcpy new_ptr ptr sz s1; s3 \<leftarrow> kfree ptr s2; Some (new_ptr, s3) }
        else Some (new_ptr, s1)
      })"

section \<open>The overflow check of \<open>calloc\<close>\<close>

lemma calloc_check:
  fixes a b :: u32
  shows "a \<noteq> 0 \<and> (a * b) div a \<noteq> b \<longleftrightarrow> 2 ^ 32 \<le> unat a * unat b"
proof (cases "a = 0")
  case True
  then show ?thesis by simp
next
  case False
  then have a: "0 < unat a" by (simp add: unat_gt_0)
  have m: "unat (a * b) = (unat a * unat b) mod 4294967296" by (simp add: unat_word_ariths)
  have "(a * b) div a = b \<longleftrightarrow> unat (a * b) div unat a = unat b" by (metis unat_div word_unat_eq_iff)
  also have "\<dots> \<longleftrightarrow> unat a * unat b < 4294967296"
  proof
    assume eq: "unat (a * b) div unat a = unat b"
    then have "unat a * unat b \<le> unat (a * b)" by (metis times_div_less_eq_dividend)
    also have "\<dots> < 4294967296" by (rule unat_u32_lt)
    finally show "unat a * unat b < 4294967296" .
  qed (use m a in simp)
  finally show ?thesis using False by auto
qed

lemma vmemset_run:
  assumes win: "window s lo hi" and hi: "hi \<le> 4294967296" and dst: "lo \<le> unat dst" "unat dst + unat len \<le> hi"
  obtains t where "vmemset dst c len s = Some t" and "vm_only s t" and "pmm t = pmm s" and "window t lo hi"
    and "\<And>i. i < unat len \<Longrightarrow> view t (dst + of_nat i) = c"
    and "\<And>x. lo \<le> unat x \<Longrightarrow> unat x < hi \<Longrightarrow> unat x < unat dst \<or> unat dst + unat len \<le> unat x \<Longrightarrow> view t x = view s x"
  unfolding vmemset_def by (rule store_run [OF win hi dst, of "\<lambda>_. c"]) (rule that [unfolded vmemset_def])

text \<open>
  \<open>calloc\<close> returns \<open>NULL\<close> and changes nothing when the product of its arguments does not
  fit 32 bits. Otherwise, for a request the heap can represent, it ends without a page fault; when it returns
  a block, the block has at least the requested size, all requested bytes are zero, and the blocks allocated before are
  still allocated with their contents.
\<close>

theorem calloc_correct:
  assumes inv: "heap_inv s bs" and room: "2 ^ 32 \<le> unat nmemb * unat sz \<or> unat (heap_end s) + unat nmemb * unat sz + 0x2007 < 2 ^ 32"
  shows "if 2 ^ 32 \<le> unat nmemb * unat sz then calloc nmemb sz s = Some (0, s)
         else \<exists>p u bs'. calloc nmemb sz s = Some (p, u) \<and> heap_inv u bs' \<and> same_contents s u (allocated bs) \<and>
           (p \<noteq> 0 \<longrightarrow> (\<exists>bz. unat nmemb * unat sz \<le> unat bz \<and> allocated bs' = insert (p - 16, bz) (allocated bs)) \<and>
              (\<forall>i < unat nmemb * unat sz. view u (p + of_nat i) = 0))"
proof (cases "2 ^ 32 \<le> unat nmemb * unat sz")
  case True
  then show ?thesis using calloc_check [of nmemb sz] by (simp add: calloc_def Let_def)
next
  case False
  define n where "n = nmemb * sz"
  have n: "unat n = unat nmemb * unat sz" using False by (simp add: n_def unat_word_ariths)
  have run: "calloc nmemb sz s = do {
      (ptr, s1) \<leftarrow> kmalloc n s; if ptr \<noteq> 0 then do { s2 \<leftarrow> vmemset ptr 0 n s1; Some (ptr, s2) } else Some (ptr, s1) }"
    using False calloc_check [of nmemb sz] unfolding calloc_def Let_def n_def by (simp only: if_False)
  show ?thesis
  proof (cases "n = 0")
    case True
    then have "calloc nmemb sz s = Some (0, s)" unfolding run by (simp add: kmalloc_def)
    then show ?thesis using False inv by (auto simp: same_contents_def)
  next
    case nz: False
    obtain p t bs' where k: "kmalloc n s = Some (p, t)" "heap_inv t bs'" "same_contents s t (allocated bs)"
      "if p = 0 then bs' = bs \<and> (\<forall>(a, sz, fr) \<in> set bs. fr \<longrightarrow> unat sz < unat n) else served bs bs' n p"
      using kmalloc_outcome [OF inv nz] room False n by auto
    show ?thesis
    proof (cases "p = 0")
      case True
      then have "calloc nmemb sz s = Some (0, t)" unfolding run using k(1) by simp
      then show ?thesis using False k by auto
    next
      case pnz: False
      obtain bz where bz: "unat n \<le> unat bz" "allocated bs' = insert (p - 16, bz) (allocated bs)"
        "\<forall>(b, cz) \<in> allocated bs. unat b + 16 + unat cz \<le> unat p - 16 \<or> unat p + unat bz \<le> unat b"
        using k(4) pnz by (auto simp: served_def)
      have ch: "heap_chain t bs'" using k(2) by (simp add: heap_inv_def)
      have c: "(p - 16, bz, False) \<in> set bs'" using bz(2) by (auto simp: allocated_def)
      note m = chain_member [OF ch c] and up = served_pointer [OF k(2) c]
      have new: "(p - 16, bz) \<notin> allocated bs" using bz(3) up by fastforce
      have win: "window t KH (unat (heap_end t))" using ch by (simp add: heap_chain_def heap_win_def)
      obtain u where u: "vmemset p 0 n t = Some u" "vm_only t u" "window u KH (unat (heap_end t))"
        "\<And>i. i < unat n \<Longrightarrow> view u (p + of_nat i) = 0"
        "\<And>x. KH \<le> unat x \<Longrightarrow> unat x < unat (heap_end t) \<Longrightarrow> unat x < unat p \<or> unat p + unat n \<le> unat x \<Longrightarrow> view u x = view t x"
        by (rule vmemset_run [OF win, of p n 0])
          (use m up bz(1) unat_u32_lt [of "heap_end t"] in \<open>auto simp: in_hdr_def\<close>)
      have dw: "heap_chain u bs'" "same_contents t u (allocated bs' - {(p - 16, bz)})"
        by (rule chain_data_write [OF ch c u(2,3)], rule u(5), use up bz(1) in auto)+
      have "calloc nmemb sz s = Some (p, u)" unfolding run using k(1) pnz u(1) by simp
      moreover have "heap_inv u bs'" using dw(1) k(2) by (simp add: heap_inv_def)
      moreover have "same_contents s u (allocated bs)"
        using same_contents_trans [OF k(3) dw(2)] bz(2) new by auto
      ultimately show ?thesis using False bz(1,2) u(4) n by auto
    qed
  qed
qed

theorem calloc_correct_witness:
  "calloc 0x10000 0x10000 (sample_heap 1) = Some (0, sample_heap 1) \<and>
   (\<exists>p u. calloc 3 8 (sample_heap 1) = Some (p, u))"
proof
  show "calloc 0x10000 0x10000 (sample_heap 1) = Some (0, sample_heap 1)"
    using calloc_correct [OF sample_heap_inv, of "0x10000" "0x10000" 1] by simp
  show "\<exists>p u. calloc 3 8 (sample_heap 1) = Some (p, u)"
    using calloc_correct [OF sample_heap_inv, of 3 8 1] by (auto simp: sample_heap_fields)
qed

end
