(* ===== verification/Scheduler.thy ===== *)
theory Scheduler
  imports Kmalloc
begin

text \<open>
  The process scheduler, \<^verbatim>\<open>kernel/process/scheduler.c\<close> with the context switch of
  \<^verbatim>\<open>kernel/process/context_switch.asm\<close>. A pointer to a process control block is a
  \<open>proc_ref option\<close>: the static \<open>idle_process\<close>, an element of \<open>process_pool\<close>, or
  \<open>NULL\<close>. The lists the blocks form are linked through their \<open>next\<close> fields, as in
  the code. The state has the processor registers the context switch saves; stacks lie in the part of memory that every
  directory maps to itself, so a push is a store into \<open>mem\<close>.
\<close>

section \<open>Data\<close>

datatype process_priority = PRIORITY_REALTIME | PRIORITY_HIGH | PRIORITY_NORMAL | PRIORITY_LOW

datatype process_state =
    PROCESS_STATE_RUNNING
  | PROCESS_STATE_READY
  | PROCESS_STATE_SLEEPING
  | PROCESS_STATE_BLOCKED
  | PROCESS_STATE_ZOMBIE
  | PROCESS_STATE_TERMINATED

datatype proc_ref = Idle | Pool nat

record process =
  pid :: u32
  proc_name :: "u8 list"
  proc_state :: process_state
  priority :: process_priority
  cpu_time_ms :: u32
  memory_pages :: u32
  proc_next :: "proc_ref option"
  proc_prev :: "proc_ref option"
  stack_ptr :: u32
  stack_phys :: u32
  page_directory :: u32
  entry_point :: u32
  proc_arg :: u32
  wake_tick :: u32

record priority_queue =
  queue_head :: "proc_ref option"
  queue_tail :: "proc_ref option"

record registers =
  esp :: u32
  ebp :: u32
  ebx :: u32
  esi :: u32
  edi :: u32
  eip :: u32

definition MAX_PROCESSES :: nat where "MAX_PROCESSES = 64"
definition PROCESS_STACK_SIZE :: u32 where "PROCESS_STACK_SIZE = 4096"

text \<open>\<open>tick_count\<close> is the counter of \<^verbatim>\<open>kernel/hal.c\<close> that the timer interrupt
  increments. The last three fields are link-time addresses, which no operation changes: of the control blocks, of
  \<open>process_entry_trampoline\<close>, and of the instruction after the call in \<open>scheduler_tick\<close>. The control blocks and the queues are kept beside
  the byte memory: that no free frame, page table or stack overlaps them is an assumption of the model, which the image must meet.\<close>

record sched_state = heap_state +
  procs :: "proc_ref \<Rightarrow> process"
  free_list :: "proc_ref option"
  queues :: "process_priority \<Rightarrow> priority_queue"
  current_process :: "proc_ref option"
  sleep_list :: "proc_ref option"
  next_pid :: u32
  tick_count :: u64
  regs :: registers
  pcb_addr :: "proc_ref \<Rightarrow> u32"
  trampoline_addr :: u32
  tick_return :: u32

definition upd_proc :: "proc_ref \<Rightarrow> (process \<Rightarrow> process) \<Rightarrow> 'a sched_state_scheme \<Rightarrow> 'a sched_state_scheme" where
  "upd_proc r f s = s\<lparr>procs := (procs s)(r := f (procs s r))\<rparr>"

definition upd_queue_of :: "process_priority \<Rightarrow> (priority_queue \<Rightarrow> priority_queue) \<Rightarrow> 'a sched_state_scheme \<Rightarrow> 'a sched_state_scheme" where
  "upd_queue_of p f s = s\<lparr>queues := (queues s)(p := f (queues s p))\<rparr>"

abbreviation state_of :: "'a sched_state_scheme \<Rightarrow> proc_ref \<Rightarrow> process_state" where
  "state_of s r \<equiv> proc_state (procs s r)"

section \<open>Operations\<close>

definition scheduler_init :: "'a sched_state_scheme \<Rightarrow> int \<times> 'a sched_state_scheme" where
  "scheduler_init s =
     (let s1 = for_upto 0 (MAX_PROCESSES - 1) (\<lambda>i. upd_proc (Pool i) (\<lambda>p. p\<lparr>proc_next := Some (Pool (i + 1))\<rparr>)) s;
          s2 = upd_proc (Pool (MAX_PROCESSES - 1)) (\<lambda>p. p\<lparr>proc_next := None\<rparr>) s1;
          s3 = s2\<lparr>free_list := Some (Pool 0)\<rparr>;
          s4 = fold (\<lambda>q. upd_queue_of q (\<lambda>_. \<lparr>queue_head = None, queue_tail = None\<rparr>))
                 [PRIORITY_REALTIME, PRIORITY_HIGH, PRIORITY_NORMAL, PRIORITY_LOW] s3;
          s5 = upd_proc Idle (\<lambda>p. p\<lparr>pid := 0,
                 proc_name := map of_char ''idle'' @ [0] @ drop 5 (proc_name p),
                 proc_state := PROCESS_STATE_RUNNING, priority := PRIORITY_LOW, cpu_time_ms := 0, memory_pages := 0,
                 proc_next := None, proc_prev := None, stack_ptr := 0, entry_point := 0, proc_arg := 0\<rparr>) s4
      in (KERNEL_SUCCESS, s5\<lparr>current_process := Some Idle\<rparr>))"

definition allocate_process :: "'a sched_state_scheme \<Rightarrow> proc_ref option \<times> 'a sched_state_scheme" where
  "allocate_process s =
     (case free_list s of
        None \<Rightarrow> (None, s)
      | Some proc \<Rightarrow> (Some proc, upd_proc proc (\<lambda>p. p\<lparr>proc_next := None\<rparr>) (s\<lparr>free_list := proc_next (procs s proc)\<rparr>)))"

definition release_process :: "proc_ref \<Rightarrow> 'a sched_state_scheme \<Rightarrow> 'a sched_state_scheme" where
  "release_process proc s = (upd_proc proc (\<lambda>p. p\<lparr>proc_next := free_list s\<rparr>) s)\<lparr>free_list := Some proc\<rparr>"

definition enqueue_process :: "proc_ref \<Rightarrow> 'a sched_state_scheme \<Rightarrow> 'a sched_state_scheme" where
  "enqueue_process proc s =
     (let prio = priority (procs s proc)
      in case queue_tail (queues s prio) of
           None \<Rightarrow> upd_proc proc (\<lambda>p. p\<lparr>proc_next := None\<rparr>)
                    (upd_queue_of prio (\<lambda>q. q\<lparr>queue_head := Some proc, queue_tail := Some proc\<rparr>) s)
         | Some t \<Rightarrow> upd_proc proc (\<lambda>p. p\<lparr>proc_next := None\<rparr>)
                      (upd_queue_of prio (\<lambda>q. q\<lparr>queue_tail := Some proc\<rparr>)
                         (upd_proc t (\<lambda>p. p\<lparr>proc_next := Some proc\<rparr>) s)))"

definition dequeue_process :: "process_priority \<Rightarrow> 'a sched_state_scheme \<Rightarrow> proc_ref option \<times> 'a sched_state_scheme" where
  "dequeue_process prio s =
     (case queue_head (queues s prio) of
        None \<Rightarrow> (None, s)
      | Some proc \<Rightarrow>
          let s1 = upd_queue_of prio (\<lambda>q. q\<lparr>queue_head := proc_next (procs s proc)\<rparr>) s;
              s2 = (if queue_head (queues s1 prio) = None then upd_queue_of prio (\<lambda>q. q\<lparr>queue_tail := None\<rparr>) s1 else s1)
          in (Some proc, upd_proc proc (\<lambda>p. p\<lparr>proc_next := None\<rparr>) s2))"

definition enqueue_sleep :: "proc_ref \<Rightarrow> 'a sched_state_scheme \<Rightarrow> 'a sched_state_scheme" where
  "enqueue_sleep proc s = (upd_proc proc (\<lambda>p. p\<lparr>proc_next := sleep_list s\<rparr>) s)\<lparr>sleep_list := Some proc\<rparr>"

text \<open>The loop of \<open>check_sleepers\<close>; it does not end on a cyclic list, hence \<open>None\<close>.\<close>

partial_function (option) sleepers_loop ::
    "proc_ref option \<Rightarrow> proc_ref option \<Rightarrow> 'a sched_state_scheme \<Rightarrow> 'a sched_state_scheme option" where
  "sleepers_loop prev crnt s =
     (case crnt of
        None \<Rightarrow> Some s
      | Some c \<Rightarrow>
          (let nxt = proc_next (procs s c)
           in if ucast (wake_tick (procs s c)) \<le> tick_count s
              then (let s1 = (case prev of
                                None \<Rightarrow> s\<lparr>sleep_list := nxt\<rparr>
                              | Some p \<Rightarrow> upd_proc p (\<lambda>q. q\<lparr>proc_next := nxt\<rparr>) s);
                        s2 = upd_proc c (\<lambda>q. q\<lparr>proc_state := PROCESS_STATE_READY\<rparr>) s1
                    in sleepers_loop prev nxt (enqueue_process c s2))
              else sleepers_loop (Some c) nxt s))"

definition check_sleepers :: "'a sched_state_scheme \<Rightarrow> 'a sched_state_scheme option" where
  "check_sleepers s = sleepers_loop None (sleep_list s) s"

definition pick_next_process :: "'a sched_state_scheme \<Rightarrow> proc_ref option" where
  "pick_next_process s =
     first_some (\<lambda>prio. queue_head (queues s prio)) [PRIORITY_REALTIME, PRIORITY_HIGH, PRIORITY_NORMAL, PRIORITY_LOW]"

text \<open>The field is 32 bytes long: \<open>strncpy\<close> of 31 bytes pads with zeros, the last byte is set to zero.\<close>

definition name_field :: "u8 list \<Rightarrow> u8 list" where
  "name_field name = take 31 (name @ replicate 31 0) @ [0]"

definition initial_stack :: "u32 \<Rightarrow> u32 \<Rightarrow> mem \<Rightarrow> mem" where
  "initial_stack sp trampoline m =
     store32 (sp - 20) 0 (store32 (sp - 16) 0 (store32 (sp - 12) 0 (store32 (sp - 8) 0 (store32 (sp - 4) trampoline m))))"

definition scheduler_create_process ::
    "u8 list \<Rightarrow> u32 \<Rightarrow> u32 \<Rightarrow> process_priority \<Rightarrow> 'a sched_state_scheme \<Rightarrow> proc_ref option \<times> 'a sched_state_scheme" where
  "scheduler_create_process name entry arg prio s =
     (case allocate_process s of
        (None, s1) \<Rightarrow> (None, s1)
      | (Some proc, s1) \<Rightarrow>
          let s2 = upd_proc proc (\<lambda>p. p\<lparr>pid := next_pid s1, proc_name := name_field name, proc_state := PROCESS_STATE_READY,
                     priority := prio, cpu_time_ms := 0, memory_pages := 0\<rparr>) (s1\<lparr>next_pid := next_pid s1 + 1\<rparr>);
              (dir, s3) = vmm_create_address_space s2;
              s4 = upd_proc proc (\<lambda>p. p\<lparr>page_directory := dir, entry_point := entry, proc_arg := arg\<rparr>) s3;
              (stack, s5) = alloc_page s4
          in if stack = 0 then (None, release_process proc s5)
             else
               let s6 = upd_proc proc (\<lambda>p. p\<lparr>stack_phys := stack\<rparr>) s5;
                   saved_dir = vmm_get_current_directory s6;
                   s7 = (if page_directory (procs s6 proc) \<noteq> 0 then vmm_switch_directory (page_directory (procs s6 proc)) s6 else s6);
                   s8 = snd (vmm_map_page stack stack PAGE_WRITABLE s7);
                   sp = stack + PROCESS_STACK_SIZE;
                   s9 = s8\<lparr>mem := initial_stack sp (trampoline_addr s8) (mem s8)\<rparr>;
                   s10 = upd_proc proc (\<lambda>p. p\<lparr>stack_ptr := sp - 20\<rparr>) s9;
                   s11 = vmm_switch_directory saved_dir s10;
                   s12 = upd_proc proc (\<lambda>p. p\<lparr>proc_next := None, proc_prev := None\<rparr>) s11
               in (Some proc, enqueue_process proc s12))"

definition scheduler_destroy_process :: "proc_ref \<Rightarrow> 'a sched_state_scheme \<Rightarrow> 'a sched_state_scheme" where
  "scheduler_destroy_process proc s = release_process proc s"

definition scheduler_yield :: "'a sched_state_scheme \<Rightarrow> 'a sched_state_scheme" where
  "scheduler_yield s =
     (case current_process s of
        None \<Rightarrow> s
      | Some c \<Rightarrow>
          if c \<noteq> Idle
          then (if state_of s c = PROCESS_STATE_RUNNING then enqueue_process c s else s)\<lparr>current_process := None\<rparr>
          else s)"

text \<open>\<open>scheduler_sleep_current\<close> ends in a loop around the instruction \<open>hlt\<close>. The argument
  \<open>hlt\<close> gives the state in which the instruction completes for the calling process.\<close>

definition sleep_mark :: "u32 \<Rightarrow> proc_ref \<Rightarrow> 'a sched_state_scheme \<Rightarrow> 'a sched_state_scheme" where
  "sleep_mark ms c s =
     (let ticks = ms div 10;
          ticks = (if ticks = 0 then 1 else ticks)
      in upd_proc c (\<lambda>p. p\<lparr>wake_tick := ucast (tick_count s + ucast ticks), proc_state := PROCESS_STATE_SLEEPING\<rparr>) s)"

partial_function (option) sleep_wait ::
    "('a sched_state_scheme \<Rightarrow> 'a sched_state_scheme option) \<Rightarrow> 'a sched_state_scheme \<Rightarrow> 'a sched_state_scheme option" where
  "sleep_wait hlt s =
     (case current_process s of
        None \<Rightarrow> None
      | Some c \<Rightarrow>
          if state_of s c = PROCESS_STATE_SLEEPING
          then (case hlt s of None \<Rightarrow> None | Some t \<Rightarrow> sleep_wait hlt t)
          else Some s)"

definition scheduler_sleep_current ::
    "('a sched_state_scheme \<Rightarrow> 'a sched_state_scheme option) \<Rightarrow> u32 \<Rightarrow> 'a sched_state_scheme \<Rightarrow> 'a sched_state_scheme option" where
  "scheduler_sleep_current hlt ms s =
     (case current_process s of
        None \<Rightarrow> Some s
      | Some c \<Rightarrow> if c = Idle then Some s else sleep_wait hlt (sleep_mark ms c s))"

text \<open>The stack operations of the processor, and \<open>context_switch\<close> instruction by instruction.\<close>

definition push32 :: "u32 \<Rightarrow> 'a sched_state_scheme \<Rightarrow> 'a sched_state_scheme" where
  "push32 v s =
     (let a = esp (regs s) - 4 in s\<lparr>mem := store32 a v (mem s), regs := (regs s)\<lparr>esp := a\<rparr>\<rparr>)"

definition pop32 :: "(u32 \<Rightarrow> registers \<Rightarrow> registers) \<Rightarrow> 'a sched_state_scheme \<Rightarrow> 'a sched_state_scheme" where
  "pop32 set_reg s =
     (let a = esp (regs s) in s\<lparr>regs := set_reg (load32 (mem s) a) ((regs s)\<lparr>esp := a + 4\<rparr>)\<rparr>)"

text \<open>\<open>stack_ptr\<close> is at offset 60 of the control block, so with \<open>prev\<close> equal to
  \<open>NULL\<close> the address \<open>&prev->stack_ptr\<close> is 60.\<close>

definition stack_ptr_addr :: "proc_ref option \<Rightarrow> 'a sched_state_scheme \<Rightarrow> u32" where
  "stack_ptr_addr r s = (case r of None \<Rightarrow> 60 | Some p \<Rightarrow> pcb_addr s p + 60)"

definition save_stack_ptr :: "proc_ref option \<Rightarrow> 'a sched_state_scheme \<Rightarrow> 'a sched_state_scheme" where
  "save_stack_ptr r s =
     (case r of
        None \<Rightarrow> s\<lparr>mem := store32 60 (esp (regs s)) (mem s)\<rparr>
      | Some p \<Rightarrow> upd_proc p (\<lambda>q. q\<lparr>stack_ptr := esp (regs s)\<rparr>) s)"

definition context_switch :: "proc_ref option \<Rightarrow> 'a sched_state_scheme \<Rightarrow> 'a sched_state_scheme" where
  "context_switch old s =
     (let s1 = push32 (ebp (regs s)) s;
          s2 = push32 (ebx (regs s)) s1;
          s3 = push32 (esi (regs s)) s2;
          s4 = push32 (edi (regs s)) s3;
          s5 = save_stack_ptr old s4;
          s6 = s5\<lparr>regs := (regs s5)\<lparr>esp := load32 (mem s5) (esp (regs s5) + 24)\<rparr>\<rparr>;
          s7 = pop32 (\<lambda>v r. r\<lparr>edi := v\<rparr>) s6;
          s8 = pop32 (\<lambda>v r. r\<lparr>esi := v\<rparr>) s7;
          s9 = pop32 (\<lambda>v r. r\<lparr>ebx := v\<rparr>) s8;
          s10 = pop32 (\<lambda>v r. r\<lparr>ebp := v\<rparr>) s9
      in pop32 (\<lambda>v r. r\<lparr>eip := v\<rparr>) s10)"

definition call_context_switch :: "proc_ref option \<Rightarrow> u32 \<Rightarrow> 'a sched_state_scheme \<Rightarrow> 'a sched_state_scheme" where
  "call_context_switch old new_esp s =
     context_switch old (push32 (tick_return s) (push32 (stack_ptr_addr old s) (push32 new_esp s)))"

definition requeue_current :: "u32 \<Rightarrow> 'a sched_state_scheme \<Rightarrow> 'a sched_state_scheme" where
  "requeue_current delta_ms s =
     (case current_process s of
        None \<Rightarrow> s
      | Some c \<Rightarrow>
          if state_of s c = PROCESS_STATE_RUNNING
          then (enqueue_process c (upd_proc c (\<lambda>p. p\<lparr>cpu_time_ms := cpu_time_ms p + delta_ms, proc_state := PROCESS_STATE_READY\<rparr>) s))
                 \<lparr>current_process := None\<rparr>
          else if state_of s c = PROCESS_STATE_SLEEPING
          then (enqueue_sleep c (upd_proc c (\<lambda>p. p\<lparr>cpu_time_ms := cpu_time_ms p + delta_ms\<rparr>) s))\<lparr>current_process := None\<rparr>
          else s)"

definition dispatch_next :: "'a sched_state_scheme \<Rightarrow> proc_ref \<times> 'a sched_state_scheme" where
  "dispatch_next s =
     (case pick_next_process s of
        Some n \<Rightarrow> (n, (upd_proc n (\<lambda>p. p\<lparr>proc_state := PROCESS_STATE_RUNNING\<rparr>) (snd (dequeue_process (priority (procs s n)) s)))
                       \<lparr>current_process := Some n\<rparr>)
      | None \<Rightarrow> (Idle, s\<lparr>current_process := Some Idle\<rparr>))"

definition scheduler_tick :: "u32 \<Rightarrow> 'a sched_state_scheme \<Rightarrow> 'a sched_state_scheme option" where
  "scheduler_tick delta_ms s = do {
     let prev = current_process s;
     s1 \<leftarrow> check_sleepers s;
     let (cur, s2) = dispatch_next (requeue_current delta_ms s1);
     if prev \<noteq> Some cur
     then (let s3 = (if page_directory (procs s2 cur) \<noteq> 0 then vmm_switch_directory (page_directory (procs s2 cur)) s2 else s2)
           in Some (call_context_switch prev (stack_ptr (procs s3 cur)) s3))
     else Some s2
   }"

definition scheduler_fork_process :: "proc_ref \<Rightarrow> 'a sched_state_scheme \<Rightarrow> proc_ref option \<times> 'a sched_state_scheme" where
  "scheduler_fork_process parent s =
     (let p = procs s parent
      in scheduler_create_process (takeWhile (\<lambda>b. b \<noteq> 0) (proc_name p)) (entry_point p) (proc_arg p) (priority p) s)"

definition scheduler_get_current_process :: "'a sched_state_scheme \<Rightarrow> proc_ref option" where
  "scheduler_get_current_process s = current_process s"

definition scheduler_set_current_process :: "proc_ref option \<Rightarrow> 'a sched_state_scheme \<Rightarrow> 'a sched_state_scheme" where
  "scheduler_set_current_process proc s = s\<lparr>current_process := proc\<rparr>"

definition scheduler_dump_state :: "'a sched_state_scheme \<Rightarrow> 'a sched_state_scheme" where
  "scheduler_dump_state s = s"

text \<open>The first code of every process, up to the loop that halts for ever. \<open>call\<close> is the code at
  the entry point; without a current process the code reads through \<open>NULL\<close>, which is left out.\<close>

definition process_entry_trampoline ::
    "(u32 \<Rightarrow> u32 \<Rightarrow> 'a sched_state_scheme \<Rightarrow> 'a sched_state_scheme option) \<Rightarrow> 'a sched_state_scheme \<Rightarrow> 'a sched_state_scheme option" where
  "process_entry_trampoline call s =
     (case scheduler_get_current_process s of
        None \<Rightarrow> None
      | Some proc \<Rightarrow> do {
          s1 \<leftarrow> call (entry_point (procs s proc)) (proc_arg (procs s proc)) s;
          Some (upd_proc proc (\<lambda>p. p\<lparr>proc_state := PROCESS_STATE_TERMINATED\<rparr>) s1)
        })"

section \<open>Linked lists of control blocks\<close>

fun pseg :: "(proc_ref \<Rightarrow> process) \<Rightarrow> proc_ref option \<Rightarrow> proc_ref list \<Rightarrow> proc_ref option \<Rightarrow> bool" where
  "pseg P x [] y \<longleftrightarrow> x = y"
| "pseg P x (r # rs) y \<longleftrightarrow> x = Some r \<and> pseg P (proc_next (P r)) rs y"

lemma pseg_append: "pseg P x (as @ bs) y \<longleftrightarrow> (\<exists>z. pseg P x as z \<and> pseg P z bs y)"
  by (induction as arbitrary: x) auto

lemma pseg_cong:
  assumes "\<And>r. r \<in> set rs \<Longrightarrow> proc_next (P r) = proc_next (Q r)"
  shows "pseg P x rs y \<longleftrightarrow> pseg Q x rs y"
  using assms by (induction rs arbitrary: x) auto

lemma pseg_unique: "pseg P x rs None \<Longrightarrow> pseg P x qs None \<Longrightarrow> rs = qs"
proof (induction rs arbitrary: x qs)
  case Nil
  then show ?case by (cases qs) auto
next
  case (Cons r rs)
  then show ?case by (cases qs) auto
qed

lemma pseg_fresh: "r \<notin> set rs \<Longrightarrow> pseg (P(r := p)) x rs y \<longleftrightarrow> pseg P x rs y"
  by (rule pseg_cong) auto

text \<open>The list that starts at a pointer, of at most \<open>n\<close> blocks.\<close>

fun follow :: "nat \<Rightarrow> (proc_ref \<Rightarrow> process) \<Rightarrow> proc_ref option \<Rightarrow> proc_ref list" where
  "follow 0 P x = []"
| "follow (Suc n) P x = (case x of None \<Rightarrow> [] | Some r \<Rightarrow> r # follow n P (proc_next (P r)))"

lemma follow_pseg: "pseg P x rs None \<Longrightarrow> length rs \<le> n \<Longrightarrow> follow n P x = rs"
proof (induction rs arbitrary: x n)
  case Nil
  then show ?case by (cases n) auto
next
  case (Cons r rs)
  then show ?case by (cases n) auto
qed

definition all_procs :: "proc_ref list" where
  "all_procs = Idle # map Pool [0..<MAX_PROCESSES]"

lemma all_procs_bound:
  assumes "distinct rs" and "set rs \<subseteq> set all_procs"
  shows "length rs \<le> 65"
proof -
  have "length rs = card (set rs)" using assms(1) by (simp add: distinct_card)
  also have "\<dots> \<le> card (set all_procs)" using assms(2) by (intro card_mono) simp_all
  also have "\<dots> \<le> length all_procs" by (rule card_length)
  finally show ?thesis by (simp add: all_procs_def MAX_PROCESSES_def)
qed

definition queue_ok :: "(proc_ref \<Rightarrow> process) \<Rightarrow> priority_queue \<Rightarrow> proc_ref list \<Rightarrow> bool" where
  "queue_ok P q rs \<longleftrightarrow> pseg P (queue_head q) rs None \<and> queue_tail q = (if rs = [] then None else Some (last rs))"

lemma queue_ok_cong:
  "(\<And>r. r \<in> set rs \<Longrightarrow> proc_next (P r) = proc_next (Q r)) \<Longrightarrow> queue_ok P q rs \<longleftrightarrow> queue_ok Q q rs"
  unfolding queue_ok_def using pseg_cong [of rs P Q] by blast

lemma queue_ok_append:
  assumes q: "queue_ok P q rs" and r: "r \<notin> set rs" and d: "distinct rs"
  shows "queue_ok
    (case queue_tail q of
       None \<Rightarrow> P(r := p\<lparr>proc_next := None\<rparr>)
     | Some t \<Rightarrow> (P(t := (P t)\<lparr>proc_next := Some r\<rparr>))(r := p\<lparr>proc_next := None\<rparr>))
    (case queue_tail q of None \<Rightarrow> q\<lparr>queue_head := Some r, queue_tail := Some r\<rparr> | Some t \<Rightarrow> q\<lparr>queue_tail := Some r\<rparr>) (rs @ [r])"
proof (cases rs rule: rev_cases)
  case Nil
  with q show ?thesis by (simp add: queue_ok_def)
next
  case (snoc as t)
  let ?Q = "(P(t := (P t)\<lparr>proc_next := Some r\<rparr>))(r := p\<lparr>proc_next := None\<rparr>)"
  have tl: "queue_tail q = Some t" and seg: "pseg P (queue_head q) as (Some t)"
    using q by (auto simp: queue_ok_def snoc pseg_append)
  have "t \<notin> set as" "r \<notin> set as" "r \<noteq> t" using r d by (auto simp: snoc)
  then have "pseg ?Q (queue_head q) as (Some t)" using seg by (simp add: pseg_fresh)
  with \<open>r \<noteq> t\<close> show ?thesis by (simp add: queue_ok_def snoc tl pseg_append)
qed

lemma queue_ok_tl:
  assumes "queue_ok P q (r # rs)" and "r \<notin> set rs"
  shows "queue_ok (P(r := p\<lparr>proc_next := None\<rparr>))
    (if proc_next (P r) = None then q\<lparr>queue_head := None, queue_tail := None\<rparr> else q\<lparr>queue_head := proc_next (P r)\<rparr>) rs"
  using assms by (cases rs) (auto simp: queue_ok_def pseg_fresh)

section \<open>The lists of the scheduler\<close>

text \<open>\<open>sched_lists s fl rq sl\<close>: the free list of \<open>s\<close> is \<open>fl\<close>, the ready queue of each
  priority is \<open>rq p\<close> and holds processes of that priority, the sleep list is \<open>sl\<close>, and no
  control block is in two of them or twice in one.\<close>

definition sched_lists ::
    "'a sched_state_scheme \<Rightarrow> proc_ref list \<Rightarrow> (process_priority \<Rightarrow> proc_ref list) \<Rightarrow> proc_ref list \<Rightarrow> bool" where
  "sched_lists s fl rq sl \<longleftrightarrow>
     pseg (procs s) (free_list s) fl None \<and> pseg (procs s) (sleep_list s) sl None \<and>
     (\<forall>p. queue_ok (procs s) (queues s p) (rq p)) \<and>
     (\<forall>p. distinct (rq p) \<and> (\<forall>r \<in> set (rq p). priority (procs s r) = p)) \<and>
     distinct fl \<and> distinct sl \<and> set fl \<inter> set sl = {} \<and> (\<forall>p. set (rq p) \<inter> (set fl \<union> set sl) = {})"

definition unlisted :: "proc_ref \<Rightarrow> proc_ref list \<Rightarrow> (process_priority \<Rightarrow> proc_ref list) \<Rightarrow> proc_ref list \<Rightarrow> bool" where
  "unlisted r fl rq sl \<longleftrightarrow> r \<notin> set fl \<and> r \<notin> set sl \<and> (\<forall>p. r \<notin> set (rq p))"

text \<open>What the control block says apart from its link.\<close>

definition info :: "'a sched_state_scheme \<Rightarrow> proc_ref \<Rightarrow> process" where
  "info s r = (procs s r)\<lparr>proc_next := None\<rparr>"

lemma info_eqD:
  assumes "info t x = info s y"
  shows "proc_state (procs t x) = proc_state (procs s y)" and "priority (procs t x) = priority (procs s y)"
    and "wake_tick (procs t x) = wake_tick (procs s y)" and "stack_ptr (procs t x) = stack_ptr (procs s y)"
    and "page_directory (procs t x) = page_directory (procs s y)" and "cpu_time_ms (procs t x) = cpu_time_ms (procs s y)"
    and "pid (procs t x) = pid (procs s y)" and "stack_phys (procs t x) = stack_phys (procs s y)"
    and "entry_point (procs t x) = entry_point (procs s y)" and "proc_arg (procs t x) = proc_arg (procs s y)"
  using assms unfolding info_def by (cases "procs t x"; cases "procs s y"; simp)+

text \<open>\<open>sched_only s t\<close>: nothing but the control blocks and the scheduler's list variables changed.\<close>

definition sched_only :: "'a sched_state_scheme \<Rightarrow> 'a sched_state_scheme \<Rightarrow> bool" where
  "sched_only s t \<longleftrightarrow> t = s\<lparr>procs := procs t, free_list := free_list t, queues := queues t,
     current_process := current_process t, sleep_list := sleep_list t\<rparr>"

lemma sched_only_refl [simp]: "sched_only s s"
  by (simp add: sched_only_def)

lemma sched_only_trans:
  assumes "sched_only s t" and "sched_only t u"
  shows "sched_only s u"
proof -
  obtain P f q c l where t: "t = s\<lparr>procs := P, free_list := f, queues := q, current_process := c, sleep_list := l\<rparr>"
    using assms(1) unfolding sched_only_def by metis
  obtain P' f' q' c' l' where "u = t\<lparr>procs := P', free_list := f', queues := q', current_process := c', sleep_list := l'\<rparr>"
    using assms(2) unfolding sched_only_def by metis
  then show ?thesis unfolding sched_only_def t by simp
qed

lemma sched_only_updates [simp]:
  "sched_only s (upd_proc r f s)" "sched_only s (upd_queue_of p g s)" "sched_only s (s\<lparr>free_list := a\<rparr>)"
  "sched_only s (s\<lparr>sleep_list := b\<rparr>)" "sched_only s (s\<lparr>current_process := c\<rparr>)"
  by (simp_all add: sched_only_def upd_proc_def upd_queue_of_def)

lemma sched_onlyD:
  assumes "sched_only s t"
  shows "mem t = mem s" "regs t = regs s" "tick_count t = tick_count s" "cr3 t = cr3 s" "pmm t = pmm s"
    "next_pid t = next_pid s" "pcb_addr t = pcb_addr s" "tick_return t = tick_return s" "trampoline_addr t = trampoline_addr s"
proof -
  obtain P f q c l where "t = s\<lparr>procs := P, free_list := f, queues := q, current_process := c, sleep_list := l\<rparr>"
    using assms unfolding sched_only_def by metis
  then show "mem t = mem s" "regs t = regs s" "tick_count t = tick_count s" "cr3 t = cr3 s" "pmm t = pmm s"
    "next_pid t = next_pid s" "pcb_addr t = pcb_addr s" "tick_return t = tick_return s" "trampoline_addr t = trampoline_addr s"
    by simp_all
qed

lemma lists_prio: "sched_lists s fl rq sl \<Longrightarrow> r \<in> set (rq p) \<Longrightarrow> priority (procs s r) = p"
  by (simp add: sched_lists_def)

lemma lists_disjoint:
  assumes "sched_lists s fl rq sl"
  shows "set fl \<inter> set sl = {}" and "set (rq p) \<inter> set fl = {}" and "set (rq p) \<inter> set sl = {}"
    and "p \<noteq> p' \<Longrightarrow> set (rq p) \<inter> set (rq p') = {}"
    and "distinct fl" and "distinct sl" and "distinct (rq p)"
proof -
  show "set fl \<inter> set sl = {}" "distinct fl" "distinct sl" "distinct (rq p)" using assms by (simp_all add: sched_lists_def)
  have "set (rq p) \<inter> (set fl \<union> set sl) = {}" using assms by (simp add: sched_lists_def)
  then show "set (rq p) \<inter> set fl = {}" "set (rq p) \<inter> set sl = {}" by blast+
  show "set (rq p) \<inter> set (rq p') = {}" if "p \<noteq> p'"
    using that lists_prio [OF assms, of _ p] lists_prio [OF assms, of _ p'] by blast
qed

lemma lists_upd:
  assumes "sched_lists s fl rq sl" and "proc_next (f (procs s r)) = proc_next (procs s r)"
    and "unlisted r fl rq sl \<or> priority (f (procs s r)) = priority (procs s r)"
  shows "sched_lists (upd_proc r f s) fl rq sl"
proof -
  let ?P = "procs s" and ?Q = "(procs s)(r := f (procs s r))"
  have "pseg ?Q x rs y = pseg ?P x rs y" for x rs y using assms(2) by (intro pseg_cong) auto
  moreover have "queue_ok ?Q q rs = queue_ok ?P q rs" for q rs using assms(2) by (intro queue_ok_cong) auto
  moreover have "priority (?Q x) = p" if "x \<in> set (rq p)" for x p
    using assms(1,3) that unfolding sched_lists_def unlisted_def by auto
  ultimately show ?thesis using assms(1) unfolding sched_lists_def upd_proc_def by simp
qed

lemma lists_enqueue:
  assumes l: "sched_lists s fl rq sl" and r: "unlisted r fl rq sl" and p: "priority (procs s r) = p"
  shows "sched_lists (enqueue_process r s) fl (rq(p := rq p @ [r])) sl" and "info (enqueue_process r s) = info s"
    and "sched_only s (enqueue_process r s)" and "current_process (enqueue_process r s) = current_process s"
proof -
  let ?q = "queues s p"
  let ?P = "case queue_tail ?q of None \<Rightarrow> (procs s)(r := (procs s r)\<lparr>proc_next := None\<rparr>)
    | Some t \<Rightarrow> ((procs s)(t := (procs s t)\<lparr>proc_next := Some r\<rparr>))(r := (procs s r)\<lparr>proc_next := None\<rparr>)"
  let ?Q = "case queue_tail ?q of None \<Rightarrow> ?q\<lparr>queue_head := Some r, queue_tail := Some r\<rparr> | Some t \<Rightarrow> ?q\<lparr>queue_tail := Some r\<rparr>"
  have qok: "queue_ok (procs s) ?q (rq p)" "distinct (rq p)" using l by (simp_all add: sched_lists_def)
  have tl: "t \<in> set (rq p)" if "queue_tail ?q = Some t" for t
    using qok(1) that by (auto simp: queue_ok_def split: if_splits)
  then have rt: "r \<noteq> t" if "queue_tail ?q = Some t" for t using r that by (auto simp: unlisted_def)
  have e: "enqueue_process r s = s\<lparr>procs := ?P, queues := (queues s)(p := ?Q)\<rparr>"
    using p rt by (auto simp: enqueue_process_def upd_proc_def upd_queue_of_def Let_def split: option.splits)
  show "info (enqueue_process r s) = info s" unfolding e by (auto simp: info_def split: option.splits)
  show "sched_only s (enqueue_process r s)" "current_process (enqueue_process r s) = current_process s"
    unfolding e by (simp_all add: sched_only_def)
  have out: "proc_next (?P x) = proc_next (procs s x)" if "x \<notin> set (rq p)" "x \<noteq> r" for x
    using that tl by (auto split: option.splits)
  have pr: "priority (?P x) = priority (procs s x)" for x by (auto split: option.splits)
  have seg: "pseg ?P x rs y = pseg (procs s) x rs y" if "set rs \<inter> insert r (set (rq p)) = {}" for x rs y
    using out that by (intro pseg_cong) auto
  have que: "queue_ok ?P q rs = queue_ok (procs s) q rs" if "set rs \<inter> insert r (set (rq p)) = {}" for q rs
    using out that by (intro queue_ok_cong) auto
  have disj: "set fl \<inter> insert r (set (rq p)) = {}" "set sl \<inter> insert r (set (rq p)) = {}"
    using lists_disjoint(2,3) [OF l, of p] r unfolding unlisted_def by blast+
  have other: "set (rq p') \<inter> insert r (set (rq p)) = {}" if "p' \<noteq> p" for p'
    using lists_disjoint(4) [OF l that] r unfolding unlisted_def by blast
  have "queue_ok ?P ?Q (rq p @ [r])" using queue_ok_append [OF qok(1) _ qok(2), of r "procs s r"] r by (simp add: unlisted_def)
  then show "sched_lists (enqueue_process r s) fl (rq(p := rq p @ [r])) sl"
    using l r p seg [OF disj(1)] seg [OF disj(2)] que [OF other] unfolding e sched_lists_def unlisted_def
    by (auto simp: pr)
qed

lemma lists_cong:
  "procs t = procs s \<Longrightarrow> free_list t = free_list s \<Longrightarrow> queues t = queues s \<Longrightarrow> sleep_list t = sleep_list s \<Longrightarrow>
   sched_lists t = sched_lists s"
  by (intro ext) (simp add: sched_lists_def)

lemma current_update [simp]:
  "sched_lists (s\<lparr>current_process := c\<rparr>) = sched_lists s" "info (s\<lparr>current_process := c\<rparr>) = info s"
  by (simp_all add: sched_lists_def info_def fun_eq_iff)

lemma lists_apart:
  assumes "sched_lists s fl rq sl" and "r \<in> set (rq p)"
  shows "r \<notin> set fl" and "r \<notin> set sl"
  using lists_disjoint(2,3) [OF assms(1), of p] assms(2) by blast+

lemma lists_relink:
  assumes l: "sched_lists s fl rq sl"
    and Q: "\<And>x. x \<notin> X \<Longrightarrow> proc_next (Q x) = proc_next (procs s x)" "\<And>x. priority (Q x) = priority (procs s x)"
    and X: "\<And>p. X \<inter> set (rq p) = {}"
    and fl: "pseg Q f fl' None" and sl: "pseg Q z sl' None"
    and d: "distinct fl'" "distinct sl'" "set fl' \<inter> set sl' = {}" "\<And>p. set (rq p) \<inter> (set fl' \<union> set sl') = {}"
  shows "sched_lists (s\<lparr>procs := Q, free_list := f, sleep_list := z\<rparr>) fl' rq sl'"
proof -
  have "queue_ok Q q (rq p) = queue_ok (procs s) q (rq p)" for q p
    using Q(1) X [of p] by (intro queue_ok_cong) blast
  then show ?thesis using l fl sl d Q(2) unfolding sched_lists_def by simp
qed

lemma lists_allocate:
  assumes "sched_lists s (r # fl) rq sl"
  obtains t where "allocate_process s = (Some r, t)" and "sched_lists t fl rq sl" and "unlisted r fl rq sl"
    and "info t = info s" and "sched_only s t" and "current_process t = current_process s"
proof
  let ?Q = "(procs s)(r := (procs s r)\<lparr>proc_next := None\<rparr>)"
  let ?t = "s\<lparr>procs := ?Q, free_list := proc_next (procs s r), sleep_list := sleep_list s\<rparr>"
  note d = lists_disjoint [OF assms]
  have seg: "pseg (procs s) (free_list s) (r # fl) None" "pseg (procs s) (sleep_list s) sl None"
    using assms by (simp_all add: sched_lists_def)
  then show "allocate_process s = (Some r, ?t)" by (simp add: allocate_process_def upd_proc_def)
  show u: "unlisted r fl rq sl" using d(1,2,5) by (auto simp: unlisted_def)
  show "sched_lists ?t fl rq sl"
    by (rule lists_relink [OF assms, of "{r}"])
      (use seg u d(1,2,5,6) in \<open>auto simp: pseg_fresh unlisted_def dest: lists_apart [OF assms]\<close>)
  show "info ?t = info s" "sched_only s ?t" "current_process ?t = current_process s"
    by (auto simp: info_def sched_only_def)
qed

lemma lists_release:
  assumes l: "sched_lists s fl rq sl" and r: "unlisted r fl rq sl"
  shows "sched_lists (release_process r s) (r # fl) rq sl" and "info (release_process r s) = info s"
    and "sched_only s (release_process r s)" and "current_process (release_process r s) = current_process s"
proof -
  let ?Q = "(procs s)(r := (procs s r)\<lparr>proc_next := free_list s\<rparr>)"
  have e: "release_process r s = s\<lparr>procs := ?Q, free_list := Some r, sleep_list := sleep_list s\<rparr>"
    by (simp add: release_process_def upd_proc_def)
  note d = lists_disjoint [OF l]
  have seg: "pseg (procs s) (free_list s) fl None" "pseg (procs s) (sleep_list s) sl None"
    using l by (simp_all add: sched_lists_def)
  show "sched_lists (release_process r s) (r # fl) rq sl"
    unfolding e by (rule lists_relink [OF l, of "{r}"])
      (use seg r d(1,2,5,6) in \<open>auto simp: pseg_fresh unlisted_def dest: lists_apart [OF l]\<close>)
  show "info (release_process r s) = info s" "sched_only s (release_process r s)"
    "current_process (release_process r s) = current_process s"
    unfolding e by (auto simp: info_def sched_only_def)
qed

lemma lists_sleep:
  assumes l: "sched_lists s fl rq sl" and r: "unlisted r fl rq sl"
  shows "sched_lists (enqueue_sleep r s) fl rq (r # sl)" and "info (enqueue_sleep r s) = info s"
    and "sched_only s (enqueue_sleep r s)" and "current_process (enqueue_sleep r s) = current_process s"
proof -
  let ?Q = "(procs s)(r := (procs s r)\<lparr>proc_next := sleep_list s\<rparr>)"
  have e: "enqueue_sleep r s = s\<lparr>procs := ?Q, free_list := free_list s, sleep_list := Some r\<rparr>"
    by (simp add: enqueue_sleep_def upd_proc_def)
  note d = lists_disjoint [OF l]
  have seg: "pseg (procs s) (free_list s) fl None" "pseg (procs s) (sleep_list s) sl None"
    using l by (simp_all add: sched_lists_def)
  show "sched_lists (enqueue_sleep r s) fl rq (r # sl)"
    unfolding e by (rule lists_relink [OF l, of "{r}"])
      (use seg r d(1,2,5,6) in \<open>auto simp: pseg_fresh unlisted_def dest: lists_apart [OF l]\<close>)
  show "info (enqueue_sleep r s) = info s" "sched_only s (enqueue_sleep r s)"
    "current_process (enqueue_sleep r s) = current_process s"
    unfolding e by (auto simp: info_def sched_only_def)
qed

lemma lists_dequeue:
  assumes l: "sched_lists s fl rq sl" and rs: "rq p = r # rs"
  obtains t where "dequeue_process p s = (Some r, t)" and "sched_lists t fl (rq(p := rs)) sl"
    and "unlisted r fl (rq(p := rs)) sl" and "info t = info s" and "sched_only s t" and "current_process t = current_process s"
proof
  let ?P = "(procs s)(r := (procs s r)\<lparr>proc_next := None\<rparr>)" and ?q = "queues s p"
  let ?Q = "if proc_next (procs s r) = None then ?q\<lparr>queue_head := None, queue_tail := None\<rparr> else ?q\<lparr>queue_head := proc_next (procs s r)\<rparr>"
  let ?t = "s\<lparr>procs := ?P, queues := (queues s)(p := ?Q)\<rparr>"
  note d = lists_disjoint [OF l]
  have qok: "queue_ok (procs s) ?q (r # rs)" using l rs [symmetric] by (simp add: sched_lists_def)
  then show "dequeue_process p s = (Some r, ?t)"
    by (auto simp: dequeue_process_def upd_proc_def upd_queue_of_def Let_def queue_ok_def)
  have r: "r \<notin> set rs" "r \<notin> set fl" "r \<notin> set sl" using d(2,3,7) [of p] rs by auto
  have other: "r \<notin> set (rq p')" if "p' \<noteq> p" for p' using d(4) [OF that] rs by auto
  show "unlisted r fl (rq(p := rs)) sl" using r other by (auto simp: unlisted_def)
  have "queue_ok ?P (queues s p') (rq p')" if "p' \<noteq> p" for p'
    using l other [OF that] queue_ok_cong [of "rq p'" ?P "procs s"] unfolding sched_lists_def by fastforce
  moreover have "distinct rs" "\<forall>x \<in> set rs. priority (procs s x) = p" "set rs \<inter> (set fl \<union> set sl) = {}"
    using d(2,3,7) [of p] lists_prio [OF l, of _ p] rs by auto
  ultimately show "sched_lists ?t fl (rq(p := rs)) sl"
    using l r queue_ok_tl [OF qok r(1), of "procs s r"] unfolding sched_lists_def
    by (auto simp: pseg_fresh split: if_splits)
  show "info ?t = info s" "sched_only s ?t" "current_process ?t = current_process s"
    by (auto simp: info_def sched_only_def)
qed


lemma lists_unlink:
  assumes l: "sched_lists s fl rq (as @ c # cs)"
  defines "t \<equiv> (if as = [] then s\<lparr>sleep_list := proc_next (procs s c)\<rparr>
                else upd_proc (last as) (\<lambda>q. q\<lparr>proc_next := proc_next (procs s c)\<rparr>) s)"
  shows "sched_lists t fl rq (as @ cs)" and "unlisted c fl rq (as @ cs)" and "info t = info s" and "sched_only s t"
    and "current_process t = current_process s"
proof -
  note d = lists_disjoint [OF l]
  have seg: "pseg (procs s) (free_list s) fl None" "pseg (procs s) (sleep_list s) as (Some c)" "pseg (procs s) (proc_next (procs s c)) cs None"
    using l by (auto simp: sched_lists_def pseg_append)
  show "unlisted c fl rq (as @ cs)" using d(1,6) lists_apart(2) [OF l] by (auto simp: unlisted_def)
  show "info t = info s" "sched_only s t" "current_process t = current_process s"
    unfolding t_def by (auto simp: info_def sched_only_def upd_proc_def)
  show "sched_lists t fl rq (as @ cs)"
  proof (cases as rule: rev_cases)
    case Nil
    have "sched_lists (s\<lparr>procs := procs s, free_list := free_list s, sleep_list := proc_next (procs s c)\<rparr>) fl rq cs"
      by (rule lists_relink [OF l, of "{}"]) (use seg d(1,5,6) Nil in \<open>auto dest: lists_apart [OF l]\<close>)
    then show ?thesis by (simp add: t_def Nil)
  next
    case (snoc bs b)
    let ?Q = "(procs s)(b := (procs s b)\<lparr>proc_next := proc_next (procs s c)\<rparr>)"
    have b: "b \<notin> set bs" "b \<notin> set cs" "b \<notin> set fl" using d(1,6) by (auto simp: snoc)
    have "sched_lists (s\<lparr>procs := ?Q, free_list := free_list s, sleep_list := sleep_list s\<rparr>) fl rq (as @ cs)"
      by (rule lists_relink [OF l, of "{b}"])
        (use seg d(1,5,6) b in \<open>auto simp: snoc pseg_append pseg_fresh dest: lists_apart [OF l]\<close>)
    then show ?thesis by (simp add: t_def snoc upd_proc_def)
  qed
qed

text \<open>\<open>check_sleepers\<close> moves exactly the sleepers whose time has come to the ends of their queues.\<close>

definition due :: "'a sched_state_scheme \<Rightarrow> proc_ref \<Rightarrow> bool" where
  "due s r \<longleftrightarrow> ucast (wake_tick (procs s r)) \<le> tick_count s"

definition woken :: "'a sched_state_scheme \<Rightarrow> process_priority \<Rightarrow> proc_ref list \<Rightarrow> proc_ref list" where
  "woken s p rs = filter (\<lambda>r. due s r \<and> priority (procs s r) = p) rs"

lemma info_fields:
  assumes "info t = info s"
  shows "proc_state (procs t r) = proc_state (procs s r)" and "priority (procs t r) = priority (procs s r)"
    and "wake_tick (procs t r) = wake_tick (procs s r)" and "stack_ptr (procs t r) = stack_ptr (procs s r)"
    and "page_directory (procs t r) = page_directory (procs s r)"
  using info_eqD [of t r s r] assms by simp_all

text \<open>The blocks after \<open>check_sleepers\<close>.\<close>

definition woken_info :: "'a sched_state_scheme \<Rightarrow> proc_ref list \<Rightarrow> proc_ref \<Rightarrow> process" where
  "woken_info s sl r = (if r \<in> set sl \<and> due s r then (info s r)\<lparr>proc_state := PROCESS_STATE_READY\<rparr> else info s r)"

lemma wake_one:
  assumes l: "sched_lists s fl rq (as @ c # cs)" and p: "priority (procs s c) = p"
    and c: "due s c"
  defines "s1 \<equiv> (case if as = [] then None else Some (last as) of
      None \<Rightarrow> s\<lparr>sleep_list := proc_next (procs s c)\<rparr>
    | Some b \<Rightarrow> upd_proc b (\<lambda>q. q\<lparr>proc_next := proc_next (procs s c)\<rparr>) s)"
  defines "t \<equiv> enqueue_process c (upd_proc c (\<lambda>q. q\<lparr>proc_state := PROCESS_STATE_READY\<rparr>) s1)"
  shows "sched_lists t fl (rq(p := rq p @ [c])) (as @ cs)" and "info t = (info s)(c := (info s c)\<lparr>proc_state := PROCESS_STATE_READY\<rparr>)"
    and "sched_only s t" and "current_process t = current_process s"
proof -
  have s1: "s1 = (if as = [] then s\<lparr>sleep_list := proc_next (procs s c)\<rparr>
      else upd_proc (last as) (\<lambda>q. q\<lparr>proc_next := proc_next (procs s c)\<rparr>) s)" by (simp add: s1_def)
  note un = lists_unlink [OF l, folded s1]
  let ?s2 = "upd_proc c (\<lambda>q. q\<lparr>proc_state := PROCESS_STATE_READY\<rparr>) s1"
  have l2: "sched_lists ?s2 fl rq (as @ cs)" by (rule lists_upd [OF un(1)]) simp_all
  have p2: "priority (procs ?s2 c) = p" using info_fields(2) [OF un(3)] p by (simp add: upd_proc_def)
  note en = lists_enqueue [OF l2 un(2) p2, folded t_def]
  show "sched_lists t fl (rq(p := rq p @ [c])) (as @ cs)" by (rule en(1))
  have "info ?s2 = (info s1)(c := (info s1 c)\<lparr>proc_state := PROCESS_STATE_READY\<rparr>)"
    by (auto simp: info_def upd_proc_def)
  then show "info t = (info s)(c := (info s c)\<lparr>proc_state := PROCESS_STATE_READY\<rparr>)" using en(2) un(3) by simp
  show "sched_only s t" using sched_only_trans [OF sched_only_trans [OF un(4)] en(3)] by simp
  show "current_process t = current_process s" using en(4) un(5) by (simp add: upd_proc_def)
qed

lemma sleepers_loop_run:
  assumes "sched_lists s fl rq (as @ bs)"
  shows "\<exists>t. sleepers_loop (if as = [] then None else Some (last as)) (case bs of [] \<Rightarrow> None | b # _ \<Rightarrow> Some b) s = Some t \<and>
    sched_lists t fl (\<lambda>p. rq p @ woken s p bs) (as @ filter (\<lambda>r. \<not> due s r) bs) \<and> info t = woken_info s bs \<and>
    sched_only s t \<and> current_process t = current_process s"
  using assms
proof (induction bs arbitrary: as rq s)
  case Nil
  have "woken_info s [] = info s" by (intro ext) (simp add: woken_info_def)
  then show ?case using Nil by (subst sleepers_loop.simps) (simp add: woken_def)
next
  case (Cons c cs)
  let ?prev = "if as = [] then None else Some (last as)"
  have nxt: "proc_next (procs s c) = (case cs of [] \<Rightarrow> None | b # _ \<Rightarrow> Some b)"
    using Cons.prems by (cases cs) (auto simp: sched_lists_def pseg_append)
  show ?case
  proof (cases "due s c")
    case False
    have "sched_lists s fl rq ((as @ [c]) @ cs)" using Cons.prems by simp
    from Cons.IH [OF this] obtain t where t: "sleepers_loop (Some c) (case cs of [] \<Rightarrow> None | b # _ \<Rightarrow> Some b) s = Some t"
      "sched_lists t fl (\<lambda>p. rq p @ woken s p cs) (as @ c # filter (\<lambda>r. \<not> due s r) cs)" "info t = woken_info s cs"
      "sched_only s t" "current_process t = current_process s" by auto
    have "sleepers_loop ?prev (Some c) s = Some t"
      using t(1) False nxt by (subst sleepers_loop.simps) (simp add: due_def Let_def)
    moreover have "woken_info s (c # cs) = woken_info s cs" using False by (auto simp: woken_info_def)
    ultimately show ?thesis using t False by (simp add: woken_def)
  next
    case True
    let ?p = "priority (procs s c)"
    let ?s1 = "case ?prev of None \<Rightarrow> s\<lparr>sleep_list := proc_next (procs s c)\<rparr>
      | Some b \<Rightarrow> upd_proc b (\<lambda>q. q\<lparr>proc_next := proc_next (procs s c)\<rparr>) s"
    define t where "t = enqueue_process c (upd_proc c (\<lambda>q. q\<lparr>proc_state := PROCESS_STATE_READY\<rparr>) ?s1)"
    note w = wake_one [OF Cons.prems refl True, folded t_def]
    have other: "info t r = info s r" if "r \<noteq> c" for r using w(2) that by simp
    have c: "c \<notin> set cs" using lists_disjoint(6) [OF Cons.prems] by simp
    have due: "due t r = due s r" "priority (procs t r) = priority (procs s r)" if "r \<in> set cs" for r
    proof -
      have "r \<noteq> c" using that c by auto
      from info_eqD [OF other [OF this]] show "due t r = due s r" "priority (procs t r) = priority (procs s r)"
        using sched_onlyD(3) [OF w(3)] by (simp_all add: due_def)
    qed
    have "woken t p cs = woken s p cs" "filter (\<lambda>r. \<not> due t r) cs = filter (\<lambda>r. \<not> due s r) cs" for p
      unfolding woken_def using due by (auto intro!: filter_cong)
    moreover obtain u where u: "sleepers_loop ?prev (case cs of [] \<Rightarrow> None | b # _ \<Rightarrow> Some b) t = Some u"
      "sched_lists u fl (\<lambda>p. (rq(?p := rq ?p @ [c])) p @ woken t p cs) (as @ filter (\<lambda>r. \<not> due t r) cs)"
      "info u = woken_info t cs" "sched_only t u" "current_process u = current_process t"
      using Cons.IH [OF w(1)] by blast
    moreover have "sleepers_loop ?prev (Some c) s = Some u"
      using u(1) True unfolding nxt [symmetric] t_def by (subst sleepers_loop.simps) (auto simp: due_def Let_def)
    moreover have "(\<lambda>p. (rq(?p := rq ?p @ [c])) p @ woken s p cs) = (\<lambda>p. rq p @ woken s p (c # cs))"
      using True by (auto simp: woken_def)
    moreover have "woken_info t cs = woken_info s (c # cs)"
      using c True w(2) by (intro ext) (auto simp: woken_info_def due)
    ultimately show ?thesis using True w(3,4) sched_only_trans [OF w(3) u(4)] by simp
  qed
qed

lemma check_sleepers_run:
  assumes "sched_lists s fl rq sl"
  obtains t where "check_sleepers s = Some t" and "sched_lists t fl (\<lambda>p. rq p @ woken s p sl) (filter (\<lambda>r. \<not> due s r) sl)"
    and "info t = woken_info s sl" and "sched_only s t" and "current_process t = current_process s"
proof -
  have "sleep_list s = (case sl of [] \<Rightarrow> None | b # _ \<Rightarrow> Some b)"
    using assms by (cases sl) (auto simp: sched_lists_def)
  then show thesis using sleepers_loop_run [of s fl rq "[]" sl] assms that by (auto simp: check_sleepers_def)
qed

section \<open>Priorities in order\<close>

fun prio_num :: "process_priority \<Rightarrow> nat" where
  "prio_num PRIORITY_REALTIME = 0"
| "prio_num PRIORITY_HIGH = 1"
| "prio_num PRIORITY_NORMAL = 2"
| "prio_num PRIORITY_LOW = 3"

instantiation process_priority :: linorder
begin

definition less_eq_process_priority :: "process_priority \<Rightarrow> process_priority \<Rightarrow> bool" where
  "p \<le> q \<longleftrightarrow> prio_num p \<le> prio_num q"

definition less_process_priority :: "process_priority \<Rightarrow> process_priority \<Rightarrow> bool" where
  "p < q \<longleftrightarrow> prio_num p < prio_num q"

instance
proof
  fix p q :: process_priority
  assume "p \<le> q" and "q \<le> p"
  then show "p = q" by (cases p; cases q) (simp_all add: less_eq_process_priority_def)
qed (auto simp: less_eq_process_priority_def less_process_priority_def)

end

lemma prio_less_simps [simp]:
  "q < PRIORITY_REALTIME \<longleftrightarrow> False" "q < PRIORITY_HIGH \<longleftrightarrow> q = PRIORITY_REALTIME"
  "q < PRIORITY_NORMAL \<longleftrightarrow> q = PRIORITY_REALTIME \<or> q = PRIORITY_HIGH" "q < PRIORITY_LOW \<longleftrightarrow> q \<noteq> PRIORITY_LOW"
  by (cases q; simp add: less_process_priority_def)+

lemma pick_highest:
  assumes "sched_lists s fl rq sl" and "rq PRIORITY_LOW \<noteq> []"
  obtains p n rs where "pick_next_process s = Some n" and "rq p = n # rs" and "\<And>q. q < p \<Longrightarrow> rq q = []"
    and "priority (procs s n) = p"
proof -
  have head: "queue_head (queues s p) = (case rq p of [] \<Rightarrow> None | r # _ \<Rightarrow> Some r)" for p
    using assms(1) by (cases "rq p") (auto simp: sched_lists_def queue_ok_def dest!: spec [of _ p])
  have pick: "pick_next_process s = Some n" if "rq p = n # rs" "\<And>q. q < p \<Longrightarrow> rq q = []" for p n rs
    using that by (cases p) (simp_all add: pick_next_process_def head)
  define p where "p = (if rq PRIORITY_REALTIME \<noteq> [] then PRIORITY_REALTIME else if rq PRIORITY_HIGH \<noteq> [] then PRIORITY_HIGH
    else if rq PRIORITY_NORMAL \<noteq> [] then PRIORITY_NORMAL else PRIORITY_LOW)"
  have ne: "rq p \<noteq> []" using assms(2) by (simp add: p_def)
  have low: "rq q = []" if "q < p" for q using that by (cases q) (auto simp: p_def split: if_splits)
  from ne obtain n rs where n: "rq p = n # rs" by (cases "rq p") auto
  then have "priority (procs s n) = p" using lists_prio [OF assms(1), of n p] by simp
  from that [OF pick [OF n low] n low this] show thesis .
qed

section \<open>The scheduler's invariant\<close>

text \<open>
  Beyond the shape of the lists: the current process is in none of them, the sleep list holds sleeping processes, the ready
  queues hold runnable ones, and the idle process is either waiting in the lowest queue or running.
\<close>

definition sched_inv ::
    "'a sched_state_scheme \<Rightarrow> proc_ref list \<Rightarrow> (process_priority \<Rightarrow> proc_ref list) \<Rightarrow> proc_ref list \<Rightarrow> bool" where
  "sched_inv s fl rq sl \<longleftrightarrow> sched_lists s fl rq sl \<and>
     (\<forall>c. current_process s = Some c \<longrightarrow> unlisted c fl rq sl) \<and>
     (\<forall>r \<in> set sl. state_of s r = PROCESS_STATE_SLEEPING) \<and>
     (\<forall>p. \<forall>r \<in> set (rq p). state_of s r \<in> {PROCESS_STATE_READY, PROCESS_STATE_RUNNING}) \<and>
     (Idle \<in> set (rq PRIORITY_LOW) \<or>
        current_process s = Some Idle \<and> state_of s Idle = PROCESS_STATE_RUNNING \<and> priority (procs s Idle) = PRIORITY_LOW) \<and>
     set fl \<union> set sl \<subseteq> set all_procs \<and> (\<forall>p. set (rq p) \<subseteq> set all_procs) \<and> set_option (current_process s) \<subseteq> set all_procs"

text \<open>The lists read off a state. A list has at most 65 blocks, so the bound never cuts one short.\<close>

definition ready_list :: "process_priority \<Rightarrow> 'a sched_state_scheme \<Rightarrow> proc_ref list" where
  "ready_list p s = follow 65 (procs s) (queue_head (queues s p))"

definition free_procs :: "'a sched_state_scheme \<Rightarrow> proc_ref list" where
  "free_procs s = follow 65 (procs s) (free_list s)"

definition sleepers :: "'a sched_state_scheme \<Rightarrow> proc_ref list" where
  "sleepers s = follow 65 (procs s) (sleep_list s)"

definition sched_ok :: "'a sched_state_scheme \<Rightarrow> bool" where
  "sched_ok s \<longleftrightarrow> sched_inv s (free_procs s) (\<lambda>p. ready_list p s) (sleepers s)"

lemma sched_inv_lists:
  assumes "sched_inv s fl rq sl"
  shows "free_procs s = fl" and "ready_list p s = rq p" and "sleepers s = sl" and "sched_ok s"
proof -
  have l: "sched_lists s fl rq sl" and sub: "set fl \<subseteq> set all_procs" "set sl \<subseteq> set all_procs" "\<And>p. set (rq p) \<subseteq> set all_procs"
    using assms by (simp_all add: sched_inv_def)
  note d = lists_disjoint [OF l]
  have f: "free_procs s = fl" unfolding free_procs_def
    using l all_procs_bound [OF d(5) sub(1)] by (intro follow_pseg) (auto simp: sched_lists_def)
  have q: "ready_list p s = rq p" for p unfolding ready_list_def
    using l all_procs_bound [OF d(7) sub(3)] by (intro follow_pseg) (auto simp: sched_lists_def queue_ok_def)
  have z: "sleepers s = sl" unfolding sleepers_def
    using l all_procs_bound [OF d(6) sub(2)] by (intro follow_pseg) (auto simp: sched_lists_def)
  show "free_procs s = fl" "ready_list p s = rq p" "sleepers s = sl" "sched_ok s"
    using f q z assms by (simp_all add: sched_ok_def)
qed

section \<open>One tick of the scheduler\<close>

lemma push32_frame [simp]:
  "procs (push32 v s) = procs s" "free_list (push32 v s) = free_list s" "queues (push32 v s) = queues s" "sleep_list (push32 v s) = sleep_list s"
  "current_process (push32 v s) = current_process s" "tick_count (push32 v s) = tick_count s" "cr3 (push32 v s) = cr3 s" "pmm (push32 v s) = pmm s"
  "next_pid (push32 v s) = next_pid s" "pcb_addr (push32 v s) = pcb_addr s" "tick_return (push32 v s) = tick_return s" "trampoline_addr (push32 v s) = trampoline_addr s"
  "esp (regs (push32 v s)) = esp (regs s) - 4"
  by (simp_all add: push32_def Let_def)

lemma pop32_frame [simp]:
  "procs (pop32 g s) = procs s" "free_list (pop32 g s) = free_list s" "queues (pop32 g s) = queues s" "sleep_list (pop32 g s) = sleep_list s"
  "current_process (pop32 g s) = current_process s" "tick_count (pop32 g s) = tick_count s" "cr3 (pop32 g s) = cr3 s" "pmm (pop32 g s) = pmm s"
  "next_pid (pop32 g s) = next_pid s" "pcb_addr (pop32 g s) = pcb_addr s" "tick_return (pop32 g s) = tick_return s" "trampoline_addr (pop32 g s) = trampoline_addr s"
  "mem (pop32 g s) = mem s"
  by (simp_all add: pop32_def Let_def)

lemma call_context_switch_frame [simp]:
  "procs (call_context_switch old n s) = (case old of None \<Rightarrow> procs s
     | Some r \<Rightarrow> (procs s)(r := (procs s r)\<lparr>stack_ptr := esp (regs s) - 28\<rparr>))"
  "free_list (call_context_switch old n s) = free_list s" "queues (call_context_switch old n s) = queues s"
  "sleep_list (call_context_switch old n s) = sleep_list s" "current_process (call_context_switch old n s) = current_process s"
  "tick_count (call_context_switch old n s) = tick_count s" "cr3 (call_context_switch old n s) = cr3 s"
  "pmm (call_context_switch old n s) = pmm s" "next_pid (call_context_switch old n s) = next_pid s"
  by (cases old; simp add: call_context_switch_def context_switch_def save_stack_ptr_def upd_proc_def Let_def)+

definition back_ready :: "'a sched_state_scheme \<Rightarrow> process_priority \<Rightarrow> proc_ref list" where
  "back_ready s p = (case current_process s of None \<Rightarrow> []
     | Some c \<Rightarrow> if state_of s c = PROCESS_STATE_RUNNING \<and> priority (procs s c) = p then [c] else [])"

definition back_asleep :: "'a sched_state_scheme \<Rightarrow> proc_ref list" where
  "back_asleep s = (case current_process s of None \<Rightarrow> []
     | Some c \<Rightarrow> if state_of s c = PROCESS_STATE_SLEEPING then [c] else [])"

definition charged_info :: "u32 \<Rightarrow> 'a sched_state_scheme \<Rightarrow> proc_ref \<Rightarrow> process" where
  "charged_info d s r =
     (if current_process s = Some r \<and> state_of s r = PROCESS_STATE_RUNNING
      then (info s r)\<lparr>cpu_time_ms := cpu_time_ms (info s r) + d, proc_state := PROCESS_STATE_READY\<rparr>
      else if current_process s = Some r \<and> state_of s r = PROCESS_STATE_SLEEPING
      then (info s r)\<lparr>cpu_time_ms := cpu_time_ms (info s r) + d\<rparr>
      else info s r)"

lemma requeue_run:
  assumes l: "sched_lists s fl rq sl" and cur: "\<And>c. current_process s = Some c \<Longrightarrow> unlisted c fl rq sl"
  shows "sched_lists (requeue_current d s) fl (\<lambda>p. rq p @ back_ready s p) (back_asleep s @ sl)"
    and "info (requeue_current d s) = charged_info d s" and "sched_only s (requeue_current d s)"
proof -
  let ?A = "sched_lists (requeue_current d s) fl (\<lambda>p. rq p @ back_ready s p) (back_asleep s @ sl) \<and>
    info (requeue_current d s) = charged_info d s \<and> sched_only s (requeue_current d s)"
  have "?A"
  proof (cases "current_process s")
    case None
    then show ?thesis using l by (auto simp: requeue_current_def back_ready_def back_asleep_def charged_info_def)
  next
    case (Some c)
    consider (run) "state_of s c = PROCESS_STATE_RUNNING" | (slp) "state_of s c = PROCESS_STATE_SLEEPING"
      | (other) "state_of s c \<noteq> PROCESS_STATE_RUNNING" "state_of s c \<noteq> PROCESS_STATE_SLEEPING" by blast
    then show ?thesis
    proof cases
      case run
      let ?f = "\<lambda>p. p\<lparr>cpu_time_ms := cpu_time_ms p + d, proc_state := PROCESS_STATE_READY\<rparr>"
      have "sched_lists (upd_proc c ?f s) fl rq sl" by (rule lists_upd [OF l]) simp_all
      note e = lists_enqueue [OF this cur [OF Some] refl]
      have "(\<lambda>p. rq p @ back_ready s p) = rq(priority (procs s c) := rq (priority (procs s c)) @ [c])"
        using Some run by (auto simp: back_ready_def)
      moreover have "priority (procs (upd_proc c ?f s) c) = priority (procs s c)" by (simp add: upd_proc_def)
      moreover have "info (upd_proc c ?f s) = charged_info d s"
        using Some run by (intro ext) (auto simp: info_def upd_proc_def charged_info_def)
      ultimately show ?thesis using Some run e(1,2) sched_only_trans [OF sched_only_updates(1) e(3)]
        by (auto simp: requeue_current_def back_asleep_def
            intro: sched_only_trans [OF _ sched_only_updates(5)])
    next
      case slp
      let ?f = "\<lambda>p. p\<lparr>cpu_time_ms := cpu_time_ms p + d\<rparr>"
      have "sched_lists (upd_proc c ?f s) fl rq sl" by (rule lists_upd [OF l]) simp_all
      note e = lists_sleep [OF this cur [OF Some]]
      have "info (upd_proc c ?f s) = charged_info d s"
        using Some slp by (intro ext) (auto simp: info_def upd_proc_def charged_info_def)
      then show ?thesis using Some slp e(1,2) sched_only_trans [OF sched_only_updates(1) e(3)]
        by (auto simp: requeue_current_def back_asleep_def back_ready_def
            intro: sched_only_trans [OF _ sched_only_updates(5)])
    next
      case other
      then show ?thesis using Some l
        by (auto simp: requeue_current_def back_ready_def back_asleep_def charged_info_def)
    qed
  qed
  then show "sched_lists (requeue_current d s) fl (\<lambda>p. rq p @ back_ready s p) (back_asleep s @ sl)"
    "info (requeue_current d s) = charged_info d s" "sched_only s (requeue_current d s)" by simp_all
qed

lemma dispatch_run:
  assumes l: "sched_lists s fl rq sl" and "rq PRIORITY_LOW \<noteq> []"
  obtains p n rs t where "dispatch_next s = (n, t)" and "rq p = n # rs" and "\<And>q. q < p \<Longrightarrow> rq q = []"
    and "sched_lists t fl (rq(p := rs)) sl" and "unlisted n fl (rq(p := rs)) sl"
    and "info t = (info s)(n := (info s n)\<lparr>proc_state := PROCESS_STATE_RUNNING\<rparr>)" and "current_process t = Some n" and "sched_only s t"
proof -
  from assms obtain p n rs where pk: "pick_next_process s = Some n" "rq p = n # rs" "\<And>q. q < p \<Longrightarrow> rq q = []" "priority (procs s n) = p"
    by (rule pick_highest) blast
  from l pk(2) obtain u where u: "dequeue_process p s = (Some n, u)" "sched_lists u fl (rq(p := rs)) sl"
    "unlisted n fl (rq(p := rs)) sl" "info u = info s" "sched_only s u"
    by (rule lists_dequeue) blast
  let ?f = "\<lambda>p. p\<lparr>proc_state := PROCESS_STATE_RUNNING\<rparr>"
  let ?t = "(upd_proc n ?f u)\<lparr>current_process := Some n\<rparr>"
  have "dispatch_next s = (n, ?t)" using pk(1,4) u(1) by (simp add: dispatch_next_def)
  moreover have "sched_lists (upd_proc n ?f u) fl (rq(p := rs)) sl" by (rule lists_upd [OF u(2)]) simp_all
  then have "sched_lists ?t fl (rq(p := rs)) sl" by simp
  moreover have "info ?t = (info u)(n := (info u n)\<lparr>proc_state := PROCESS_STATE_RUNNING\<rparr>)"
    by (intro ext) (simp add: info_def upd_proc_def)
  moreover have "sched_only s ?t"
    by (rule sched_only_trans [OF sched_only_trans [OF u(5) sched_only_updates(1)] sched_only_updates(5)])
  ultimately show thesis using that pk(2,3) u(3,4) by simp
qed

text \<open>The ready queues, the sleep list and the blocks between requeueing and dispatch, in terms of the state before the
  tick.\<close>

definition tick_ready :: "'a sched_state_scheme \<Rightarrow> process_priority \<Rightarrow> proc_ref list" where
  "tick_ready s p = ready_list p s @ woken s p (sleepers s) @ back_ready s p"

definition tick_asleep :: "'a sched_state_scheme \<Rightarrow> proc_ref list" where
  "tick_asleep s = back_asleep s @ filter (\<lambda>r. \<not> due s r) (sleepers s)"

definition tick_info :: "u32 \<Rightarrow> 'a sched_state_scheme \<Rightarrow> proc_ref \<Rightarrow> process" where
  "tick_info d s r = (if r \<in> set (sleepers s) then woken_info s (sleepers s) r else charged_info d s r)"

lemma tick_queues:
  assumes inv: "sched_inv s fl rq sl"
  obtains s1 p n rs s2 where "check_sleepers s = Some s1" and "dispatch_next (requeue_current d s1) = (n, s2)"
    and "tick_ready s p = n # rs" and "\<And>q. q < p \<Longrightarrow> tick_ready s q = []"
    and "sched_lists s2 fl ((tick_ready s)(p := rs)) (tick_asleep s)" and "unlisted n fl ((tick_ready s)(p := rs)) (tick_asleep s)"
    and "info s2 = (tick_info d s)(n := (tick_info d s n)\<lparr>proc_state := PROCESS_STATE_RUNNING\<rparr>)"
    and "current_process s2 = Some n" and "sched_only s s2"
proof -
  have l: "sched_lists s fl rq sl" and cur: "\<And>c. current_process s = Some c \<Longrightarrow> unlisted c fl rq sl"
    using inv by (auto simp: sched_inv_def)
  note eq = sched_inv_lists [OF inv]
  from l obtain s1 where s1: "check_sleepers s = Some s1"
    "sched_lists s1 fl (\<lambda>p. rq p @ woken s p sl) (filter (\<lambda>r. \<not> due s r) sl)"
    "info s1 = woken_info s sl" "sched_only s s1" "current_process s1 = current_process s"
    by (rule check_sleepers_run) blast
  have "unlisted c fl (\<lambda>p. rq p @ woken s p sl) (filter (\<lambda>r. \<not> due s r) sl)" if "current_process s1 = Some c" for c
    using cur [of c] that s1(5) by (auto simp: unlisted_def woken_def)
  note rr = requeue_run [OF s1(2) this, of d]
  have ci: "info s1 c = info s c" if "current_process s = Some c" for c
    using cur [OF that] s1(3) by (simp add: woken_info_def unlisted_def)
  have br: "back_ready s1 = back_ready s" "back_asleep s1 = back_asleep s"
    using s1(5) info_eqD(1,2) [OF ci] by (auto simp: back_ready_def back_asleep_def fun_eq_iff split: option.splits)
  have ti: "charged_info d s1 = tick_info d s"
  proof (rule ext)
    fix r
    show "charged_info d s1 r = tick_info d s r"
    proof (cases "current_process s = Some r")
      case True
      then have "r \<notin> set sl" using cur by (auto simp: unlisted_def)
      then show ?thesis using True ci [OF True] s1(5) info_eqD(1) [OF ci [OF True]] by (simp add: tick_info_def charged_info_def eq(3))
    next
      case False
      then show ?thesis using s1(3,5) by (simp add: tick_info_def charged_info_def eq(3) woken_info_def)
    qed
  qed
  have tr: "(\<lambda>p. (rq p @ woken s p sl) @ back_ready s1 p) = tick_ready s" "back_asleep s1 @ filter (\<lambda>r. \<not> due s r) sl = tick_asleep s"
    by (simp_all add: tick_ready_def tick_asleep_def eq br fun_eq_iff)
  have "Idle \<in> set (tick_ready s PRIORITY_LOW)"
    using inv by (auto simp: sched_inv_def tick_ready_def eq back_ready_def)
  then have ne: "tick_ready s PRIORITY_LOW \<noteq> []" by auto
  have "sched_lists (requeue_current d s1) fl (tick_ready s) (tick_asleep s)" using rr(1) unfolding tr .
  from this ne obtain p n rs s2 where s2: "dispatch_next (requeue_current d s1) = (n, s2)" "tick_ready s p = n # rs"
    "\<And>q. q < p \<Longrightarrow> tick_ready s q = []" "sched_lists s2 fl ((tick_ready s)(p := rs)) (tick_asleep s)"
    "unlisted n fl ((tick_ready s)(p := rs)) (tick_asleep s)"
    "info s2 = (info (requeue_current d s1))(n := (info (requeue_current d s1) n)\<lparr>proc_state := PROCESS_STATE_RUNNING\<rparr>)"
    "current_process s2 = Some n" "sched_only (requeue_current d s1) s2"
    by (rule dispatch_run [where 'a = 'a]) blast
  have "sched_only s s2" by (rule sched_only_trans [OF sched_only_trans [OF s1(4) rr(3)] s2(8)])
  moreover have "info s2 = (tick_info d s)(n := (tick_info d s n)\<lparr>proc_state := PROCESS_STATE_RUNNING\<rparr>)"
    using s2(6) rr(2) ti by simp
  ultimately show thesis using s1(1) s2(1-5,7) by (intro that)
qed

lemma info_state: "proc_state (info s r) = state_of s r" "priority (info s r) = priority (procs s r)"
  by (simp_all add: info_def)

lemma tick_states:
  assumes inv: "sched_inv s fl rq sl"
  shows "r \<in> set (tick_asleep s) \<Longrightarrow> proc_state (tick_info d s r) = PROCESS_STATE_SLEEPING"
    and "r \<in> set (tick_ready s p) \<Longrightarrow> proc_state (tick_info d s r) \<in> {PROCESS_STATE_READY, PROCESS_STATE_RUNNING}"
    and "priority (tick_info d s r) = priority (procs s r)"
    and "Idle \<in> set (tick_ready s PRIORITY_LOW)"
    and "set (tick_asleep s) \<union> set (tick_ready s p) \<subseteq> set all_procs"
proof -
  note eq = sched_inv_lists [OF inv]
  have l: "sched_lists s fl rq sl" and cur: "\<And>c. current_process s = Some c \<Longrightarrow> unlisted c fl rq sl"
    and st: "\<And>r. r \<in> set sl \<Longrightarrow> state_of s r = PROCESS_STATE_SLEEPING"
    "\<And>r p. r \<in> set (rq p) \<Longrightarrow> state_of s r \<in> {PROCESS_STATE_READY, PROCESS_STATE_RUNNING}"
    and sub: "set sl \<subseteq> set all_procs" "\<And>p. set (rq p) \<subseteq> set all_procs" "set_option (current_process s) \<subseteq> set all_procs"
    using inv by (auto simp: sched_inv_def)
  show "priority (tick_info d s r) = priority (procs s r)"
    by (simp add: tick_info_def woken_info_def charged_info_def info_state)
  show "Idle \<in> set (tick_ready s PRIORITY_LOW)"
    using inv by (auto simp: sched_inv_def tick_ready_def eq back_ready_def)
  have apart_cur: "r \<notin> set sl" if "current_process s = Some r" using cur [OF that] by (simp add: unlisted_def)
  have asleep: "current_process s = Some r \<and> state_of s r = PROCESS_STATE_SLEEPING" if "r \<in> set (back_asleep s)"
    using that by (simp add: back_asleep_def split: option.splits if_splits)
  have ready: "current_process s = Some r \<and> state_of s r = PROCESS_STATE_RUNNING" if "r \<in> set (back_ready s p)"
    using that by (simp add: back_ready_def split: option.splits if_splits)
  show "proc_state (tick_info d s r) = PROCESS_STATE_SLEEPING" if "r \<in> set (tick_asleep s)"
    using that apart_cur asleep st(1) [of r]
    by (auto simp: tick_asleep_def eq(3) tick_info_def charged_info_def woken_info_def info_state)
  show "proc_state (tick_info d s r) \<in> {PROCESS_STATE_READY, PROCESS_STATE_RUNNING}" if "r \<in> set (tick_ready s p)"
    using that apart_cur ready st(2) [of r p] lists_apart(2) [OF l, of r p]
    by (auto simp: tick_ready_def tick_info_def charged_info_def woken_info_def woken_def eq info_state)
  show "set (tick_asleep s) \<union> set (tick_ready s p) \<subseteq> set all_procs"
    using sub by (auto simp: tick_ready_def tick_asleep_def back_ready_def back_asleep_def woken_def eq split: option.splits if_splits)
qed

lemma inv_switch:
  assumes "sched_inv s fl rq sl"
  shows "sched_inv (vmm_switch_directory dir s) fl rq sl" and "sched_inv (call_context_switch old n s) fl rq sl"
proof -
  show "sched_inv (vmm_switch_directory dir s) fl rq sl"
    using assms by (simp add: sched_inv_def sched_lists_def vmm_switch_directory_def)
  let ?t = "call_context_switch old n s"
  have nx: "proc_next (procs ?t r) = proc_next (procs s r)" and st: "state_of ?t r = state_of s r"
    and pr: "priority (procs ?t r) = priority (procs s r)" for r
    by (simp_all split: option.splits)
  have "sched_lists ?t = sched_lists s"
    using pseg_cong [of _ "procs ?t" "procs s", OF nx] queue_ok_cong [of _ "procs ?t" "procs s", OF nx]
    by (intro ext) (simp add: sched_lists_def pr del: call_context_switch_frame(1))
  then show "sched_inv ?t fl rq sl"
    using assms by (simp add: sched_inv_def st pr del: call_context_switch_frame(1))
qed

lemma info_more:
  "stack_ptr (info s r) = stack_ptr (procs s r)" "page_directory (info s r) = page_directory (procs s r)"
  "wake_tick (info s r) = wake_tick (procs s r)" "cpu_time_ms (info s r) = cpu_time_ms (procs s r)"
  by (simp_all add: info_def)

lemma tick_info_more:
  "stack_ptr (tick_info d s r) = stack_ptr (procs s r)" "page_directory (tick_info d s r) = page_directory (procs s r)"
  "wake_tick (tick_info d s r) = wake_tick (procs s r)"
  by (simp_all add: tick_info_def woken_info_def charged_info_def info_more)

lemma tick_ready_prio:
  assumes "sched_inv s fl rq sl" and "r \<in> set (tick_ready s p)"
  shows "priority (procs s r) = p"
  using assms lists_prio [of s fl rq sl r p] sched_inv_lists(2) [OF assms(1)]
  by (auto simp: sched_inv_def tick_ready_def woken_def back_ready_def split: option.splits if_splits)

lemma tick_run:
  assumes inv: "sched_inv s fl rq sl"
  obtains t s2 p n rs where "scheduler_tick d s = Some t" and "tick_ready s p = n # rs" and "\<And>q. q < p \<Longrightarrow> tick_ready s q = []"
    and "sched_inv t fl ((tick_ready s)(p := rs)) (tick_asleep s)" and "current_process t = Some n"
    and "state_of t n = PROCESS_STATE_RUNNING" and "sched_only s s2"
    and "info s2 = (tick_info d s)(n := (tick_info d s n)\<lparr>proc_state := PROCESS_STATE_RUNNING\<rparr>)"
    and "t = (if current_process s = Some n then s2
       else call_context_switch (current_process s) (stack_ptr (procs s n))
         (if page_directory (procs s n) = 0 then s2 else vmm_switch_directory (page_directory (procs s n)) s2))"
proof -
  from inv obtain s1 p n rs s2 where q: "check_sleepers s = Some s1" "dispatch_next (requeue_current d s1) = (n, s2)"
    "tick_ready s p = n # rs" "\<And>q. q < p \<Longrightarrow> tick_ready s q = []"
    "sched_lists s2 fl ((tick_ready s)(p := rs)) (tick_asleep s)" "unlisted n fl ((tick_ready s)(p := rs)) (tick_asleep s)"
    "info s2 = (tick_info d s)(n := (tick_info d s n)\<lparr>proc_state := PROCESS_STATE_RUNNING\<rparr>)"
    "current_process s2 = Some n" "sched_only s s2"
    by (rule tick_queues [where d = d]) blast
  note ts = tick_states [OF inv]
  have i: "info s2 r = tick_info d s r" if "r \<noteq> n" for r using q(7) that by simp
  have st: "state_of s2 r = (if r = n then PROCESS_STATE_RUNNING else proc_state (tick_info d s r))" for r
    using fun_cong [OF q(7), of r] by (auto simp: info_state(1) [symmetric])
  have pr: "priority (procs s2 r) = priority (procs s r)" for r
    using fun_cong [OF q(7), of r] ts(3) [of d r] by (auto simp: info_state(2) [symmetric])
  have rs: "n \<notin> set rs" "n \<notin> set (tick_asleep s)" "q \<noteq> p \<Longrightarrow> n \<notin> set (tick_ready s q)" for q
    using q(6) by (auto simp: unlisted_def split: if_splits)
  have low: "priority (procs s Idle) = PRIORITY_LOW" by (rule tick_ready_prio [OF inv ts(4)])
  have np: "priority (procs s n) = p" using tick_ready_prio [OF inv, of n p] q(3) by simp
  let ?rq = "(tick_ready s)(p := rs)"
  have idle: "Idle \<in> set (?rq PRIORITY_LOW) \<or>
    current_process s2 = Some Idle \<and> state_of s2 Idle = PROCESS_STATE_RUNNING \<and> priority (procs s2 Idle) = PRIORITY_LOW"
  proof (cases "n = Idle")
    case True
    then show ?thesis using low q(8) st [of n] pr [of n] by simp
  next
    case False
    then show ?thesis using ts(4) q(3) by auto
  qed
  have sub: "set (?rq q) \<subseteq> set (tick_ready s q)" for q using q(3) by auto
  have "set fl \<subseteq> set all_procs" using inv by (simp add: sched_inv_def)
  moreover have "n \<in> set all_procs" "set (tick_asleep s) \<subseteq> set all_procs" "\<And>q. set (?rq q) \<subseteq> set all_procs"
    using ts(5) [of p] order_trans [OF sub] ts(5) q(3) by auto
  moreover have "state_of s2 r = PROCESS_STATE_SLEEPING" if "r \<in> set (tick_asleep s)" for r
    using ts(1) [OF that, of d] that rs(2) by (auto simp: st)
  moreover have "state_of s2 r \<in> {PROCESS_STATE_READY, PROCESS_STATE_RUNNING}" if "r \<in> set (?rq q)" for r q
    using ts(2) [of r q d] that sub [of q] by (auto simp: st)
  ultimately have inv2: "sched_inv s2 fl ?rq (tick_asleep s)"
    unfolding sched_inv_def using q(5,6,8) idle by (auto simp del: fun_upd_apply)
  let ?u = "if page_directory (procs s n) = 0 then s2 else vmm_switch_directory (page_directory (procs s n)) s2"
  let ?t = "if current_process s = Some n then s2 else call_context_switch (current_process s) (stack_ptr (procs s n)) ?u"
  have "stack_ptr (procs s2 n) = stack_ptr (procs s n)" "page_directory (procs s2 n) = page_directory (procs s n)"
    using arg_cong [OF fun_cong [OF q(7), of n], of stack_ptr] arg_cong [OF fun_cong [OF q(7), of n], of page_directory]
    by (simp_all add: info_more tick_info_more)
  then have "scheduler_tick d s = Some ?t"
    using q(1,2) by (simp add: scheduler_tick_def Let_def vmm_switch_directory_def)
  moreover have "sched_inv ?t fl ?rq (tick_asleep s)" using inv2 by (simp add: inv_switch)
  moreover have "current_process ?t = Some n" "state_of ?t n = PROCESS_STATE_RUNNING"
    using q(8) st [of n] by (simp_all add: vmm_switch_directory_def split: option.splits)
  ultimately show thesis using q(3,4,7,9) by (intro that [OF _ _ _ _ _ _ _ _ refl])
qed

lemma tick_outcome:
  assumes "sched_ok s"
  obtains t n p where "scheduler_tick d s = Some t" and "sched_ok t" and "current_process t = Some n"
    and "state_of t n = PROCESS_STATE_RUNNING" and "\<And>q. q < p \<Longrightarrow> tick_ready s q = []" and "tick_ready s p = n # ready_list p t"
    and "\<And>q. q \<noteq> p \<Longrightarrow> ready_list q t = tick_ready s q" and "sleepers t = tick_asleep s" and "free_procs t = free_procs s"
    and "\<And>r. cpu_time_ms (procs t r) = cpu_time_ms (procs s r) +
       (if current_process s = Some r \<and> state_of s r \<in> {PROCESS_STATE_RUNNING, PROCESS_STATE_SLEEPING} then d else 0)"
    and "\<And>r. priority (procs t r) = priority (procs s r)" and "\<And>r. wake_tick (procs t r) = wake_tick (procs s r)"
    and "priority (procs s n) = p"
proof -
  have inv: "sched_inv s (free_procs s) (\<lambda>p. ready_list p s) (sleepers s)" using assms by (simp add: sched_ok_def)
  then obtain t s2 p n rs where t: "scheduler_tick d s = Some t" "tick_ready s p = n # rs" "\<And>q. q < p \<Longrightarrow> tick_ready s q = []"
    "sched_inv t (free_procs s) ((tick_ready s)(p := rs)) (tick_asleep s)" "current_process t = Some n"
    "state_of t n = PROCESS_STATE_RUNNING"
    "info s2 = (tick_info d s)(n := (tick_info d s n)\<lparr>proc_state := PROCESS_STATE_RUNNING\<rparr>)"
    "t = (if current_process s = Some n then s2
       else call_context_switch (current_process s) (stack_ptr (procs s n))
         (if page_directory (procs s n) = 0 then s2 else vmm_switch_directory (page_directory (procs s n)) s2))"
    by (rule tick_run [where d = d]) blast
  have cpu: "cpu_time_ms (procs t r) = cpu_time_ms (procs s2 r)" for r
    by (simp add: t(8) vmm_switch_directory_def split: option.splits)
  have notsl: "current_process s = Some r \<Longrightarrow> r \<notin> set (sleepers s)" for r
    using inv by (simp add: sched_inv_def unlisted_def)
  have "cpu_time_ms (procs s2 r) = cpu_time_ms (tick_info d s r)" for r
    using arg_cong [OF fun_cong [OF t(7), of r], of cpu_time_ms] by (simp add: info_more split: if_splits)
  moreover have "cpu_time_ms (tick_info d s r) = cpu_time_ms (procs s r) +
       (if current_process s = Some r \<and> state_of s r \<in> {PROCESS_STATE_RUNNING, PROCESS_STATE_SLEEPING} then d else 0)" for r
    using notsl [of r] by (auto simp: tick_info_def woken_info_def charged_info_def info_more)
  moreover have "priority (procs t r) = priority (procs s2 r)" "wake_tick (procs t r) = wake_tick (procs s2 r)" for r
    by (simp_all add: t(8) vmm_switch_directory_def split: option.splits)
  moreover have "priority (procs s2 r) = priority (procs s r)" "wake_tick (procs s2 r) = wake_tick (procs s r)" for r
    using arg_cong [OF fun_cong [OF t(7), of r], of priority] arg_cong [OF fun_cong [OF t(7), of r], of wake_tick]
      tick_states(3) [OF inv] by (simp_all add: info_more info_state tick_info_more split: if_splits)
  moreover have "priority (procs s n) = p" using tick_ready_prio [OF inv, of n p] t(2) by simp
  ultimately show thesis using t(1-3,5,6) sched_inv_lists [OF t(4)] cpu by (intro that [of t n p]) simp_all
qed

text \<open>
  C3: One call of \<open>scheduler_tick\<close> from a state that satisfies the invariant returns and keeps the
  invariant. It behaves as the abstract scheduler: the sleepers whose time has come are appended, in the order of the sleep list, to
  the queue of their priority, then the process that was running goes to the end of its queue (or to the front of the sleep list when
  it went to sleep); the process that runs next is the first of the highest non-empty queue, and nothing else moves. Only
  the process that was current is charged the elapsed time.
\<close>

theorem scheduler_tick_correct:
  assumes "sched_ok s"
  shows "\<exists>t n p. scheduler_tick d s = Some t \<and> sched_ok t \<and>
    current_process t = Some n \<and> state_of t n = PROCESS_STATE_RUNNING \<and>
    (\<forall>q < p. tick_ready s q = []) \<and> tick_ready s p = n # ready_list p t \<and> (\<forall>q. q \<noteq> p \<longrightarrow> ready_list q t = tick_ready s q) \<and>
    sleepers t = tick_asleep s \<and> free_procs t = free_procs s \<and>
    (\<forall>r. cpu_time_ms (procs t r) = cpu_time_ms (procs s r) +
       (if current_process s = Some r \<and> state_of s r \<in> {PROCESS_STATE_RUNNING, PROCESS_STATE_SLEEPING} then d else 0))"
proof -
  from assms show ?thesis by (rule tick_outcome [where d = d]) blast
qed

end
