(* ===== verification/SchedulerRuns.thy ===== *)
theory SchedulerRuns
  imports Scheduler
begin

text \<open>
  The scheduler of \<^verbatim>\<open>kernel/process/scheduler.c\<close> over time: its initialisation, round robin,
  the creation of processes, the states it can reach, what a context switch saves and restores, sleeping
  and yielding, and the ready queues as an instance of the interface \<open>fifo\<close>.
\<close>

section \<open>Initialisation\<close>

lemma pool_chain:
  assumes "\<And>i. k \<le> i \<Longrightarrow> i < k + n \<Longrightarrow> proc_next (P (Pool i)) = (if i + 1 < k + n then Some (Pool (i + 1)) else None)"
  shows "pseg P (if n = 0 then None else Some (Pool k)) (map Pool [k..<k + n]) None"
  using assms
proof (induction n arbitrary: k)
  case (Suc n)
  have up: "[k..<k + Suc n] = k # [Suc k..<Suc k + n]" by (simp add: upt_rec)
  have "pseg P (if n = 0 then None else Some (Pool (Suc k))) (map Pool [Suc k..<Suc k + n]) None"
    by (rule Suc.IH) (use Suc.prems in simp)
  then show ?case using Suc.prems [of k] unfolding up by (cases "n = 0") simp_all
qed simp

definition pool_refs :: "proc_ref list" where
  "pool_refs = map Pool [0..<MAX_PROCESSES]"

lemma pool_refs [simp]: "distinct pool_refs" "set pool_refs = Pool ` {..<64}" "set all_procs = insert Idle (Pool ` {..<64})"
  unfolding pool_refs_def all_procs_def MAX_PROCESSES_def
  by (simp_all only: distinct_map distinct_upt set_map set_upt list.set atLeast0LessThan) (simp add: inj_on_def)

lemma scheduler_init_run:
  assumes "sleep_list s = None"
  defines "t \<equiv> snd (scheduler_init s)"
  shows "sched_inv t pool_refs (\<lambda>_. []) []" and "current_process t = Some Idle"
    and "state_of t Idle = PROCESS_STATE_RUNNING" and "priority (procs t Idle) = PRIORITY_LOW"
proof -
  let ?body = "\<lambda>i. upd_proc (Pool i) (\<lambda>p. p\<lparr>proc_next := Some (Pool (i + 1))\<rparr>) :: 'a sched_state_scheme \<Rightarrow> _"
  define s1 where "s1 = for_upto 0 63 ?body s"
  let ?I = "\<lambda>k u. sleep_list u = sleep_list s \<and> (\<forall>i < k. proc_next (procs u (Pool i)) = Some (Pool (i + 1)))"
  have I: "?I 63 s1" unfolding s1_def
    by (rule for_upto_invariant [where I = ?I]) (auto simp: upd_proc_def less_Suc_eq)
  define P where "P = (procs s1)(Pool 63 := (procs s1 (Pool 63))\<lparr>proc_next := None\<rparr>)"
  have procs: "procs t r = P r" if "r \<noteq> Idle" for r
    using that by (auto simp: t_def scheduler_init_def Let_def MAX_PROCESSES_def upd_proc_def upd_queue_of_def P_def s1_def [unfolded One_nat_def])
  have rest: "free_list t = Some (Pool 0)" "queues t q = \<lparr>queue_head = None, queue_tail = None\<rparr>" "sleep_list t = None"
    "current_process t = Some Idle" "state_of t Idle = PROCESS_STATE_RUNNING" "priority (procs t Idle) = PRIORITY_LOW" for q
    using I assms(1) by (cases q; simp add: t_def scheduler_init_def Let_def MAX_PROCESSES_def upd_proc_def upd_queue_of_def s1_def)+
  then show "current_process t = Some Idle" "state_of t Idle = PROCESS_STATE_RUNNING" "priority (procs t Idle) = PRIORITY_LOW"
    by simp_all
  have "pseg P (if MAX_PROCESSES = 0 then None else Some (Pool 0)) (map Pool [0..<0 + MAX_PROCESSES]) None"
    by (rule pool_chain) (use I in \<open>auto simp: P_def MAX_PROCESSES_def\<close>)
  then have "pseg P (Some (Pool 0)) pool_refs None" by (simp add: pool_refs_def MAX_PROCESSES_def del: upt_rec_numeral)
  moreover have "proc_next (procs t r) = proc_next (P r)" if "r \<in> set pool_refs" for r
    using that by (auto simp: procs)
  ultimately have "pseg (procs t) (Some (Pool 0)) pool_refs None"
    using pseg_cong [of pool_refs "procs t" P] by blast
  then have "sched_lists t pool_refs (\<lambda>_. []) []"
    using rest(1,2,3) by (simp add: sched_lists_def queue_ok_def)
  then show "sched_inv t pool_refs (\<lambda>_. []) []"
    using rest(4-6) by (auto simp: sched_inv_def unlisted_def)
qed

definition blank_process :: process where
  "blank_process = \<lparr>pid = 0, proc_name = replicate 32 0, proc_state = PROCESS_STATE_RUNNING, priority = PRIORITY_REALTIME,
     cpu_time_ms = 0, memory_pages = 0, proc_next = None, proc_prev = None, stack_ptr = 0, stack_phys = 0,
     page_directory = 0, entry_point = 0, proc_arg = 0, wake_tick = 0\<rparr>"

text \<open>A machine before \<open>scheduler_init\<close>, on top of any state of the memory managers.\<close>

definition sched_blank :: "heap_state \<Rightarrow> sched_state" where
  "sched_blank h = heap_state.extend h
     (sched_state.fields (\<lambda>_. blank_process) None (\<lambda>_. \<lparr>queue_head = None, queue_tail = None\<rparr>) None None 1 0
        \<lparr>esp = 0x90000, ebp = 0x90100, ebx = 1, esi = 2, edi = 3, eip = 0x100500\<rparr>
        (\<lambda>r. case r of Idle \<Rightarrow> 0x108000 | Pool i \<Rightarrow> 0x109000 + of_nat (88 * i)) 0x100600 0x100700)"

definition sched_boot :: sched_state where
  "sched_boot = snd (scheduler_init (sched_blank (sample_heap 1)))"

lemma sched_boot_inv:
  "sched_inv sched_boot pool_refs (\<lambda>_. []) []" "current_process sched_boot = Some Idle"
  "state_of sched_boot Idle = PROCESS_STATE_RUNNING" "priority (procs sched_boot Idle) = PRIORITY_LOW"
proof -
  have "sleep_list (sched_blank (sample_heap 1)) = None"
    by (simp add: sched_blank_def heap_state.extend_def sched_state.fields_def)
  note i = scheduler_init_run [OF this, folded sched_boot_def]
  show "sched_inv sched_boot pool_refs (\<lambda>_. []) []" "current_process sched_boot = Some Idle"
    "state_of sched_boot Idle = PROCESS_STATE_RUNNING" "priority (procs sched_boot Idle) = PRIORITY_LOW" by (rule i)+
qed

theorem scheduler_tick_correct_witness:
  "sched_ok sched_boot \<and> (\<exists>t. scheduler_tick 10 sched_boot = Some t \<and> current_process t = Some Idle \<and> sched_ok t)"
proof -
  note b = sched_boot_inv and l = sched_inv_lists [OF sched_boot_inv(1)]
  have tr: "tick_ready sched_boot p = (if p = PRIORITY_LOW then [Idle] else [])" for p
    by (simp add: tick_ready_def l(2,3) woken_def back_ready_def b(2-4))
  from scheduler_tick_correct [OF l(4), of 10] show ?thesis using l(4) by (auto simp: tr split: if_splits)
qed

section \<open>Round robin\<close>

text \<open>\<open>runs s t\<close>: a process computed between two ticks and changed memory and registers only.\<close>

definition runs :: "'a sched_state_scheme \<Rightarrow> 'a sched_state_scheme \<Rightarrow> bool" where
  "runs s t \<longleftrightarrow> t = s\<lparr>mem := mem t, regs := regs t\<rparr>"

fun run_ticks :: "(nat \<Rightarrow> 'a sched_state_scheme \<Rightarrow> 'a sched_state_scheme) \<Rightarrow> u32 \<Rightarrow> nat \<Rightarrow> 'a sched_state_scheme \<Rightarrow> 'a sched_state_scheme option" where
  "run_ticks work d 0 s = Some s"
| "run_ticks work d (Suc k) s = do { t \<leftarrow> run_ticks work d k s; scheduler_tick d (work k t) }"

lemma runs_sched:
  assumes "runs s t"
  shows "procs t = procs s" "current_process t = current_process s" "queues t = queues s" "sleep_list t = sleep_list s"
    "free_list t = free_list s" "tick_count t = tick_count s"
proof -
  obtain m r where "t = s\<lparr>mem := m, regs := r\<rparr>" using assms unfolding runs_def by blast
  then show "procs t = procs s" "current_process t = current_process s" "queues t = queues s" "sleep_list t = sleep_list s"
    "free_list t = free_list s" "tick_count t = tick_count s" by simp_all
qed

lemma runs_lists:
  assumes "runs s t"
  shows "ready_list p t = ready_list p s" "sleepers t = sleepers s" "free_procs t = free_procs s" "sched_ok t = sched_ok s"
  using runs_sched [OF assms]
  by (simp_all add: ready_list_def sleepers_def free_procs_def sched_ok_def sched_inv_def sched_lists_def)

text \<open>No process sleeps, and the running process and its queue, of the highest priority in use, are \<open>L\<close>.\<close>

definition rotation :: "process_priority \<Rightarrow> proc_ref list \<Rightarrow> 'a sched_state_scheme \<Rightarrow> bool" where
  "rotation p L s \<longleftrightarrow> sched_ok s \<and> sleepers s = [] \<and> (\<forall>q < p. ready_list q s = []) \<and>
     (\<exists>c. current_process s = Some c \<and> state_of s c = PROCESS_STATE_RUNNING \<and> priority (procs s c) = p \<and> c # ready_list p s = L)"

lemma rotation_runs: "runs s t \<Longrightarrow> rotation p L t = rotation p L s"
  unfolding rotation_def by (simp add: runs_lists runs_sched)

lemma rotation_tick:
  assumes "rotation p L s"
  shows "\<exists>t. scheduler_tick d s = Some t \<and> rotation p (rotate1 L) t"
proof -
  obtain c where ok: "sched_ok s" "sleepers s = []" "\<And>q. q < p \<Longrightarrow> ready_list q s = []" and
    c: "current_process s = Some c" "state_of s c = PROCESS_STATE_RUNNING" "priority (procs s c) = p" "c # ready_list p s = L"
    using assms by (auto simp: rotation_def)
  have tr: "tick_ready s q = (if q = p then rotate1 L else ready_list q s)" for q
    using c by (auto simp: tick_ready_def ok(2) woken_def back_ready_def)
  have ne: "rotate1 L \<noteq> []" using c(4) by auto
  from ok(1) obtain t n p' where t: "scheduler_tick d s = Some t" "sched_ok t" "current_process t = Some n"
    "state_of t n = PROCESS_STATE_RUNNING" "\<And>q. q < p' \<Longrightarrow> tick_ready s q = []" "tick_ready s p' = n # ready_list p' t"
    "\<And>q. q \<noteq> p' \<Longrightarrow> ready_list q t = tick_ready s q" "sleepers t = tick_asleep s" "priority (procs t n) = p'"
    by (rule tick_outcome [where d = d]) blast
  have "\<not> p < p'" using t(5) [of p] ne by (auto simp: tr)
  moreover have "\<not> p' < p" using t(6) ok(3) [of p'] by (auto simp: tr split: if_splits)
  ultimately have p': "p' = p" by simp
  have "sleepers t = []" using t(8) c by (simp add: tick_asleep_def back_asleep_def ok(2))
  moreover have "ready_list q t = []" if "q < p" for q using t(7) [of q] ok(3) [OF that] that by (simp add: tr p')
  ultimately show ?thesis using t(1-4,6,9) by (auto simp: rotation_def p' tr)
qed

text \<open>
  C13: Round robin. While nothing sleeps and no process of a higher priority is ready, the scheduler runs the current
  process and the processes of its queue in turn: after \<open>k\<close> ticks the current process is element
  \<open>k\<close>, modulo their number, of the list made of the running process and its queue, whatever the processes
  compute between the ticks. So each of them runs once in every round.
\<close>

theorem scheduler_round_robin:
  assumes "sched_ok s" and "current_process s = Some c" and "state_of s c = PROCESS_STATE_RUNNING" and "priority (procs s c) = p"
    and "sleepers s = []" and "\<forall>q < p. ready_list q s = []" and work: "\<forall>i u. runs u (work i u)"
  shows "\<exists>t. run_ticks work d k s = Some t \<and> sched_ok t \<and>
    current_process t = Some ((c # ready_list p s) ! (k mod length (c # ready_list p s)))"
proof -
  let ?L = "c # ready_list p s"
  have "\<exists>t. run_ticks work d k s = Some t \<and> rotation p (rotate k ?L) t"
  proof (induction k)
    case 0
    show ?case using assms by (simp add: rotation_def)
  next
    case (Suc k)
    then obtain t where t: "run_ticks work d k s = Some t" "rotation p (rotate k ?L) t" by blast
    have "rotation p (rotate k ?L) (work k t)" using t(2) work rotation_runs [of t "work k t"] by blast
    from rotation_tick [OF this] t(1) show ?case by (auto simp: rotate_Suc)
  qed
  then obtain t x where t: "run_ticks work d k s = Some t" "sched_ok t" "current_process t = Some x" "x # ready_list p t = rotate k ?L"
    by (auto simp: rotation_def)
  have "x = rotate k ?L ! 0" unfolding t(4) [symmetric] by simp
  then have "x = ?L ! (k mod length ?L)" using nth_rotate [of 0 ?L k] by simp
  with t(1-3) show ?thesis by simp
qed

section \<open>Creating a process\<close>

lemma load32_bytes:
  "(ucast (load32 m a) :: u8) = m a" "(ucast (drop_bit 8 (load32 m a)) :: u8) = m (a + 1)"
  "(ucast (drop_bit 16 (load32 m a)) :: u8) = m (a + 2)" "(ucast (drop_bit 24 (load32 m a)) :: u8) = m (a + 3)"
  by (rule bit_word_eqI, auto simp: bit_simps bit_load32)+

lemma entry_set_same: "entry_get A i s = v \<Longrightarrow> entry_set A i v s = s"
proof -
  assume "entry_get A i s = v"
  then have "store32 (A + 4 * i) v (mem s) = mem s"
    by (auto simp: entry_get_def store32_def load32_bytes)
  then show ?thesis by (simp add: entry_set_def)
qed

text \<open>Mapping a low page to itself in a directory that already does so changes no memory.\<close>

lemma map_identity_page:
  assumes lay: "kernel_layout kpd kpt" and idn: "identity_dir (cr3 s) kpt s" and f: "frame f" "unat f < 83886080"
  shows "vmm_map_page f f PAGE_WRITABLE s = (0, vmm_flush_tlb_entry f s)"
proof -
  let ?i = "unat f div 4194304" and ?j = "unat f div 4096 mod 1024"
  have i: "?i < 20" using f(2) low_address_iff by blast
  have pde: "entry_get (cr3 s) (page_dir_index f) s = ktable kpt ?i OR 3"
    using idn i unfolding identity_dir_def by (metis index_bounds(1) unat_page_dir_index)
  have j: "page_table_index f = of_nat ?j"
    using unat_page_table_index [of f] by (metis unat_small(2) index_bounds(2) word_unat_eq_iff)
  have "entry_get (ktable kpt ?i) (of_nat ?j) s = of_nat (?i * 1024 + ?j) * 0x1000 OR 3"
    using idn i unfolding identity_dir_def by simp
  then have pte: "entry_get (ktable kpt ?i) (page_table_index f) s = (f AND 0xFFFFF000) OR 3"
    unfolding j page_number .
  note pt = pde_table [OF ktable_facts(1) [OF lay i]]
  have v: "(f AND 0xFFFFF000) OR (PAGE_WRITABLE AND 0xFFF) OR PAGE_PRESENT = (f AND 0xFFFFF000) OR 3"
    by (simp add: PAGE_WRITABLE_def PAGE_PRESENT_def or.assoc)
  have "entry_set (ktable kpt ?i) (page_table_index f) ((f AND 0xFFFFF000) OR (PAGE_WRITABLE AND 0xFFF) OR PAGE_PRESENT) s = s"
    unfolding v by (rule entry_set_same [OF pte])
  then show ?thesis using pt unfolding vmm_map_page_def vmm_get_current_directory_def Let_def pde by simp
qed

lemma initial_stack_entries:
  assumes "frame f" and "frame A" and "unat k < 1024"
  shows "entry_get A k (s\<lparr>mem := initial_stack (f + PROCESS_STACK_SIZE) tr (mem s)\<rparr>) =
    (if A = f \<and> k = 1023 then tr else if A = f \<and> k \<in> {1019, 1020, 1021, 1022} then 0 else entry_get A k s)"
proof -
  have "s\<lparr>mem := initial_stack (f + PROCESS_STACK_SIZE) tr (mem s)\<rparr> =
    entry_set f 1019 0 (entry_set f 1020 0 (entry_set f 1021 0 (entry_set f 1022 0 (entry_set f 1023 tr s))))"
    by (simp add: entry_set_def initial_stack_def PROCESS_STACK_SIZE_def add.commute)
  then show ?thesis using assms by (auto simp: entry_get_set)
qed


lemma lists_upd_unlisted:
  assumes "sched_lists s fl rq sl" and "unlisted r fl rq sl"
  shows "sched_lists (upd_proc r f s) fl rq sl"
proof -
  have r: "r \<notin> set fl" "r \<notin> set sl" "\<And>p. r \<notin> set (rq p)" using assms(2) by (simp_all add: unlisted_def)
  have "queue_ok ((procs s)(r := x)) q (rq p) = queue_ok (procs s) q (rq p)" for x q p
    using r(3) [of p] by (intro queue_ok_cong) auto
  then show ?thesis using assms(1) r unfolding sched_lists_def upd_proc_def by (auto simp: pseg_fresh)
qed

lemma inv_enqueue_unlisted:
  assumes inv: "sched_inv s fl rq sl" and r: "unlisted r fl rq sl" "current_process s \<noteq> Some r" "r \<in> set all_procs"
    and st: "state_of s r \<in> {PROCESS_STATE_READY, PROCESS_STATE_RUNNING}" and p: "priority (procs s r) = p"
  shows "sched_inv (enqueue_process r s) fl (rq(p := rq p @ [r])) sl" and "info (enqueue_process r s) = info s"
    and "sched_only s (enqueue_process r s)" and "current_process (enqueue_process r s) = current_process s"
proof -
  have l: "sched_lists s fl rq sl" using inv by (simp add: sched_inv_def)
  note e = lists_enqueue [OF l r(1) p]
  show "info (enqueue_process r s) = info s" "sched_only s (enqueue_process r s)"
    "current_process (enqueue_process r s) = current_process s" by (rule e)+
  note f = info_fields [OF e(2)]
  show "sched_inv (enqueue_process r s) fl (rq(p := rq p @ [r])) sl"
    using inv e(1,4) r st unfolding sched_inv_def by (auto simp: f unlisted_def)
qed

text \<open>The fields \<open>scheduler_create_process\<close> gives the new control block.\<close>

definition created :: "u32 \<Rightarrow> u8 list \<Rightarrow> u32 \<Rightarrow> u32 \<Rightarrow> process_priority \<Rightarrow> u32 \<Rightarrow> u32 \<Rightarrow> process \<Rightarrow> process" where
  "created ident name entry arg prio dir stack p = p\<lparr>pid := ident, proc_name := name_field name, proc_state := PROCESS_STATE_READY,
     priority := prio, cpu_time_ms := 0, memory_pages := 0, page_directory := dir, entry_point := entry, proc_arg := arg,
     stack_phys := stack, stack_ptr := stack + 4076, proc_next := None, proc_prev := None\<rparr>"

text \<open>The memory side of the operation, on a state whose scheduler fields do not matter.\<close>

lemma create_memory:
  fixes tr :: u32
  assumes ks: "kernel_space s" and fr: "a \<in> free_frames (pmm s)" "b \<in> free_frames (pmm s)" "a \<noteq> b"
    and d: "vmm_create_address_space s = (d, s3)" and f: "alloc_page s3 = (f, s5)"
  defines "t \<equiv> s5\<lparr>mem := initial_stack (f + PROCESS_STACK_SIZE) tr (mem s5)\<rparr>"
  shows "d \<noteq> 0" and "f \<noteq> 0" and "d \<in> free_frames (pmm s)" and "f \<in> free_frames (pmm s)" and "d \<noteq> f"
    and "free_frames (pmm t) = free_frames (pmm s) - {d, f}" and "kernel_space t" and "identity_dir d (kernel_page_table s) s5"
    and "identity_dir d (kernel_page_table s) t" and "frame f" and "unat f < 83886080"
    and "\<exists>m p. s5 = s\<lparr>pmm := p, mem := m\<rparr>"
    and "entry_get f 1023 t = tr" and "k \<in> {1019, 1020, 1021, 1022} \<Longrightarrow> entry_get f k t = 0"
proof -
  have ne: "free_frames (pmm s) \<noteq> {}" using fr by blast
  note r = create_address_space_run [OF ks d, unfolded if_not_P [OF ne]]
  show dd: "d \<noteq> 0" "d \<in> free_frames (pmm s)" using r by simp_all
  have ne3: "free_frames (pmm s3) \<noteq> {}" using r fr by blast
  have wf3: "pmm_wf (pmm s3)" using r by simp
  obtain p where p: "f \<noteq> 0" "f \<in> free_frames (pmm s3)" "frame f" "s5 = s3\<lparr>pmm := p\<rparr>"
    "free_frames p = free_frames (pmm s3) - {f}" "pmm_wf p"
    using wf3 f
  proof (cases rule: alloc_page_cases)
    case full
    with ne3 show ?thesis by simp
  next
    case (frame p)
    then show ?thesis by (intro that [of p])
  qed
  show "f \<noteq> 0" "frame f" by (rule p)+
  show "f \<in> free_frames (pmm s)" "d \<noteq> f" using p(2) r by auto
  show "unat f < 83886080" using pa.frames_managed [of f "pmm s"] p(2) r by (auto simp: managed_frame_def)
  show "free_frames (pmm t) = free_frames (pmm s) - {d, f}" using p(4,5) r by (auto simp: t_def)
  obtain m q where s3: "s3 = s\<lparr>pmm := q, mem := m\<rparr>" using r by blast
  have "s5 = s\<lparr>pmm := p, mem := m\<rparr>" unfolding p(4) s3 by simp
  then show "\<exists>m p. s5 = s\<lparr>pmm := p, mem := m\<rparr>" by blast
  show i5: "identity_dir d (kernel_page_table s) s5" using r p(4) by (simp add: identity_dir_def)
  note e = initial_stack_entries [OF p(3), where s = s5 and tr = tr, folded t_def]
  show "entry_get f 1023 t = tr" "k \<in> {1019, 1020, 1021, 1022} \<Longrightarrow> entry_get f k t = 0" using e p(3) by auto
  have lay: "kernel_layout (kernel_page_directory s) (kernel_page_table s)" "0x200000 \<le> unat f"
    using ks p(2) r by (auto simp: kernel_space_def)
  have keep: "entry_get A k t = entry_get A k s5" if "frame A" "A \<noteq> f" "unat k < 1024" for A k
    using e [OF that(1,3)] that(2) by simp
  have nf: "kernel_page_directory s \<noteq> f" "\<And>i. i < 20 \<Longrightarrow> ktable (kernel_page_table s) i \<noteq> f"
    using lay ktable_facts(3) [OF lay(1)] unfolding kernel_layout_def by (metis not_le)+
  have fd: "frame (kernel_page_directory s)" "frame d"
    using lay dd(2) pa.frames_managed managed_is_frame by (auto simp: kernel_layout_def)
  have tabs: "entry_get (ktable (kernel_page_table s) i) (of_nat j) t = entry_get (ktable (kernel_page_table s) i) (of_nat j) s5"
    if "i < 20" "j < 1024" for i j
    using keep [OF ktable_facts(1) [OF lay(1) that(1)] nf(2) [OF that(1)] unat_small(1) [OF that(2)]] .
  show "identity_dir d (kernel_page_table s) t"
    using i5 keep [OF fd(2) \<open>d \<noteq> f\<close>] tabs unfolding identity_dir_def by simp
  have ks3: "kernel_space s3" "kernel_page_directory s3 = kernel_page_directory s" "kernel_page_table s3 = kernel_page_table s"
    using r s3 by simp_all
  have "identity_low (kernel_page_directory s) (kernel_page_table s) s5" using ks3 p(4) by (simp add: kernel_space_def identity_low_def)
  then have "identity_low (kernel_page_directory s) (kernel_page_table s) t"
    using keep [OF fd(1) nf(1)] tabs unfolding identity_low_def by simp
  then show "kernel_space t" using ks3 p(4-6) unfolding kernel_space_def by (simp add: t_def identity_low_def)
qed

lemma inv_not_idle:
  assumes "sched_inv s fl rq sl" and "r \<in> set fl \<or> r \<in> set sl"
  shows "r \<noteq> Idle" and "current_process s \<noteq> Some r" and "r \<in> set all_procs"
  using assms lists_apart [of s fl rq sl Idle PRIORITY_LOW] unfolding sched_inv_def unlisted_def by auto

lemma kernel_space_more:
  "kernel_space (s\<lparr>cr3 := c\<rparr>) = kernel_space s" "kernel_space (vmm_flush_tlb_entry x s) = kernel_space s"
  by (simp_all add: kernel_space_def identity_low_def vmm_flush_tlb_entry_def entry_get_def)

lemma inv_transfer:
  assumes inv: "sched_inv s fl' rq sl" and l: "sched_lists t fl rq sl" and sub: "set fl \<subseteq> set fl'"
    and cur: "current_process t = current_process s"
    and sl: "\<And>x. x \<in> set sl \<Longrightarrow> state_of t x = state_of s x" and rq: "\<And>x p. x \<in> set (rq p) \<Longrightarrow> state_of t x = state_of s x"
    and idle: "state_of t Idle = state_of s Idle" "priority (procs t Idle) = priority (procs s Idle)"
  shows "sched_inv t fl rq sl"
  unfolding sched_inv_def
proof (intro conjI allI impI ballI)
  show "sched_lists t fl rq sl" by (rule l)
  show "unlisted c fl rq sl" if "current_process t = Some c" for c
    using inv that cur sub by (auto simp: sched_inv_def unlisted_def)
  show "state_of t r = PROCESS_STATE_SLEEPING" if "r \<in> set sl" for r using inv sl [OF that] that by (simp add: sched_inv_def)
  show "state_of t r \<in> {PROCESS_STATE_READY, PROCESS_STATE_RUNNING}" if "r \<in> set (rq p)" for r p
    using inv rq [OF that] that by (simp add: sched_inv_def)
  show "Idle \<in> set (rq PRIORITY_LOW) \<or> current_process t = Some Idle \<and> state_of t Idle = PROCESS_STATE_RUNNING \<and>
      priority (procs t Idle) = PRIORITY_LOW"
    using inv cur idle by (simp add: sched_inv_def)
  show "set fl \<union> set sl \<subseteq> set all_procs" "set (rq p) \<subseteq> set all_procs" "set_option (current_process t) \<subseteq> set all_procs" for p
    using inv sub cur by (auto simp: sched_inv_def simp del: pool_refs)
qed

lemma sched_only_space:
  assumes "sched_only s t"
  shows "kernel_page_directory t = kernel_page_directory s" "kernel_page_table t = kernel_page_table s" "invlpg_log t = invlpg_log s"
proof -
  obtain P f q c l where "t = s\<lparr>procs := P, free_list := f, queues := q, current_process := c, sleep_list := l\<rparr>"
    using assms unfolding sched_only_def by metis
  then show "kernel_page_directory t = kernel_page_directory s" "kernel_page_table t = kernel_page_table s"
    "invlpg_log t = invlpg_log s" by simp_all
qed

lemma create_run:
  assumes inv: "sched_inv s (r # fl) rq sl" and ks: "kernel_space s"
    and fr: "a \<in> free_frames (pmm s)" "b \<in> free_frames (pmm s)" "a \<noteq> b"
  obtains t d f where "scheduler_create_process name entry arg prio s = (Some r, t)"
    and "sched_inv t fl (rq(prio := rq prio @ [r])) sl" and "current_process t = current_process s"
    and "info t = (info s)(r := created (next_pid s) name entry arg prio d f (info s r))"
    and "next_pid t = next_pid s + 1" and "cr3 t = cr3 s" and "regs t = regs s" and "tick_count t = tick_count s" and "kernel_space t"
    and "d \<in> free_frames (pmm s)" and "f \<in> free_frames (pmm s)" and "d \<noteq> f"
    and "free_frames (pmm t) = free_frames (pmm s) - {d, f}" and "identity_dir d (kernel_page_table s) t"
    and "entry_get f 1023 t = trampoline_addr s" and "\<And>k. k \<in> {1019, 1020, 1021, 1022} \<Longrightarrow> entry_get f k t = 0"
proof -
  have l: "sched_lists s (r # fl) rq sl" using inv by (simp add: sched_inv_def)
  from l obtain s1 where s1: "allocate_process s = (Some r, s1)" "sched_lists s1 fl rq sl" "unlisted r fl rq sl"
    "info s1 = info s" "sched_only s s1" "current_process s1 = current_process s"
    by (rule lists_allocate) blast
  note so = sched_onlyD [OF s1(5)]
  define g :: "process \<Rightarrow> process" where "g = (\<lambda>p. p\<lparr>pid := next_pid s1, proc_name := name_field name, proc_state := PROCESS_STATE_READY,
                     priority := prio, cpu_time_ms := 0, memory_pages := 0\<rparr>)"
  define s2 where "s2 = upd_proc r g (s1\<lparr>next_pid := next_pid s1 + 1\<rparr>)"
  have ks2: "kernel_space s2" "pmm s2 = pmm s" "kernel_page_table s2 = kernel_page_table s" "trampoline_addr s2 = trampoline_addr s"
    using ks sched_only_space [OF s1(5)] so by (simp_all add: s2_def kernel_space_def upd_proc_def identity_low_def entry_get_def)
  obtain d s3 where d: "vmm_create_address_space s2 = (d, s3)" by fastforce
  obtain f s5 where f: "alloc_page s3 = (f, s5)" by fastforce
  note m = create_memory [OF ks2(1) fr [folded ks2(2)] d f, unfolded ks2(2,3)]
  define h :: "process \<Rightarrow> process" where "h = (\<lambda>p. p\<lparr>page_directory := d, entry_point := entry, proc_arg := arg\<rparr>)"
  have f4: "alloc_page (upd_proc r h s3) = (f, upd_proc r h s5)"
    using f by (auto simp: alloc_page_def upd_proc_def Let_def split: prod.splits)
  obtain mm pp where s5: "s5 = s2\<lparr>pmm := pp, mem := mm\<rparr>" using m(12) by blast
  define u where "u = s1\<lparr>next_pid := next_pid s1 + 1, pmm := pp, invlpg_log := f # invlpg_log s1,
    mem := initial_stack (f + PROCESS_STACK_SIZE) (trampoline_addr s) mm, cr3 := cr3 s\<rparr>"
  define t0 where "t0 = upd_proc r (created (next_pid s) name entry arg prio d f) u"
  define s6 where "s6 = upd_proc r (\<lambda>p. p\<lparr>stack_phys := f\<rparr>) (upd_proc r h s5)"
  have s6: "page_directory (procs s6 r) = d" "cr3 s6 = cr3 s"
    using so by (simp_all add: s6_def upd_proc_def h_def s5 s2_def)
  have "identity_dir (cr3 (s6\<lparr>cr3 := d\<rparr>)) (kernel_page_table s) (s6\<lparr>cr3 := d\<rparr>)"
    using m(8) by (simp add: s6_def identity_dir_def entry_get_def upd_proc_def)
  moreover have lay: "kernel_layout (kernel_page_directory s) (kernel_page_table s)" using ks by (simp add: kernel_space_def)
  ultimately have mp: "vmm_map_page f f PAGE_WRITABLE (s6\<lparr>cr3 := d\<rparr>) = (0, vmm_flush_tlb_entry f (s6\<lparr>cr3 := d\<rparr>))"
    using map_identity_page m(10,11) by blast
  let ?s8 = "vmm_flush_tlb_entry f (s6\<lparr>cr3 := d\<rparr>)"
  let ?s9 = "?s8\<lparr>mem := initial_stack (f + PROCESS_STACK_SIZE) (trampoline_addr ?s8) (mem ?s8)\<rparr>"
  have t0: "upd_proc r (\<lambda>p. p\<lparr>proc_next := None, proc_prev := None\<rparr>)
     ((upd_proc r (\<lambda>p. p\<lparr>stack_ptr := f + PROCESS_STACK_SIZE - 20\<rparr>) ?s9)\<lparr>cr3 := cr3 s\<rparr>) = t0"
    using so by (simp add: t0_def created_def u_def s6_def s5 s2_def upd_proc_def h_def g_def vmm_flush_tlb_entry_def PROCESS_STACK_SIZE_def add.commute)
  have run: "scheduler_create_process name entry arg prio s = (Some r, enqueue_process r t0)"
    unfolding scheduler_create_process_def s1(1) prod.case option.case Let_def g_def [symmetric] s2_def [symmetric] d h_def [symmetric] f4
      s6_def [symmetric] s6(1) vmm_switch_directory_def vmm_get_current_directory_def
    using m(1,2) mp s6(2) t0 by simp
  have nr: "r \<noteq> Idle" "current_process s \<noteq> Some r" "r \<in> set all_procs" using inv_not_idle [OF inv, of r] by simp_all
  have u: "procs u = procs s1" "current_process u = current_process s" "sched_lists u = sched_lists s1" "info u = info s"
    using s1(4,6) by (simp_all add: u_def sched_lists_def fun_eq_iff info_def)
  have l0: "sched_lists t0 fl rq sl" unfolding t0_def using s1(2,3) u(3) by (intro lists_upd_unlisted) simp_all
  have i0: "info t0 = (info s)(r := created (next_pid s) name entry arg prio d f (info s r))"
    unfolding t0_def u(4) [symmetric] by (intro ext) (simp add: info_def upd_proc_def created_def)
  have o: "procs t0 x = procs s1 x" if "x \<noteq> r" for x using that by (simp add: t0_def upd_proc_def u(1))
  have ro: "r \<notin> set sl" "\<And>p. r \<notin> set (rq p)" using s1(3) by (simp_all add: unlisted_def)
  have same: "state_of t0 x = state_of s x" "priority (procs t0 x) = priority (procs s x)" if "x \<noteq> r" for x
    using o [OF that] info_fields(1,2) [OF s1(4)] by simp_all
  have "sched_inv t0 fl rq sl"
    by (rule inv_transfer [OF inv l0]) (use nr ro same u(2) in \<open>auto simp: t0_def upd_proc_def\<close>)
  moreover have "state_of t0 r = PROCESS_STATE_READY" "priority (procs t0 r) = prio"
    by (simp_all add: t0_def upd_proc_def created_def)
  moreover have c0: "current_process t0 = current_process s" by (simp add: t0_def upd_proc_def u(2))
  ultimately have e: "sched_inv (enqueue_process r t0) fl (rq(prio := rq prio @ [r])) sl" "info (enqueue_process r t0) = info t0"
    "sched_only t0 (enqueue_process r t0)" "current_process (enqueue_process r t0) = current_process t0"
    using inv_enqueue_unlisted [of t0 fl rq sl r prio] s1(3) nr by simp_all
  let ?t = "enqueue_process r t0" 
  let ?v = "s5\<lparr>mem := initial_stack (f + PROCESS_STACK_SIZE) (trampoline_addr s) (mem s5)\<rparr>"
  note eo = sched_onlyD [OF e(3)] sched_only_space [OF e(3)]
  have t0f: "mem t0 = mem ?v" "pmm t0 = pmm ?v" "kernel_page_directory t0 = kernel_page_directory ?v"
    "kernel_page_table t0 = kernel_page_table ?v" "next_pid t0 = next_pid s + 1" "cr3 t0 = cr3 s" "regs t0 = regs s" "tick_count t0 = tick_count s"
    using so by (simp_all add: t0_def u_def upd_proc_def s5 s2_def)
  have eg: "entry_get A k ?t = entry_get A k ?v" for A k by (simp add: entry_get_def eo t0f)
  have "kernel_space ?t" using m(7) [of "trampoline_addr s"] unfolding kernel_space_def identity_low_def eg by (simp add: eo t0f)
  moreover have "identity_dir d (kernel_page_table s) ?t"
    using m(9) [of "trampoline_addr s"] unfolding identity_dir_def eg by simp
  moreover have "free_frames (pmm ?t) = free_frames (pmm s) - {d, f}" using m(6) [of "trampoline_addr s"] by (simp add: eo t0f)
  ultimately show thesis
    using run e(1) e(4) c0 i0 e(2) m(3-5) m(13) [of "trampoline_addr s"] m(14) eo t0f by (intro that [of ?t d f]) (simp_all add: eg)
qed

lemma vm_only_sched:
  assumes "vm_only s t"
  shows "procs t = procs s" "free_list t = free_list s" "queues t = queues s" "current_process t = current_process s"
    "sleep_list t = sleep_list s" "next_pid t = next_pid s" "tick_count t = tick_count s" "regs t = regs s" "cr3 t = cr3 s"
  using arg_cong [OF assms [unfolded vm_only_def], of procs] arg_cong [OF assms [unfolded vm_only_def], of free_list]
    arg_cong [OF assms [unfolded vm_only_def], of queues] arg_cong [OF assms [unfolded vm_only_def], of current_process]
    arg_cong [OF assms [unfolded vm_only_def], of sleep_list] arg_cong [OF assms [unfolded vm_only_def], of next_pid]
    arg_cong [OF assms [unfolded vm_only_def], of tick_count] arg_cong [OF assms [unfolded vm_only_def], of regs]
    arg_cong [OF assms [unfolded vm_only_def], of cr3]
  by simp_all

lemma alloc_page_vm_only: "alloc_page s = (f, t) \<Longrightarrow> vm_only s t"
  by (auto simp: alloc_page_def Let_def split: prod.splits)

lemma create_space_vm_only:
  assumes "vmm_create_address_space s = (d, t)"
  shows "vm_only s t"
proof -
  obtain f s1 where a: "alloc_page s = (f, s1)" by fastforce
  note v = alloc_page_vm_only [OF a]
  have "vm_only s (for_upto 0 20 (\<lambda>i t. entry_set f (of_nat i) (entry_get (kernel_page_directory s) (of_nat i) t) t) (clear_entries f s1))"
    by (rule for_upto_invariant [where I = "\<lambda>_. vm_only s"]) (simp_all add: v)
  then show ?thesis using assms a v by (auto simp: vmm_create_address_space_def Let_def split: if_splits)
qed

text \<open>Whatever the memory managers answer, the scheduler's own data stay in order.\<close>

lemma create_inv:
  assumes inv: "sched_inv s fl rq sl" and run: "scheduler_create_process name entry arg prio s = (res, t)"
  shows "case res of None \<Rightarrow> sched_inv t fl rq sl | Some r \<Rightarrow> \<exists>fl'. fl = r # fl' \<and> sched_inv t fl' (rq(prio := rq prio @ [r])) sl"
    and "current_process t = current_process s"
proof -
  have l: "sched_lists s fl rq sl" using inv by (simp add: sched_inv_def)
  let ?C = "(case res of None \<Rightarrow> sched_inv t fl rq sl | Some r \<Rightarrow> \<exists>fl'. fl = r # fl' \<and> sched_inv t fl' (rq(prio := rq prio @ [r])) sl) \<and>
    current_process t = current_process s"
  have "?C"
  proof (cases fl)
    case Nil
    then have "allocate_process s = (None, s)" using l by (simp add: sched_lists_def allocate_process_def)
    then have "res = None" "t = s" using run by (simp_all add: scheduler_create_process_def)
    then show ?thesis using inv by simp
  next
    case (Cons r fl')
    from l [unfolded Cons] obtain s1 where s1: "allocate_process s = (Some r, s1)" "sched_lists s1 fl' rq sl" "unlisted r fl' rq sl"
      "info s1 = info s" "current_process s1 = current_process s"
      by (rule lists_allocate) blast
    have nr: "r \<noteq> Idle" "current_process s \<noteq> Some r" "r \<in> set all_procs" using inv_not_idle [OF inv, of r] Cons by simp_all
    have ro: "r \<notin> set sl" "\<And>p. r \<notin> set (rq p)" using s1(3) by (simp_all add: unlisted_def)
    have same: "state_of u y = state_of s y" "priority (procs u y) = priority (procs s y)" if "procs u y = procs s1 y" for u y
      using info_fields(1,2) [OF s1(4)] that by simp_all
    have keep: "sched_inv u fl' rq sl" if u: "\<And>y. y \<noteq> r \<Longrightarrow> procs u y = procs s1 y" "free_list u = free_list s1" "queues u = queues s1"
      "sleep_list u = sleep_list s1" "current_process u = current_process s" for u
    proof -
      have "procs u = (procs s1)(r := procs u r)" using u(1) by auto
      moreover have "sched_lists (upd_proc r (\<lambda>_. procs u r) s1) fl' rq sl" by (rule lists_upd_unlisted [OF s1(2,3)])
      ultimately have "sched_lists u fl' rq sl" using u(2-4) by (simp add: sched_lists_def upd_proc_def)
      then show ?thesis
        by (rule inv_transfer [OF inv]) (use u(5) Cons nr(1) ro in \<open>auto intro!: same u(1)\<close>)
    qed
    define s2 where "s2 = upd_proc r (\<lambda>p. p\<lparr>pid := next_pid s1, proc_name := name_field name, proc_state := PROCESS_STATE_READY,
                     priority := prio, cpu_time_ms := 0, memory_pages := 0\<rparr>) (s1\<lparr>next_pid := next_pid s1 + 1\<rparr>)"
    obtain d s3 where d: "vmm_create_address_space s2 = (d, s3)" by fastforce
    define s4 where "s4 = upd_proc r (\<lambda>p. p\<lparr>page_directory := d, entry_point := entry, proc_arg := arg\<rparr>) s3"
    obtain f s5 where f: "alloc_page s4 = (f, s5)" by fastforce
    note v3 = vm_only_sched [OF create_space_vm_only [OF d]] and v5 = vm_only_sched [OF alloc_page_vm_only [OF f]]
    note defs = s2_def s4_def upd_proc_def s1(5)
    show ?thesis
    proof (cases "f = 0")
      case True
      then have res: "res = None" "t = release_process r s5"
        using run s1(1) d f by (simp_all add: scheduler_create_process_def Let_def s2_def [symmetric] s4_def [symmetric])
      have k: "sched_inv s5 fl' rq sl" "current_process s5 = current_process s" "\<And>y. y \<noteq> r \<Longrightarrow> procs s5 y = procs s1 y"
        using keep [of s5] v3 v5 by (auto simp: defs)
      then have "sched_lists s5 fl' rq sl" by (simp add: sched_inv_def)
      note rl = lists_release [OF this s1(3)]
      have st: "state_of t y = state_of s y" "priority (procs t y) = priority (procs s y)" if "y \<noteq> r" for y
        using info_fields(1,2) [OF rl(2), of y] same [OF k(3) [OF that]] by (simp_all add: res)
      have "sched_inv t (r # fl') rq sl"
        by (rule inv_transfer [OF inv]) (use rl k(2) Cons nr(1) ro in \<open>auto simp: res intro!: st [unfolded res]\<close>)
      then show ?thesis using res rl(4) k(2) Cons by simp
    next
      case False
      define s6 where "s6 = upd_proc r (\<lambda>p. p\<lparr>stack_phys := f\<rparr>) s5"
      define s7 where "s7 = (if page_directory (procs s6 r) \<noteq> 0 then vmm_switch_directory (page_directory (procs s6 r)) s6 else s6)"
      obtain x s8 where m: "vmm_map_page f f PAGE_WRITABLE s7 = (x, s8)" by fastforce
      have "vm_only s7 s8" using vmm_map_page_vm_only [OF m, of s7] by simp
      note v8 = vm_only_sched [OF this]
      define s10 where "s10 = upd_proc r (\<lambda>p. p\<lparr>stack_ptr := f + PROCESS_STACK_SIZE - 20\<rparr>)
        (s8\<lparr>mem := initial_stack (f + PROCESS_STACK_SIZE) (trampoline_addr s8) (mem s8)\<rparr>)"
      define t0 where "t0 = upd_proc r (\<lambda>p. p\<lparr>proc_next := None, proc_prev := None\<rparr>) (vmm_switch_directory (vmm_get_current_directory s6) s10)"
      have "scheduler_create_process name entry arg prio s = (Some r, enqueue_process r t0)"
        unfolding scheduler_create_process_def s1(1) prod.case option.case Let_def s2_def [symmetric] d s4_def [symmetric] f
          s6_def [symmetric] s7_def [symmetric] m snd_conv s10_def [symmetric] t0_def [symmetric]
        using False by simp
      then have res: "res = Some r" "t = enqueue_process r t0" using run by simp_all
      note defs' = defs s6_def s7_def s10_def t0_def vmm_switch_directory_def
      have "sched_inv t0 fl' rq sl" "state_of t0 r = PROCESS_STATE_READY" "priority (procs t0 r) = prio"
        "current_process t0 = current_process s"
        using keep [of t0] v3 v5 v8 by (auto simp: defs' split: if_splits)
      then show ?thesis using inv_enqueue_unlisted [of t0 fl' rq sl r prio] s1(3) nr res Cons by auto
    qed
  qed
  then show "case res of None \<Rightarrow> sched_inv t fl rq sl | Some r \<Rightarrow> \<exists>fl'. fl = r # fl' \<and> sched_inv t fl' (rq(prio := rq prio @ [r])) sl"
    "current_process t = current_process s" by simp_all
qed

lemma info_sel:
  "pid (info s r) = pid (procs s r)" "proc_state (info s r) = proc_state (procs s r)" "priority (info s r) = priority (procs s r)"
  "entry_point (info s r) = entry_point (procs s r)" "proc_arg (info s r) = proc_arg (procs s r)"
  "page_directory (info s r) = page_directory (procs s r)" "stack_phys (info s r) = stack_phys (procs s r)"
  "stack_ptr (info s r) = stack_ptr (procs s r)"
  by (simp_all add: info_def)

text \<open>
  C11: With a free control block and two free frames \<open>scheduler_create_process\<close> succeeds: the first
  free block becomes a ready process at the end of the queue of its priority and nothing else moves in the queues.
  It has a directory of its own that maps the first 80 MB to themselves and a stack page of its own, both taken
  from the free frames; the top of the stack holds the frame from which the first context switch enters
  \<open>process_entry_trampoline\<close> with cleared registers. The current address space is the one of the caller. The control blocks are
  a part of the state beside the memory, that is, taken to lie in no free frame.
\<close>

theorem scheduler_create_process_correct:
  assumes "sched_ok s" and "free_procs s = r # fl" and "kernel_space s"
    and "a \<in> free_frames (pmm s)" and "b \<in> free_frames (pmm s)" and "a \<noteq> b"
  shows "\<exists>t d f. scheduler_create_process name entry arg prio s = (Some r, t) \<and> sched_ok t \<and> free_procs t = fl \<and>
    ready_list prio t = ready_list prio s @ [r] \<and> (\<forall>q. q \<noteq> prio \<longrightarrow> ready_list q t = ready_list q s) \<and>
    sleepers t = sleepers s \<and> current_process t = current_process s \<and> cr3 t = cr3 s \<and> kernel_space t \<and>
    pid (procs t r) = next_pid s \<and> state_of t r = PROCESS_STATE_READY \<and> priority (procs t r) = prio \<and>
    entry_point (procs t r) = entry \<and> proc_arg (procs t r) = arg \<and> page_directory (procs t r) = d \<and>
    stack_phys (procs t r) = f \<and> stack_ptr (procs t r) = f + 4076 \<and>
    d \<in> free_frames (pmm s) \<and> f \<in> free_frames (pmm s) \<and> d \<noteq> f \<and> free_frames (pmm t) = free_frames (pmm s) - {d, f} \<and>
    (\<forall>va. walk_in d t va = (if unat va < 80 * 1024 * 1024 then Some ((va AND 0xFFFFF000) OR 3) else None)) \<and>
    map (load32 (mem t)) [f + 4076, f + 4080, f + 4084, f + 4088, f + 4092] = [0, 0, 0, 0, trampoline_addr s]"
proof -
  have inv: "sched_inv s (r # fl) (\<lambda>p. ready_list p s) (sleepers s)" using assms(1,2) by (simp add: sched_ok_def)
  from inv assms(3-6) obtain t d f where t: "scheduler_create_process name entry arg prio s = (Some r, t)"
    "sched_inv t fl ((\<lambda>p. ready_list p s)(prio := ready_list prio s @ [r])) (sleepers s)" "current_process t = current_process s"
    "info t = (info s)(r := created (next_pid s) name entry arg prio d f (info s r))" "cr3 t = cr3 s" "kernel_space t"
    "d \<in> free_frames (pmm s)" "f \<in> free_frames (pmm s)" "d \<noteq> f"
    "free_frames (pmm t) = free_frames (pmm s) - {d, f}" "identity_dir d (kernel_page_table s) t"
    "entry_get f 1023 t = trampoline_addr s" "\<And>k. k \<in> {1019, 1020, 1021, 1022} \<Longrightarrow> entry_get f k t = 0"
    by (rule create_run [where name = name and entry = entry and arg = arg and prio = prio]) blast
  have i: "info t r = created (next_pid s) name entry arg prio d f (info s r)" using t(4) by simp
  then have fields: "pid (procs t r) = next_pid s" "state_of t r = PROCESS_STATE_READY" "priority (procs t r) = prio"
    "entry_point (procs t r) = entry" "proc_arg (procs t r) = arg" "page_directory (procs t r) = d"
    "stack_phys (procs t r) = f" "stack_ptr (procs t r) = f + 4076"
    by (simp_all only: info_sel [symmetric]) (simp_all add: created_def)
  have lay: "kernel_layout (kernel_page_directory s) (kernel_page_table s)" using assms(3) by (simp add: kernel_space_def)
  have stk: "map (load32 (mem t)) [f + 4076, f + 4080, f + 4084, f + 4088, f + 4092] = [0, 0, 0, 0, trampoline_addr s]"
    using t(12) t(13) [of 1019] t(13) [of 1020] t(13) [of 1021] t(13) [of 1022] by (simp add: entry_get_def)
  have wk: "\<forall>va. walk_in d t va = (if unat va < 80 * 1024 * 1024 then Some ((va AND 0xFFFFF000) OR 3) else None)"
    using identity_dir_walk [OF lay t(11)] by simp
  note il = sched_inv_lists [OF t(2)]
  show ?thesis
    by (rule exI [of _ t], rule exI [of _ d], rule exI [of _ f]) (use t(1,3,5-10) il fields stk wk in simp)
qed

text \<open>
  When exactly one frame is free, \<open>scheduler_create_process\<close> fails and gives the control block back, but the
  frame it used for the new page directory is lost: afterwards no frame is free.
\<close>

theorem scheduler_create_process_leak:
  assumes "sched_ok s" and "free_procs s = r # fl" and "kernel_space s" and "free_frames (pmm s) = {a}"
  shows "\<exists>t. scheduler_create_process name entry arg prio s = (None, t) \<and> sched_ok t \<and> free_procs t = free_procs s \<and>
    free_frames (pmm t) = {}"
proof -
  have inv: "sched_inv s (r # fl) (\<lambda>p. ready_list p s) (sleepers s)" using assms(1,2) by (simp add: sched_ok_def)
  then have "sched_lists s (r # fl) (\<lambda>p. ready_list p s) (sleepers s)" by (simp add: sched_inv_def)
  then obtain s1 where s1: "allocate_process s = (Some r, s1)" "sched_only s s1" by (rule lists_allocate) blast
  note so = sched_onlyD [OF s1(2)] sched_only_space [OF s1(2)]
  define s2 where "s2 = upd_proc r (\<lambda>p. p\<lparr>pid := next_pid s1, proc_name := name_field name, proc_state := PROCESS_STATE_READY,
                     priority := prio, cpu_time_ms := 0, memory_pages := 0\<rparr>) (s1\<lparr>next_pid := next_pid s1 + 1\<rparr>)"
  have ks2: "kernel_space s2" "pmm s2 = pmm s"
    using assms(3) so by (simp_all add: s2_def kernel_space_def upd_proc_def identity_low_def entry_get_def)
  obtain d s3 where d: "vmm_create_address_space s2 = (d, s3)" by fastforce
  have m: "free_frames (pmm s3) = {}" "pmm_wf (pmm s3)"
    using create_address_space_run [OF ks2(1) d] ks2(2) assms(4) by auto
  define s4 where "s4 = upd_proc r (\<lambda>p. p\<lparr>page_directory := d, entry_point := entry, proc_arg := arg\<rparr>) s3"
  have m4: "pmm_wf (pmm s4)" "free_frames (pmm s4) = {}" using m by (simp_all add: s4_def upd_proc_def)
  obtain f s5 where f: "alloc_page s4 = (f, s5)" by fastforce
  from m4(1) f have "f = 0 \<and> s5 = s4" by (cases rule: alloc_page_cases) (use m4(2) in auto)
  then have run: "scheduler_create_process name entry arg prio s = (None, release_process r s4)"
    using s1(1) d f by (simp add: scheduler_create_process_def Let_def s2_def [symmetric] s4_def [symmetric])
  have "pmm (release_process r s4) = pmm s4" by (simp add: release_process_def upd_proc_def)
  then show ?thesis
    using run create_inv(1) [OF inv run] sched_inv_lists(1,4) [of "release_process r s4" "r # fl"] m4(2) assms(2) by auto
qed

section \<open>Reachable states\<close>

lemma inv_upd_current:
  assumes inv: "sched_inv s fl rq sl" and c: "current_process s = Some c" "c \<noteq> Idle"
  shows "sched_inv (upd_proc c f s) fl rq sl"
proof -
  have u: "unlisted c fl rq sl" using inv c by (simp add: sched_inv_def)
  have l: "sched_lists (upd_proc c f s) fl rq sl" using inv u by (intro lists_upd_unlisted) (simp_all add: sched_inv_def)
  show ?thesis by (rule inv_transfer [OF inv l]) (use u c in \<open>auto simp: upd_proc_def unlisted_def\<close>)
qed

lemma inv_no_current:
  assumes inv: "sched_inv s fl rq sl" and c: "current_process s = Some c" "c \<noteq> Idle"
  shows "sched_inv (s\<lparr>current_process := None\<rparr>) fl rq sl"
  using inv c unfolding sched_inv_def by simp

lemma inv_cong:
  assumes "procs t = procs s" "free_list t = free_list s" "queues t = queues s" "sleep_list t = sleep_list s"
    "current_process t = current_process s"
  shows "sched_inv t = sched_inv s"
  using assms by (intro ext) (simp add: sched_inv_def sched_lists_def)

lemma yield_inv:
  assumes inv: "sched_inv s fl rq sl"
  shows "\<exists>rq'. sched_inv (scheduler_yield s) fl rq' sl"
proof (cases "current_process s")
  case None
  then show ?thesis using inv by (auto simp: scheduler_yield_def)
next
  case (Some c)
  have u: "unlisted c fl rq sl" "c \<in> set all_procs" "sched_lists s fl rq sl"
    using inv Some by (simp_all add: sched_inv_def)
  show ?thesis
  proof (cases "c \<noteq> Idle \<and> state_of s c = PROCESS_STATE_RUNNING")
    case True
    let ?s = "s\<lparr>current_process := None\<rparr>" and ?p = "priority (procs s c)"
    have e: "enqueue_process c ?s = (enqueue_process c s)\<lparr>current_process := None\<rparr>"
      by (simp add: enqueue_process_def upd_proc_def upd_queue_of_def Let_def split: option.splits)
    have "sched_inv (enqueue_process c ?s) fl (rq(?p := rq ?p @ [c])) sl"
      using inv_enqueue_unlisted [OF inv_no_current [OF inv Some] u(1) _ u(2)] True by simp
    then show ?thesis using Some True e by (auto simp: scheduler_yield_def)
  next
    case False
    then show ?thesis using inv_no_current [OF inv Some] inv Some by (auto simp: scheduler_yield_def)
  qed
qed

lemma exit_inv:
  assumes inv: "sched_inv s fl rq sl" and c: "current_process s = Some c" "c \<noteq> Idle"
  shows "sched_inv (scheduler_yield (scheduler_destroy_process c (upd_proc c (\<lambda>p. p\<lparr>proc_state := PROCESS_STATE_TERMINATED\<rparr>) s)))
    (c # fl) rq sl"
proof -
  let ?s = "upd_proc c (\<lambda>p. p\<lparr>proc_state := PROCESS_STATE_TERMINATED\<rparr>) s"
  have inv1: "sched_inv ?s fl rq sl" by (rule inv_upd_current [OF inv c])
  have cur: "current_process ?s = Some c" by (simp add: upd_proc_def c)
  have inv2: "sched_inv (?s\<lparr>current_process := None\<rparr>) fl rq sl" by (rule inv_no_current [OF inv1 cur c(2)])
  have u: "unlisted c fl rq sl" "c \<in> set all_procs" using inv c by (simp_all add: sched_inv_def)
  let ?t = "release_process c (?s\<lparr>current_process := None\<rparr>)"
  have "sched_lists (?s\<lparr>current_process := None\<rparr>) fl rq sl" using inv2 unfolding sched_inv_def by blast
  note rl = lists_release [OF this u(1)]
  have "sched_inv ?t (c # fl) rq sl"
    using inv2 rl u unfolding sched_inv_def by (simp add: info_fields [OF rl(2)] del: current_update)
  moreover have "scheduler_yield (scheduler_destroy_process c ?s) = ?t"
    by (simp add: scheduler_yield_def scheduler_destroy_process_def release_process_def upd_proc_def c)
  ultimately show ?thesis by simp
qed

text \<open>
  Everything that changes the scheduler's data: the timer interrupt, the creation of a process, giving up the
  processor, going to sleep, \<open>sys_exit\<close> and the return of a process to its trampoline. Between them processes
  compute and time passes. A process other than the idle process sleeps and ends.
\<close>

inductive sched_step :: "'a sched_state_scheme \<Rightarrow> 'a sched_state_scheme \<Rightarrow> bool" where
  tick: "scheduler_tick d s = Some t \<Longrightarrow> sched_step s t"
| create: "scheduler_create_process name entry arg prio s = (r, t) \<Longrightarrow> sched_step s t"
| yield: "sched_step s (scheduler_yield s)"
| sleep: "current_process s = Some c \<Longrightarrow> c \<noteq> Idle \<Longrightarrow> sched_step s (sleep_mark ms c s)"
| exit: "current_process s = Some c \<Longrightarrow> c \<noteq> Idle \<Longrightarrow>
    sched_step s (scheduler_yield (scheduler_destroy_process c (upd_proc c (\<lambda>p. p\<lparr>proc_state := PROCESS_STATE_TERMINATED\<rparr>) s)))"
| finish: "current_process s = Some c \<Longrightarrow> c \<noteq> Idle \<Longrightarrow> sched_step s (upd_proc c (\<lambda>p. p\<lparr>proc_state := PROCESS_STATE_TERMINATED\<rparr>) s)"
| run: "runs s t \<Longrightarrow> sched_step s t"
| time: "sched_step s (s\<lparr>tick_count := tick_count s + 1\<rparr>)"

inductive_cases sched_stepE: "sched_step s t"

lemma sched_step_ok:
  assumes "sched_step s t" and "sched_ok s"
  shows "sched_ok t"
  using assms
proof (induction rule: sched_step.induct)
  case (tick d s t)
  from tick(2) obtain u where "scheduler_tick d s = Some u" "sched_ok u" by (rule tick_outcome [where d = d]) blast
  with tick(1) show ?case by simp
next
  case (create name entry arg prio s r t)
  then have "\<exists>fl rq sl. sched_inv t fl rq sl"
    using create_inv(1) [of s _ _ _ name entry arg prio r t] unfolding sched_ok_def by (cases r) fastforce+
  then show ?case using sched_inv_lists(4) by blast
next
  case (yield s)
  then show ?case using yield_inv sched_inv_lists(4) unfolding sched_ok_def by blast
next
  case (sleep s c ms)
  then show ?case using inv_upd_current sched_inv_lists(4) unfolding sched_ok_def sleep_mark_def Let_def by blast
next
  case (exit s c)
  then show ?case using exit_inv sched_inv_lists(4) unfolding sched_ok_def by blast
next
  case (finish s c)
  then show ?case using inv_upd_current sched_inv_lists(4) unfolding sched_ok_def by blast
next
  case (run s t)
  then show ?case by (simp add: runs_lists)
next
  case (time s)
  then have "sched_inv (s\<lparr>tick_count := tick_count s + 1\<rparr>) (free_procs s) (\<lambda>p. ready_list p s) (sleepers s)"
    using inv_cong [of "s\<lparr>tick_count := tick_count s + 1\<rparr>" s] by (simp add: sched_ok_def)
  then show ?case by (rule sched_inv_lists(4))
qed

text \<open>
  C4: In every state reachable from \<open>scheduler_init\<close> by timer interrupts, process creation, yielding, sleeping,
  exits and computation, the free list, the four ready queues and the sleep list are well-formed, hold each control
  block at most once, and do not contain the current process; sleeping and ready blocks have the matching state, and
  the idle process is running or in the lowest queue. So \<open>scheduler_tick\<close> always returns, with a running process. The idle process itself
  neither sleeps nor exits in these runs.
\<close>

theorem scheduler_invariant:
  assumes "sleep_list s0 = None" and "sched_step\<^sup>*\<^sup>* (snd (scheduler_init s0)) s"
  shows "sched_ok s \<and> (\<exists>t n. scheduler_tick d s = Some t \<and> current_process t = Some n \<and> state_of t n = PROCESS_STATE_RUNNING)"
proof -
  have "sched_ok s" using assms(2)
  proof (induction rule: rtranclp_induct)
    case base
    show ?case using scheduler_init_run(1) [OF assms(1)] by (rule sched_inv_lists(4))
  next
    case (step t u)
    then show ?case using sched_step_ok by blast
  qed
  moreover from this obtain t n where "scheduler_tick d s = Some t" "current_process t = Some n" "state_of t n = PROCESS_STATE_RUNNING"
    by (rule tick_outcome [where d = d]) blast
  ultimately show ?thesis by blast
qed

theorem scheduler_invariant_witness:
  "sched_ok (sched_boot\<lparr>tick_count := tick_count sched_boot + 1\<rparr>)"
proof -
  have "sleep_list (sched_blank (sample_heap 1)) = None"
    by (simp add: sched_blank_def heap_state.extend_def sched_state.fields_def)
  moreover have "sched_step\<^sup>*\<^sup>* (snd (scheduler_init (sched_blank (sample_heap 1)))) (sched_boot\<lparr>tick_count := tick_count sched_boot + 1\<rparr>)"
    unfolding sched_boot_def [symmetric] by (rule r_into_rtranclp) (rule sched_step.time)
  ultimately show ?thesis using scheduler_invariant by blast
qed

section \<open>Switching contexts\<close>

text \<open>The registers that the end of \<open>context_switch\<close> takes from the stack frame at \<open>a\<close>.\<close>

definition restored :: "mem \<Rightarrow> u32 \<Rightarrow> registers" where
  "restored m a = \<lparr>esp = a + 20, ebp = load32 m (a + 12), ebx = load32 m (a + 8), esi = load32 m (a + 4), edi = load32 m a,
     eip = load32 m (a + 16)\<rparr>"

text \<open>Memory after the seven pushes of a call.\<close>

definition pushed :: "u32 \<Rightarrow> u32 \<Rightarrow> u32 \<Rightarrow> registers \<Rightarrow> mem \<Rightarrow> mem" where
  "pushed new_esp slot ret r m = (let b = esp r in
     store32 (b - 28) (edi r) (store32 (b - 24) (esi r) (store32 (b - 20) (ebx r) (store32 (b - 16) (ebp r)
       (store32 (b - 12) ret (store32 (b - 8) slot (store32 (b - 4) new_esp m)))))))"

lemma call_context_switch_mem:
  "mem (call_context_switch old n s) = (let m = pushed n (stack_ptr_addr old s) (tick_return s) (regs s) (mem s)
     in case old of None \<Rightarrow> store32 60 (esp (regs s) - 28) m | Some _ \<Rightarrow> m)"
  by (cases old; simp add: call_context_switch_def context_switch_def save_stack_ptr_def pushed_def upd_proc_def Let_def)
    (simp_all add: push32_def Let_def)

lemma pop_frame:
  "regs (pop32 (\<lambda>v r. r\<lparr>eip := v\<rparr>) (pop32 (\<lambda>v r. r\<lparr>ebp := v\<rparr>) (pop32 (\<lambda>v r. r\<lparr>ebx := v\<rparr>)
     (pop32 (\<lambda>v r. r\<lparr>esi := v\<rparr>) (pop32 (\<lambda>v r. r\<lparr>edi := v\<rparr>) s))))) = restored (mem s) (esp (regs s))"
  by (rule registers.equality) (simp_all add: pop32_def restored_def Let_def add.assoc)

lemma call_context_switch_regs:
  "regs (call_context_switch old n s) =
     restored (mem (call_context_switch old n s)) (load32 (mem (call_context_switch old n s)) (esp (regs s) - 4))"
proof -
  have sv: "regs (save_stack_ptr old u) = regs u" for u :: "'a sched_state_scheme"
    by (simp add: save_stack_ptr_def upd_proc_def split: option.splits)
  show ?thesis
    by (simp add: call_context_switch_def context_switch_def Let_def pop_frame sv)
qed

text \<open>Words at multiples of 4.\<close>

lemma aligned4_diff:
  assumes "aligned4 a" and "aligned4 b"
  shows "aligned4 (a - b)" and "aligned4 (a + b)"
proof -
  have al: "aligned4 x \<longleftrightarrow> (\<exists>y. x = 4 * y)" for x :: u32
  proof
    assume "aligned4 x"
    then obtain k where k: "unat x = 4 * k" unfolding aligned4_def by (rule dvdE)
    have "x = of_nat (unat x)" by simp
    then have "x = 4 * of_nat k" unfolding k by simp
    then show "\<exists>y. x = 4 * y" ..
  next
    assume "\<exists>y. x = 4 * y"
    then obtain y where "x = 4 * y" ..
    then have "unat x = 4 * unat y mod 4294967296" by (simp add: unat_word_ariths)
    moreover have "(4::nat) dvd 4294967296" by simp
    ultimately show "aligned4 x" unfolding aligned4_def by (simp add: dvd_mod)
  qed
  obtain x y where "a = 4 * x" "b = 4 * y" using assms unfolding al by blast
  then have "a - b = 4 * (x - y)" "a + b = 4 * (x + y)" by (simp_all add: algebra_simps)
  then show "aligned4 (a - b)" "aligned4 (a + b)" unfolding al by blast+
qed

text \<open>The frame at \<open>a\<close> lies clear of the seven words pushed below \<open>b\<close>.\<close>

definition stack_apart :: "u32 \<Rightarrow> u32 \<Rightarrow> bool" where
  "stack_apart b a \<longleftrightarrow> list_all (\<lambda>i. list_all (\<lambda>j. a + i \<noteq> b - j) [4, 8, 12, 16, 20, 24, 28]) [0, 4, 8, 12, 16]"

lemma aligned4_numerals: "aligned4 4" "aligned4 8" "aligned4 12" "aligned4 16" "aligned4 20" "aligned4 24" "aligned4 28"
  by (simp_all add: aligned4_def)

lemma pushed_get:
  assumes b: "aligned4 (esp r)"
  shows "load32 (pushed n slot ret r m) (esp r - 4) = n" and "load32 (pushed n slot ret r m) (esp r - 12) = ret"
    and "load32 (pushed n slot ret r m) (esp r - 16) = ebp r" and "load32 (pushed n slot ret r m) (esp r - 20) = ebx r"
    and "load32 (pushed n slot ret r m) (esp r - 24) = esi r" and "load32 (pushed n slot ret r m) (esp r - 28) = edi r"
    and "aligned4 a \<Longrightarrow> a \<notin> {esp r - 4, esp r - 8, esp r - 12, esp r - 16, esp r - 20, esp r - 24, esp r - 28} \<Longrightarrow>
      load32 (pushed n slot ret r m) a = load32 m a"
proof -
  note st = pushed_def Let_def load32_store32 aligned4_diff aligned4_numerals
  show "load32 (pushed n slot ret r m) (esp r - 4) = n" "load32 (pushed n slot ret r m) (esp r - 12) = ret"
    "load32 (pushed n slot ret r m) (esp r - 16) = ebp r" "load32 (pushed n slot ret r m) (esp r - 20) = ebx r"
    "load32 (pushed n slot ret r m) (esp r - 24) = esi r" "load32 (pushed n slot ret r m) (esp r - 28) = edi r"
    using b by (simp_all add: st)
  assume "aligned4 a" and "a \<notin> {esp r - 4, esp r - 8, esp r - 12, esp r - 16, esp r - 20, esp r - 24, esp r - 28}"
  moreover from this have "esp r - 4 \<noteq> a" "esp r - 8 \<noteq> a" "esp r - 12 \<noteq> a" "esp r - 16 \<noteq> a" "esp r - 20 \<noteq> a"
    "esp r - 24 \<noteq> a" "esp r - 28 \<noteq> a" by auto
  ultimately show "load32 (pushed n slot ret r m) a = load32 m a" using b by (simp add: st)
qed


lemma tick_switch:
  assumes ok: "sched_ok s" and run: "scheduler_tick d s = Some t" and cur: "current_process t = Some n" "current_process s \<noteq> Some n"
  obtains x where "t = call_context_switch (current_process s) (stack_ptr (procs s n)) x" and "regs x = regs s" and "mem x = mem s"
    and "tick_return x = tick_return s" and "cr3 x = (if page_directory (procs s n) = 0 then cr3 s else page_directory (procs s n))"
    and "\<And>r. stack_ptr (procs x r) = stack_ptr (procs s r)"
proof -
  from ok [unfolded sched_ok_def] obtain t' s2 n' where t: "scheduler_tick d s = Some t'" "current_process t' = Some n'" "sched_only s s2"
    "info s2 = (tick_info d s)(n' := (tick_info d s n')\<lparr>proc_state := PROCESS_STATE_RUNNING\<rparr>)"
    "t' = (if current_process s = Some n' then s2
       else call_context_switch (current_process s) (stack_ptr (procs s n'))
         (if page_directory (procs s n') = 0 then s2 else vmm_switch_directory (page_directory (procs s n')) s2))"
    by (rule tick_run [where d = d]) blast
  have eq: "t' = t" "n' = n" using t(1,2) run cur(1) by simp_all
  let ?x = "if page_directory (procs s n) = 0 then s2 else vmm_switch_directory (page_directory (procs s n)) s2"
  note so = sched_onlyD [OF t(3)]
  have "stack_ptr (procs s2 r) = stack_ptr (procs s r)" for r
    using arg_cong [OF fun_cong [OF t(4), of r], of stack_ptr] by (simp add: info_more tick_info_more split: if_splits)
  then show thesis using t(5) cur(2) so unfolding eq by (intro that [of ?x]) (simp_all add: vmm_switch_directory_def)
qed

text \<open>
  C6: A process that was preempted continues where it was. Let a tick at \<open>s\<close> take the processor from
  \<open>c\<close>, and a later tick at \<open>u\<close> give it back. If in between neither the saved stack
  pointer nor the five words of the saved frame have changed, and the stack in use at \<open>u\<close> does not
  overlap the frame, then after the second tick the saved registers have their old values, execution continues
  behind the call of \<open>context_switch\<close> on the stack of \<open>c\<close>, and its directory is active.
\<close>

theorem scheduler_resumes_process:
  assumes "sched_ok s" and "current_process s = Some c" and "scheduler_tick d s = Some t" and "current_process t \<noteq> Some c"
    and "aligned4 (esp (regs s))"
    and "sched_ok u" and "current_process u = Some c'" and "c' \<noteq> c" and "scheduler_tick d' u = Some v" and "current_process v = Some c"
    and "aligned4 (esp (regs u))" and "stack_ptr (procs u c) = stack_ptr (procs t c)"
    and "stack_apart (esp (regs u)) (stack_ptr (procs t c))"
    and "\<forall>i \<in> {0, 4, 8, 12, 16}. load32 (mem u) (stack_ptr (procs t c) + i) = load32 (mem t) (stack_ptr (procs t c) + i)"
  shows "regs v = (regs s)\<lparr>esp := esp (regs s) - 8, eip := tick_return s\<rparr> \<and>
    cr3 v = (if page_directory (procs u c) = 0 then cr3 u else page_directory (procs u c))"
proof -
  obtain n where n: "current_process t = Some n" "n \<noteq> c"
    using assms(1,3,4) by (metis tick_outcome option.inject)
  have ne: "current_process s \<noteq> Some n" "current_process u \<noteq> Some c" using assms(2,7,8) n(2) by simp_all
  obtain x where x: "t = call_context_switch (Some c) (stack_ptr (procs s n)) x" "regs x = regs s" "mem x = mem s" "tick_return x = tick_return s"
    by (rule tick_switch [OF assms(1,3) n(1) ne(1)]) (simp add: assms(2))
  obtain y where y: "v = call_context_switch (Some c') (stack_ptr (procs u c)) y" "regs y = regs u" "mem y = mem u"
    "cr3 y = (if page_directory (procs u c) = 0 then cr3 u else page_directory (procs u c))"
    by (rule tick_switch [OF assms(6,9,10) ne(2)]) (simp add: assms(7))
  let ?b = "esp (regs s)" and ?e = "esp (regs u)"
  have sp: "stack_ptr (procs t c) = ?b - 28" by (simp add: x(1,2))
  have mt: "mem t = pushed (stack_ptr (procs s n)) (stack_ptr_addr (Some c) x) (tick_return s) (regs s) (mem s)"
    by (simp add: x call_context_switch_mem Let_def)
  have mv: "mem v = pushed (?b - 28) (stack_ptr_addr (Some c') y) (tick_return y) (regs u) (mem u)"
    by (simp add: y call_context_switch_mem Let_def assms(12) sp)
  note gt = pushed_get [OF assms(5)] and gu = pushed_get [OF assms(11)]
  have al: "aligned4 (?b - 28 + i)" if "aligned4 i" for i using assms(5) that by (intro aligned4_diff) (simp_all add: aligned4_numerals)
  have "load32 (mem v) (?b - 28 + i) = load32 (mem u) (?b - 28 + i)" if "i \<in> {0, 4, 8, 12, 16}" for i
    unfolding mv using assms(13) that unfolding stack_apart_def sp
    by (intro gu(7) al) (auto simp: aligned4_def)
  moreover have "load32 (mem u) (?b - 28 + i) = load32 (mem t) (?b - 28 + i)" if "i \<in> {0, 4, 8, 12, 16}" for i
    using assms(14) that unfolding sp by blast
  ultimately have frm: "load32 (mem v) (?b - 28 + i) = load32 (mem t) (?b - 28 + i)" if "i \<in> {0, 4, 8, 12, 16}" for i
    using that by simp
  have "regs v = restored (mem v) (?b - 28)"
    using call_context_switch_regs [of "Some c'" "stack_ptr (procs u c)" y] gu(1) unfolding y(1) [symmetric] y(2) mv by simp
  also have "\<dots> = (regs s)\<lparr>esp := ?b - 8, eip := tick_return s\<rparr>"
    using frm [of 0] frm [of 4] frm [of 8] frm [of 12] frm [of 16] gt(2-6) unfolding mt
    by (simp add: restored_def algebra_simps)
  finally show ?thesis by (simp add: y(1,4))
qed

section \<open>Sleeping\<close>

lemma unat_ucast_up: "unat (ucast (x :: u32) :: u64) = unat x"
proof -
  have "unat x < 2 ^ 64" using unat_u32_less [of x] by simp
  then show ?thesis by (simp only: unat_ucast_take_bit) (simp add: take_bit_nat_eq_self)
qed

definition wake_time :: "u64 \<Rightarrow> u32 \<Rightarrow> nat" where
  "wake_time n ms = unat n + max 1 (unat ms div 10)"

text \<open>
  A process that calls \<open>scheduler_sleep_current(ms)\<close> at tick \<open>n\<close> is due exactly from tick
  \<open>n + max 1 (ms / 10)\<close> on, as long as that number fits 32 bits. Once the tick counter has reached \<open>2\<^sup>3\<^sup>2\<close>
  (after 497 days) the wake-up time, kept in 32 bits, lies in the past and the process is due at once.
\<close>

theorem sleep_deadline:
  "(wake_time (tick_count s) ms < 2 ^ 32 \<longrightarrow>
      (due ((sleep_mark ms c s)\<lparr>tick_count := now\<rparr>) c \<longleftrightarrow> wake_time (tick_count s) ms \<le> unat now)) \<and>
    (2 ^ 32 \<le> unat (tick_count s) \<longrightarrow> due (sleep_mark ms c s) c)"
proof -
  let ?ticks = "if ms div 10 = 0 then 1 else ms div 10" and ?n = "tick_count s"
  have tk: "unat ?ticks = max 1 (unat ms div 10)"
  proof -
    have "unat (ms div 10) = unat ms div 10" by (simp add: unat_div)
    moreover have "0 < unat (ms div 10)" if "ms div 10 \<noteq> 0" by (rule iffD2 [OF unat_gt_0 that])
    ultimately show ?thesis by (cases "ms div 10 = 0") (auto simp: max_def)
  qed
  define w where "w = wake_tick (procs (sleep_mark ms c s) c)"
  have w: "w = ucast (?n + ucast ?ticks)" by (simp add: w_def sleep_mark_def upd_proc_def Let_def)
  have due: "due ((sleep_mark ms c s)\<lparr>tick_count := now\<rparr>) c \<longleftrightarrow> unat w \<le> unat now" for now
    unfolding due_def word_le_nat_alt by (simp add: w_def unat_ucast_up)
  have uw: "unat w = unat (?n + ucast ?ticks) mod 2 ^ 32"
    unfolding w by (simp only: unat_ucast_take_bit) (simp add: take_bit_eq_mod)
  have big: "unat w < 2 ^ 32" using unat_u32_less .
  have "unat w = wake_time ?n ms" if "wake_time ?n ms < 2 ^ 32"
  proof -
    have "unat (?n + ucast ?ticks) = unat ?n + unat ?ticks"
      using that tk by (simp add: wake_time_def unat_word_ariths unat_ucast_up split del: if_split)
    then show ?thesis using that tk uw by (simp add: wake_time_def)
  qed
  moreover have "(sleep_mark ms c s)\<lparr>tick_count := ?n\<rparr> = sleep_mark ms c s" by (simp add: sleep_mark_def upd_proc_def Let_def)
  ultimately show ?thesis using due [of now] due [of ?n] big by auto
qed


lemma scheduler_init_only: "sched_only s (snd (scheduler_init s))"
proof -
  let ?body = "\<lambda>i. upd_proc (Pool i) (\<lambda>p. p\<lparr>proc_next := Some (Pool (i + 1))\<rparr>) :: 'a sched_state_scheme \<Rightarrow> _"
  have "sched_only s (for_upto 0 (MAX_PROCESSES - 1) ?body s)"
    by (rule for_upto_invariant [where I = "\<lambda>_. sched_only s"]) (auto intro: sched_only_trans)
  then show ?thesis unfolding scheduler_init_def Let_def
    by (auto intro!: sched_only_trans [OF _ sched_only_updates(1)] sched_only_trans [OF _ sched_only_updates(2)]
        sched_only_trans [OF _ sched_only_updates(3)] sched_only_trans [OF _ sched_only_updates(5)])
qed

theorem sleep_deadline_witness:
  "due ((sleep_mark 25 (Pool 0) sched_boot)\<lparr>tick_count := 2\<rparr>) (Pool 0) \<and>
   \<not> due ((sleep_mark 25 (Pool 0) sched_boot)\<lparr>tick_count := 1\<rparr>) (Pool 0)"
proof -
  have "tick_count sched_boot = 0"
    by (simp add: sched_boot_def sched_onlyD(3) [OF scheduler_init_only] sched_blank_def heap_state.extend_def sched_state.fields_def)
  then have "wake_time (tick_count sched_boot) 25 = 2" by (simp add: wake_time_def)
  with sleep_deadline [where s = sched_boot and ms = 25 and c = "Pool 0" and now = 2] sleep_deadline [where s = sched_boot and ms = 25 and c = "Pool 0" and now = 1] show ?thesis by simp
qed

section \<open>A running system\<close>

lemma sched_only_kernel_space:
  assumes "sched_only s t"
  shows "kernel_space t = kernel_space s"
  using sched_onlyD [OF assms] sched_only_space [OF assms] by (simp add: kernel_space_def identity_low_def entry_get_def)

lemma booted_sched:
  obtains s :: sched_state where "sched_inv s pool_refs (\<lambda>_. []) []" and "current_process s = Some Idle"
    and "state_of s Idle = PROCESS_STATE_RUNNING" and "priority (procs s Idle) = PRIORITY_LOW" and "kernel_space s"
    and "free_frames (pmm s) = page_addr ` {256..<16128}" and "esp (regs s) = 0x90000"
proof -
  let ?v = "sched_blank (vmm_state.extend sample_vm (heap_state.fields 0 0))"
  note ex = sched_blank_def heap_state.extend_def vmm_state.extend_def sched_state.fields_def heap_state.fields_def
  have pre: "thr_answers (device ?v)" "pmm_wf (pmm ?v)" "kernel_layout (kernel_page_directory ?v) (kernel_page_table ?v)"
    by (simp_all add: answers_def sample_vm_def serial_is_transmit_empty_def SERIAL_LSR_THRE_def booted_pmm(1)
        kernel_layout_def frame_def ex)
  obtain b :: sched_state where b: "pmm b = pmm_init (pmm ?v)" "identity_dir (kernel_page_directory ?v) (kernel_page_table ?v) b"
    "kernel_page_directory b = kernel_page_directory ?v" "kernel_page_table b = kernel_page_table ?v"
    using pre by (rule vmm_init_run) blast
  have fr: "free_frames (pmm b) = page_addr ` {256..<16128}" unfolding b(1) using pre(2) by (rule pmm_init_frames)
  have ks: "kernel_space b"
    unfolding kernel_space_def fr using b pre(2,3) managed_frame_upper
    by (auto simp: pmm_init_free_pages intro: identity_dir_low)
  let ?b = "b\<lparr>sleep_list := None, regs := \<lparr>esp = 0x90000, ebp = 0x90100, ebx = 1, esi = 2, edi = 3, eip = 0x100500\<rparr>\<rparr>"
  have ks': "kernel_space ?b" using ks by (simp add: kernel_space_def identity_low_def entry_get_def)
  let ?s = "snd (scheduler_init ?b)"
  note so = sched_onlyD [OF scheduler_init_only [of ?b]]
  have "kernel_space ?s" using ks' sched_only_kernel_space [OF scheduler_init_only [of ?b]] by simp
  moreover have "sleep_list ?b = None" by simp
  note i = scheduler_init_run [OF this]
  ultimately show thesis using i fr so by (intro that [of ?s]) simp_all
qed

lemma two_frames:
  "page_addr 256 \<in> page_addr ` {256..<16128}" "page_addr 257 \<in> page_addr ` {256..<16128}" "page_addr 256 \<noteq> page_addr 257"
  by (auto intro!: imageI) (simp add: page_addr_def MEMORY_START_ADDR_def PAGE_SIZE_def)

theorem scheduler_create_process_correct_witness:
  "\<exists>(s :: sched_state) t. scheduler_create_process (map of_char ''init'') 0x100800 7 PRIORITY_LOW s = (Some (Pool 0), t) \<and>
     ready_list PRIORITY_LOW t = [Pool 0] \<and> sched_ok t"
proof -
  obtain s :: sched_state where s: "sched_inv s pool_refs (\<lambda>_. []) []" "kernel_space s" "free_frames (pmm s) = page_addr ` {256..<16128}"
    by (rule booted_sched) blast
  note l = sched_inv_lists [OF s(1)]
  have "free_procs s = Pool 0 # map Pool [1..<64]" by (simp add: l(1) pool_refs_def MAX_PROCESSES_def upt_conv_Cons del: upt_rec_numeral)
  from scheduler_create_process_correct [OF l(4) this s(2) two_frames [folded s(3)],
      where name = "map of_char ''init''" and entry = "0x100800" and arg = 7 and prio = PRIORITY_LOW]
  show ?thesis by (auto simp: l(2))
qed

text \<open>A system with one process of the lowest priority beside the idle process, which runs.\<close>

lemma one_process:
  obtains s :: sched_state and f where "sched_ok s" and "current_process s = Some Idle" and "state_of s Idle = PROCESS_STATE_RUNNING"
    and "priority (procs s Idle) = PRIORITY_LOW" and "sleepers s = []" and "\<And>p. ready_list p s = (if p = PRIORITY_LOW then [Pool 0] else [])"
    and "esp (regs s) = 0x90000" and "frame f" and "0x200000 \<le> unat f" and "unat f < 0x4000000" and "stack_ptr (procs s (Pool 0)) = f + 4076"
proof -
  obtain s :: sched_state where s: "sched_inv s pool_refs (\<lambda>_. []) []" "kernel_space s" "free_frames (pmm s) = page_addr ` {256..<16128}"
    "current_process s = Some Idle" "state_of s Idle = PROCESS_STATE_RUNNING" "priority (procs s Idle) = PRIORITY_LOW" "esp (regs s) = 0x90000"
    by (rule booted_sched) blast
  have "pool_refs = Pool 0 # map Pool [1..<64]" by (simp add: pool_refs_def MAX_PROCESSES_def upt_conv_Cons del: upt_rec_numeral)
  note inv = s(1) [unfolded this]
  obtain t :: sched_state and d f where t: "sched_inv t (map Pool [1..<64]) ((\<lambda>_. [])(PRIORITY_LOW := [] @ [Pool 0])) []" "current_process t = current_process s"
    "info t = (info s)(Pool 0 := created (next_pid s) [] 0 0 PRIORITY_LOW d f (info s (Pool 0)))" "regs t = regs s"
    "f \<in> free_frames (pmm s)"
    by (rule create_run [OF inv s(2) two_frames [folded s(3)], where name = "[]" and entry = 0 and arg = 0 and prio = PRIORITY_LOW]) blast
  note l = sched_inv_lists [OF t(1)]
  have i: "info t Idle = info s Idle" "info t (Pool 0) = created (next_pid s) [] 0 0 PRIORITY_LOW d f (info s (Pool 0))" using t(3) by simp_all
  have "stack_ptr (procs t (Pool 0)) = f + 4076" by (simp only: info_sel(8) [symmetric] i(2)) (simp add: created_def)
  moreover have "managed_frame f" "0x200000 \<le> unat f" using t(5) s(3) managed_frame_upper by blast+
  moreover from this have "frame f" "unat f < 0x4000000" by (simp_all add: managed_is_frame managed_frame_def)
  ultimately show thesis using l t(2,4) s(4-7) info_eqD(1,2) [OF i(1)] by (intro that [of t f]) simp_all
qed

theorem scheduler_round_robin_witness:
  "\<exists>(s :: sched_state) t. run_ticks (\<lambda>_ u. u) 10 3 s = Some t \<and> current_process s = Some Idle \<and> current_process t = Some (Pool 0)"
proof -
  obtain s :: sched_state where s: "sched_ok s" "current_process s = Some Idle" "state_of s Idle = PROCESS_STATE_RUNNING"
    "priority (procs s Idle) = PRIORITY_LOW" "sleepers s = []" "\<And>p. ready_list p s = (if p = PRIORITY_LOW then [Pool 0] else [])"
    by (rule one_process) blast
  have "\<forall>i u. runs u ((\<lambda>_ u. u) i u)" by (simp add: runs_def)
  moreover have "(3 :: nat) mod Suc (Suc 0) = 1" unfolding numeral_2_eq_2 [symmetric] by simp
  ultimately show ?thesis using scheduler_round_robin [OF s(1-5), of "\<lambda>_ u. u" 10 3] s(2,6) by auto
qed

lemma stack_apart_low:
  assumes "frame f" "0x200000 \<le> unat f" "unat f < 0x4000000"
  shows "stack_apart (f + 4096) (0x90000 - 28)"
proof -
  have ne: "f \<noteq> c" if "unat c < 0x200000" for c using that assms(2) by auto
  show ?thesis unfolding stack_apart_def by (simp; intro conjI ne) simp_all
qed

theorem scheduler_resumes_process_witness:
  "\<exists>(s :: sched_state) t v. scheduler_tick 10 s = Some t \<and> scheduler_tick 10 t = Some v \<and> current_process t = Some (Pool 0) \<and>
     regs v = (regs s)\<lparr>esp := 0x90000 - 8, eip := tick_return s\<rparr>"
proof -
  obtain s :: sched_state and f where s: "sched_ok s" "current_process s = Some Idle" "state_of s Idle = PROCESS_STATE_RUNNING"
    "priority (procs s Idle) = PRIORITY_LOW" "sleepers s = []" "\<And>p. ready_list p s = (if p = PRIORITY_LOW then [Pool 0] else [])"
    "esp (regs s) = 0x90000" "frame f" "0x200000 \<le> unat f" "unat f < 0x4000000" "stack_ptr (procs s (Pool 0)) = f + 4076"
    by (rule one_process) blast
  have rot: "rotation PRIORITY_LOW [Idle, Pool 0] s" using s by (simp add: rotation_def)
  obtain t where t: "scheduler_tick 10 s = Some t" "rotation PRIORITY_LOW [Pool 0, Idle] t" using rotation_tick [OF rot, of 10] by auto
  obtain v where v: "scheduler_tick 10 t = Some v" "rotation PRIORITY_LOW [Idle, Pool 0] v" using rotation_tick [OF t(2), of 10] by auto
  have ct: "current_process t = Some (Pool 0)" "sched_ok t" and cv: "current_process v = Some Idle" using t(2) v(2) by (auto simp: rotation_def)
  have al: "aligned4 (esp (regs s))" by (simp add: s(7) aligned4_def)
  obtain x where x: "t = call_context_switch (Some Idle) (f + 4076) x" "regs x = regs s" "mem x = mem s" "tick_return x = tick_return s"
    by (rule tick_switch [OF s(1) t(1) ct(1)]) (simp_all add: s(2,11))
  have "load32 (mem t) (esp (regs s) - 4) = f + 4076"
    unfolding x(1) call_context_switch_mem using pushed_get(1) [OF al] by (simp add: x Let_def)
  then have et: "esp (regs t) = f + 4096"
    using call_context_switch_regs [of "Some Idle" "f + 4076" x, folded x(1)] by (simp add: x(2) restored_def)
  have sp: "stack_ptr (procs t Idle) = 0x90000 - 28" by (simp add: x(1,2) s(7))
  have "aligned4 f" using s(8) by (auto simp: frame_def aligned4_def intro: dvd_trans [of 4 4096])
  then have al': "aligned4 (esp (regs t))" unfolding et by (intro aligned4_diff) (simp_all add: aligned4_def)
  have "regs v = (regs s)\<lparr>esp := esp (regs s) - 8, eip := tick_return s\<rparr>"
    using scheduler_resumes_process [OF s(1,2) t(1) _ al ct(2,1) _ v(1) cv al'] ct(1) stack_apart_low [OF s(8-10)] by (simp add: sp et)
  with t(1) v(1) ct(1) s(7) show ?thesis by (intro exI [of _ s] exI [of _ t] exI [of _ v]) simp
qed

section \<open>The ready queues as queues\<close>

definition lists_ok :: "'a sched_state_scheme \<Rightarrow> bool" where
  "lists_ok s \<longleftrightarrow> sched_lists s (free_procs s) (\<lambda>p. ready_list p s) (sleepers s) \<and>
     set (free_procs s) \<union> set (sleepers s) \<subseteq> set all_procs \<and> (\<forall>p. set (ready_list p s) \<subseteq> set all_procs)"

lemma lists_read:
  assumes l: "sched_lists s fl rq sl" and sub: "set fl \<union> set sl \<subseteq> set all_procs" "\<And>p. set (rq p) \<subseteq> set all_procs"
  shows "free_procs s = fl" and "ready_list p s = rq p" and "sleepers s = sl" and "lists_ok s"
proof -
  note d = lists_disjoint [OF l]
  have sub': "set fl \<subseteq> set all_procs" "set sl \<subseteq> set all_procs" using sub(1) by blast+
  have f: "free_procs s = fl" unfolding free_procs_def
    using l all_procs_bound [OF d(5) sub'(1)] by (intro follow_pseg) (auto simp: sched_lists_def)
  have q: "ready_list p s = rq p" for p unfolding ready_list_def
    using l all_procs_bound [OF d(7) sub(2)] by (intro follow_pseg) (auto simp: sched_lists_def queue_ok_def)
  have z: "sleepers s = sl" unfolding sleepers_def
    using l all_procs_bound [OF d(6) sub'(2)] by (intro follow_pseg) (auto simp: sched_lists_def)
  show "free_procs s = fl" "ready_list p s = rq p" "sleepers s = sl" "lists_ok s"
    using f q z assms by (simp_all add: lists_ok_def)
qed

text \<open>A process that may be put into the queue of its priority: it is in no list.\<close>

definition enqueueable :: "process_priority \<Rightarrow> proc_ref \<Rightarrow> 'a sched_state_scheme \<Rightarrow> bool" where
  "enqueueable p r s \<longleftrightarrow> priority (procs s r) = p \<and> r \<in> set all_procs \<and>
     r \<notin> set (free_procs s) \<and> r \<notin> set (sleepers s) \<and> (\<forall>q. r \<notin> set (ready_list q s))"

lemma ready_put:
  assumes "lists_ok s" and "enqueueable p r s"
  shows "ready_list p (enqueue_process r s) = ready_list p s @ [r]" and "lists_ok (enqueue_process r s)"
proof -
  let ?rq = "\<lambda>p. ready_list p s"
  have l: "sched_lists s (free_procs s) ?rq (sleepers s)" "unlisted r (free_procs s) ?rq (sleepers s)" "priority (procs s r) = p"
    using assms by (simp_all add: lists_ok_def enqueueable_def unlisted_def)
  have sub: "set (free_procs s) \<union> set (sleepers s) \<subseteq> set all_procs" "\<And>q. set ((?rq(p := ?rq p @ [r])) q) \<subseteq> set all_procs"
    using assms unfolding lists_ok_def enqueueable_def by (auto simp del: pool_refs)
  note rd = lists_read [OF lists_enqueue(1) [OF l] sub]
  show "ready_list p (enqueue_process r s) = ready_list p s @ [r]" "lists_ok (enqueue_process r s)" using rd(2,4) by simp_all
qed

lemma ready_drop:
  assumes "lists_ok s" and "ready_list p s \<noteq> []"
  shows "ready_list p (snd (dequeue_process p s)) = tl (ready_list p s)" and "lists_ok (snd (dequeue_process p s))"
proof -
  let ?rq = "\<lambda>p. ready_list p s"
  obtain r rs where r: "?rq p = r # rs" using assms(2) by (cases "ready_list p s") auto
  have "sched_lists s (free_procs s) ?rq (sleepers s)" using assms by (simp add: lists_ok_def)
  from this r obtain t where t: "dequeue_process p s = (Some r, t)" "sched_lists t (free_procs s) (?rq(p := rs)) (sleepers s)"
    by (rule lists_dequeue) blast
  have "set (?rq p) \<subseteq> set all_procs" using assms(1) unfolding lists_ok_def by blast
  then have sub: "set (free_procs s) \<union> set (sleepers s) \<subseteq> set all_procs" "\<And>q. set ((?rq(p := rs)) q) \<subseteq> set all_procs"
    using assms(1) r unfolding lists_ok_def by (auto simp del: pool_refs)
  note rd = lists_read [OF t(2) sub]
  show "ready_list p (snd (dequeue_process p s)) = tl (ready_list p s)" "lists_ok (snd (dequeue_process p s))"
    using rd(2) [of p] rd(4) t(1) r by simp_all
qed

interpretation rq: fifo "ready_list p" lists_ok "enqueueable p" enqueue_process "\<lambda>s. snd (dequeue_process p s)" for p
  by unfold_locales (simp_all add: ready_put ready_drop)

text \<open>
  Each ready queue is first in, first out: a process appended to the queue of its priority by \<open>enqueue_process\<close>
  is the only one left after as many calls of \<open>dequeue_process\<close> as there were processes in the queue before.
\<close>

theorem ready_queue_fifo:
  assumes "lists_ok s" and "enqueueable p r s"
  shows "ready_list p (((\<lambda>s. snd (dequeue_process p s)) ^^ length (ready_list p s)) (enqueue_process r s)) = [r]"
  using assms by (rule rq.put_comes_out_last)

lemma sched_ok_lists: "sched_ok s \<Longrightarrow> lists_ok s"
  by (simp add: sched_ok_def lists_ok_def sched_inv_def)

theorem ready_queue_fifo_witness:
  "\<exists>s :: sched_state. length (ready_list PRIORITY_LOW s) = 1 \<and>
     ready_list PRIORITY_LOW (snd (dequeue_process PRIORITY_LOW (enqueue_process Idle s))) = [Idle]"
proof -
  obtain s :: sched_state where s: "sched_ok s" "current_process s = Some Idle" "priority (procs s Idle) = PRIORITY_LOW"
    "\<And>p. ready_list p s = (if p = PRIORITY_LOW then [Pool 0] else [])"
    by (rule one_process) blast
  have "enqueueable PRIORITY_LOW Idle s" using s unfolding sched_ok_def sched_inv_def enqueueable_def unlisted_def by simp
  from ready_queue_fifo [OF sched_ok_lists [OF s(1)] this] s(4) show ?thesis by (intro exI [of _ s]) simp
qed

section \<open>Yielding\<close>

text \<open>
  After \<open>scheduler_yield\<close> there is no current process, and the next tick stores the stack pointer of the
  process that yielded at address 60 instead of in its control block: the process is in the ready queue, but
  will be resumed from the context it had when it was switched out before.
\<close>

theorem scheduler_yield_loses_context:
  assumes "sched_ok s" and "current_process s = Some c" and "c \<noteq> Idle" and "state_of s c = PROCESS_STATE_RUNNING"
  shows "\<exists>t. scheduler_tick d (scheduler_yield s) = Some t \<and> stack_ptr (procs t c) = stack_ptr (procs s c) \<and>
    load32 (mem t) 60 = esp (regs s) - 28"
proof -
  let ?y = "scheduler_yield s"
  have inv: "sched_inv s (free_procs s) (\<lambda>p. ready_list p s) (sleepers s)" using assms(1) by (simp add: sched_ok_def)
  have ok: "sched_ok ?y" using yield_inv [OF inv] sched_inv_lists(4) by blast
  have l: "sched_lists s (free_procs s) (\<lambda>p. ready_list p s) (sleepers s)" "unlisted c (free_procs s) (\<lambda>p. ready_list p s) (sleepers s)"
    using inv assms(2) by (simp_all add: sched_inv_def)
  note e = lists_enqueue [OF l refl]
  have y: "?y = (enqueue_process c s)\<lparr>current_process := None\<rparr>" using assms by (simp add: scheduler_yield_def)
  have f: "stack_ptr (procs ?y r) = stack_ptr (procs s r)" "regs ?y = regs s" "current_process ?y = None" for r
    unfolding y using info_fields(4) [OF e(2)] sched_onlyD(2) [OF e(3)] by simp_all
  from ok obtain t n where t: "scheduler_tick d ?y = Some t" "current_process t = Some n" by (rule tick_outcome [where d = d]) blast
  obtain x where x: "t = call_context_switch None (stack_ptr (procs ?y n)) x" "regs x = regs s" "\<And>r. stack_ptr (procs x r) = stack_ptr (procs s r)"
    by (rule tick_switch [OF ok t]) (use f in auto)
  have "load32 (mem t) 60 = esp (regs s) - 28" by (simp add: x(1,2) call_context_switch_mem Let_def)
  then show ?thesis using t(1) x(3) by (simp add: x(1))
qed

end
