(* ===== verification/Descriptors.thy ===== *)
theory Descriptors
  imports SchedulerRuns
begin

text \<open>
  The processor tables: the global descriptor table (\<^verbatim>\<open>kernel/core/gdt.c\<close>), the task state segment
  (\<^verbatim>\<open>kernel/core/tss.c\<close>), the interrupt descriptor table (the part of
  \<^verbatim>\<open>kernel/core/idt.c\<close> that fills it) and the entry into user mode (\<^verbatim>\<open>kernel/core/usermode.c\<close>).
  The state is extended with the tables, the segment and system registers, and the link-time addresses of the
  tables and of the interrupt stubs. The decoding functions state how the processor reads a descriptor.
\<close>

section \<open>State\<close>

definition KERNEL_CS :: u16 where "KERNEL_CS = 0x08"
definition KERNEL_DS :: u16 where "KERNEL_DS = 0x10"
definition USER_CS :: u16 where "USER_CS = 0x1B"
definition USER_DS :: u16 where "USER_DS = 0x23"
definition TSS_SEL :: u16 where "TSS_SEL = 0x28"
definition GDT_ENTRIES :: nat where "GDT_ENTRIES = 6"
definition IDT_ENTRY_COUNT :: nat where "IDT_ENTRY_COUNT = 256"

record tss_entry =
  prev_tss :: u32
  esp0 :: u32
  ss0 :: u32
  esp1 :: u32
  ss1 :: u32
  esp2 :: u32
  ss2 :: u32
  tss_cr3 :: u32
  tss_eip :: u32
  tss_eflags :: u32
  tss_eax :: u32
  tss_ecx :: u32
  tss_edx :: u32
  tss_ebx :: u32
  tss_esp :: u32
  tss_ebp :: u32
  tss_esi :: u32
  tss_edi :: u32
  tss_es :: u32
  tss_cs :: u32
  tss_ss :: u32
  tss_ds :: u32
  tss_fs :: u32
  tss_gs :: u32
  tss_ldt :: u32
  tss_trap :: u16
  iomap_base :: u16

record idt_entry =
  base_low :: u16
  sel :: u16
  gate_zero :: u8
  gate_flags :: u8
  base_high :: u16

record table_ptr =
  tbl_limit :: u16
  tbl_base :: u32

record segments =
  seg_cs :: u16
  seg_ds :: u16
  seg_es :: u16
  seg_fs :: u16
  seg_gs :: u16
  seg_ss :: u16

text \<open>\<open>tss_size\<close> is \<open>sizeof(struct tss_entry)\<close>: 25 words and 2 half words, packed.\<close>

definition tss_size :: u32 where "tss_size = 104"

record cpu_state = sched_state +
  gdt :: "u64 list"
  gp :: table_ptr
  gdtr :: table_ptr
  segs :: segments
  tss :: tss_entry
  task_register :: u16
  idt_entries :: "idt_entry list"
  idt_ptr :: table_ptr
  idtr :: table_ptr
  eflags :: u32
  cr4 :: u32
  gdt_addr :: u32
  tss_addr :: u32
  idt_addr :: u32
  isr_addr :: "nat \<Rightarrow> u32"
  syscall_stub_addr :: u32

section \<open>Operations\<close>

definition gdt_set_entry :: "nat \<Rightarrow> u64 \<Rightarrow> 'a cpu_state_scheme \<Rightarrow> 'a cpu_state_scheme" where
  "gdt_set_entry i v s = s\<lparr>gdt := (gdt s)[i := v]\<rparr>"

definition gdt_init :: "'a cpu_state_scheme \<Rightarrow> 'a cpu_state_scheme" where
  "gdt_init s =
     (let s1 = gdt_set_entry 0 0x0000000000000000 s;
          s2 = gdt_set_entry 1 0x00CF9A000000FFFF s1;
          s3 = gdt_set_entry 2 0x00CF92000000FFFF s2;
          s4 = gdt_set_entry 3 0x00CFFA000000FFFF s3;
          s5 = gdt_set_entry 4 0x00CFF2000000FFFF s4;
          s6 = gdt_set_entry 5 0x0000000000000000 s5;
          s7 = s6\<lparr>gp := \<lparr>tbl_limit = of_nat (8 * GDT_ENTRIES) - 1, tbl_base = gdt_addr s6\<rparr>\<rparr>
      in s7\<lparr>gdtr := gp s7,
             segs := \<lparr>seg_cs = 0x08, seg_ds = 0x10, seg_es = 0x10, seg_fs = 0x10, seg_gs = 0x10, seg_ss = 0x10\<rparr>\<rparr>)"

definition gdt_get_table :: "'a cpu_state_scheme \<Rightarrow> u64 list" where
  "gdt_get_table s = gdt s"

definition tss_descriptor :: "u32 \<Rightarrow> u32 \<Rightarrow> u64" where
  "tss_descriptor base limit =
     (let entry = 0;
          entry = entry OR ucast (limit AND 0xFFFF);
          entry = entry OR push_bit 16 (ucast (base AND 0xFFFFFF));
          entry = entry OR push_bit 40 0x89;
          entry = entry OR push_bit 48 (ucast (drop_bit 16 limit AND 0xF))
      in entry OR push_bit 56 (ucast (drop_bit 24 base AND 0xFF)))"

definition gdt_set_tss_entry :: "u32 \<Rightarrow> u32 \<Rightarrow> 'a cpu_state_scheme \<Rightarrow> 'a cpu_state_scheme" where
  "gdt_set_tss_entry base limit s = s\<lparr>gdt := (gdt_get_table s)[5 := tss_descriptor base limit]\<rparr>"

definition blank_tss :: tss_entry where
  "blank_tss = \<lparr>prev_tss = 0, esp0 = 0, ss0 = 0, esp1 = 0, ss1 = 0, esp2 = 0, ss2 = 0, tss_cr3 = 0, tss_eip = 0, tss_eflags = 0,
     tss_eax = 0, tss_ecx = 0, tss_edx = 0, tss_ebx = 0, tss_esp = 0, tss_ebp = 0, tss_esi = 0, tss_edi = 0,
     tss_es = 0, tss_cs = 0, tss_ss = 0, tss_ds = 0, tss_fs = 0, tss_gs = 0, tss_ldt = 0, tss_trap = 0, iomap_base = 0\<rparr>"

text \<open>\<open>ltr\<close> loads the task register and marks the descriptor busy.\<close>

definition ltr :: "u16 \<Rightarrow> 'a cpu_state_scheme \<Rightarrow> 'a cpu_state_scheme" where
  "ltr sl s =
     (let i = unat (drop_bit 3 sl)
      in s\<lparr>task_register := sl, gdt := (gdt s)[i := (gdt s ! i) OR 0x20000000000]\<rparr>)"

definition tss_init :: "'a cpu_state_scheme \<Rightarrow> 'a cpu_state_scheme" where
  "tss_init s =
     (let s1 = s\<lparr>tss := blank_tss\<rparr>;
          s2 = s1\<lparr>tss := (tss s1)\<lparr>ss0 := ucast KERNEL_DS, esp0 := 0, iomap_base := ucast tss_size\<rparr>\<rparr>;
          s3 = gdt_set_tss_entry (tss_addr s2) (tss_size - 1) s2
      in ltr TSS_SEL s3)"

definition tss_set_kernel_stack :: "u32 \<Rightarrow> 'a cpu_state_scheme \<Rightarrow> 'a cpu_state_scheme" where
  "tss_set_kernel_stack esp0_val s = s\<lparr>tss := (tss s)\<lparr>esp0 := esp0_val\<rparr>\<rparr>"

definition idt_set_gate :: "u8 \<Rightarrow> u32 \<Rightarrow> u16 \<Rightarrow> u8 \<Rightarrow> 'a cpu_state_scheme \<Rightarrow> 'a cpu_state_scheme" where
  "idt_set_gate num base selector flags s =
     s\<lparr>idt_entries := (idt_entries s)[unat num :=
         (idt_entries s ! unat num)\<lparr>base_low := ucast (base AND 0xFFFF), base_high := ucast (drop_bit 16 base AND 0xFFFF),
            sel := selector, gate_zero := 0, gate_flags := flags\<rparr>]\<rparr>"

text \<open>\<open>idt_install\<close> calls \<open>idt_load\<close>, which executes \<open>lidt\<close> on \<open>idt_ptr\<close>.\<close>

definition idt_install :: "'a cpu_state_scheme \<Rightarrow> 'a cpu_state_scheme" where
  "idt_install s = s\<lparr>idtr := idt_ptr s\<rparr>"

definition idt_init :: "'a cpu_state_scheme \<Rightarrow> 'a cpu_state_scheme" where
  "idt_init s =
     (let s1 = s\<lparr>idt_ptr := \<lparr>tbl_limit = of_nat (8 * IDT_ENTRY_COUNT) - 1, tbl_base = idt_addr s\<rparr>\<rparr>;
          s2 = for_upto 0 IDT_ENTRY_COUNT (\<lambda>i. idt_set_gate (of_nat i) 0 0 0) s1;
          s3 = for_upto 0 48 (\<lambda>i. idt_set_gate (of_nat i) (isr_addr s2 i) 0x08 0x8E) s2;
          s4 = idt_set_gate 0x80 (syscall_stub_addr s3) 0x08 0xEE s3
      in idt_install s4)"

text \<open>The interrupt flag is bit 9 of \<open>EFLAGS\<close>; \<open>cli\<close> clears it and \<open>sti\<close> sets it.\<close>

definition interrupt_flag :: "'a cpu_state_scheme \<Rightarrow> bool" where
  "interrupt_flag s = bit (eflags s) 9"

definition cli :: "'a cpu_state_scheme \<Rightarrow> 'a cpu_state_scheme" where
  "cli s = s\<lparr>eflags := eflags s AND NOT 0x200\<rparr>"

definition sti :: "'a cpu_state_scheme \<Rightarrow> 'a cpu_state_scheme" where
  "sti s = s\<lparr>eflags := eflags s OR 0x200\<rparr>"

text \<open>\<open>enter_usermode\<close>: the pushes build the frame that \<open>iret\<close> takes from the stack, for a
  return to another privilege level \<open>EIP\<close>, \<open>CS\<close>, \<open>EFLAGS\<close>, \<open>ESP\<close> and \<open>SS\<close>.\<close>

definition iret :: "'a cpu_state_scheme \<Rightarrow> 'a cpu_state_scheme" where
  "iret s =
     (let a = esp (regs s); w = (\<lambda>i. load32 (mem s) (a + i))
      in s\<lparr>regs := (regs s)\<lparr>eip := w 0, esp := w 12\<rparr>, eflags := w 8,
           segs := (segs s)\<lparr>seg_cs := ucast (w 4), seg_ss := ucast (w 16)\<rparr>\<rparr>)"

definition enter_usermode :: "u32 \<Rightarrow> u32 \<Rightarrow> 'a cpu_state_scheme \<Rightarrow> 'a cpu_state_scheme" where
  "enter_usermode entry user_stack_top s =
     (let s1 = cli s;
          s2 = s1\<lparr>segs := (segs s1)\<lparr>seg_ds := 0x23, seg_es := 0x23, seg_fs := 0x23, seg_gs := 0x23\<rparr>\<rparr>;
          s3 = push32 0x23 s2;
          s4 = push32 user_stack_top s3;
          s5 = push32 (eflags s4) s4;
          s6 = push32 0x1B s5;
          s7 = push32 entry s6
      in iret s7)"

section \<open>How the processor reads the tables\<close>

definition descriptor_base :: "u64 \<Rightarrow> u32" where
  "descriptor_base d = ucast (drop_bit 16 d AND 0xFFFFFF) OR push_bit 24 (ucast (drop_bit 56 d))"

definition descriptor_limit :: "u64 \<Rightarrow> u32" where
  "descriptor_limit d =
     (let raw = ucast (d AND 0xFFFF) OR push_bit 16 (ucast (drop_bit 48 d AND 0xF))
      in if bit d 55 then push_bit 12 raw OR 0xFFF else raw)"

definition descriptor_access :: "u64 \<Rightarrow> u8" where
  "descriptor_access d = ucast (drop_bit 40 d)"

definition descriptor_present :: "u64 \<Rightarrow> bool" where
  "descriptor_present d = bit (descriptor_access d) 7"

definition descriptor_dpl :: "u64 \<Rightarrow> u8" where
  "descriptor_dpl d = drop_bit 5 (descriptor_access d) AND 3"

text \<open>The kinds of descriptor the kernel uses: bit 4 of the access byte separates segments from system
  descriptors; bit 3 of a segment marks code; 9 is an available and 11 a busy 32-bit task state segment. The accessed bits that
  the processor sets in the descriptors of loaded segments are left out.\<close>

datatype segment_kind = CodeSegment | DataSegment | TaskState | OtherSystem

definition descriptor_kind :: "u64 \<Rightarrow> segment_kind" where
  "descriptor_kind d =
     (let a = descriptor_access d
      in if bit a 4 then (if bit a 3 then CodeSegment else DataSegment)
         else if a AND 0xF = 9 \<or> a AND 0xF = 11 then TaskState else OtherSystem)"

text \<open>A selector names the descriptor at its index (bits 3 and up) when the whole descriptor lies inside the table limit.\<close>

definition select_descriptor :: "u16 \<Rightarrow> 'a cpu_state_scheme \<Rightarrow> u64 option" where
  "select_descriptor sl s =
     (let i = unat (drop_bit 3 sl)
      in if i \<noteq> 0 \<and> 8 * i + 7 \<le> unat (tbl_limit (gdtr s)) \<and> descriptor_present (gdt s ! i) then Some (gdt s ! i) else None)"

definition segment_view :: "u16 \<Rightarrow> 'a cpu_state_scheme \<Rightarrow> (segment_kind \<times> u32 \<times> u32 \<times> u8) option" where
  "segment_view sl s =
     map_option (\<lambda>d. (descriptor_kind d, descriptor_base d, descriptor_limit d, descriptor_dpl d)) (select_descriptor sl s)"

definition gate_offset :: "idt_entry \<Rightarrow> u32" where
  "gate_offset g = push_bit 16 (ucast (base_high g)) OR ucast (base_low g)"

text \<open>\<open>int_target cpl software n s\<close> is where interrupt \<open>n\<close> goes: the selector and offset of its gate. There is none
  outside the table limit, for a gate that is not present or is no 32-bit interrupt gate, and for an \<open>int\<close> instruction
  executed at a privilege level the gate does not admit.\<close>

definition int_target :: "nat \<Rightarrow> bool \<Rightarrow> nat \<Rightarrow> 'a cpu_state_scheme \<Rightarrow> (u16 \<times> u32) option" where
  "int_target cpl software n s =
     (if 8 * n + 7 > unat (tbl_limit (idtr s)) then None
      else let g = idt_entries s ! n
           in if \<not> bit (gate_flags g) 7 \<or> gate_flags g AND 0x1F \<noteq> 0xE then None
              else if software \<and> cpl > unat (drop_bit 5 (gate_flags g) AND 3) then None
              else Some (sel g, gate_offset g))"

section \<open>The interrupt descriptor table\<close>

lemma gate_offset_split: "gate_offset (g\<lparr>base_low := ucast (b AND 0xFFFF), base_high := ucast (drop_bit 16 b AND 0xFFFF), sel := x, gate_zero := z, gate_flags := f\<rparr>) = b"
proof (rule bit_word_eqI)
  fix n assume "n < LENGTH(32)"
  have m: "(0xFFFF :: u32) = mask 16" by (simp add: mask_eq_exp_minus_1)
  show "bit (gate_offset (g\<lparr>base_low := ucast (b AND 0xFFFF), base_high := ucast (drop_bit 16 b AND 0xFFFF), sel := x, gate_zero := z, gate_flags := f\<rparr>)) n = bit b n"
    unfolding m using \<open>n < LENGTH(32)\<close>
    by (auto simp: gate_offset_def bit_simps)
qed

definition gates_upto :: "nat \<Rightarrow> (nat \<Rightarrow> u32) \<Rightarrow> u16 \<Rightarrow> u8 \<Rightarrow> idt_entry list \<Rightarrow> idt_entry list \<Rightarrow> bool" where
  "gates_upto k b x f old es \<longleftrightarrow> length es = 256 \<and> (\<forall>n<256.
     if n < k then sel (es ! n) = x \<and> gate_flags (es ! n) = f \<and> gate_offset (es ! n) = b n else es ! n = old ! n)"

lemma gates_upto_step:
  assumes "gates_upto i b x f old es" and "i < 256"
  shows "\<exists>es'. idt_set_gate (of_nat i) (b i) x f (s\<lparr>idt_entries := es\<rparr>) = s\<lparr>idt_entries := es'\<rparr> \<and> gates_upto (Suc i) b x f old es'"
proof -
  have u: "unat (word_of_nat i :: u8) = i" using assms(2) by (simp add: unat_of_nat)
  show ?thesis unfolding idt_set_gate_def u
    using assms by (auto intro!: exI simp: gates_upto_def nth_list_update gate_offset_split less_Suc_eq)
qed

lemma idt_set_gate_loop:
  assumes "length (idt_entries s) = 256" and "hi \<le> 256"
  obtains es where "for_upto 0 hi (\<lambda>i. idt_set_gate (of_nat i) (b i) x f) s = s\<lparr>idt_entries := es\<rparr>"
    and "gates_upto hi b x f (idt_entries s) es"
proof -
  have "\<exists>es. for_upto 0 hi (\<lambda>i. idt_set_gate (of_nat i) (b i) x f) s = s\<lparr>idt_entries := es\<rparr> \<and> gates_upto hi b x f (idt_entries s) es"
  proof (rule for_upto_invariant [where I = "\<lambda>k t. \<exists>es. t = s\<lparr>idt_entries := es\<rparr> \<and> gates_upto k b x f (idt_entries s) es"])
    show "\<exists>es. s = s\<lparr>idt_entries := es\<rparr> \<and> gates_upto 0 b x f (idt_entries s) es"
      using assms by (intro exI [of _ "idt_entries s"]) (simp add: gates_upto_def)
  next
    fix i t
    assume i: "i < hi" and "\<exists>es. t = s\<lparr>idt_entries := es\<rparr> \<and> gates_upto i b x f (idt_entries s) es"
    then obtain es where t: "t = s\<lparr>idt_entries := es\<rparr>" and g: "gates_upto i b x f (idt_entries s) es" by blast
    show "\<exists>es. idt_set_gate (of_nat i) (b i) x f t = s\<lparr>idt_entries := es\<rparr> \<and> gates_upto (Suc i) b x f (idt_entries s) es"
      unfolding t by (rule gates_upto_step [OF g]) (use i assms(2) in simp)
  qed simp
  then show thesis using that by blast
qed

lemma idt_init_gates:
  assumes "length (idt_entries s) = 256"
  obtains es where "idt_init s = s\<lparr>idt_ptr := \<lparr>tbl_limit = 2047, tbl_base = idt_addr s\<rparr>, idt_entries := es,
      idtr := \<lparr>tbl_limit = 2047, tbl_base = idt_addr s\<rparr>\<rparr>"
    and "\<forall>n<48. sel (es ! n) = 8 \<and> gate_flags (es ! n) = 0x8E \<and> gate_offset (es ! n) = isr_addr s n"
    and "sel (es ! 128) = 8 \<and> gate_flags (es ! 128) = 0xEE \<and> gate_offset (es ! 128) = syscall_stub_addr s"
    and "\<forall>n. 48 \<le> n \<longrightarrow> n < 256 \<longrightarrow> n \<noteq> 128 \<longrightarrow> gate_flags (es ! n) = 0"
proof -
  define s1 where "s1 = s\<lparr>idt_ptr := \<lparr>tbl_limit = of_nat (8 * IDT_ENTRY_COUNT) - 1, tbl_base = idt_addr s\<rparr>\<rparr>"
  have 1: "length (idt_entries s1) = 256" using assms by (simp add: s1_def)
  obtain e1 where e1: "for_upto 0 256 (\<lambda>i. idt_set_gate (of_nat i) 0 0 0) s1 = s1\<lparr>idt_entries := e1\<rparr>"
    and g1: "gates_upto 256 (\<lambda>_. 0) 0 0 (idt_entries s1) e1"
    by (rule idt_set_gate_loop [OF 1, where hi = 256 and b = "\<lambda>_. 0" and x = 0 and f = 0]) simp_all
  have 2: "length (idt_entries (s1\<lparr>idt_entries := e1\<rparr>)) = 256" using g1 by (simp add: gates_upto_def)
  obtain e2 where e2: "for_upto 0 48 (\<lambda>i. idt_set_gate (of_nat i) (isr_addr s i) 8 0x8E) (s1\<lparr>idt_entries := e1\<rparr>) = s1\<lparr>idt_entries := e2\<rparr>"
    and g2: "gates_upto 48 (isr_addr s) 8 0x8E e1 e2"
    by (rule idt_set_gate_loop [OF 2, where hi = 48 and b = "isr_addr s" and x = 8 and f = "0x8E"]) simp_all
  let ?e = "e2[128 := (e2 ! 128)\<lparr>base_low := ucast (syscall_stub_addr s AND 0xFFFF),
      base_high := ucast (drop_bit 16 (syscall_stub_addr s) AND 0xFFFF), sel := 8, gate_zero := 0, gate_flags := 0xEE\<rparr>]"
  have "idt_init s = s\<lparr>idt_ptr := \<lparr>tbl_limit = 2047, tbl_base = idt_addr s\<rparr>, idt_entries := ?e,
      idtr := \<lparr>tbl_limit = 2047, tbl_base = idt_addr s\<rparr>\<rparr>"
    using e1 e2 by (simp add: idt_init_def IDT_ENTRY_COUNT_def Let_def idt_install_def idt_set_gate_def s1_def)
  then show thesis
    by (rule that) (use g1 g2 in \<open>auto simp: gates_upto_def nth_list_update gate_offset_split\<close>)
qed

lemma int_target_idt_init:
  assumes "length (idt_entries s) = IDT_ENTRY_COUNT" and "cpl \<le> 3"
  shows "int_target cpl software n (idt_init s) =
    (if n < 48 \<and> (software \<longrightarrow> cpl = 0) then Some (KERNEL_CS, isr_addr s n)
     else if n = 0x80 then Some (KERNEL_CS, syscall_stub_addr s) else None)"
proof -
  have len: "length (idt_entries s) = 256" using assms(1) by (simp add: IDT_ENTRY_COUNT_def)
  obtain es where i: "idt_init s = s\<lparr>idt_ptr := \<lparr>tbl_limit = 2047, tbl_base = idt_addr s\<rparr>, idt_entries := es,
      idtr := \<lparr>tbl_limit = 2047, tbl_base = idt_addr s\<rparr>\<rparr>"
    and gates: "\<forall>n<48. sel (es ! n) = 8 \<and> gate_flags (es ! n) = 0x8E \<and> gate_offset (es ! n) = isr_addr s n"
      "sel (es ! 128) = 8 \<and> gate_flags (es ! 128) = 0xEE \<and> gate_offset (es ! 128) = syscall_stub_addr s"
      "\<forall>n. 48 \<le> n \<longrightarrow> n < 256 \<longrightarrow> n \<noteq> 128 \<longrightarrow> gate_flags (es ! n) = 0"
    by (rule idt_init_gates [OF len])
  consider "n < 48" | "n = 128" | "48 \<le> n" "n < 256" "n \<noteq> 128" | "n \<ge> 256" by linarith
  then show ?thesis
    by cases (use gates assms(2) in
      \<open>auto simp: i int_target_def KERNEL_CS_def Let_def bit_numeral_rec\<close>)
qed

text \<open>
  C14: The interrupt descriptor table. After \<open>idt_init\<close> the processor delivers vector \<open>n < 48\<close>, raised by
  an exception, by a device or by an \<open>int\<close> instruction of the kernel, to \<open>isr n\<close>, and vector 0x80 to
  \<open>syscall_stub\<close>, both through the kernel code selector. No other vector has a handler. User code (\<open>cpl\<close> 3)
  can enter the kernel by an \<open>int\<close> instruction only through vector 0x80.
\<close>

theorem idt_init_correct:
  assumes "length (idt_entries s) = IDT_ENTRY_COUNT" and "cpl \<le> 3"
  shows "int_target cpl software n (idt_init s) =
    (if n < 48 \<and> (software \<longrightarrow> cpl = 0) then Some (KERNEL_CS, isr_addr s n)
     else if n = 0x80 then Some (KERNEL_CS, syscall_stub_addr s) else None)"
  using assms by (rule int_target_idt_init)

section \<open>The segment descriptors\<close>

lemma bit_tss_descriptor:
  "bit (tss_descriptor b l) n \<longleftrightarrow> n < 16 \<and> bit l n \<or> 16 \<le> n \<and> n < 40 \<and> bit b (n - 16) \<or> n \<in> {40, 43, 47} \<or>
     48 \<le> n \<and> n < 52 \<and> bit l (n - 32) \<or> 56 \<le> n \<and> n < 64 \<and> bit b (n - 32)"
proof -
  define c :: u64 where "c = 0x89"
  have c: "bit c n \<longleftrightarrow> n = 0 \<or> n = 3 \<or> n = 7" for n
    by (auto simp: c_def bit_numeral_rec bit_1_iff split: nat.splits)
  have m: "(0xFFFF :: u32) = mask 16" "(0xFFFFFF :: u32) = mask 24" "(0xF :: u32) = mask 4" "(0xFF :: u32) = mask 8"
    by (simp_all add: mask_eq_exp_minus_1)
  consider "n < 16" | "16 \<le> n" "n < 40" | "40 \<le> n" "n < 48" | "48 \<le> n" "n < 56" | "56 \<le> n" "n < 64" | "64 \<le> n" by linarith
  then show ?thesis unfolding tss_descriptor_def c_def [symmetric] Let_def m
    by cases (auto simp: bit_simps c)
qed

lemma tss_descriptor_fields:
  "descriptor_base (tss_descriptor b l) = b"
  "descriptor_access (tss_descriptor b l) = 0x89"
  "unat l < 2 ^ 20 \<Longrightarrow> descriptor_limit (tss_descriptor b l) = l"
proof -
  have m: "(0xFFFF :: u64) = mask 16" "(0xFFFFFF :: u64) = mask 24" "(0xF :: u64) = mask 4"
    by (simp_all add: mask_eq_exp_minus_1)
  define c :: u8 where "c = 0x89"
  have c: "bit c n \<longleftrightarrow> n = 0 \<or> n = 3 \<or> n = 7" for n
    by (auto simp: c_def bit_numeral_rec bit_1_iff split: nat.splits)
  show "descriptor_base (tss_descriptor b l) = b"
    by (rule bit_word_eqI) (auto simp: descriptor_base_def m bit_simps bit_tss_descriptor)
  show "descriptor_access (tss_descriptor b l) = 0x89"
    unfolding c_def [symmetric] by (rule bit_word_eqI) (auto simp: descriptor_access_def bit_simps bit_tss_descriptor c)
  assume "unat l < 2 ^ 20"
  then have "take_bit 20 l = l"
    by (simp add: word_unat_eq_iff unsigned_take_bit_eq take_bit_nat_eq_self)
  then have l: "bit l n \<Longrightarrow> n < 20" for n by (metis bit_take_bit_iff)
  show "descriptor_limit (tss_descriptor b l) = l"
    by (rule bit_word_eqI) (auto simp: descriptor_limit_def Let_def m bit_simps bit_tss_descriptor dest: l)
qed

lemma busy_fields:
  "descriptor_base (d OR 0x20000000000) = descriptor_base d" "descriptor_limit (d OR 0x20000000000) = descriptor_limit d"
  "descriptor_access (d OR 0x20000000000) = descriptor_access d OR 2"
proof -
  define c :: u64 where "c = 0x20000000000"
  have c2: "c = 2 ^ 41" by (simp add: c_def)
  have c: "bit c n \<longleftrightarrow> n = 41" for n unfolding c2 bit_exp_iff by (auto simp: possible_bit_def)
  have m: "(0xFFFF :: u64) = mask 16" "(0xFFFFFF :: u64) = mask 24" "(0xF :: u64) = mask 4"
    by (simp_all add: mask_eq_exp_minus_1)
  have "drop_bit 16 (d OR c) AND mask 24 = drop_bit 16 d AND mask 24" "drop_bit 56 (d OR c) = drop_bit 56 d"
    "(d OR c) AND mask 16 = d AND mask 16" "drop_bit 48 (d OR c) AND mask 4 = drop_bit 48 d AND mask 4" "bit (d OR c) 55 = bit d 55"
    by (auto intro!: bit_word_eqI simp: bit_simps c)
  then show "descriptor_base (d OR 0x20000000000) = descriptor_base d" "descriptor_limit (d OR 0x20000000000) = descriptor_limit d"
    unfolding c_def [symmetric] descriptor_base_def descriptor_limit_def m by simp_all
  define e :: u8 where "e = 2"
  have e: "bit e n \<longleftrightarrow> n = 1" for n by (auto simp: e_def bit_numeral_rec bit_1_iff split: nat.splits)
  show "descriptor_access (d OR 0x20000000000) = descriptor_access d OR 2"
    unfolding c_def [symmetric] e_def [symmetric] descriptor_access_def by (rule bit_word_eqI) (auto simp: bit_simps c e)
qed

definition boot_gdt :: "u32 \<Rightarrow> u64 list" where
  "boot_gdt tss_base = [0, 0x00CF9A000000FFFF, 0x00CF92000000FFFF, 0x00CFFA000000FFFF, 0x00CFF2000000FFFF, tss_descriptor tss_base (tss_size - 1) OR 0x20000000000]"

lemma tss_init_tables:
  assumes "length (gdt s) = GDT_ENTRIES"
  shows "gdt (tss_init (gdt_init s)) = boot_gdt (tss_addr s)" "tbl_limit (gdtr (tss_init (gdt_init s))) = 47"
    "task_register (tss_init (gdt_init s)) = TSS_SEL" "tss (tss_init (gdt_init s)) = blank_tss\<lparr>ss0 := ucast KERNEL_DS, iomap_base := ucast tss_size\<rparr>"
    "segs (tss_init (gdt_init s)) =
      \<lparr>seg_cs = KERNEL_CS, seg_ds = KERNEL_DS, seg_es = KERNEL_DS, seg_fs = KERNEL_DS, seg_gs = KERNEL_DS, seg_ss = KERNEL_DS\<rparr>"
    "regs (tss_init (gdt_init s)) = regs s" "eflags (tss_init (gdt_init s)) = eflags s"
proof -
  obtain a b c d e f where g: "gdt s = [a, b, c, d, e, f]"
    using assms by (auto simp: GDT_ENTRIES_def length_Suc_conv eval_nat_numeral)
  note init = tss_init_def ltr_def gdt_set_tss_entry_def gdt_init_def gdt_set_entry_def gdt_get_table_def Let_def
  show "gdt (tss_init (gdt_init s)) = boot_gdt (tss_addr s)" "tbl_limit (gdtr (tss_init (gdt_init s))) = 47"
    "task_register (tss_init (gdt_init s)) = TSS_SEL" "tss (tss_init (gdt_init s)) = blank_tss\<lparr>ss0 := ucast KERNEL_DS, iomap_base := ucast tss_size\<rparr>"
    "segs (tss_init (gdt_init s)) =
      \<lparr>seg_cs = KERNEL_CS, seg_ds = KERNEL_DS, seg_es = KERNEL_DS, seg_fs = KERNEL_DS, seg_gs = KERNEL_DS, seg_ss = KERNEL_DS\<rparr>"
    "regs (tss_init (gdt_init s)) = regs s" "eflags (tss_init (gdt_init s)) = eflags s"
    by (simp_all add: init g GDT_ENTRIES_def boot_gdt_def KERNEL_CS_def KERNEL_DS_def TSS_SEL_def blank_tss_def)
qed

lemma boot_segments:
  assumes "gdt t = boot_gdt b" and "tbl_limit (gdtr t) = 47"
  shows "segment_view KERNEL_CS t = Some (CodeSegment, 0, 0xFFFFFFFF, 0)" "segment_view KERNEL_DS t = Some (DataSegment, 0, 0xFFFFFFFF, 0)"
    "segment_view USER_CS t = Some (CodeSegment, 0, 0xFFFFFFFF, 3)" "segment_view USER_DS t = Some (DataSegment, 0, 0xFFFFFFFF, 3)"
    "segment_view TSS_SEL t = Some (TaskState, b, tss_size - 1, 0)"
    "segment_view sl t \<noteq> None \<Longrightarrow> drop_bit 3 sl \<in> {1, 2, 3, 4, 5}"
proof -
  note v = segment_view_def select_descriptor_def assms boot_gdt_def descriptor_present_def Let_def descriptor_kind_def descriptor_dpl_def
  show "segment_view KERNEL_CS t = Some (CodeSegment, 0, 0xFFFFFFFF, 0)" "segment_view KERNEL_DS t = Some (DataSegment, 0, 0xFFFFFFFF, 0)"
    "segment_view USER_CS t = Some (CodeSegment, 0, 0xFFFFFFFF, 3)" "segment_view USER_DS t = Some (DataSegment, 0, 0xFFFFFFFF, 3)"
    by (simp_all add: v KERNEL_CS_def KERNEL_DS_def USER_CS_def USER_DS_def descriptor_access_def descriptor_base_def
      descriptor_limit_def bit_numeral_rec)
  show "segment_view TSS_SEL t = Some (TaskState, b, tss_size - 1, 0)"
    by (simp add: v TSS_SEL_def tss_size_def busy_fields tss_descriptor_fields bit_numeral_rec)
  assume "segment_view sl t \<noteq> None"
  then have "unat (drop_bit 3 sl) \<noteq> 0" "unat (drop_bit 3 sl) \<le> 5"
    by (auto simp: v split: if_splits)
  then have "unat (drop_bit 3 sl) \<in> {1, 2, 3, 4, 5}" by auto
  then show "drop_bit 3 sl \<in> {1, 2, 3, 4, 5}" by (simp add: word_unat_eq_iff)
qed

text \<open>
  C27: The segmentation set up by \<open>gdt_init\<close> and \<open>tss_init\<close>. The kernel selectors name flat 4 GB code and data segments
  of privilege level 0, the user selectors the same segments at level 3, and the task register a task state segment of
  level 0 that lies exactly over \<open>tss\<close>. No other table entry is present. A trap from user mode loads the kernel data
  segment as its stack segment, the I/O permission map lies outside the segment, and \<open>tss_set_kernel_stack\<close> sets the stack
  pointer of such a trap and nothing else.
\<close>

theorem segmentation_correct:
  assumes "length (gdt s) = GDT_ENTRIES" and "t = tss_set_kernel_stack k (tss_init (gdt_init s))"
  shows "segment_view KERNEL_CS t = Some (CodeSegment, 0, 0xFFFFFFFF, 0) \<and>
    segment_view KERNEL_DS t = Some (DataSegment, 0, 0xFFFFFFFF, 0) \<and>
    segment_view USER_CS t = Some (CodeSegment, 0, 0xFFFFFFFF, 3) \<and>
    segment_view USER_DS t = Some (DataSegment, 0, 0xFFFFFFFF, 3) \<and>
    segment_view (task_register t) t = Some (TaskState, tss_addr s, tss_size - 1, 0) \<and>
    (\<forall>sl. segment_view sl t \<noteq> None \<longrightarrow> drop_bit 3 sl \<in> {1, 2, 3, 4, 5}) \<and>
    esp0 (tss t) = k \<and> ss0 (tss t) = ucast KERNEL_DS \<and> unat (iomap_base (tss t)) > unat (tss_size - 1) \<and>
    segs t = \<lparr>seg_cs = KERNEL_CS, seg_ds = KERNEL_DS, seg_es = KERNEL_DS, seg_fs = KERNEL_DS, seg_gs = KERNEL_DS, seg_ss = KERNEL_DS\<rparr>"
proof -
  have same: "gdt t = gdt (tss_init (gdt_init s))" "gdtr t = gdtr (tss_init (gdt_init s))" "segs t = segs (tss_init (gdt_init s))"
    "task_register t = task_register (tss_init (gdt_init s))" "tss t = (tss (tss_init (gdt_init s)))\<lparr>esp0 := k\<rparr>"
    by (simp_all add: assms(2) tss_set_kernel_stack_def)
  note i = tss_init_tables [OF assms(1), folded same(1-4)]
  from boot_segments [OF i(1,2)] show ?thesis
    by (auto simp: i(3,5) same(5) tss_init_tables(4) [OF assms(1)] tss_size_def)
qed

text \<open>A machine before the tables are set up.\<close>

definition cpu_blank :: cpu_state where
  "cpu_blank = sched_state.extend (sched_boot\<lparr>regs := \<lparr>esp = 0x90000, ebp = 0x90100, ebx = 1, esi = 2, edi = 3, eip = 0x100500\<rparr>\<rparr>)
     (cpu_state.fields (replicate 6 0) \<lparr>tbl_limit = 0, tbl_base = 0\<rparr> \<lparr>tbl_limit = 0, tbl_base = 0\<rparr>
        \<lparr>seg_cs = 8, seg_ds = 16, seg_es = 16, seg_fs = 16, seg_gs = 16, seg_ss = 16\<rparr> blank_tss 0
        (replicate 256 \<lparr>base_low = 0, sel = 0, gate_zero = 0, gate_flags = 0, base_high = 0\<rparr>)
        \<lparr>tbl_limit = 0, tbl_base = 0\<rparr> \<lparr>tbl_limit = 0, tbl_base = 0\<rparr> 2 0 0x10A000 0x10A100 0x10A200
        (\<lambda>n. 0x102000 + 32 * of_nat n) 0x103000)"

lemma cpu_blank_tables [simp]:
  "length (gdt cpu_blank) = GDT_ENTRIES" "length (idt_entries cpu_blank) = IDT_ENTRY_COUNT" "tss_addr cpu_blank = 0x10A100"
  "isr_addr cpu_blank = (\<lambda>n. 0x102000 + 32 * of_nat n)" "syscall_stub_addr cpu_blank = 0x103000"
  "esp (regs cpu_blank) = 0x90000" "eflags cpu_blank = 2"
  by (simp_all add: cpu_blank_def sched_state.extend_def cpu_state.fields_def GDT_ENTRIES_def IDT_ENTRY_COUNT_def)

theorem segmentation_correct_witness:
  "length (gdt cpu_blank) = GDT_ENTRIES \<and>
   segment_view TSS_SEL (tss_set_kernel_stack 0x90000 (tss_init (gdt_init cpu_blank))) = Some (TaskState, 0x10A100, 103, 0)"
proof -
  have "task_register (tss_set_kernel_stack 0x90000 (tss_init (gdt_init cpu_blank))) = TSS_SEL"
    by (simp add: tss_set_kernel_stack_def tss_init_tables)
  with segmentation_correct [OF cpu_blank_tables(1) refl, of "0x90000"] show ?thesis by (simp add: tss_size_def)
qed

theorem idt_init_correct_witness:
  "length (idt_entries cpu_blank) = IDT_ENTRY_COUNT \<and> int_target 3 True 0x80 (idt_init cpu_blank) = Some (KERNEL_CS, 0x103000) \<and>
   int_target 3 True 14 (idt_init cpu_blank) = None \<and> int_target 3 False 14 (idt_init cpu_blank) = Some (KERNEL_CS, 0x1021C0)"
  using idt_init_correct [OF cpu_blank_tables(2), of 3 True "0x80"] idt_init_correct [OF cpu_blank_tables(2), of 3 True 14]
    idt_init_correct [OF cpu_blank_tables(2), of 3 False 14] by simp

section \<open>User mode\<close>

lemma enter_usermode_frame:
  assumes "aligned4 (esp (regs s))"
  shows "regs (enter_usermode entry stack_top s) = (regs s)\<lparr>esp := stack_top, eip := entry\<rparr>"
    and "eflags (enter_usermode entry stack_top s) = eflags s AND NOT 0x200"
    and "segs (enter_usermode entry stack_top s) = \<lparr>seg_cs = 0x1B, seg_ds = 0x23, seg_es = 0x23, seg_fs = 0x23, seg_gs = 0x23, seg_ss = 0x23\<rparr>"
    and "gdt (enter_usermode entry stack_top s) = gdt s" and "gdtr (enter_usermode entry stack_top s) = gdtr s"
  using assms by (simp_all add: enter_usermode_def iret_def push32_def cli_def Let_def load32_store32 aligned4_diff aligned4_numerals)

text \<open>
  C28: \<open>enter_usermode\<close>, on the tables of \<open>gdt_init\<close> and \<open>tss_init\<close>, starts the given entry point at
  privilege level 3 on the given stack, with every segment register naming a present flat user segment and with
  interrupts disabled; the general registers are unchanged.
\<close>

theorem enter_usermode_correct:
  assumes "length (gdt s) = GDT_ENTRIES" and "aligned4 (esp (regs s))"
    and "u = enter_usermode entry stack_top (tss_init (gdt_init s))"
  shows "eip (regs u) = entry \<and> esp (regs u) = stack_top \<and> \<not> interrupt_flag u \<and>
    segment_view (seg_cs (segs u)) u = Some (CodeSegment, 0, 0xFFFFFFFF, 3) \<and>
    (\<forall>r\<in>{seg_ds, seg_es, seg_fs, seg_gs, seg_ss}. segment_view (r (segs u)) u = Some (DataSegment, 0, 0xFFFFFFFF, 3)) \<and>
    ebp (regs u) = ebp (regs s) \<and> ebx (regs u) = ebx (regs s) \<and> esi (regs u) = esi (regs s) \<and> edi (regs u) = edi (regs s)"
proof -
  note i = tss_init_tables [OF assms(1)]
  have al: "aligned4 (esp (regs (tss_init (gdt_init s))))" using assms(2) i(6) by simp
  note f = enter_usermode_frame [OF al, where entry = entry and stack_top = stack_top, folded assms(3)]
  have t: "gdt u = boot_gdt (tss_addr s)" "tbl_limit (gdtr u) = 47" using f(4,5) i(1,2) by simp_all
  from boot_segments(3,4) [OF t] show ?thesis
    by (simp add: f i(6,7) interrupt_flag_def USER_CS_def USER_DS_def bit_simps bit_numeral_rec)
qed

theorem enter_usermode_correct_witness:
  "aligned4 (esp (regs cpu_blank)) \<and> esp (regs (enter_usermode 0x400000 0x500000 (tss_init (gdt_init cpu_blank)))) = 0x500000"
proof -
  have a: "aligned4 (esp (regs cpu_blank))" by (simp add: aligned4_def)
  from enter_usermode_correct [OF cpu_blank_tables(1) a refl, of "0x400000" "0x500000"] a show ?thesis by blast
qed

end
