(* ===== verification/Cpu.thy ===== *)
theory Cpu
  imports Descriptors
begin

text \<open>
  Processor identification and set-up, \<^verbatim>\<open>kernel/core/cpu.c\<close>. The \<open>cpuid\<close> instruction is a parameter: the four
  registers it returns for a leaf. The feature constants of \<^verbatim>\<open>kernel/hal.h\<close> are a table from names to bit numbers, and
  the tests of \<open>hal_get_cpu_features\<close> are tables from register bits to names, in the order of the code.
\<close>

section \<open>Identification\<close>

record id_state = cpu_state +
  cpuid_leaf :: "u32 \<Rightarrow> u32 \<times> u32 \<times> u32 \<times> u32"
  x87_control :: u16

definition cpuid :: "u32 \<Rightarrow> 'a id_state_scheme \<Rightarrow> u32 \<times> u32 \<times> u32 \<times> u32" where
  "cpuid op s = cpuid_leaf s op"

definition cpuid_ex :: "u32 \<Rightarrow> 'a id_state_scheme \<Rightarrow> u32 \<times> u32 \<times> u32 \<times> u32" where
  "cpuid_ex op s = cpuid_leaf s op"

definition word_bytes :: "u32 \<Rightarrow> u8 list" where
  "word_bytes v = map (\<lambda>i. ucast (drop_bit (8 * i) v)) [0..<4]"

definition hal_get_cpu_vendor :: "'a id_state_scheme \<Rightarrow> u8 list" where
  "hal_get_cpu_vendor s = (case cpuid 0 s of (a, b, c, d) \<Rightarrow> word_bytes b @ word_bytes d @ word_bytes c @ [0])"

definition cpu_feature_bits :: "(string \<times> nat) list" where
  "cpu_feature_bits =
    [(''FPU'', 0), (''VME'', 1), (''DE'', 2), (''PSE'', 3), (''TSC'', 4), (''MSR'', 5),
     (''PAE'', 6), (''MCE'', 7), (''CX8'', 8), (''APIC'', 9), (''SEP'', 10), (''MTRR'', 11),
     (''PGE'', 12), (''MCA'', 13), (''CMOV'', 14), (''PAT'', 15), (''PSE36'', 16), (''PSN'', 17),
     (''CLFLUSH'', 18), (''DTS'', 19), (''ACPI'', 20), (''MMX'', 21), (''FXSR'', 22), (''SSE'', 23),
     (''SSE2'', 24), (''SS'', 25), (''HTT'', 26), (''TM'', 27), (''IA64'', 28), (''PBE'', 29),
     (''SSE3'', 0), (''PCLMULQDQ'', 1), (''DTES64'', 2), (''MONITOR'', 3), (''DS_CPL'', 4), (''VMX'', 5),
     (''SMX'', 6), (''EST'', 7), (''TM2'', 8), (''SSSE3'', 9), (''CID'', 10), (''FMA'', 11),
     (''CMPXCHG16B'', 12), (''XTPR'', 13), (''PDCM'', 14), (''PCID'', 15), (''DCA'', 16), (''SSE4_1'', 17),
     (''SSE4_2'', 18), (''x2APIC'', 19), (''MOVBE'', 20), (''POPCNT'', 21), (''TSC_DEADLINE'', 22), (''AES'', 23),
     (''XSAVE'', 24), (''OSXSAVE'', 25), (''AVX'', 26), (''F16C'', 27), (''RDRAND'', 28), (''SYSCALL'', 11),
     (''LM'', 29), (''NX'', 20), (''1GBPAGE'', 26), (''RDTSCP'', 27), (''EM64T'', 29)]"

definition cpu_feature :: "string \<Rightarrow> u32" where
  "cpu_feature n = push_bit (the (map_of cpu_feature_bits n)) 1"

definition edx_features :: "(nat \<times> string) list" where
  "edx_features =
    [(0, ''FPU''), (1, ''VME''), (2, ''DE''), (3, ''PSE''), (4, ''TSC''), (5, ''MSR''), (6, ''PAE''), (7, ''MCE''),
     (8, ''CX8''), (9, ''APIC''), (10, ''SEP''), (11, ''MTRR''), (12, ''PGE''), (13, ''MCA''), (14, ''CMOV''), (15, ''PAT''),
     (16, ''PSE36''), (17, ''PSN''), (18, ''CLFLUSH''), (19, ''DTS''), (21, ''MMX''), (22, ''FXSR''), (24, ''SSE2''), (25, ''SS''),
     (26, ''HTT''), (27, ''TM''), (29, ''PBE'')]"

definition ecx_features :: "(nat \<times> string) list" where
  "ecx_features =
    [(0, ''SSE3''), (1, ''PCLMULQDQ''), (2, ''DTES64''), (3, ''MONITOR''), (4, ''DS_CPL''), (5, ''VMX''), (6, ''SMX''),
     (7, ''EST''), (8, ''TM2''), (9, ''SSSE3''), (10, ''CID''), (11, ''FMA''), (12, ''CMPXCHG16B''), (13, ''XTPR''),
     (14, ''PDCM''), (15, ''PCID''), (15, ''DCA''), (16, ''SSE4_1''), (17, ''SSE4_2''), (18, ''x2APIC''), (19, ''MOVBE''),
     (20, ''POPCNT''), (21, ''TSC_DEADLINE''), (22, ''AES''), (23, ''XSAVE''), (24, ''OSXSAVE''), (25, ''AVX''), (26, ''F16C''),
     (27, ''RDRAND'')]"

definition extended_features :: "(nat \<times> string) list" where
  "extended_features = [(29, ''LM''), (28, ''SYSCALL''), (26, ''PAE''), (20, ''NX'')]"

definition syscall_features :: "(nat \<times> string) list" where
  "syscall_features = [(11, ''SYSCALL'')]"

fun detect :: "(nat \<times> string) list \<Rightarrow> u32 \<Rightarrow> u32 \<Rightarrow> u32" where
  "detect [] r features = features"
| "detect ((i, n) # xs) r features =
     detect xs r (if r AND push_bit i 1 \<noteq> 0 then features OR cpu_feature n else features)"

definition hal_get_cpu_features :: "'a id_state_scheme \<Rightarrow> u32" where
  "hal_get_cpu_features s =
     (case cpuid 1 s of (a1, b1, c1, d1) \<Rightarrow>
        let f1 = detect edx_features d1 0;
            f2 = detect ecx_features c1 f1;
            f3 = detect syscall_features d1 f2
        in case cpuid_ex 0x80000000 s of (a2, b2, c2, d2) \<Rightarrow>
             if a2 \<ge> 0x80000001
             then (case cpuid_ex 0x80000001 s of (a3, b3, c3, d3) \<Rightarrow> detect extended_features d3 f3)
             else f3)"

text \<open>\<open>hal_cpu_init\<close> rewrites \<open>CR0\<close> and \<open>CR4\<close>; \<open>fninit\<close> resets the floating point unit, whose
  control word then reads 0x37F.\<close>

definition hal_cpu_init :: "'a id_state_scheme \<Rightarrow> 'a id_state_scheme" where
  "hal_cpu_init s =
     (let c = cr0 s OR 0x00000002;
          s1 = s\<lparr>cr0 := (c AND 0x80000001) OR 0x00000012\<rparr>;
          s2 = s1\<lparr>cr4 := cr4 s1 OR 0x00000600\<rparr>
      in s2\<lparr>x87_control := 0x37F\<rparr>)"

section \<open>What the feature word means\<close>

definition positions :: "(nat \<times> string) list \<Rightarrow> (nat \<times> nat) list" where
  "positions xs = map (\<lambda>(i, n). (i, the (map_of cpu_feature_bits n))) xs"

lemma and_exp_eq_0: "r AND 2 ^ i = 0 \<longleftrightarrow> \<not> bit r i" for r :: u32
  by (simp add: bit_iff_and_push_bit_not_eq_0)

lemma bit_detect:
  "bit (detect xs r f) k \<longleftrightarrow> bit f k \<or> k < 32 \<and> (\<exists>i. (i, k) \<in> set (positions xs) \<and> bit r i)"
proof (induction xs arbitrary: f)
  case (Cons x xs)
  then show ?case by (cases x) (auto simp: positions_def cpu_feature_def and_exp_eq_0 bit_simps)
qed (simp add: positions_def)

lemma feature_positions:
  "positions edx_features = map (\<lambda>i. (i, i)) ([0..<20] @ [21, 22, 24, 25, 26, 27, 29])"
  "positions ecx_features = map (\<lambda>i. (i, i)) [0..<16] @ map (\<lambda>i. (i, i + 1)) [15..<28]"
  "positions extended_features = [(29, 29), (28, 11), (26, 6), (20, 20)]"
  "positions syscall_features = [(11, 11)]"
  by code_simp+

lemma position_mem:
  "(i, k) \<in> set (positions edx_features) \<longleftrightarrow> i = k \<and> (k < 20 \<or> k \<in> {21, 22, 24, 25, 26, 27, 29})"
  "(i, k) \<in> set (positions ecx_features) \<longleftrightarrow> i = k \<and> k < 16 \<or> i = k - 1 \<and> 16 \<le> k \<and> k \<le> 28"
  "(i, k) \<in> set (positions extended_features) \<longleftrightarrow> i = k \<and> k \<in> {20, 29} \<or> i = 28 \<and> k = 11 \<or> i = 26 \<and> k = 6"
  "(i, k) \<in> set (positions syscall_features) \<longleftrightarrow> i = k \<and> k = 11"
proof -
  have u: "set (map g [a..<b]) = g ` {a..<b}" for a b and g :: "nat \<Rightarrow> nat \<times> nat" by (simp only: set_map set_upt)
  show "(i, k) \<in> set (positions edx_features) \<longleftrightarrow> i = k \<and> (k < 20 \<or> k \<in> {21, 22, 24, 25, 26, 27, 29})"
    unfolding feature_positions map_append set_append u by auto
  show "(i, k) \<in> set (positions ecx_features) \<longleftrightarrow> i = k \<and> k < 16 \<or> i = k - 1 \<and> 16 \<le> k \<and> k \<le> 28"
    unfolding feature_positions map_append set_append u by (auto simp: image_iff Bex_def)
  show "(i, k) \<in> set (positions extended_features) \<longleftrightarrow> i = k \<and> k \<in> {20, 29} \<or> i = 28 \<and> k = 11 \<or> i = 26 \<and> k = 6"
    "(i, k) \<in> set (positions syscall_features) \<longleftrightarrow> i = k \<and> k = 11"
    unfolding feature_positions by auto
qed

lemma bit_detect_tables:
  "bit (detect edx_features r f) k \<longleftrightarrow> bit f k \<or> (k < 20 \<or> k \<in> {21, 22, 24, 25, 26, 27, 29}) \<and> bit r k"
  "bit (detect ecx_features r f) k \<longleftrightarrow> bit f k \<or> k < 16 \<and> bit r k \<or> 16 \<le> k \<and> k \<le> 28 \<and> bit r (k - 1)"
  "bit (detect extended_features r f) k \<longleftrightarrow>
     bit f k \<or> k \<in> {20, 29} \<and> bit r k \<or> k = 11 \<and> bit r 28 \<or> k = 6 \<and> bit r 26"
  "bit (detect syscall_features r f) k \<longleftrightarrow> bit f k \<or> k = 11 \<and> bit r k"
  unfolding bit_detect position_mem by (blast | fastforce)+

text \<open>
  Which bit of the feature word comes from which register bit. The word merges bits of the EDX and ECX registers of
  leaf 1 and of the EDX register of the extended leaf, when there is one: bit \<open>k\<close> is set by EDX bit \<open>k\<close> (except the untested 20, 23, 28, 30 and 31),
  by ECX bit \<open>k\<close> below 16 and by ECX bit \<open>k - 1\<close> from 16 to 28, by the extended bits 20 and 29, and bits 11 and 6 also by
  the extended bits 28 and 26.
\<close>

theorem hal_get_cpu_features_correct:
  "bit (hal_get_cpu_features s) k \<longleftrightarrow>
     (case cpuid_leaf s 1 of (_, _, c, d) \<Rightarrow>
        (k < 20 \<or> k \<in> {21, 22, 24, 25, 26, 27, 29}) \<and> bit d k \<or> k < 16 \<and> bit c k \<or> 16 \<le> k \<and> k \<le> 28 \<and> bit c (k - 1)) \<or>
     fst (cpuid_leaf s 0x80000000) \<ge> 0x80000001 \<and>
       (case cpuid_leaf s 0x80000001 of (_, _, _, x) \<Rightarrow>
          k \<in> {20, 29} \<and> bit x k \<or> k = 11 \<and> bit x 28 \<or> k = 6 \<and> bit x 26)"
proof -
  obtain a b c d where 1: "cpuid_leaf s 1 = (a, b, c, d)" by (cases "cpuid_leaf s 1")
  obtain a' b' c' d' where 2: "cpuid_leaf s 0x80000000 = (a', b', c', d')" by (cases "cpuid_leaf s 0x80000000")
  obtain a'' b'' c'' x where 3: "cpuid_leaf s 0x80000001 = (a'', b'', c'', x)" by (cases "cpuid_leaf s 0x80000001")
  have sub: "k = 11 \<and> bit d k \<Longrightarrow> k < 20 \<and> bit d k" by auto
  show ?thesis
  proof (cases "a' \<ge> 0x80000001")
    case True
    then show ?thesis using sub
      by (simp only: hal_get_cpu_features_def cpuid_def cpuid_ex_def Let_def 1 2 3 prod.case fst_conv if_True bit_detect_tables bit_0_eq) blast
  next
    case False
    then show ?thesis using sub
      by (simp only: hal_get_cpu_features_def cpuid_def cpuid_ex_def Let_def 1 2 3 prod.case fst_conv if_False bit_detect_tables bit_0_eq) blast
  qed
qed

text \<open>The word does not determine the features: a processor with an FPU (EDX bit 0) and one with SSE3 only (ECX bit 0) read the same.\<close>

lemma cpu_features_ambiguous:
  assumes "cpuid_leaf s = (\<lambda>op. if op = 1 then (0, 0, 0, 1) else (0, 0, 0, 0))"
    and "cpuid_leaf t = (\<lambda>op. if op = 1 then (0, 0, 1, 0) else (0, 0, 0, 0))"
  shows "hal_get_cpu_features s = hal_get_cpu_features t"
  using assms by (auto simp: hal_get_cpu_features_def cpuid_def cpuid_ex_def Let_def bit_detect_tables bit_1_iff intro!: bit_word_eqI)

section \<open>Control registers\<close>

text \<open>
  \<open>hal_cpu_init\<close> sets MP (bit 1), clears EM and TS (bits 2 and 3), keeps PE and PG (bits 0 and 31) and enables SSE in
  \<open>CR4\<close>. Contrary to its comments it leaves NE (bit 5), WP (bit 16) and AM (bit 18) clear: of the other bits it sets
  only bit 4.
\<close>

theorem hal_cpu_init_correct:
  "(\<forall>i. bit (cr0 (hal_cpu_init s)) i \<longleftrightarrow> i \<in> {1, 4} \<or> i \<in> {0, 31} \<and> bit (cr0 s) i) \<and>
   (\<forall>i. bit (cr4 (hal_cpu_init s)) i \<longleftrightarrow> i \<in> {9, 10} \<or> bit (cr4 s) i) \<and> x87_control (hal_cpu_init s) = 0x37F"
proof -
  have m: "(0x80000001 :: u32) = push_bit 31 1 OR 1" "(0x12 :: u32) = push_bit 1 1 OR push_bit 4 1"
    "(0x600 :: u32) = push_bit 9 1 OR push_bit 10 1" "(2 :: u32) = push_bit 1 1" by simp_all
  show ?thesis
    unfolding hal_cpu_init_def Let_def m by (auto simp: bit_simps simp del: push_bit_of_1 push_bit_numeral)
qed

end
