(* ===== verification/Console.thy ===== *)
theory Console
  imports Cpu
begin

text \<open>
  The text console of \<^verbatim>\<open>kernel/main.c\<close>: the character buffer of the VGA adapter at 0xB8000 (25 rows of 80 cells, a
  character and an attribute byte each), the position the next character goes to, and the hardware cursor. The
  contract of the console is a terminal: a list of 2000 characters and a cursor.
\<close>

section \<open>State and operations\<close>

definition str_bytes :: "string \<Rightarrow> u8 list" where
  "str_bytes = map of_char"

record console_state = id_state +
  vga_index :: u32

definition vga_buffer :: u32 where "vga_buffer = 0xB8000"

definition poke :: "u32 \<Rightarrow> u8 \<Rightarrow> 'a vmm_state_scheme \<Rightarrow> 'a vmm_state_scheme" where
  "poke a v s = s\<lparr>mem := (mem s)(a := v)\<rparr>"

definition update_cursor :: "u32 \<Rightarrow> 'a console_state_scheme \<Rightarrow> 'a console_state_scheme" where
  "update_cursor pos s =
     (let s1 = outb 0x3D4 0x0F s;
          s2 = outb 0x3D5 (ucast (pos AND 0xFF)) s1;
          s3 = outb 0x3D4 0x0E s2
      in outb 0x3D5 (ucast (drop_bit 8 pos AND 0xFF)) s3)"

definition vga_putchar :: "u8 \<Rightarrow> 'a console_state_scheme \<Rightarrow> 'a console_state_scheme" where
  "vga_putchar c s =
     (let s' =
        (if c = 10 then
           (let next_line_start = (vga_index s div 80 + 1) * 80
            in if next_line_start \<ge> 80 * 25 then s\<lparr>vga_index := 0\<rparr> else s\<lparr>vga_index := next_line_start\<rparr>)
         else if c = 8 then
           (if vga_index s > 0
            then let s1 = s\<lparr>vga_index := vga_index s - 1\<rparr>;
                     s2 = poke (vga_buffer + vga_index s1 * 2) 32 s1
                 in poke (vga_buffer + (vga_index s2 * 2 + 1)) 0x0F s2
            else s)
         else
           (let s1 = poke (vga_buffer + vga_index s * 2) c s;
                s2 = poke (vga_buffer + (vga_index s1 * 2 + 1)) 0x0F s1;
                s3 = s2\<lparr>vga_index := vga_index s2 + 1\<rparr>
            in if vga_index s3 \<ge> 80 * 25 then s3\<lparr>vga_index := 0\<rparr> else s3))
      in update_cursor (vga_index s') s')"

text \<open>\<open>vga_puts\<close> prints the characters before the terminating zero.\<close>

fun vga_puts :: "u8 list \<Rightarrow> 'a console_state_scheme \<Rightarrow> 'a console_state_scheme" where
  "vga_puts [] s = s"
| "vga_puts (c # cs) s = (if c = 0 then s else vga_puts cs (vga_putchar c s))"

definition hex_digit :: "u32 \<Rightarrow> u8" where
  "hex_digit d = str_bytes ''0123456789ABCDEF'' ! unat (d AND 0xF)"

definition vga_puthex :: "u32 \<Rightarrow> 'a console_state_scheme \<Rightarrow> 'a console_state_scheme" where
  "vga_puthex num s = fold (\<lambda>i. vga_putchar (hex_digit (drop_bit i num))) [28, 24, 20, 16, 12, 8, 4, 0] (vga_puts (str_bytes ''0x'') s)"

definition debug_mark :: "u32 \<Rightarrow> u8 \<Rightarrow> u8 \<Rightarrow> 'a vmm_state_scheme \<Rightarrow> 'a vmm_state_scheme" where
  "debug_mark slot c color s =
     (let offset = (80 * 24 + slot) * 2;
          s1 = poke (vga_buffer + offset) c s
      in poke (vga_buffer + (offset + 1)) color s1)"

section \<open>The terminal the console implements\<close>

type_synonym terminal = "u8 list \<times> nat"

definition term_put :: "u8 \<Rightarrow> terminal \<Rightarrow> terminal" where
  "term_put c t =
     (case t of (cs, cur) \<Rightarrow>
        if c = 10 then (cs, (cur - cur mod 80 + 80) mod 2000)
        else if c = 8 then (if cur = 0 then (cs, 0) else (cs[cur - 1 := 32], cur - 1))
        else (cs[cur := c], (cur + 1) mod 2000))"

definition cells :: "mem \<Rightarrow> u8 list" where
  "cells m = map (\<lambda>i. m (vga_buffer + of_nat (2 * i))) [0..<2000]"

definition terminal_of :: "'a console_state_scheme \<Rightarrow> terminal" where
  "terminal_of s = (cells (mem s), unat (vga_index s))"

definition cursor_events :: "nat \<Rightarrow> io_event list" where
  "cursor_events pos = [OutB 0x3D4 0x0F, OutB 0x3D5 (of_nat (pos mod 256)), OutB 0x3D4 0x0E, OutB 0x3D5 (of_nat (pos div 256))]"

definition screen_bytes :: "u32 set" where
  "screen_bytes = {a. 0xB8000 \<le> a \<and> a < 0xB8FA0}"

text \<open>\<open>console_effect s t\<close>: only the screen memory, the index and the history of the ports differ.\<close>

definition console_effect :: "'a console_state_scheme \<Rightarrow> 'a console_state_scheme \<Rightarrow> bool" where
  "console_effect s t \<longleftrightarrow> (\<exists>m i l. t = s\<lparr>mem := m, vga_index := i, io_log := l\<rparr>) \<and> (\<forall>a. a \<notin> screen_bytes \<longrightarrow> mem t a = mem s a)"

definition put_cell :: "nat \<Rightarrow> u8 \<Rightarrow> mem \<Rightarrow> mem" where
  "put_cell i c m = m(vga_buffer + of_nat (2 * i) := c, vga_buffer + of_nat (2 * i + 1) := 0x0F)"

lemma screen_addr: "k < 4000 \<Longrightarrow> unat (vga_buffer + of_nat k) = 0xB8000 + k"
  by (simp add: vga_buffer_def unat_add_less)

lemma screen_addr_eq: "k < 4000 \<Longrightarrow> j < 4000 \<Longrightarrow> vga_buffer + of_nat k = vga_buffer + of_nat j \<longleftrightarrow> k = j"
  using screen_addr [of k] screen_addr [of j] by (metis add_left_cancel)

lemma screen_addr_mem: "k < 4000 \<Longrightarrow> vga_buffer + of_nat k \<in> screen_bytes"
  using screen_addr [of k] by (simp add: screen_bytes_def word_le_nat_alt word_less_nat_alt)

lemma cells_put_cell: "i < 2000 \<Longrightarrow> cells (put_cell i c m) = (cells m)[i := c]"
proof (rule nth_equalityI)
  fix j assume i: "i < 2000" and "j < length (cells (put_cell i c m))"
  then have "j < 2000" by (simp add: cells_def)
  then show "cells (put_cell i c m) ! j = (cells m)[i := c] ! j"
    using i screen_addr_eq [of "2 * j" "2 * i"] screen_addr_eq [of "2 * j" "2 * i + 1"]
    by (auto simp: cells_def put_cell_def nth_list_update simp del: of_nat_mult of_nat_add of_nat_Suc)
qed (simp add: cells_def)

lemma put_cell_frame: "i < 2000 \<Longrightarrow> a \<notin> screen_bytes \<Longrightarrow> put_cell i c m a = m a"
  using screen_addr_mem [of "2 * i"] screen_addr_mem [of "2 * i + 1"] by (auto simp: put_cell_def simp del: of_nat_mult of_nat_add of_nat_Suc)

lemma update_cursor_log:
  assumes "i < 2000"
  shows "update_cursor (of_nat i) s = s\<lparr>io_log := io_log s @ cursor_events i\<rparr>"
proof -
  have m: "(0xFF :: u32) = mask 8" by (simp add: mask_eq_exp_minus_1)
  have i: "unat (of_nat i :: u32) = i" using assms by (simp add: unat_of_nat)
  have "ucast ((of_nat i :: u32) AND 0xFF) = (of_nat (i mod 256) :: u8)" "ucast (drop_bit 8 (of_nat i :: u32) AND 0xFF) = (of_nat (i div 256) :: u8)"
    unfolding m using assms
    by (simp_all add: word_unat_eq_iff unat_ucast_take_bit unsigned_drop_bit_eq i take_bit_eq_mod drop_bit_eq_div unat_of_nat unat_mod unat_div
      unsigned_take_bit_eq flip: take_bit_eq_mask)
  then show ?thesis by (simp add: update_cursor_def Let_def outb_def io_emit_def cursor_events_def)
qed

lemmas cursor = update_cursor_log update_cursor_log [where i = 0, simplified] update_cursor_log [where i = "Suc i" for i, simplified]

lemma vga_putchar_run:
  assumes "vga_index s = of_nat i" and "i < 2000"
  shows "vga_putchar c s = (case term_put c (cells (mem s), i) of (cs, j) \<Rightarrow>
      s\<lparr>mem := (if c = 10 \<or> c = 8 \<and> i = 0 then mem s else if c = 8 then put_cell j 32 (mem s) else put_cell i c (mem s)),
        vga_index := of_nat j, io_log := io_log s @ cursor_events j\<rparr>)"
proof -
  define w :: u32 where "w = of_nat i"
  have w: "vga_index s = w" "unat w = i" using assms by (simp_all add: w_def unat_of_nat)
  consider "c = 10" | "c = 8" "i = 0" | "c = 8" "i > 0" | "c \<noteq> 10" "c \<noteq> 8" by blast
  then show ?thesis
  proof cases
    case 1
    define k where "k = (i div 80 + 1) * 80"
    have k: "k \<le> 2000" "i - i mod 80 + 80 = k" using assms(2) by (auto simp: k_def minus_mod_eq_div_mult algebra_simps)
    have "unat (w div 80 + 1) = i div 80 + 1"
      using assms(2) unat_add_less [of "w div 80" 1] by (simp add: unat_div w(2))
    then have "unat ((w div 80 + 1) * 80) = k"
      using k(1) unat_mult_lem [of "w div 80 + 1" 80] by (simp add: k_def)
    then have "(w div 80 + 1) * 80 \<ge> 80 * 25 \<longleftrightarrow> k \<ge> 2000" "(w div 80 + 1) * 80 = of_nat k"
      using k(1) by (simp_all add: word_le_nat_alt word_unat_eq_iff unat_of_nat)
    then show ?thesis using 1 k
      by (cases "k = 2000") (simp_all add: vga_putchar_def term_put_def Let_def cursor w(1))
  next
    case 2
    then show ?thesis using assms by (simp add: vga_putchar_def term_put_def cursor)
  next
    case 3
    then obtain j where j: "i = Suc j" by (cases i) auto
    then have "w > 0" "w - 1 = of_nat j" by (simp_all add: word_less_nat_alt w(2)) (simp add: w_def)
    then show ?thesis using 3 assms(2) j
      by (intro console_state.equality) (simp_all add: vga_putchar_def term_put_def Let_def cursor w(1) poke_def put_cell_def algebra_simps)
  next
    case 4
    have "unat (w + 1) = i + 1" using assms(2) unat_add_less [of w 1] by (simp add: w(2))
    then have "w + 1 \<ge> 80 * 25 \<longleftrightarrow> i + 1 \<ge> 2000" "w + 1 = of_nat (i + 1)"
      by (simp_all add: word_le_nat_alt w_def)
    then show ?thesis using 4 assms(2)
      by (cases "i + 1 = 2000") (simp_all add: vga_putchar_def term_put_def Let_def cursor w(1) poke_def put_cell_def algebra_simps)
  qed
qed

lemma term_put_bounds:
  "length cs = 2000 \<Longrightarrow> i < 2000 \<Longrightarrow> length (fst (term_put c (cs, i))) = 2000 \<and> snd (term_put c (cs, i)) < 2000"
  by (auto simp: term_put_def)

lemma vga_putchar_effect:
  assumes "vga_index s < 2000"
  shows "terminal_of (vga_putchar c s) = term_put c (terminal_of s)" "vga_index (vga_putchar c s) < 2000"
    "console_effect s (vga_putchar c s)" "\<exists>l. io_log (vga_putchar c s) = io_log s @ l @ cursor_events (unat (vga_index (vga_putchar c s)))"
proof -
  define i where "i = unat (vga_index s)"
  have i: "vga_index s = of_nat i" "i < 2000" using assms by (simp_all add: i_def word_less_nat_alt)
  obtain cs j where tp: "term_put c (cells (mem s), i) = (cs, j)" by fastforce
  have j: "j < 2000" using term_put_bounds [of "cells (mem s)" i c] i(2) tp by (simp add: cells_def)
  note run = vga_putchar_run [OF i, of c, unfolded tp prod.case]
  have idx: "unat (vga_index (vga_putchar c s)) = j" using j by (simp add: run unat_of_nat)
  show "vga_index (vga_putchar c s) < 2000" using idx j by (simp add: word_less_nat_alt)
  show "\<exists>l. io_log (vga_putchar c s) = io_log s @ l @ cursor_events (unat (vga_index (vga_putchar c s)))"
    by (rule exI [of _ "[]"]) (simp add: idx, simp add: run)
  show "terminal_of (vga_putchar c s) = term_put c (terminal_of s)"
    unfolding terminal_of_def idx i_def [symmetric] using tp i(2) j
    by (auto simp: run term_put_def cells_put_cell split: if_splits)
  show "console_effect s (vga_putchar c s)"
    unfolding console_effect_def
  proof (intro conjI exI)
    show "vga_putchar c s = s\<lparr>mem := mem (vga_putchar c s), vga_index := vga_index (vga_putchar c s), io_log := io_log (vga_putchar c s)\<rparr>"
      by (simp add: run)
  qed (auto simp: run i(2) j put_cell_frame)
qed

lemma console_effect_refl: "console_effect s s"
proof -
  have "s = s\<lparr>mem := mem s, vga_index := vga_index s, io_log := io_log s\<rparr>" by simp
  then show ?thesis unfolding console_effect_def by blast
qed

lemma console_effect_trans: "console_effect s t \<Longrightarrow> console_effect t u \<Longrightarrow> console_effect s u"
  unfolding console_effect_def by force

lemma vga_puts_effect:
  assumes "vga_index s < 2000" and "0 \<notin> set str"
  shows "terminal_of (vga_puts str s) = fold term_put str (terminal_of s) \<and> vga_index (vga_puts str s) < 2000 \<and>
    console_effect s (vga_puts str s) \<and>
    (str = [] \<or> (\<exists>l. io_log (vga_puts str s) = io_log s @ l @ cursor_events (unat (vga_index (vga_puts str s)))))"
  using assms
proof (induction str arbitrary: s)
  case Nil
  then show ?case by (simp add: console_effect_refl)
next
  case (Cons c str)
  note p = vga_putchar_effect [OF Cons.prems(1), of c]
  obtain l where l: "io_log (vga_putchar c s) = io_log s @ l @ cursor_events (unat (vga_index (vga_putchar c s)))" using p(4) by blast
  have IH: "terminal_of (vga_puts str (vga_putchar c s)) = fold term_put str (terminal_of (vga_putchar c s))"
    "vga_index (vga_puts str (vga_putchar c s)) < 2000" "console_effect (vga_putchar c s) (vga_puts str (vga_putchar c s))"
    "str = [] \<or> (\<exists>l. io_log (vga_puts str (vga_putchar c s)) = io_log (vga_putchar c s) @ l @ cursor_events (unat (vga_index (vga_puts str (vga_putchar c s)))))"
    using Cons.IH [of "vga_putchar c s"] Cons.prems(2) p(2) by auto
  show ?case using Cons.prems(2) p(1) IH(1,2) console_effect_trans [OF p(3) IH(3)] IH(4) l by (cases "str = []") auto
qed

text \<open>
  C16: The console is a terminal of 25 rows of 80 characters. Printing a string changes the characters on the screen and
  the position as the terminal does, character by character: a line feed goes to the start of the next row and from the last row to
  the first, a backspace deletes the previous character, any other character is shown and the position moves on,
  from the last cell to the first. The position stays on the screen, no memory outside the screen is written, and the hardware cursor ends at
  the position.
\<close>

theorem vga_puts_correct:
  assumes "vga_index s < 2000" and "0 \<notin> set str"
  shows "terminal_of (vga_puts str s) = fold term_put str (terminal_of s) \<and> vga_index (vga_puts str s) < 2000 \<and>
    console_effect s (vga_puts str s) \<and>
    (str = [] \<or> (\<exists>l. io_log (vga_puts str s) = io_log s @ l @ cursor_events (unat (vga_index (vga_puts str s)))))"
  using assms by (rule vga_puts_effect)

text \<open>A machine with an empty screen, before the kernel starts.\<close>

definition console_blank :: console_state where
  "console_blank = id_state.extend (cpu_state.extend cpu_blank
     (id_state.fields (\<lambda>_. (0, 0x756E6547, 0x6C65746E, 0x49656E69)) 0)) (console_state.fields 0)"

lemma console_blank_index [simp]: "vga_index console_blank = 0"
  by (simp add: console_blank_def id_state.extend_def console_state.fields_def)

theorem vga_puts_correct_witness:
  "vga_index console_blank < 2000 \<and> take 2 (fst (terminal_of (vga_puts (str_bytes ''ok'') console_blank))) = str_bytes ''ok'' \<and>
   snd (terminal_of (vga_puts (str_bytes ''ok'') console_blank)) = 2"
proof -
  have "terminal_of (vga_puts (str_bytes ''ok'') console_blank) = fold term_put (str_bytes ''ok'') (terminal_of console_blank)"
    using vga_puts_correct [of console_blank "str_bytes ''ok''"] by (simp add: str_bytes_def)
  moreover have "terminal_of console_blank = (cells (mem console_blank), 0)" by (simp add: terminal_of_def)
  moreover have "length (cells (mem console_blank)) = 2000" by (simp add: cells_def)
  ultimately show ?thesis
    by (cases "cells (mem console_blank)"; cases "tl (cells (mem console_blank))") (auto simp: str_bytes_def term_put_def)
qed

section \<open>Hexadecimal output\<close>

definition hex_digits :: "u32 \<Rightarrow> u8 list" where
  "hex_digits n = map (\<lambda>i. hex_digit (drop_bit i n)) [28, 24, 20, 16, 12, 8, 4, 0]"

definition hex_val :: "u8 \<Rightarrow> nat" where
  "hex_val c = (if c \<ge> 65 then unat c - 55 else unat c - 48)"

definition parse_hex :: "u8 list \<Rightarrow> nat" where
  "parse_hex ds = foldl (\<lambda>v c. 16 * v + hex_val c) 0 ds"

lemma unat_nibble: "unat (d AND 0xF) = unat d mod 16" for d :: u32
proof -
  have "d AND 0xF = take_bit 4 d" by (simp add: take_bit_eq_mask mask_eq_exp_minus_1)
  then show ?thesis by (simp add: take_bit_eq_mod unat_mod)
qed

lemma hex_table: "\<forall>k\<in>set [0..<16]. hex_val (str_bytes ''0123456789ABCDEF'' ! k) = k \<and> str_bytes ''0123456789ABCDEF'' ! k \<noteq> 0"
  by code_simp

lemma hex_val_digit: "hex_val (hex_digit d) = unat (d AND 0xF)" and hex_digit_nz: "hex_digit d \<noteq> 0"
proof -
  have "unat (d AND 0xF) < 16" by (simp add: unat_nibble)
  then have "unat (d AND 0xF) \<in> set [0..<16]" by simp
  with hex_table show "hex_val (hex_digit d) = unat (d AND 0xF)" "hex_digit d \<noteq> 0"
    unfolding hex_digit_def by blast+
qed

lemma parse_hex_digits: "parse_hex (hex_digits n) = unat n"
proof -
  have n: "unat n < 2 ^ 32" using unsigned_less [of n] by simp
  have d: "hex_val (hex_digit (drop_bit i n)) = unat n div 2 ^ i mod 16" for i
    by (simp only: hex_val_digit unat_nibble unat_drop_bit_eq drop_bit_nat_def)
  have step: "16 * (unat n div 2 ^ (i + 4)) + unat n div 2 ^ i mod 16 = unat n div 2 ^ i" for i
    by (simp add: power_add div_mult2_eq)
  have "unat n div 2 ^ 28 mod 16 = unat n div 2 ^ 28" using n by simp
  then show ?thesis unfolding parse_hex_def hex_digits_def
    using step [of 24] step [of 20] step [of 16] step [of 12] step [of 8] step [of 4] step [of 0] by (simp add: d d [of 0, simplified])
qed

lemma vga_puthex_puts: "vga_puthex n s = vga_puts (str_bytes ''0x'' @ hex_digits n) s"
  by (simp add: vga_puthex_def hex_digits_def hex_digit_nz str_bytes_def)

end
