(* ===== verification/Interrupts.thy ===== *)
theory Interrupts
  imports Console
begin

text \<open>
  The interrupt handlers of \<^verbatim>\<open>kernel/core/idt.c\<close>, the tick counters of \<^verbatim>\<open>kernel/hal.c\<close> and
  \<^verbatim>\<open>kernel/main.c\<close> and the wait of \<open>hal_sleep_ms\<close>. The exception handler reports over the serial line and halts;
  the timer handler drives the scheduler. A function pointer is an address, and \<open>call\<close> is what calling it does.
\<close>

section \<open>State and operations\<close>

record registers_t =
  r_gs :: u32
  r_fs :: u32
  r_es :: u32
  r_ds :: u32
  r_edi :: u32
  r_esi :: u32
  r_ebp :: u32
  r_esp :: u32
  r_ebx :: u32
  r_edx :: u32
  r_ecx :: u32
  r_eax :: u32
  int_no :: u32
  err_code :: u32
  r_eip :: u32
  r_cs :: u32
  r_eflags :: u32

record irq_state = console_state +
  timer_ticks :: u32
  timer_callback :: "u32 option"
  current_hz :: u32
  cr2 :: u32
  halted :: bool

definition exception_names :: "string list" where
  "exception_names =
     [''Divide By Zero'', ''Debug'', ''NMI'', ''Breakpoint'', ''Overflow'',
      ''Bound Range Exceeded'', ''Invalid Opcode'', ''Device Not Available'',
      ''Double Fault'', ''Coprocessor Segment Overrun'', ''Invalid TSS'',
      ''Segment Not Present'', ''Stack Fault'', ''General Protection Fault'',
      ''Page Fault'', ''Unknown Interrupt'', ''Coprocessor Fault'',
      ''Alignment Check'', ''Machine Check'']"

definition serial_hex :: "u32 \<Rightarrow> 'a io_state_scheme \<Rightarrow> 'a io_state_scheme option" where
  "serial_hex val s =
     (let buf = for_upto 0 8 (\<lambda>i b. b[2 + i := str_bytes ''0123456789ABCDEF'' ! unat (drop_bit ((7 - i) * 4) val AND 0xF)]) (str_bytes ''0x00000000'' @ [0])
      in hal_serial_write buf 10 s)"

definition page_fault_report :: "registers_t \<Rightarrow> 'a irq_state_scheme \<Rightarrow> 'a irq_state_scheme option" where
  "page_fault_report r s = do {
     let fault_addr = cr2 s;
     s1 \<leftarrow> hal_serial_write (10 # str_bytes ''Fault address: '' @ [0]) 17 s;
     s2 \<leftarrow> serial_hex fault_addr s1;
     s3 \<leftarrow> hal_serial_write (10 # str_bytes ''Cause: '' @ [0]) 8 s2;
     s4 \<leftarrow> hal_serial_write (str_bytes (if err_code r AND 1 \<noteq> 0 then ''protection-violation'' else ''not-present'') @ [0])
             (if err_code r AND 1 \<noteq> 0 then 21 else 12) s3;
     s5 \<leftarrow> hal_serial_write (str_bytes '', '') 2 s4;
     s6 \<leftarrow> hal_serial_write (str_bytes (if err_code r AND 2 \<noteq> 0 then ''write'' else ''read'')) (if err_code r AND 2 \<noteq> 0 then 5 else 4) s5;
     s7 \<leftarrow> hal_serial_write (str_bytes '', '') 2 s6;
     hal_serial_write (str_bytes (if err_code r AND 4 \<noteq> 0 then ''user-mode'' else ''kernel-mode'')) (if err_code r AND 4 \<noteq> 0 then 9 else 11) s7
   }"

definition exception_handler :: "registers_t \<Rightarrow> 'a irq_state_scheme \<Rightarrow> 'a irq_state_scheme option" where
  "exception_handler r s = do {
     s1 \<leftarrow> hal_serial_write (10 # str_bytes ''*** EXCEPTION: '' @ [0]) 17 s;
     s2 \<leftarrow> (if int_no r < 19
            then let name = exception_names ! unat (int_no r) in hal_serial_write (str_bytes name) (length name) s1
            else Some s1);
     s3 \<leftarrow> (if int_no r = 14 then page_fault_report r s2 else Some s2);
     s4 \<leftarrow> hal_serial_write (10 # str_bytes ''EIP: '') 6 s3;
     s5 \<leftarrow> serial_hex (r_eip r) s4;
     s6 \<leftarrow> hal_serial_write (10 # str_bytes ''System halted.'' @ [10]) 16 s5;
     Some ((cli s6)\<lparr>halted := True\<rparr>)
   }"

definition timer_int_callback :: "'a irq_state_scheme \<Rightarrow> 'a irq_state_scheme" where
  "timer_int_callback s = s\<lparr>timer_ticks := timer_ticks s + 1\<rparr>"

text \<open>\<open>scheduler_tick\<close> comes back to \<open>irq0_handler\<close> when it did not switch or when it switched to a process that was itself
  interrupted in \<open>scheduler_tick\<close>. A process that runs for the first time starts in the trampoline instead.\<close>

definition irq0_handler ::
    "(u32 \<Rightarrow> 'a irq_state_scheme \<Rightarrow> 'a irq_state_scheme) \<Rightarrow> 'a irq_state_scheme \<Rightarrow> 'a irq_state_scheme option" where
  "irq0_handler call s = do {
     let s1 = outb 0x20 0x20 s;
     let s2 = s1\<lparr>tick_count := tick_count s1 + 1\<rparr>;
     s3 \<leftarrow> scheduler_tick 10 s2;
     if current_process s3 \<noteq> current_process s2 \<and> eip (regs s3) \<noteq> tick_return s3 then Some s3
     else (let s4 = (case timer_callback s3 of None \<Rightarrow> s3 | Some f \<Rightarrow> call f s3)
           in Some (timer_int_callback s4))
   }"

text \<open>The handlers of lines 2 to 7 acknowledge the first controller, those of lines 8 to 15 both.\<close>

definition irq_master_handler :: "'a io_state_scheme \<Rightarrow> 'a io_state_scheme" where
  "irq_master_handler s = outb 0x20 0x20 s"

definition irq_slave_handler :: "'a io_state_scheme \<Rightarrow> 'a io_state_scheme" where
  "irq_slave_handler s = outb 0x20 0x20 (outb 0xA0 0x20 s)"

definition hal_get_ticks :: "'a sched_state_scheme \<Rightarrow> u64" where
  "hal_get_ticks s = tick_count s"

text \<open>\<open>hlt\<close> is what happens from a \<open>hlt\<close> instruction to the next one: the interrupt that ends it. A wait that never ends is \<open>None\<close>.\<close>

partial_function (option) sleep_until ::
    "('a irq_state_scheme \<Rightarrow> 'a irq_state_scheme option) \<Rightarrow> u64 \<Rightarrow> 'a irq_state_scheme \<Rightarrow> 'a irq_state_scheme option" where
  "sleep_until hlt target s =
     (if hal_get_ticks s < target then (case hlt s of None \<Rightarrow> None | Some t \<Rightarrow> sleep_until hlt target t) else Some s)"

definition sleep_ticks :: "u32 \<Rightarrow> 'a irq_state_scheme \<Rightarrow> u32" where
  "sleep_ticks ms s = (let ticks_needed = (ms * current_hz s) div 1000 in if ticks_needed = 0 then 1 else ticks_needed)"

definition hal_sleep_ms ::
    "('a irq_state_scheme \<Rightarrow> 'a irq_state_scheme option) \<Rightarrow> u32 \<Rightarrow> 'a irq_state_scheme \<Rightarrow> 'a irq_state_scheme option" where
  "hal_sleep_ms hlt ms s = sleep_until hlt (hal_get_ticks s + ucast (sleep_ticks ms s)) s"

section \<open>Reports over the serial line\<close>

definition sends :: "'a io_state_scheme \<Rightarrow> u8 list \<Rightarrow> 'a io_state_scheme \<Rightarrow> bool" where
  "sends s bs t \<longleftrightarrow> (\<exists>new. t = s\<lparr>io_log := io_log s @ new\<rparr> \<and> outs 0x3F8 new = bs)"

lemma sends_refl: "sends s [] s"
  unfolding sends_def by (rule exI [of _ "[]"]) simp

lemma sends_device [simp]: "sends s bs t \<Longrightarrow> device t = device s"
  by (auto simp: sends_def)

lemma sends_bind:
  assumes "\<exists>t. m = Some t \<and> sends s a t" and "\<And>t. sends s a t \<Longrightarrow> \<exists>u. k t = Some u \<and> sends t b u"
  shows "\<exists>u. Option.bind m k = Some u \<and> sends s (a @ b) u"
proof -
  obtain t where t: "m = Some t" "sends s a t" using assms(1) by blast
  obtain u where u: "k t = Some u" "sends t b u" using assms(2) [OF t(2)] by blast
  obtain x y where "t = s\<lparr>io_log := io_log s @ x\<rparr>" "outs 0x3F8 x = a" "u = t\<lparr>io_log := io_log t @ y\<rparr>" "outs 0x3F8 y = b"
    using t(2) u(2) unfolding sends_def by blast
  then have "sends s (a @ b) u" unfolding sends_def by (intro exI [of _ "x @ y"]) simp
  with t(1) u(1) show ?thesis by simp
qed

lemma hal_serial_write_sends:
  "thr_answers (device s) \<Longrightarrow> len \<le> length data \<Longrightarrow> bs = take len data \<Longrightarrow> \<exists>t. hal_serial_write data len s = Some t \<and> sends s bs t"
  using hal_serial_write_returns [of s len data] unfolding sends_def by blast

lemma hex_buffer:
  "for_upto 0 8 (\<lambda>i b. b[2 + i := str_bytes ''0123456789ABCDEF'' ! unat (drop_bit ((7 - i) * 4) v AND 0xF)]) (str_bytes ''0x00000000'' @ [0]) =
    str_bytes ''0x'' @ hex_digits v @ [0]"
proof -
  have "[0..<8] = [0, 1, 2, 3, 4, 5, 6, 7 :: nat]" by code_simp
  then show ?thesis by (simp add: for_upto_def str_bytes_def hex_digits_def hex_digit_def)
qed

lemma serial_hex_sends:
  "thr_answers (device s) \<Longrightarrow> bs = str_bytes ''0x'' @ hex_digits v \<Longrightarrow> \<exists>t. serial_hex v s = Some t \<and> sends s bs t"
  unfolding serial_hex_def Let_def hex_buffer by (rule hal_serial_write_sends) (simp_all add: str_bytes_def hex_digits_def)

definition page_fault_text :: "u32 \<Rightarrow> u32 \<Rightarrow> u8 list" where
  "page_fault_text err a =
     [10] @ str_bytes ''Fault address: '' @ [0] @ str_bytes ''0x'' @ hex_digits a @ [10] @ str_bytes ''Cause: '' @
     (if bit err 0 then str_bytes ''protection-violation'' else str_bytes ''not-present'') @ [0] @ str_bytes '', '' @
     (if bit err 1 then str_bytes ''write'' else str_bytes ''read'') @ str_bytes '', '' @
     (if bit err 2 then str_bytes ''user-mode'' else str_bytes ''kernel-mode'')"

definition exception_text :: "registers_t \<Rightarrow> u32 \<Rightarrow> u8 list" where
  "exception_text r a =
     [10] @ str_bytes ''*** EXCEPTION: '' @ [0] @
     (if int_no r < 19 then str_bytes (exception_names ! unat (int_no r)) else []) @
     (if int_no r = 14 then page_fault_text (err_code r) a else []) @
     [10] @ str_bytes ''EIP: 0x'' @ hex_digits (r_eip r) @ [10] @ str_bytes ''System halted.'' @ [10]"

lemma page_fault_report_sends:
  assumes "thr_answers (device s)"
  shows "\<exists>t. page_fault_report r s = Some t \<and> sends s (page_fault_text (err_code r) (cr2 s)) t"
proof -
  have b: "(err_code r AND 1 \<noteq> 0) = bit (err_code r) 0" "(err_code r AND 2 \<noteq> 0) = bit (err_code r) 1" "(err_code r AND 4 \<noteq> 0) = bit (err_code r) 2"
    using bit_iff_and_push_bit_not_eq_0 [of "err_code r" 0] bit_iff_and_push_bit_not_eq_0 [of "err_code r" 1]
      bit_iff_and_push_bit_not_eq_0 [of "err_code r" 2] by simp_all
  have p: "\<exists>t. page_fault_report r s = Some t \<and> sends s (([10] @ str_bytes ''Fault address: '' @ [0]) @ (str_bytes ''0x'' @ hex_digits (cr2 s)) @ ([10] @ str_bytes ''Cause: '') @
     (str_bytes (if bit (err_code r) 0 then ''protection-violation'' else ''not-present'') @ [0]) @ str_bytes '', '' @
     (str_bytes (if bit (err_code r) 1 then ''write'' else ''read'')) @ str_bytes '', '' @
     str_bytes (if bit (err_code r) 2 then ''user-mode'' else ''kernel-mode'')) t"
    unfolding page_fault_report_def Let_def b
    by (intro sends_bind hal_serial_write_sends serial_hex_sends) (simp_all add: assms str_bytes_def)
  then show ?thesis unfolding page_fault_text_def by (simp add: if_distrib [of str_bytes])
qed

text \<open>
  The two hexadecimal printers agree. \<open>serial_hex\<close>, which fills a buffer by index, and \<open>vga_puthex\<close>, which prints
  digit by digit, put out the same ten characters: \<open>0x\<close> and eight digits that read back as the number.
\<close>

theorem hex_output_correct:
  assumes "thr_answers (device s)"
  shows "\<exists>text. vga_puthex v c = vga_puts text c \<and> (\<exists>t. serial_hex v s = Some t \<and> sends s text t) \<and>
    length text = 10 \<and> take 2 text = str_bytes ''0x'' \<and> parse_hex (drop 2 text) = unat v"
proof (intro exI [of _ "str_bytes ''0x'' @ hex_digits v"] conjI)
  show "vga_puthex v c = vga_puts (str_bytes ''0x'' @ hex_digits v) c" by (rule vga_puthex_puts)
  show "\<exists>t. serial_hex v s = Some t \<and> sends s (str_bytes ''0x'' @ hex_digits v) t"
    using assms by (rule serial_hex_sends) simp
  show "parse_hex (drop 2 (str_bytes ''0x'' @ hex_digits v)) = unat v"
    by (simp add: str_bytes_def parse_hex_digits)
qed (simp_all add: str_bytes_def hex_digits_def)

theorem hex_output_correct_witness:
  "thr_answers slow_uart \<and> (\<exists>text. (\<exists>t. serial_hex 0xBEEF \<lparr>device = slow_uart, io_log = []\<rparr> = Some t \<and>
     sends \<lparr>device = slow_uart, io_log = []\<rparr> text t) \<and> parse_hex (drop 2 text) = 0xBEEF)"
proof -
  have a: "thr_answers (device \<lparr>device = slow_uart, io_log = []\<rparr>)" using slow_uart_answers by simp
  from hex_output_correct [OF a, of "0xBEEF" console_blank] show ?thesis using slow_uart_answers by auto
qed

text \<open>
  C33: On a serial line that keeps accepting bytes \<open>exception_handler\<close> reports the exception and stops the machine. It sends the name of the
  exception when the vector is below 19, for a page fault the faulting address and the three causes from the error
  code, and the address of the instruction; it ends halted with interrupts disabled, and nothing else changes.
\<close>

theorem exception_handler_correct:
  assumes "thr_answers (device s)"
  shows "\<exists>new. exception_handler r s = Some (s\<lparr>io_log := io_log s @ new, eflags := eflags s AND NOT 0x200, halted := True\<rparr>) \<and>
    outs 0x3F8 new = exception_text r (cr2 s)"
proof -
  let ?name = "if int_no r < 19 then str_bytes (exception_names ! unat (int_no r)) else []"
  have names: "\<exists>t. (if int_no r < 19
            then let name = exception_names ! unat (int_no r) in hal_serial_write (str_bytes name) (length name) u
            else Some u) = Some t \<and> sends u ?name t" if "device u = device s" for u :: "'a irq_state_scheme"
    using hal_serial_write_sends [of u "length (exception_names ! unat (int_no r))" "str_bytes (exception_names ! unat (int_no r))"] assms that
    by (auto simp: sends_refl str_bytes_def)
  have fault: "\<exists>t. (if int_no r = 14 then page_fault_report r u else Some u) = Some t \<and>
      sends u (if int_no r = 14 then page_fault_text (err_code r) (cr2 s) else []) t"
    if "device u = device s" "cr2 u = cr2 s" for u :: "'a irq_state_scheme"
    using page_fault_report_sends [of u r] assms that by (auto simp: sends_refl)
  have cr2: "cr2 t = cr2 u" if "sends u bs t" for u t :: "'a irq_state_scheme" and bs
    using that unfolding sends_def by (elim exE conjE) simp
  have "\<exists>t. do { s1 \<leftarrow> hal_serial_write (10 # str_bytes ''*** EXCEPTION: '' @ [0]) 17 s;
     s2 \<leftarrow> (if int_no r < 19
            then let name = exception_names ! unat (int_no r) in hal_serial_write (str_bytes name) (length name) s1
            else Some s1);
     s3 \<leftarrow> (if int_no r = 14 then page_fault_report r s2 else Some s2);
     s4 \<leftarrow> hal_serial_write (10 # str_bytes ''EIP: '') 6 s3;
     s5 \<leftarrow> serial_hex (r_eip r) s4;
     hal_serial_write (10 # str_bytes ''System halted.'' @ [10]) 16 s5 } = Some t \<and>
     sends s ((10 # str_bytes ''*** EXCEPTION: '' @ [0]) @ ?name @ (if int_no r = 14 then page_fault_text (err_code r) (cr2 s) else []) @
       (10 # str_bytes ''EIP: '') @ (str_bytes ''0x'' @ hex_digits (r_eip r)) @ (10 # str_bytes ''System halted.'' @ [10])) t"
    by (intro sends_bind hal_serial_write_sends serial_hex_sends names fault) (simp_all add: assms str_bytes_def cr2)
  then obtain t where "exception_handler r s = Some ((cli t)\<lparr>halted := True\<rparr>)" and "sends s (exception_text r (cr2 s)) t"
    unfolding exception_handler_def exception_text_def by (auto simp: str_bytes_def bind_eq_Some_conv)
  then show ?thesis unfolding sends_def cli_def by auto
qed

section \<open>The timer interrupt\<close>

lemma push32_keeps_cpu [simp]:
  "timer_callback (push32 v s) = timer_callback s" "timer_ticks (push32 v s) = timer_ticks s" "current_hz (push32 v s) = current_hz s" "tick_count (push32 v s) = tick_count s" "eflags (push32 v s) = eflags s" "io_log (push32 v s) = io_log s" "device (push32 v s) = device s"
  for s :: "'a irq_state_scheme"
  by (simp_all add: push32_def Let_def)

lemma pop32_keeps_cpu [simp]:
  "timer_callback (pop32 f s) = timer_callback s" "timer_ticks (pop32 f s) = timer_ticks s" "current_hz (pop32 f s) = current_hz s" "tick_count (pop32 f s) = tick_count s" "eflags (pop32 f s) = eflags s" "io_log (pop32 f s) = io_log s" "device (pop32 f s) = device s"
  for s :: "'a irq_state_scheme"
  by (simp_all add: pop32_def Let_def)

lemma save_stack_ptr_frame [simp]:
  "timer_callback (save_stack_ptr r s) = timer_callback s" "timer_ticks (save_stack_ptr r s) = timer_ticks s" "current_hz (save_stack_ptr r s) = current_hz s" "tick_count (save_stack_ptr r s) = tick_count s" "eflags (save_stack_ptr r s) = eflags s" "io_log (save_stack_ptr r s) = io_log s" "device (save_stack_ptr r s) = device s"
  for s :: "'a irq_state_scheme"
  by (simp_all add: save_stack_ptr_def upd_proc_def split: option.splits)

lemma context_switch_frame [simp]:
  "timer_callback (context_switch r s) = timer_callback s" "timer_ticks (context_switch r s) = timer_ticks s" "current_hz (context_switch r s) = current_hz s" "tick_count (context_switch r s) = tick_count s" "eflags (context_switch r s) = eflags s" "io_log (context_switch r s) = io_log s" "device (context_switch r s) = device s"
  for s :: "'a irq_state_scheme"
  by (simp_all add: context_switch_def Let_def)

lemma call_context_switch_keeps_cpu [simp]:
  "timer_callback (call_context_switch r e s) = timer_callback s" "timer_ticks (call_context_switch r e s) = timer_ticks s" "current_hz (call_context_switch r e s) = current_hz s" "tick_count (call_context_switch r e s) = tick_count s" "eflags (call_context_switch r e s) = eflags s" "io_log (call_context_switch r e s) = io_log s" "device (call_context_switch r e s) = device s"
  for s :: "'a irq_state_scheme"
  by (simp_all add: call_context_switch_def)

lemma tick_frame:
  fixes s :: "'a irq_state_scheme"
  assumes "sched_ok s" and "scheduler_tick d s = Some t"
  shows "timer_callback t = timer_callback s" "timer_ticks t = timer_ticks s" "current_hz t = current_hz s" "tick_count t = tick_count s"
    "eflags t = eflags s" "io_log t = io_log s" "device t = device s"
proof -
  from assms(1) [unfolded sched_ok_def] obtain t' s2 n where t: "scheduler_tick d s = Some t'" "sched_only s s2"
    "t' = (if current_process s = Some n then s2
       else call_context_switch (current_process s) (stack_ptr (procs s n))
         (if page_directory (procs s n) = 0 then s2 else vmm_switch_directory (page_directory (procs s n)) s2))"
    by (rule tick_run [where d = d]) blast
  have eq: "t' = t" using t(1) assms(2) by simp
  obtain a b c e f where s2: "s2 = s\<lparr>procs := a, free_list := b, queues := c, current_process := e, sleep_list := f\<rparr>"
    using t(2) unfolding sched_only_def by blast
  show "timer_callback t = timer_callback s" "timer_ticks t = timer_ticks s" "current_hz t = current_hz s" "tick_count t = tick_count s"
    "eflags t = eflags s" "io_log t = io_log s" "device t = device s"
    unfolding eq [symmetric] t(3) s2 by (simp_all add: vmm_switch_directory_def)
qed

lemma sched_ok_update [simp]:
  "sched_ok (s\<lparr>tick_count := n\<rparr>) = sched_ok s" "sched_ok (s\<lparr>io_log := l\<rparr>) = sched_ok s"
  by (simp_all add: sched_ok_def sched_inv_def sched_lists_def free_procs_def ready_list_def sleepers_def)

lemma sched_ok_timer_ticks [simp]: "sched_ok (s\<lparr>timer_ticks := k\<rparr>) = sched_ok s"
  by (simp add: sched_ok_def sched_inv_def sched_lists_def free_procs_def ready_list_def sleepers_def)

lemma tick_ready_io_log [simp]: "tick_ready (s\<lparr>io_log := l\<rparr>) = tick_ready s" for s :: "'a sched_state_scheme"
  by (simp add: fun_eq_iff tick_ready_def woken_def due_def back_ready_def ready_list_def sleepers_def split: option.splits)

text \<open>
  C17: The timer interrupt. From a state that satisfies the scheduler's invariant and with no callback set, \<open>irq0_handler\<close> returns: it acknowledges
  the interrupt, counts the tick, and gives the processor to the oldest ready process of the highest priority, with the sleepers that are due at the new
  tick count already woken. The invariant holds again and the interrupt flag is not touched. \<open>timer_ticks\<close> is counted as well unless
  a process starts for the first time, in which case control does not come back to the handler.
\<close>

theorem irq0_handler_correct:
  assumes "sched_ok s" and "timer_callback s = None" and "u = s\<lparr>tick_count := tick_count s + 1\<rparr>"
  shows "\<exists>t n p. irq0_handler call s = Some t \<and> sched_ok t \<and> tick_count t = tick_count s + 1 \<and>
    io_log t = io_log s @ [OutB 0x20 0x20] \<and> eflags t = eflags s \<and>
    current_process t = Some n \<and> state_of t n = PROCESS_STATE_RUNNING \<and>
    tick_ready u p = n # ready_list p t \<and> (\<forall>q. q < p \<longrightarrow> tick_ready u q = []) \<and>
    timer_ticks t = timer_ticks s + (if Some n \<noteq> current_process s \<and> eip (regs t) \<noteq> tick_return t then 0 else 1)"
proof -
  let ?v = "s\<lparr>io_log := io_log s @ [OutB 0x20 0x20], tick_count := tick_count s + 1\<rparr>"
  have v: "sched_ok ?v" using assms(1) by simp
  obtain t n p where t: "scheduler_tick 10 ?v = Some t" "sched_ok t" "current_process t = Some n" "state_of t n = PROCESS_STATE_RUNNING"
    "\<And>q. q < p \<Longrightarrow> tick_ready ?v q = []" "tick_ready ?v p = n # ready_list p t"
    by (rule tick_outcome [OF v, of 10]) blast
  have r: "tick_ready ?v = tick_ready u" unfolding assms(3) by (rule ext) (simp add: tick_ready_def woken_def due_def back_ready_def ready_list_def sleepers_def split: option.splits)
  note f = tick_frame [OF v t(1), simplified]
  show ?thesis
  proof (cases "Some n \<noteq> current_process s \<and> eip (regs t) \<noteq> tick_return t")
    case True
    then have "irq0_handler call s = Some t"
      using t(1,3) by (auto simp: irq0_handler_def Let_def outb_def io_emit_def)
    then show ?thesis using t f True r by (intro exI [of _ t] exI [of _ n] exI [of _ p]) simp
  next
    case False
    then have "irq0_handler call s = Some (t\<lparr>timer_ticks := timer_ticks t + 1\<rparr>)"
      using t(1,3) f(1) assms(2) by (auto simp: irq0_handler_def Let_def outb_def io_emit_def timer_int_callback_def)
    moreover have "ready_list p (t\<lparr>timer_ticks := timer_ticks t + 1\<rparr>) = ready_list p t" by (simp add: ready_list_def)
    ultimately show ?thesis using t f False r
      by (intro exI [of _ "t\<lparr>timer_ticks := timer_ticks t + 1\<rparr>"] exI [of _ n] exI [of _ p]) auto
  qed
qed

section \<open>Sleeping\<close>

text \<open>\<open>alone s\<close>: only the boot thread, which the scheduler knows as the idle process, is there to run.\<close>

definition alone :: "'a sched_state_scheme \<Rightarrow> bool" where
  "alone s \<longleftrightarrow> sched_ok s \<and> current_process s = Some Idle \<and> state_of s Idle = PROCESS_STATE_RUNNING \<and>
     priority (procs s Idle) = PRIORITY_LOW \<and> (\<forall>p. ready_list p s = []) \<and> sleepers s = []"

lemma irq0_alone:
  assumes "alone s" and "timer_callback s = None"
  obtains t where "irq0_handler call s = Some t" and "alone t" and "tick_count t = tick_count s + 1"
    and "current_hz t = current_hz s" and "timer_callback t = None"
proof -
  let ?v = "s\<lparr>io_log := io_log s @ [OutB 0x20 0x20], tick_count := tick_count s + 1\<rparr>"
  have v: "sched_ok ?v" and s: "current_process ?v = Some Idle" "state_of ?v Idle = PROCESS_STATE_RUNNING" "priority (procs ?v Idle) = PRIORITY_LOW"
    "\<And>p. ready_list p ?v = []" "sleepers ?v = []"
    using assms(1) by (simp_all add: alone_def ready_list_def sleepers_def)
  obtain t n p where t: "scheduler_tick 10 ?v = Some t" "sched_ok t" "current_process t = Some n" "state_of t n = PROCESS_STATE_RUNNING"
    "tick_ready ?v p = n # ready_list p t" "\<And>q. q \<noteq> p \<Longrightarrow> ready_list q t = tick_ready ?v q" "sleepers t = tick_asleep ?v"
    "\<And>r. priority (procs t r) = priority (procs ?v r)"
    by (rule tick_outcome [OF v, of 10]) blast
  have tr: "tick_ready ?v q = (if q = PRIORITY_LOW then [Idle] else [])" for q
    unfolding tick_ready_def s(4,5) by (simp add: woken_def back_ready_def s(1-3) [simplified])
  have "p = PRIORITY_LOW" "n = Idle" "ready_list p t = []" using t(5) by (simp_all add: tr split: if_splits)
  moreover have "tick_asleep ?v = []" unfolding tick_asleep_def s(5) by (simp add: back_asleep_def s(1,2) [simplified])
  moreover have "ready_list q t = []" for q using t(6) [of q] \<open>p = PRIORITY_LOW\<close> \<open>ready_list p t = []\<close> by (cases "q = p") (auto simp: tr)
  ultimately have al: "alone t" using t(2-4,7,8) s(3) by (simp add: alone_def)
  note f = tick_frame [OF v t(1), simplified]
  have "irq0_handler call s = Some (t\<lparr>timer_ticks := timer_ticks t + 1\<rparr>)"
    using t(1,3) f(1) assms(2) \<open>n = Idle\<close> s(1) by (auto simp: irq0_handler_def Let_def outb_def io_emit_def timer_int_callback_def)
  moreover have "alone (t\<lparr>timer_ticks := timer_ticks t + 1\<rparr>)"
    using al by (simp add: alone_def ready_list_def sleepers_def)
  ultimately show thesis using that f assms(2) by simp
qed

lemma sleep_until_returns:
  assumes "alone s" and "timer_callback s = None" and "unat (tick_count s) + k < 2 ^ 64"
  shows "\<exists>t. sleep_until (irq0_handler call) (tick_count s + of_nat k) s = Some t \<and> alone t \<and> tick_count t = tick_count s + of_nat k"
  using assms
proof (induction k arbitrary: s)
  case 0
  then show ?case by (simp add: sleep_until.simps [of _ _ s] hal_get_ticks_def)
next
  case (Suc k)
  obtain t where t: "irq0_handler call s = Some t" "alone t" "tick_count t = tick_count s + 1" "timer_callback t = None"
    by (rule irq0_alone [OF Suc.prems(1,2), of call])
  have u: "unat (tick_count s + 1) = unat (tick_count s) + 1" using Suc.prems(3) unat_add_less [of "tick_count s" 1] by simp
  have "unat (tick_count s + of_nat (Suc k)) = unat (tick_count s) + Suc k" by (rule unat_add_less) (use Suc.prems(3) in simp)
  then have less: "tick_count s < tick_count s + of_nat (Suc k)" by (simp only: word_less_nat_alt)
  have eq: "tick_count t + of_nat k = tick_count s + of_nat (Suc k)" using t(3) by (simp add: algebra_simps)
  have "\<exists>t'. sleep_until (irq0_handler call) (tick_count t + of_nat k) t = Some t' \<and> alone t' \<and> tick_count t' = tick_count t + of_nat k"
    by (rule Suc.IH [OF t(2,4)]) (use Suc.prems(3) t(3) u in simp)
  then show ?case unfolding eq using less t(1) by (subst sleep_until.simps) (simp only: hal_get_ticks_def if_True option.case)
qed

text \<open>
  C34: \<open>hal_sleep_ms\<close> returns. When no process competes for the processor and the timer keeps interrupting, a sleep of \<open>ms\<close>
  milliseconds ends after exactly \<open>ms * current_hz / 1000\<close> ticks and at least one, where the product is taken
  modulo 2^32: at 100 Hz a request from 42949673 ms on ends early.
\<close>

theorem hal_sleep_ms_returns:
  assumes "alone s" and "timer_callback s = None" and "unat (tick_count s) + 2 ^ 32 < 2 ^ 64"
  shows "\<exists>t. hal_sleep_ms (irq0_handler call) ms s = Some t \<and> alone t \<and>
    unat (tick_count t) = unat (tick_count s) + max 1 ((unat ms * unat (current_hz s)) mod 2 ^ 32 div 1000)"
proof -
  define k where "k = unat (sleep_ticks ms s)"
  have k: "k = max 1 ((unat ms * unat (current_hz s)) mod 2 ^ 32 div 1000)"
    by (auto simp: k_def sleep_ticks_def Let_def unat_div unat_word_ariths word_unat_eq_iff max_def)
  have "k < 2 ^ 32" unfolding k_def using unsigned_less [of "sleep_ticks ms s"] by simp
  then have small: "unat (tick_count s) + k < 2 ^ 64" using assms(3) by simp
  have "ucast (sleep_ticks ms s) = (of_nat k :: u64)" by (simp add: k_def)
  then obtain t where t: "hal_sleep_ms (irq0_handler call) ms s = Some t" "alone t" "tick_count t = tick_count s + of_nat k"
    using sleep_until_returns [OF assms(1,2) small, of call] by (auto simp: hal_sleep_ms_def hal_get_ticks_def)
  moreover have "unat (tick_count t) = unat (tick_count s) + k" unfolding t(3) by (rule unat_add_less) (use small in simp)
  ultimately show ?thesis unfolding k by blast
qed

text \<open>A machine with a serial port, after \<open>scheduler_init\<close>.\<close>

definition irq_blank :: irq_state where
  "irq_blank = console_state.extend (console_blank\<lparr>device := slow_uart\<rparr>) (irq_state.fields 0 None 100 0 False)"

lemma irq_blank_fields [simp]:
  "timer_callback irq_blank = None" "current_hz irq_blank = 100" "device irq_blank = slow_uart" "timer_ticks irq_blank = 0" "cr2 irq_blank = 0"
  "procs irq_blank = procs sched_boot" "free_list irq_blank = free_list sched_boot" "queues irq_blank = queues sched_boot"
  "current_process irq_blank = current_process sched_boot" "sleep_list irq_blank = sleep_list sched_boot" "tick_count irq_blank = tick_count sched_boot"
  by (simp_all add: irq_blank_def console_state.extend_def irq_state.fields_def console_blank_def id_state.extend_def
    console_state.fields_def cpu_state.extend_def id_state.fields_def cpu_blank_def sched_state.extend_def cpu_state.fields_def)

lemma irq_blank_alone: "alone irq_blank"
proof -
  note b = sched_boot_inv and l = sched_inv_lists [OF sched_boot_inv(1)]
  have "sched_ok irq_blank \<longleftrightarrow> sched_ok sched_boot"
    by (simp add: sched_ok_def sched_inv_def sched_lists_def free_procs_def ready_list_def sleepers_def)
  moreover have "ready_list p irq_blank = ready_list p sched_boot" "sleepers irq_blank = sleepers sched_boot" for p
    by (simp_all add: ready_list_def sleepers_def)
  ultimately show ?thesis using b l by (simp add: alone_def)
qed

lemma sched_boot_tick_count: "tick_count sched_boot = 0"
  by (simp add: sched_boot_def sched_onlyD(3) [OF scheduler_init_only] sched_blank_def heap_state.extend_def sched_state.fields_def)

theorem irq0_handler_correct_witness:
  "sched_ok irq_blank \<and> (\<exists>t. irq0_handler (\<lambda>_ s. s) irq_blank = Some t \<and> sched_ok t \<and> tick_count t = 1 \<and> timer_ticks t = 1)"
proof -
  have ok: "sched_ok irq_blank" and cur: "current_process irq_blank = Some Idle" using irq_blank_alone by (simp_all add: alone_def)
  let ?u = "irq_blank\<lparr>tick_count := tick_count irq_blank + 1\<rparr>"
  have tr: "tick_ready ?u q = (if q = PRIORITY_LOW then [Idle] else [])" for q
    using irq_blank_alone by (auto simp: alone_def tick_ready_def woken_def back_ready_def ready_list_def sleepers_def)
  from irq0_handler_correct [OF ok irq_blank_fields(1) refl, of "\<lambda>_ s. s"] show ?thesis
    using ok cur by (auto simp: sched_boot_tick_count tr [unfolded irq_blank_fields sched_boot_tick_count, simplified] sched_boot_tick_count split: if_splits)
qed

theorem hal_sleep_ms_returns_witness:
  "alone irq_blank \<and> (\<exists>t. hal_sleep_ms (irq0_handler (\<lambda>_ s. s)) 5000 irq_blank = Some t \<and> unat (tick_count t) = 500)"
  using hal_sleep_ms_returns [OF irq_blank_alone irq_blank_fields(1), of "\<lambda>_ s. s" 5000] irq_blank_alone
  by (auto simp: sched_boot_tick_count)

theorem exception_handler_correct_witness:
  "\<exists>t new. exception_handler \<lparr>r_gs = 0, r_fs = 0, r_es = 0, r_ds = 0, r_edi = 0, r_esi = 0, r_ebp = 0, r_esp = 0, r_ebx = 0, r_edx = 0,
     r_ecx = 0, r_eax = 0, int_no = 3, err_code = 0, r_eip = 0x1234, r_cs = 8, r_eflags = 2\<rparr> irq_blank = Some t \<and> halted t \<and>
     io_log t = io_log irq_blank @ new \<and> take 27 (outs 0x3F8 new) = 10 # str_bytes ''*** EXCEPTION: '' @ 0 # str_bytes ''Breakpoint''"
proof -
  have "thr_answers (device irq_blank)" using slow_uart_answers by simp
  from exception_handler_correct [OF this, of "\<lparr>r_gs = 0, r_fs = 0, r_es = 0, r_ds = 0, r_edi = 0, r_esi = 0, r_ebp = 0, r_esp = 0, r_ebx = 0, r_edx = 0,
     r_ecx = 0, r_eax = 0, int_no = 3, err_code = 0, r_eip = 0x1234, r_cs = 8, r_eflags = 2\<rparr>"]
  show ?thesis by (auto simp: exception_text_def exception_names_def str_bytes_def)
qed

end
