(* ===== verification/Hal.thy ===== *)
theory Hal
  imports Interrupts Pic
begin

text \<open>
  The hardware abstraction layer, \<^verbatim>\<open>kernel/hal.c\<close>, and the power functions of \<^verbatim>\<open>kernel/power.c\<close>.
  \<open>hal_init\<close> composes the initialisation of every component below it: tables, control registers, interrupt controllers,
  memory, timer, serial line, keyboard and DMA. Its theorem says what the machine is like when it returns.
\<close>

section \<open>Operations\<close>

definition hal_memory_init :: "'a irq_state_scheme \<Rightarrow> 'a irq_state_scheme option" where
  "hal_memory_init = vmm_init"

definition hal_interrupt_init :: "'a irq_state_scheme \<Rightarrow> 'a irq_state_scheme" where
  "hal_interrupt_init s = idt_init (pic_init s)"

definition hal_timer_init :: "'a irq_state_scheme \<Rightarrow> 'a irq_state_scheme option" where
  "hal_timer_init s = do { s1 \<leftarrow> pit_init s; Some (pit_set_callback None s1) }"

definition hal_dma_init :: "'a irq_state_scheme \<Rightarrow> 'a irq_state_scheme" where
  "hal_dma_init = dma_init"

definition hal_power_init :: "'a irq_state_scheme \<Rightarrow> 'a irq_state_scheme" where
  "hal_power_init s = s"

definition hal_init :: "'a irq_state_scheme \<Rightarrow> 'a irq_state_scheme option" where
  "hal_init s = do {
     let s1 = gdt_init s;
     let s2 = hal_cpu_init s1;
     let s3 = hal_interrupt_init s2;
     let s4 = tss_init s3;
     s5 \<leftarrow> hal_memory_init s4;
     s6 \<leftarrow> hal_timer_init s5;
     let s7 = hal_serial_init s6;
     s8 \<leftarrow> hal_keyboard_init s7;
     let s9 = hal_dma_init s8;
     let s10 = hal_power_init s9;
     let s11 = pic_enable_irq 0 s10;
     let s12 = pic_enable_irq 1 s11;
     Some (sti s12)
   }"

definition hal_alloc_page :: "'a vmm_state_scheme \<Rightarrow> u32 \<times> 'a vmm_state_scheme" where
  "hal_alloc_page s = (case pmm_alloc_page (pmm s) of (a, p) \<Rightarrow> (a, s\<lparr>pmm := p\<rparr>))"

definition hal_free_page :: "u32 \<Rightarrow> 'a vmm_state_scheme \<Rightarrow> 'a vmm_state_scheme" where
  "hal_free_page addr s = s\<lparr>pmm := pmm_free_page addr (pmm s)\<rparr>"

definition hal_set_timer_frequency :: "u32 \<Rightarrow> 'a irq_state_scheme \<Rightarrow> 'a irq_state_scheme option" where
  "hal_set_timer_frequency hz s = do { s1 \<leftarrow> pit_set_frequency hz s; Some (s1\<lparr>current_hz := hz\<rparr>) }"

definition hal_dma_alloc_channel :: "'a irq_state_scheme \<Rightarrow> int" where
  "hal_dma_alloc_channel s = 0"

definition hal_dma_free_channel :: "int \<Rightarrow> 'a irq_state_scheme \<Rightarrow> 'a irq_state_scheme" where
  "hal_dma_free_channel chan s = s"

definition hal_set_cpu_cstate :: "u8 \<Rightarrow> 'a irq_state_scheme \<Rightarrow> int" where
  "hal_set_cpu_cstate st s = 0"

text \<open>Power states: a halt lasts until the next interrupt, \<open>hlt\<close>.\<close>

definition power_set_cpu_cstate ::
    "('a irq_state_scheme \<Rightarrow> 'a irq_state_scheme option) \<Rightarrow> u8 \<Rightarrow> 'a irq_state_scheme \<Rightarrow> (int \<times> 'a irq_state_scheme) option" where
  "power_set_cpu_cstate hlt st s =
     (if st = 0 then Some (0, s)
      else if st = 1 \<or> st = 2 \<or> st = 3 \<or> st = 4 then map_option (Pair 0) (hlt s)
      else Some (-1, s))"

definition power_set_cpu_pstate :: "u16 \<Rightarrow> int" where
  "power_set_cpu_pstate mhz = 0"

definition power_get_cpu_frequency :: u16 where
  "power_get_cpu_frequency = 2000"

definition power_enter_sleep ::
    "('a irq_state_scheme \<Rightarrow> 'a irq_state_scheme option) \<Rightarrow> 'a irq_state_scheme \<Rightarrow> 'a irq_state_scheme option" where
  "power_enter_sleep hlt s = hlt s"

definition power_init :: "'a irq_state_scheme \<Rightarrow> 'a irq_state_scheme" where
  "power_init s = s"

definition acpi_init :: int where
  "acpi_init = 0"

definition acpi_enable :: int where
  "acpi_enable = 0"

definition acpi_disable :: int where
  "acpi_disable = 0"

section \<open>Which ports a driver writes\<close>

definition touches :: "u16 set \<Rightarrow> 'a io_state_scheme \<Rightarrow> 'a io_state_scheme \<Rightarrow> bool" where
  "touches A s t \<longleftrightarrow> (\<exists>new. t = s\<lparr>io_log := io_log s @ new\<rparr> \<and> (\<forall>p. p \<notin> A \<longrightarrow> outs p new = []))"

lemma touches_refl: "touches A s s"
  unfolding touches_def by (rule exI [of _ "[]"]) simp

lemma touches_trans: "touches A s t \<Longrightarrow> touches A t u \<Longrightarrow> touches A s u"
  unfolding touches_def by (elim exE conjE, rule_tac x = "new @ newa" in exI) simp

lemma touches_mono: "touches A s t \<Longrightarrow> A \<subseteq> B \<Longrightarrow> touches B s t"
  unfolding touches_def by blast

lemma touches_outb: "p \<in> A \<Longrightarrow> touches A t s \<Longrightarrow> touches A t (outb p v s)"
  by (rule touches_trans [of A t s]) (auto simp: touches_def outb_def io_emit_def)

lemma touches_inb: "touches A t s \<Longrightarrow> touches A t (snd (inb p s))"
  by (rule touches_trans [of A t s]) (auto simp: touches_def inb_def io_emit_def)

lemma touches_poll: "poll_until p ready s = Some t \<Longrightarrow> touches A s t"
proof -
  assume "poll_until p ready s = Some t"
  then have "\<exists>n. t = s\<lparr>io_log := io_log s @ replicate n (InB p)\<rparr>"
    using _
  proof (rule poll_until.raw_induct [rotated])
    fix poll p ready s t
    assume IH: "\<And>p ready s t. poll p ready s = Some t \<Longrightarrow> \<exists>n. t = s\<lparr>io_log := io_log s @ replicate n (InB p)\<rparr>"
      and step: "(case inb p s of (v, t) \<Rightarrow> if ready v then Some t else poll p ready t) = Some t"
    show "\<exists>n. t = s\<lparr>io_log := io_log s @ replicate n (InB p)\<rparr>"
    proof (cases "ready (ucast (device s (io_log s) p))")
      case True
      with step show ?thesis by (intro exI [of _ 1]) (simp add: inb_def io_emit_def)
    next
      case False
      with step have "poll p ready (io_emit (InB p) s) = Some t" by (simp add: inb_def)
      from IH [OF this] obtain n where "t = (io_emit (InB p) s)\<lparr>io_log := io_log (io_emit (InB p) s) @ replicate n (InB p)\<rparr>" ..
      then show ?thesis by (intro exI [of _ "Suc n"]) (simp add: io_emit_def)
    qed
  qed
  then show ?thesis unfolding touches_def by auto
qed

lemma touches_serial_write: "hal_serial_write data len s = Some t \<Longrightarrow> touches {0x3F8} s t"
proof (induction len arbitrary: t)
  case 0
  then show ?case by (simp add: hal_serial_write_def touches_refl)
next
  case (Suc len)
  then obtain u v where u: "hal_serial_write data len s = Some u" "poll_until (COM1 + SERIAL_LINE_STATUS_REG) serial_is_transmit_empty u = Some v"
    "t = outb (COM1 + SERIAL_TRANSMIT_HOLDING_REG) (data ! len) v"
    by (auto simp: hal_serial_write_def for_opt_Suc bind_eq_Some_conv serial_write_byte_def split: option.splits)
  have "touches {0x3F8} s v" by (rule touches_trans [OF Suc.IH [OF u(1)] touches_poll [OF u(2)]])
  then show ?case unfolding u(3) by (intro touches_outb) (simp_all add: serial_regs)
qed

lemma vmm_init_frame:
  assumes "vmm_init s = Some t" and "kernel_layout (kernel_page_directory s) (kernel_page_table s)"
  obtains m l where "t = s\<lparr>pmm := pmm_init (pmm s), mem := m, io_log := io_log s @ l,
      cr3 := kernel_page_directory s, cr0 := cr0 s OR 0x80000000\<rparr>"
    and "\<And>p. p \<noteq> 0x3F8 \<Longrightarrow> outs p l = []"
proof -
  define s1 where "s1 = s\<lparr>pmm := pmm_init (pmm s)\<rparr>"
  define s5 where "s5 = kernel_directory_fill (kernel_tables_fill (kernel_tables_clear (clear_entries (kernel_page_directory s1) s1)))"
  have "kernel_layout (kernel_page_directory s1) (kernel_page_table s1)" using assms(2) by (simp add: s1_def)
  from vmm_init_tables(1) [OF this, folded s5_def] obtain m where s5: "s5 = s1\<lparr>mem := m\<rparr>" unfolding only_mem_def ..
  obtain s6 s8 where w: "hal_serial_write (line_bytes ''STAGE2b-pre-enable-paging'') 26 s5 = Some s6"
    "hal_serial_write (line_bytes ''STAGE2b-dir-switched'') 21 (vmm_switch_directory (kernel_page_directory s6) s6) = Some s8"
    "hal_serial_write (line_bytes ''STAGE2b-paging-enabled'') 23 (vmm_enable_paging s8) = Some t"
    using assms(1) unfolding vmm_init_def Let_def s1_def [symmetric] s5_def [symmetric] by (auto simp: bind_eq_Some_conv)
  obtain a where a: "s6 = s5\<lparr>io_log := io_log s5 @ a\<rparr>" "\<And>p. p \<noteq> 0x3F8 \<Longrightarrow> outs p a = []"
    using touches_serial_write [OF w(1)] unfolding touches_def by auto
  obtain b where b: "s8 = (vmm_switch_directory (kernel_page_directory s6) s6)\<lparr>io_log := io_log (vmm_switch_directory (kernel_page_directory s6) s6) @ b\<rparr>"
    "\<And>p. p \<noteq> 0x3F8 \<Longrightarrow> outs p b = []"
    using touches_serial_write [OF w(2)] unfolding touches_def by auto
  obtain c where c: "t = (vmm_enable_paging s8)\<lparr>io_log := io_log (vmm_enable_paging s8) @ c\<rparr>" "\<And>p. p \<noteq> 0x3F8 \<Longrightarrow> outs p c = []"
    using touches_serial_write [OF w(3)] unfolding touches_def by auto
  show thesis
  proof (rule that)
    show "t = s\<lparr>pmm := pmm_init (pmm s), mem := m, io_log := io_log s @ (a @ b @ c), cr3 := kernel_page_directory s, cr0 := cr0 s OR 0x80000000\<rparr>"
      unfolding c(1) b(1) a(1) s5 s1_def vmm_enable_paging_def vmm_switch_directory_def by (rule vmm_state.equality) simp_all
    show "outs p (a @ b @ c) = []" if "p \<noteq> 0x3F8" for p using that a(2) b(2) c(2) by simp
  qed
qed

lemma driver_touches:
  "touches {0x40, 0x43} s t" if "pit_init s = Some t" for s t :: "'a io_state_scheme"
  using that by (auto simp: pit_init_def pit_set_frequency_def Let_def PIT_COMMAND_PORT_def PIT_CHANNEL0_DATA_def intro!: touches_outb touches_refl)

lemma hal_serial_init_touches: "touches {0x3F8..0x3FF} s (hal_serial_init s)"
  unfolding hal_serial_init_def Let_def by (intro touches_outb touches_refl) (simp_all add: serial_regs)

lemma hal_keyboard_init_touches: "hal_keyboard_init s = Some t \<Longrightarrow> touches {0x60, 0x64} s t"
proof -
  assume "hal_keyboard_init s = Some t"
  then show ?thesis
    unfolding hal_keyboard_init_def Let_def
    by (auto simp: bind_eq_Some_conv split_beta KB_DATA_PORT_def KB_CMD_PORT_def
      intro!: touches_outb touches_inb touches_refl dest!: touches_poll [where A = "{0x60, 0x64}"] elim!: touches_trans [rotated])
qed

section \<open>The machine after initialisation\<close>

definition boot_tables :: "'a irq_state_scheme \<Rightarrow> 'a irq_state_scheme" where
  "boot_tables s = tss_init (hal_interrupt_init (hal_cpu_init (gdt_init s)))"

definition pic_init_events :: "io_event list" where
  "pic_init_events =
     concat (map (\<lambda>(p, v). [OutB p v, OutB 0x80 0])
       [(0x20, 0x11), (0xA0, 0x11), (0x21, 0x20), (0xA1, 0x28), (0x21, 0x04), (0xA1, 0x02), (0x21, 0x01), (0xA1, 0x01)]) @
     [OutB 0x21 0xFF, OutB 0xA1 0xFF]"

lemma pic_init_log: "pic_init s = s\<lparr>io_log := io_log s @ pic_init_events\<rparr>"
  by (simp add: pic_init_def pic_regs io_wait_def outb_def io_emit_def pic_init_events_def)

lemma pic_init_view: "fold (pic_step 0x21) pic_init_events st = (0, Some 0xFF)" "fold (pic_step 0xA1) pic_init_events st = (0, Some 0xFF)"
  by (simp_all add: pic_init_events_def pic_step_def bit_numeral_rec)

lemma boot_tables_fields:
  assumes "length (gdt s) = GDT_ENTRIES" and "length (idt_entries s) = IDT_ENTRY_COUNT"
  shows "gdt (boot_tables s) = boot_gdt (tss_addr s)" "tbl_limit (gdtr (boot_tables s)) = 47" "task_register (boot_tables s) = TSS_SEL"
    "cpl \<le> 3 \<Longrightarrow> int_target cpl software n (boot_tables s) =
      (if n < 48 \<and> (software \<longrightarrow> cpl = 0) then Some (KERNEL_CS, isr_addr s n)
       else if n = 0x80 then Some (KERNEL_CS, syscall_stub_addr s) else None)"
proof -
  have g: "gdt_init s = s\<lparr>gdt := [0, 0x00CF9A000000FFFF, 0x00CF92000000FFFF, 0x00CFFA000000FFFF, 0x00CFF2000000FFFF, 0],
    gp := \<lparr>tbl_limit = 47, tbl_base = gdt_addr s\<rparr>, gdtr := \<lparr>tbl_limit = 47, tbl_base = gdt_addr s\<rparr>,
    segs := \<lparr>seg_cs = 8, seg_ds = 16, seg_es = 16, seg_fs = 16, seg_gs = 16, seg_ss = 16\<rparr>\<rparr>"
  proof -
    obtain a b c d e f where "gdt s = [a, b, c, d, e, f]"
      using assms by (auto simp: GDT_ENTRIES_def length_Suc_conv eval_nat_numeral)
    then show ?thesis by (simp add: gdt_init_def gdt_set_entry_def Let_def GDT_ENTRIES_def)
  qed
  define x where "x = pic_init (hal_cpu_init (gdt_init s))"
  have x: "length (idt_entries x) = IDT_ENTRY_COUNT" "gdt x = gdt (gdt_init s)" "gdtr x = gdtr (gdt_init s)" "tss_addr x = tss_addr s"
    "isr_addr x = isr_addr s" "syscall_stub_addr x = syscall_stub_addr s"
    using assms(2) by (simp_all add: x_def pic_init_log hal_cpu_init_def Let_def g)
  have len: "length (idt_entries x) = 256" using x(1) by (simp add: IDT_ENTRY_COUNT_def)
  obtain es where y: "idt_init x = x\<lparr>idt_ptr := \<lparr>tbl_limit = 2047, tbl_base = idt_addr x\<rparr>, idt_entries := es,
      idtr := \<lparr>tbl_limit = 2047, tbl_base = idt_addr x\<rparr>\<rparr>"
    by (rule idt_init_gates [OF len]) blast
  have bt: "boot_tables s = tss_init (idt_init x)" by (simp add: boot_tables_def hal_interrupt_init_def x_def)
  note init = bt tss_init_def ltr_def TSS_SEL_def gdt_set_tss_entry_def gdt_get_table_def Let_def
  show "gdt (boot_tables s) = boot_gdt (tss_addr s)" "tbl_limit (gdtr (boot_tables s)) = 47" "task_register (boot_tables s) = TSS_SEL"
    using x by (simp_all add: init y g boot_gdt_def)
  show "int_target cpl software n (boot_tables s) =
      (if n < 48 \<and> (software \<longrightarrow> cpl = 0) then Some (KERNEL_CS, isr_addr s n)
       else if n = 0x80 then Some (KERNEL_CS, syscall_stub_addr s) else None)" if "cpl \<le> 3"
  proof -
    have "int_target cpl software n (boot_tables s) = int_target cpl software n (idt_init x)"
      by (simp add: int_target_def init)
    then show ?thesis using int_target_idt_init [OF x(1) that, of software n] x by simp
  qed
qed

lemma boot_tables_fixed:
  assumes "length (idt_entries s) = IDT_ENTRY_COUNT"
  shows "device (boot_tables s) = device s" "pmm (boot_tables s) = pmm s" "kernel_page_directory (boot_tables s) = kernel_page_directory s"
    "kernel_page_table (boot_tables s) = kernel_page_table s" "io_log (boot_tables s) = io_log s @ pic_init_events"
    "procs (boot_tables s) = procs s" "queues (boot_tables s) = queues s" "current_process (boot_tables s) = current_process s"
    "free_list (boot_tables s) = free_list s" "sleep_list (boot_tables s) = sleep_list s" "mem (boot_tables s) = mem s"
    "irq_state.more (boot_tables s) = irq_state.more s" "vga_index (boot_tables s) = vga_index s" "timer_callback (boot_tables s) = timer_callback s"
    "keyboard_key_available_flag (boot_tables s) = keyboard_key_available_flag s" "regs (boot_tables s) = regs s"
    "tick_count (boot_tables s) = tick_count s" "syscall_stub_addr (boot_tables s) = syscall_stub_addr s"
proof -
  define x where "x = pic_init (hal_cpu_init (gdt_init s))"
  have len: "length (idt_entries x) = 256"
    using assms by (simp add: x_def pic_init_log hal_cpu_init_def gdt_init_def gdt_set_entry_def Let_def IDT_ENTRY_COUNT_def)
  obtain es where y: "idt_init x = x\<lparr>idt_ptr := \<lparr>tbl_limit = 2047, tbl_base = idt_addr x\<rparr>, idt_entries := es,
      idtr := \<lparr>tbl_limit = 2047, tbl_base = idt_addr x\<rparr>\<rparr>"
    by (rule idt_init_gates [OF len]) blast
  have bt: "boot_tables s = tss_init (idt_init x)" by (simp add: boot_tables_def hal_interrupt_init_def x_def)
  show "device (boot_tables s) = device s" "pmm (boot_tables s) = pmm s" "kernel_page_directory (boot_tables s) = kernel_page_directory s"
    "kernel_page_table (boot_tables s) = kernel_page_table s" "io_log (boot_tables s) = io_log s @ pic_init_events"
    "procs (boot_tables s) = procs s" "queues (boot_tables s) = queues s" "current_process (boot_tables s) = current_process s"
    "free_list (boot_tables s) = free_list s" "sleep_list (boot_tables s) = sleep_list s" "mem (boot_tables s) = mem s"
    "irq_state.more (boot_tables s) = irq_state.more s" "vga_index (boot_tables s) = vga_index s" "timer_callback (boot_tables s) = timer_callback s"
    "keyboard_key_available_flag (boot_tables s) = keyboard_key_available_flag s" "regs (boot_tables s) = regs s"
    "tick_count (boot_tables s) = tick_count s" "syscall_stub_addr (boot_tables s) = syscall_stub_addr s"
    unfolding bt tss_init_def ltr_def gdt_set_tss_entry_def Let_def y
    by (simp_all add: x_def pic_init_log hal_cpu_init_def gdt_init_def gdt_set_entry_def Let_def)
qed

lemmas boot_tables_frame = boot_tables_fixed(1-11)
lemmas boot_tables_keeps = boot_tables_fixed(12-18)

text \<open>The ports of the timer, the keyboard controller, the DMA controller, the delay port and the serial line.\<close>

definition boot_ports :: "u16 set" where
  "boot_ports = {0x40, 0x43, 0x60, 0x64, 0x80, 0x0C, 0x0D, 0x0F} \<union> {0x3F8..0x3FF}"

lemma hal_init_run:
  assumes "thr_answers (device s)" and "answers (device s) 0x64 kb_input_empty" and "answers_to 0x20 (device s) 0x64 kb_output_full"
    and "pmm_wf (pmm s)" and "kernel_layout (kernel_page_directory s) (kernel_page_table s)"
    and "length (gdt s) = GDT_ENTRIES" and "length (idt_entries s) = IDT_ENTRY_COUNT"
  obtains v l where "vmm_init (boot_tables s) = Some v"
    and "hal_init s = Some (sti (pic_enable_irq 1 (pic_enable_irq 0 (v\<lparr>pit_timer_callback := None, dma_initialized := True, io_log := io_log v @ l\<rparr>))))"
    and "\<forall>p. p \<notin> boot_ports \<longrightarrow> outs p l = []"
proof -
  let ?b = "boot_tables s"
  note f = boot_tables_frame [OF assms(7)]
  obtain v where v: "vmm_init ?b = Some v" "device v = device s"
    by (rule vmm_init_run [of ?b]) (use assms f in auto)
  obtain s6 where s6: "pit_init v = Some s6" by (simp add: pit_init_def pit_set_frequency_def Let_def)
  obtain l6 where l6: "s6 = v\<lparr>io_log := io_log v @ l6\<rparr>" "\<forall>p. p \<notin> {0x40, 0x43} \<longrightarrow> outs p l6 = []"
    using driver_touches [OF s6] unfolding touches_def by blast
  define s6' where "s6' = pit_set_callback None s6"
  obtain l7 where l7: "hal_serial_init s6' = s6'\<lparr>io_log := io_log s6' @ l7\<rparr>" "\<forall>p. p \<notin> {0x3F8..0x3FF} \<longrightarrow> outs p l7 = []"
    using hal_serial_init_touches [of s6'] unfolding touches_def by blast
  have d7: "device (hal_serial_init s6') = device s" unfolding l7(1) using v(2) by (simp add: s6'_def pit_set_callback_def l6(1))
  obtain s8 where s8: "hal_keyboard_init (hal_serial_init s6') = Some s8"
    using hal_keyboard_init_returns [of "hal_serial_init s6'"] assms(2,3) d7 by auto
  obtain l8 where l8: "s8 = (hal_serial_init s6')\<lparr>io_log := io_log (hal_serial_init s6') @ l8\<rparr>" "\<forall>p. p \<notin> {0x60, 0x64} \<longrightarrow> outs p l8 = []"
    using hal_keyboard_init_touches [OF s8] unfolding touches_def by blast
  have e8: "s8 = s6'\<lparr>io_log := io_log s6' @ l7 @ l8\<rparr>" using l8(1) unfolding l7(1) by simp
  define l9 where "l9 = [OutB 0x0D 0, OutB 0x80 0, OutB 0x0C 0, OutB 0x80 0, OutB 0x0F 0x0F, OutB 0x80 0]"
  have l9: "dma_init s8 = s8\<lparr>io_log := io_log s8 @ l9, dma_initialized := True\<rparr>"
    by (simp add: dma_init_def Let_def outb_def io_emit_def io_wait_def l9_def DMA1_MASTER_CLEAR_def DMA1_CLEAR_BYTE_FLIP_def DMA1_WRITE_MASK_def)
  show thesis
  proof (rule that)
    show "vmm_init ?b = Some v" by (rule v(1))
    have "dma_init s8 = v\<lparr>pit_timer_callback := None, dma_initialized := True, io_log := io_log v @ (l6 @ l7 @ l8 @ l9)\<rparr>"
      unfolding l9 unfolding e8 unfolding s6'_def pit_set_callback_def l6(1) by (rule dma_state.equality) simp_all
    then show "hal_init s = Some (sti (pic_enable_irq 1 (pic_enable_irq 0 (v\<lparr>pit_timer_callback := None, dma_initialized := True,
        io_log := io_log v @ (l6 @ l7 @ l8 @ l9)\<rparr>))))"
      unfolding hal_init_def Let_def boot_tables_def [symmetric] hal_memory_init_def v(1) hal_timer_init_def
      using s6 s8 by (simp add: s6'_def hal_dma_init_def hal_power_init_def)
    show "\<forall>p. p \<notin> boot_ports \<longrightarrow> outs p (l6 @ l7 @ l8 @ l9) = []"
      using l6(2) l7(2) l8(2) by (auto simp: l9_def boot_ports_def)
  qed
qed

lemma pic_enable_low:
  assumes "irq < 8"
  shows "\<exists>v. pic_enable_irq irq s = s\<lparr>io_log := io_log s @ [InB 0x21, OutB 0x21 v]\<rparr>"
  using assms by (auto simp: pic_enable_irq_def irq_line_def inb_def outb_def io_emit_def pic_regs)

lemma enable_timer_keyboard:
  assumes "mask_port (device s) 0x21" and "pic_view 0x21 (io_log s) = (0, Some 0xFF)"
  shows "imr 0x21 (pic_enable_irq 1 (pic_enable_irq 0 s)) = 0xFC"
proof (rule bit_word_eqI)
  fix k assume k: "k < LENGTH(8)"
  have l: "fst (irq_line 0) = 0x21" "fst (irq_line 1) = 0x21" by (simp_all add: irq_line_def pic_regs)
  have d: "device (pic_enable_irq 0 s) = device s" "fst (pic_view 0x21 (io_log (pic_enable_irq 0 s))) = 0"
    using pic_enable_low [of 0 s] assms(2) by (auto simp: pic_view_append)
  have "bit (imr 0x21 (pic_enable_irq 1 (pic_enable_irq 0 s))) k \<longleftrightarrow> bit (imr 0x21 (pic_enable_irq 0 s)) k \<and> k \<noteq> 1"
    using pic_enable_irq_bits [of 1 "pic_enable_irq 0 s" k] assms(1) by (simp add: l d)
  also have "bit (imr 0x21 (pic_enable_irq 0 s)) k \<longleftrightarrow> bit (imr 0x21 s) k \<and> k \<noteq> 0"
    using pic_enable_irq_bits [of 0 s k] assms by (simp add: l)
  also have "imr 0x21 s = 0xFF" using imr_view [OF assms(1)] assms(2) by simp
  finally show "bit (imr 0x21 (pic_enable_irq 1 (pic_enable_irq 0 s))) k = bit (0xFC :: u8) k"
    using k by (auto simp: less_Suc_eq eval_nat_numeral(1-3) bit_numeral_rec numeral_eq_Suc)
qed

text \<open>\<open>boots s\<close>: what \<open>hal_init\<close> relies on. The serial line and the keyboard controller answer, the data ports of the
  interrupt controllers read as their masks, and the static tables have their sizes and places.\<close>

definition boots :: "'a irq_state_scheme \<Rightarrow> bool" where
  "boots s \<longleftrightarrow> thr_answers (device s) \<and> answers (device s) 0x64 kb_input_empty \<and> answers_to 0x20 (device s) 0x64 kb_output_full \<and>
     mask_port (device s) 0x21 \<and> mask_port (device s) 0xA1 \<and> pmm_wf (pmm s) \<and>
     kernel_layout (kernel_page_directory s) (kernel_page_table s) \<and>
     length (gdt s) = GDT_ENTRIES \<and> length (idt_entries s) = IDT_ENTRY_COUNT"

definition mapped_low :: "'a vmm_state_scheme \<Rightarrow> bool" where
  "mapped_low t \<longleftrightarrow> bit (cr0 t) 31 \<and>
     (\<forall>va. walk_in (cr3 t) t va = (if unat va < 80 * 1024 * 1024 then Some ((va AND 0xFFFFF000) OR PAGE_PRESENT OR PAGE_WRITABLE) else None))"

lemma hal_init_state:
  assumes "boots s"
  obtains v l t m l0 where "hal_init s = Some t" and "t = sti (pic_enable_irq 1 (pic_enable_irq 0 v))"
    and "v = (boot_tables s)\<lparr>pmm := pmm_init (pmm s), mem := m, cr3 := kernel_page_directory s, cr0 := cr0 (boot_tables s) OR 0x80000000,
       pit_timer_callback := None, dma_initialized := True, io_log := io_log s @ pic_init_events @ l\<rparr>"
    and "\<forall>p. p \<notin> boot_ports \<longrightarrow> outs p l = []"
    and "identity_dir (kernel_page_directory s) (kernel_page_table s) v"
proof -
  note b = assms [unfolded boots_def]
  let ?b = "boot_tables s"
  have f: "device ?b = device s" "pmm ?b = pmm s" "kernel_page_directory ?b = kernel_page_directory s"
    "kernel_page_table ?b = kernel_page_table s" "io_log ?b = io_log s @ pic_init_events"
    using boot_tables_frame [of s] b by blast+
  obtain u l where u: "vmm_init ?b = Some u"
    "hal_init s = Some (sti (pic_enable_irq 1 (pic_enable_irq 0 (u\<lparr>pit_timer_callback := None, dma_initialized := True, io_log := io_log u @ l\<rparr>))))"
    "\<forall>p. p \<notin> boot_ports \<longrightarrow> outs p l = []"
    by (rule hal_init_run [of s]) (use b in blast)+
  have lay: "kernel_layout (kernel_page_directory ?b) (kernel_page_table ?b)" using b f by simp
  obtain m l0 where m: "u = ?b\<lparr>pmm := pmm_init (pmm ?b), mem := m, io_log := io_log ?b @ l0, cr3 := kernel_page_directory ?b,
      cr0 := cr0 ?b OR 0x80000000\<rparr>" "\<And>p. p \<noteq> 0x3F8 \<Longrightarrow> outs p l0 = []"
    by (rule vmm_init_frame [OF u(1) lay]) blast
  obtain u' where "vmm_init ?b = Some u'" and idn: "identity_dir (kernel_page_directory s) (kernel_page_table s) u'"
    by (rule vmm_init_run [of ?b]) (use b f in auto)
  then have idu: "identity_dir (kernel_page_directory s) (kernel_page_table s) u" using u(1) by simp
  let ?v = "u\<lparr>pit_timer_callback := None, dma_initialized := True, io_log := io_log u @ l\<rparr>"
  have eq: "?v = ?b\<lparr>pmm := pmm_init (pmm s), mem := m, cr3 := kernel_page_directory s, cr0 := cr0 ?b OR 0x80000000,
       pit_timer_callback := None, dma_initialized := True, io_log := io_log s @ pic_init_events @ l0 @ l\<rparr>"
    unfolding m(1) f by (rule vmm_state.equality) simp_all
  have "identity_dir (kernel_page_directory s) (kernel_page_table s) ?v" using idu by (subst identity_dir_mem [where s = u]) simp_all
  moreover have "\<forall>p. p \<notin> boot_ports \<longrightarrow> outs p (l0 @ l) = []"
  proof (intro allI impI)
    fix p assume p: "p \<notin> boot_ports"
    then have "p \<noteq> 0x3F8" by (auto simp: boot_ports_def)
    then show "outs p (l0 @ l) = []" using p u(3) m(2) by simp
  qed
  ultimately show thesis using that [OF u(2) refl eq] by blast
qed

lemma hal_init_returns:
  assumes "boots s"
  shows "\<exists>t. hal_init s = Some t \<and> interrupt_flag t \<and> mapped_low t \<and> free_frames (pmm t) = page_addr ` {256..<16128} \<and>
    segment_view KERNEL_CS t = Some (CodeSegment, 0, 0xFFFFFFFF, 0) \<and> segment_view USER_CS t = Some (CodeSegment, 0, 0xFFFFFFFF, 3) \<and>
    segment_view (task_register t) t = Some (TaskState, tss_addr s, tss_size - 1, 0) \<and>
    (\<forall>cpl\<le>3. \<forall>software n. int_target cpl software n t =
      (if n < 48 \<and> (software \<longrightarrow> cpl = 0) then Some (KERNEL_CS, isr_addr s n)
       else if n = 0x80 then Some (KERNEL_CS, syscall_stub_addr s) else None)) \<and>
    imr 0x21 t = 0xFC \<and> imr 0xA1 t = 0xFF \<and>
    procs t = procs s \<and> queues t = queues s \<and> current_process t = current_process s \<and> sleep_list t = sleep_list s"
proof -
  note b = assms [unfolded boots_def]
  let ?b = "boot_tables s" and ?K = "kernel_page_table s" and ?D = "kernel_page_directory s"
  have fr: "device ?b = device s" "procs ?b = procs s" "queues ?b = queues s" "current_process ?b = current_process s" "sleep_list ?b = sleep_list s"
    using boot_tables_frame [of s] b by blast+
  obtain v l t m where t: "hal_init s = Some t" "t = sti (pic_enable_irq 1 (pic_enable_irq 0 v))"
    and v: "v = ?b\<lparr>pmm := pmm_init (pmm s), mem := m, cr3 := ?D, cr0 := cr0 ?b OR 0x80000000,
       pit_timer_callback := None, dma_initialized := True, io_log := io_log s @ pic_init_events @ l\<rparr>"
    and l: "\<forall>p. p \<notin> boot_ports \<longrightarrow> outs p l = []"
    and idn: "identity_dir ?D ?K v"
    by (rule hal_init_state [OF assms])
  obtain a where a: "pic_enable_irq 0 v = v\<lparr>io_log := io_log v @ a\<rparr>" "outs 0xA1 a = []" "outs 0xA0 a = []" using pic_enable_low [of 0 v] by auto
  obtain c where c: "pic_enable_irq 1 (pic_enable_irq 0 v) = v\<lparr>io_log := io_log v @ a @ c\<rparr>" "outs 0xA1 c = []" "outs 0xA0 c = []"
    using pic_enable_low [of 1 "pic_enable_irq 0 v"] a by auto
  have te: "t = v\<lparr>io_log := io_log v @ a @ c, eflags := eflags v OR 0x200\<rparr>" unfolding t(2) c(1) sti_def by simp
  have log: "pic_view 0x21 (io_log v) = (0, Some 0xFF)" "pic_view 0xA1 (io_log v @ a @ c) = (0, Some 0xFF)"
    using l [rule_format, of "0x21"] l [rule_format, of "0x20"] l [rule_format, of "0xA1"] l [rule_format, of "0xA0"] a(2,3) c(2,3)
    by (simp_all add: v boot_ports_def pic_view_append pic_step_other pic_init_view)
  have dv: "device v = device s" by (simp add: v fr(1))
  have "imr 0x21 t = imr 0x21 (pic_enable_irq 1 (pic_enable_irq 0 v))" by (simp add: t(2) sti_def imr_def)
  also have "\<dots> = 0xFC" by (rule enable_timer_keyboard) (use b dv log(1) in simp_all)
  finally have m1: "imr 0x21 t = 0xFC" .
  have m2: "imr 0xA1 t = 0xFF"
    by (rule imr_view) (use b dv log(2) in \<open>simp_all add: te\<close>)
  have tab: "gdt t = gdt ?b" "gdtr t = gdtr ?b" "task_register t = task_register ?b" by (simp_all add: te v)
  have len: "length (gdt s) = GDT_ENTRIES" "length (idt_entries s) = IDT_ENTRY_COUNT" using b by blast+
  note bt = boot_tables_fields [OF len]
  have seg: "gdt t = boot_gdt (tss_addr s)" "tbl_limit (gdtr t) = 47" using tab bt(1,2) by simp_all
  have int: "int_target cpl software n t = int_target cpl software n ?b" for cpl software n by (simp add: int_target_def te v)
  have "identity_dir ?D ?K t" using idn by (subst identity_dir_mem [where s = v]) (simp_all add: te)
  then have low: "mapped_low t" using identity_dir_walk [of ?D ?K ?D t] b
    unfolding mapped_low_def by (simp add: te v bit_or_iff PAGE_PRESENT_def PAGE_WRITABLE_def bit_numeral_rec)
  show ?thesis
  proof (intro exI [of _ t] conjI allI impI)
    show "interrupt_flag t" by (simp add: te interrupt_flag_def bit_or_iff bit_numeral_rec)
    show "free_frames (pmm t) = page_addr ` {256..<16128}" using b by (simp add: te v pmm_init_frames)
    show "int_target cpl software n t = (if n < 48 \<and> (software \<longrightarrow> cpl = 0) then Some (KERNEL_CS, isr_addr s n)
       else if n = 0x80 then Some (KERNEL_CS, syscall_stub_addr s) else None)" if "cpl \<le> 3" for cpl software n
      unfolding int by (rule bt(4) [OF that])
  qed (use t(1) low m1 m2 boot_segments [OF seg] tab(3) bt(3) fr in \<open>simp_all add: te v\<close>)
qed

text \<open>
  C12: Booting. On a machine that \<open>boots\<close> describes, \<open>hal_init\<close> returns with interrupts enabled, paging on and exactly the first 80 MB mapped to
  themselves, all managed frames above the kernel free, the flat kernel and user segments and the task state segment in place, every exception and device vector
  going to its stub and only vector 0x80 open to user code, and exactly the timer and the keyboard line unmasked. The processes, queues and the sleep list
  of the scheduler, initialised before, are unchanged.
\<close>

theorem hal_init_correct:
  assumes "boots s"
  shows "\<exists>t. hal_init s = Some t \<and> interrupt_flag t \<and> mapped_low t \<and> free_frames (pmm t) = page_addr ` {256..<16128} \<and>
    segment_view KERNEL_CS t = Some (CodeSegment, 0, 0xFFFFFFFF, 0) \<and> segment_view USER_CS t = Some (CodeSegment, 0, 0xFFFFFFFF, 3) \<and>
    segment_view (task_register t) t = Some (TaskState, tss_addr s, tss_size - 1, 0) \<and>
    (\<forall>cpl\<le>3. \<forall>software n. int_target cpl software n t =
      (if n < 48 \<and> (software \<longrightarrow> cpl = 0) then Some (KERNEL_CS, isr_addr s n)
       else if n = 0x80 then Some (KERNEL_CS, syscall_stub_addr s) else None)) \<and>
    imr 0x21 t = 0xFC \<and> imr 0xA1 t = 0xFF \<and>
    procs t = procs s \<and> queues t = queues s \<and> current_process t = current_process s \<and> sleep_list t = sleep_list s"
  using assms by (rule hal_init_returns)

text \<open>A personal computer whose serial line and keyboard controller are always ready and whose interrupt controllers show their masks.\<close>

definition pc_device :: device where
  "pc_device log p = (if p = 0x3FD then 0x20 else if p = 0x64 then 0x01 else pic_device log p)"

definition boot_machine :: irq_state where
  "boot_machine = irq_blank\<lparr>device := pc_device, pmm := pmm sample_vm, kernel_page_directory := 0x100000, kernel_page_table := 0x101000\<rparr>"

lemma boot_machine_boots: "boots boot_machine"
proof -
  have "length (gdt irq_blank) = GDT_ENTRIES" "length (idt_entries irq_blank) = IDT_ENTRY_COUNT"
    by (simp_all add: irq_blank_def console_state.extend_def irq_state.fields_def console_blank_def id_state.extend_def
      console_state.fields_def cpu_state.extend_def id_state.fields_def)
  moreover have "thr_answers pc_device" "answers pc_device 0x64 kb_input_empty" "answers_to 0x20 pc_device 0x64 kb_output_full"
    by (simp_all add: answers_def answers_to_def pc_device_def serial_is_transmit_empty_def SERIAL_LSR_THRE_def kb_input_empty_def kb_output_full_def
      KB_STAT_IBF_def KB_STAT_OBF_def)
  moreover have "mask_port pc_device 0x21" "mask_port pc_device 0xA1"
    by (simp_all add: mask_port_def pc_device_def pic_device_def)
  moreover have "kernel_layout 0x100000 0x101000" by (simp add: kernel_layout_def frame_def)
  ultimately show ?thesis by (simp add: boots_def boot_machine_def sample_vm_def booted_pmm(1))
qed

theorem hal_init_correct_witness:
  "boots boot_machine \<and> (\<exists>t. hal_init boot_machine = Some t \<and> interrupt_flag t \<and> imr 0x21 t = 0xFC \<and> mapped_low t)"
  using hal_init_correct [OF boot_machine_boots] boot_machine_boots by blast

end
