(* ===== verification/SyscallTable.thy ===== *)
theory SyscallTable
  imports Prelude
begin

text \<open>
  The numbers of the system calls, \<^verbatim>\<open>kernel/syscall.h\<close>, and the calls of \<^verbatim>\<open>kernel/syscall.c\<close>
  that are not implemented. A value of type \<open>int\<close>, \<open>long\<close> or a pointer is a 32-bit word.
\<close>

section \<open>Numbers\<close>

definition SYS_EXIT :: u32 where "SYS_EXIT = 1"
definition SYS_FORK :: u32 where "SYS_FORK = 2"
definition SYS_READ :: u32 where "SYS_READ = 3"
definition SYS_WRITE :: u32 where "SYS_WRITE = 4"
definition SYS_OPEN :: u32 where "SYS_OPEN = 5"
definition SYS_CLOSE :: u32 where "SYS_CLOSE = 6"
definition SYS_WAITPID :: u32 where "SYS_WAITPID = 7"
definition SYS_CREAT :: u32 where "SYS_CREAT = 8"
definition SYS_LINK :: u32 where "SYS_LINK = 9"
definition SYS_UNLINK :: u32 where "SYS_UNLINK = 10"
definition SYS_EXECVE :: u32 where "SYS_EXECVE = 11"
definition SYS_CHDIR :: u32 where "SYS_CHDIR = 12"
definition SYS_TIME :: u32 where "SYS_TIME = 13"
definition SYS_MKNOD :: u32 where "SYS_MKNOD = 14"
definition SYS_CHMOD :: u32 where "SYS_CHMOD = 15"
definition SYS_CHOWN :: u32 where "SYS_CHOWN = 16"
definition SYS_BREAK :: u32 where "SYS_BREAK = 17"
definition SYS_STAT :: u32 where "SYS_STAT = 18"
definition SYS_LSEEK :: u32 where "SYS_LSEEK = 19"
definition SYS_GETPID :: u32 where "SYS_GETPID = 20"
definition SYS_MOUNT :: u32 where "SYS_MOUNT = 21"
definition SYS_UMOUNT :: u32 where "SYS_UMOUNT = 22"
definition SYS_SETUID :: u32 where "SYS_SETUID = 23"
definition SYS_GETUID :: u32 where "SYS_GETUID = 24"
definition SYS_STIME :: u32 where "SYS_STIME = 25"
definition SYS_PTRACE :: u32 where "SYS_PTRACE = 26"
definition SYS_ALARM :: u32 where "SYS_ALARM = 27"
definition SYS_FSTAT :: u32 where "SYS_FSTAT = 28"
definition SYS_PAUSE :: u32 where "SYS_PAUSE = 29"
definition SYS_UTIME :: u32 where "SYS_UTIME = 30"
definition SYS_ACCESS :: u32 where "SYS_ACCESS = 33"
definition SYS_NICE :: u32 where "SYS_NICE = 34"
definition SYS_SYNC :: u32 where "SYS_SYNC = 36"
definition SYS_KILL :: u32 where "SYS_KILL = 37"
definition SYS_RENAME :: u32 where "SYS_RENAME = 38"
definition SYS_MKDIR :: u32 where "SYS_MKDIR = 39"
definition SYS_RMDIR :: u32 where "SYS_RMDIR = 40"
definition SYS_DUP :: u32 where "SYS_DUP = 41"
definition SYS_PIPE :: u32 where "SYS_PIPE = 42"
definition SYS_TIMES :: u32 where "SYS_TIMES = 43"
definition SYS_PROF :: u32 where "SYS_PROF = 44"
definition SYS_BRK :: u32 where "SYS_BRK = 45"
definition SYS_SETGID :: u32 where "SYS_SETGID = 46"
definition SYS_GETGID :: u32 where "SYS_GETGID = 47"
definition SYS_SIGNAL :: u32 where "SYS_SIGNAL = 48"
definition SYS_GETEUID :: u32 where "SYS_GETEUID = 49"
definition SYS_GETEGID :: u32 where "SYS_GETEGID = 50"
definition SYS_ACCT :: u32 where "SYS_ACCT = 51"
definition SYS_UMOUNT2 :: u32 where "SYS_UMOUNT2 = 52"
definition SYS_LOCK :: u32 where "SYS_LOCK = 53"
definition SYS_IOCTL :: u32 where "SYS_IOCTL = 54"
definition SYS_FCNTL :: u32 where "SYS_FCNTL = 55"
definition SYS_MPG :: u32 where "SYS_MPG = 56"
definition SYS_SETSETID :: u32 where "SYS_SETSETID = 57"
definition SYS_XSWAP :: u32 where "SYS_XSWAP = 58"
definition SYS_FHSTAT :: u32 where "SYS_FHSTAT = 59"
definition SYS_SYSLOG :: u32 where "SYS_SYSLOG = 60"
definition SYS_SETITIMER :: u32 where "SYS_SETITIMER = 61"
definition SYS_GETITIMER :: u32 where "SYS_GETITIMER = 62"
definition SYS_STATFS :: u32 where "SYS_STATFS = 63"
definition SYS_GETPRIORITY :: u32 where "SYS_GETPRIORITY = 64"
definition SYS_SETPRIORITY :: u32 where "SYS_SETPRIORITY = 65"
definition SYS_TIMESPEC_GET :: u32 where "SYS_TIMESPEC_GET = 66"
definition SYS_MSGGET :: u32 where "SYS_MSGGET = 67"
definition SYS_MSGSND :: u32 where "SYS_MSGSND = 68"
definition SYS_MSGRCV :: u32 where "SYS_MSGRCV = 69"
definition SYS_MSGCTL :: u32 where "SYS_MSGCTL = 70"
definition SYS_SEMAPHORE :: u32 where "SYS_SEMAPHORE = 71"
definition SYS_SEMOP :: u32 where "SYS_SEMOP = 72"
definition SYS_SHMGET :: u32 where "SYS_SHMGET = 73"
definition SYS_SHMAT :: u32 where "SYS_SHMAT = 74"
definition SYS_SHMDT :: u32 where "SYS_SHMDT = 75"
definition SYS_SHMCTL :: u32 where "SYS_SHMCTL = 76"
definition SYS_SOCKET :: u32 where "SYS_SOCKET = 77"
definition SYS_BIND :: u32 where "SYS_BIND = 78"
definition SYS_CONNECT :: u32 where "SYS_CONNECT = 79"
definition SYS_LISTEN :: u32 where "SYS_LISTEN = 80"
definition SYS_ACCEPT :: u32 where "SYS_ACCEPT = 81"
definition SYS_SEND :: u32 where "SYS_SEND = 82"
definition SYS_RECV :: u32 where "SYS_RECV = 83"
definition SYS_SENDTO :: u32 where "SYS_SENDTO = 84"
definition SYS_RECVFROM :: u32 where "SYS_RECVFROM = 85"
definition SYS_SETSOCKOPT :: u32 where "SYS_SETSOCKOPT = 86"
definition SYS_GETSOCKOPT :: u32 where "SYS_GETSOCKOPT = 87"
definition SYS_SOCKETPAIR :: u32 where "SYS_SOCKETPAIR = 88"
definition SYS_SYSINFO :: u32 where "SYS_SYSINFO = 99"

lemmas SYS_defs =
  SYS_EXIT_def SYS_FORK_def SYS_READ_def SYS_WRITE_def SYS_OPEN_def SYS_CLOSE_def SYS_WAITPID_def
  SYS_CREAT_def SYS_LINK_def SYS_UNLINK_def SYS_EXECVE_def SYS_CHDIR_def SYS_TIME_def SYS_MKNOD_def
  SYS_CHMOD_def SYS_CHOWN_def SYS_BREAK_def SYS_STAT_def SYS_LSEEK_def SYS_GETPID_def SYS_MOUNT_def
  SYS_UMOUNT_def SYS_SETUID_def SYS_GETUID_def SYS_STIME_def SYS_PTRACE_def SYS_ALARM_def SYS_FSTAT_def
  SYS_PAUSE_def SYS_UTIME_def SYS_ACCESS_def SYS_NICE_def SYS_SYNC_def SYS_KILL_def SYS_RENAME_def
  SYS_MKDIR_def SYS_RMDIR_def SYS_DUP_def SYS_PIPE_def SYS_TIMES_def SYS_PROF_def SYS_BRK_def
  SYS_SETGID_def SYS_GETGID_def SYS_SIGNAL_def SYS_GETEUID_def SYS_GETEGID_def SYS_ACCT_def SYS_UMOUNT2_def
  SYS_LOCK_def SYS_IOCTL_def SYS_FCNTL_def SYS_MPG_def SYS_SETSETID_def SYS_XSWAP_def SYS_FHSTAT_def
  SYS_SYSLOG_def SYS_SETITIMER_def SYS_GETITIMER_def SYS_STATFS_def SYS_GETPRIORITY_def SYS_SETPRIORITY_def SYS_TIMESPEC_GET_def
  SYS_MSGGET_def SYS_MSGSND_def SYS_MSGRCV_def SYS_MSGCTL_def SYS_SEMAPHORE_def SYS_SEMOP_def SYS_SHMGET_def
  SYS_SHMAT_def SYS_SHMDT_def SYS_SHMCTL_def SYS_SOCKET_def SYS_BIND_def SYS_CONNECT_def SYS_LISTEN_def
  SYS_ACCEPT_def SYS_SEND_def SYS_RECV_def SYS_SENDTO_def SYS_RECVFROM_def SYS_SETSOCKOPT_def SYS_GETSOCKOPT_def
  SYS_SOCKETPAIR_def SYS_SYSINFO_def

section \<open>Calls that only report an error\<close>

definition ENOSYS :: u32 where "ENOSYS = 38"

definition sys_read :: "u32 \<Rightarrow> u32 \<Rightarrow> u32 \<Rightarrow> u32" where "sys_read fd buf count = - ENOSYS"
definition sys_open :: "u32 \<Rightarrow> u32 \<Rightarrow> u32" where "sys_open pathname flags = - ENOSYS"
definition sys_close :: "u32 \<Rightarrow> u32" where "sys_close fd = - ENOSYS"
definition sys_waitpid :: "u32 \<Rightarrow> u32 \<Rightarrow> u32 \<Rightarrow> u32" where "sys_waitpid a_pid stat_addr options = - ENOSYS"
definition sys_creat :: "u32 \<Rightarrow> u32 \<Rightarrow> u32" where "sys_creat pathname a_mode = - ENOSYS"
definition sys_link :: "u32 \<Rightarrow> u32 \<Rightarrow> u32" where "sys_link oldpath newpath = - ENOSYS"
definition sys_unlink :: "u32 \<Rightarrow> u32" where "sys_unlink pathname = - ENOSYS"
definition sys_execve :: "u32 \<Rightarrow> u32 \<Rightarrow> u32 \<Rightarrow> u32" where "sys_execve filename argv envp = - ENOSYS"
definition sys_chdir :: "u32 \<Rightarrow> u32" where "sys_chdir path = - ENOSYS"
definition sys_time :: "u32 \<Rightarrow> u32" where "sys_time tloc = - ENOSYS"
definition sys_mknod :: "u32 \<Rightarrow> u32 \<Rightarrow> u32 \<Rightarrow> u32" where "sys_mknod filename a_mode dev = - ENOSYS"
definition sys_chmod :: "u32 \<Rightarrow> u32 \<Rightarrow> u32" where "sys_chmod filename a_mode = - ENOSYS"
definition sys_chown :: "u32 \<Rightarrow> u32 \<Rightarrow> u32 \<Rightarrow> u32" where "sys_chown filename user grp = - ENOSYS"
definition sys_break :: "u32 \<Rightarrow> u32" where "sys_break addr = - ENOSYS"
definition sys_stat :: "u32 \<Rightarrow> u32 \<Rightarrow> u32" where "sys_stat filename statbuf = - ENOSYS"
definition sys_lseek :: "u32 \<Rightarrow> u32 \<Rightarrow> u32 \<Rightarrow> u32" where "sys_lseek fd offset whence = - ENOSYS"
definition sys_getpid :: u32 where "sys_getpid = - ENOSYS"
definition sys_mount :: "u32 \<Rightarrow> u32 \<Rightarrow> u32 \<Rightarrow> u32 \<Rightarrow> u32 \<Rightarrow> u32" where "sys_mount dev_name dir_name a_type flags data = - ENOSYS"
definition sys_umount :: "u32 \<Rightarrow> u32" where "sys_umount special_device = - ENOSYS"
definition sys_setuid :: "u32 \<Rightarrow> u32" where "sys_setuid a_uid = - ENOSYS"
definition sys_getuid :: u32 where "sys_getuid = - ENOSYS"
definition sys_stime :: "u32 \<Rightarrow> u32" where "sys_stime tptr = - ENOSYS"
definition sys_ptrace :: "u32 \<Rightarrow> u32 \<Rightarrow> u32 \<Rightarrow> u32 \<Rightarrow> u32" where "sys_ptrace request a_pid addr data = - ENOSYS"
definition sys_alarm :: "u32 \<Rightarrow> u32" where "sys_alarm seconds = - ENOSYS"
definition sys_fstat :: "u32 \<Rightarrow> u32 \<Rightarrow> u32" where "sys_fstat fd statbuf = - ENOSYS"
definition sys_pause :: u32 where "sys_pause = - ENOSYS"
definition sys_utime :: "u32 \<Rightarrow> u32 \<Rightarrow> u32" where "sys_utime filename a_times = - ENOSYS"
definition sys_access :: "u32 \<Rightarrow> u32 \<Rightarrow> u32" where "sys_access filename a_mode = - ENOSYS"
definition sys_nice :: "u32 \<Rightarrow> u32" where "sys_nice inc = - ENOSYS"
definition sys_sync :: u32 where "sys_sync = - ENOSYS"
definition sys_kill :: "u32 \<Rightarrow> u32 \<Rightarrow> u32" where "sys_kill a_pid sig = - ENOSYS"
definition sys_rename :: "u32 \<Rightarrow> u32 \<Rightarrow> u32" where "sys_rename oldname newname = - ENOSYS"
definition sys_mkdir :: "u32 \<Rightarrow> u32 \<Rightarrow> u32" where "sys_mkdir pathname a_mode = - ENOSYS"
definition sys_rmdir :: "u32 \<Rightarrow> u32" where "sys_rmdir pathname = - ENOSYS"
definition sys_dup :: "u32 \<Rightarrow> u32" where "sys_dup fildes = - ENOSYS"
definition sys_pipe :: "u32 \<Rightarrow> u32" where "sys_pipe filedes = - ENOSYS"
definition sys_times :: "u32 \<Rightarrow> u32" where "sys_times buf = - 1"
definition sys_prof :: "u32 \<Rightarrow> u32 \<Rightarrow> u32 \<Rightarrow> u32 \<Rightarrow> u32" where "sys_prof buffer bufsiz offset scale = - 1"
definition sys_brk :: "u32 \<Rightarrow> u32" where "sys_brk addr = - ENOSYS"
definition sys_getgid :: u32 where "sys_getgid = - ENOSYS"
definition sys_setgid :: "u32 \<Rightarrow> u32" where "sys_setgid a_gid = - ENOSYS"
definition sys_signal :: "u32 \<Rightarrow> u32 \<Rightarrow> u32" where "sys_signal sig handler = - ENOSYS"
definition sys_geteuid :: u32 where "sys_geteuid = - ENOSYS"
definition sys_getegid :: u32 where "sys_getegid = - ENOSYS"
definition sys_acct :: "u32 \<Rightarrow> u32" where "sys_acct name = - ENOSYS"
definition sys_umount2 :: "u32 \<Rightarrow> u32 \<Rightarrow> u32" where "sys_umount2 special_device flags = - ENOSYS"
definition sys_lock :: "u32 \<Rightarrow> u32 \<Rightarrow> u32" where "sys_lock cmd flock = - ENOSYS"
definition sys_ioctl :: "u32 \<Rightarrow> u32 \<Rightarrow> u32 \<Rightarrow> u32" where "sys_ioctl fd cmd arg = - ENOSYS"
definition sys_fcntl :: "u32 \<Rightarrow> u32 \<Rightarrow> u32 \<Rightarrow> u32" where "sys_fcntl fd cmd arg = - ENOSYS"
definition sys_mpg :: u32 where "sys_mpg = - ENOSYS"
definition sys_setsetid :: u32 where "sys_setsetid = - ENOSYS"
definition sys_xswap :: u32 where "sys_xswap = - ENOSYS"
definition sys_fhstat :: "u32 \<Rightarrow> u32 \<Rightarrow> u32" where "sys_fhstat filename statbuf = - ENOSYS"
definition sys_syslog :: "u32 \<Rightarrow> u32 \<Rightarrow> u32 \<Rightarrow> u32" where "sys_syslog a_type buf len = - ENOSYS"
definition sys_setitimer :: "u32 \<Rightarrow> u32 \<Rightarrow> u32 \<Rightarrow> u32" where "sys_setitimer which a_value ovalue = - ENOSYS"
definition sys_getitimer :: "u32 \<Rightarrow> u32 \<Rightarrow> u32" where "sys_getitimer which a_value = - ENOSYS"
definition sys_statfs :: "u32 \<Rightarrow> u32 \<Rightarrow> u32" where "sys_statfs path buf = - ENOSYS"
definition sys_getpriority :: "u32 \<Rightarrow> u32 \<Rightarrow> u32" where "sys_getpriority which who = - ENOSYS"
definition sys_setpriority :: "u32 \<Rightarrow> u32 \<Rightarrow> u32 \<Rightarrow> u32" where "sys_setpriority which who prio = - ENOSYS"
definition sys_timespec_get :: "u32 \<Rightarrow> u32 \<Rightarrow> u32" where "sys_timespec_get ts a_base = - ENOSYS"
definition sys_semget :: "u32 \<Rightarrow> u32 \<Rightarrow> u32 \<Rightarrow> u32" where "sys_semget key nsems semflg = - ENOSYS"
definition sys_semop :: "u32 \<Rightarrow> u32 \<Rightarrow> u32 \<Rightarrow> u32" where "sys_semop semid sops nsops = - ENOSYS"
definition sys_shmget :: "u32 \<Rightarrow> u32 \<Rightarrow> u32 \<Rightarrow> u32" where "sys_shmget key a_size shmflg = - ENOSYS"
definition sys_shmat :: "u32 \<Rightarrow> u32 \<Rightarrow> u32 \<Rightarrow> u32" where "sys_shmat shmid shmaddr shmflg = - 1"
definition sys_shmdt :: "u32 \<Rightarrow> u32" where "sys_shmdt shmaddr = - ENOSYS"
definition sys_shmctl :: "u32 \<Rightarrow> u32 \<Rightarrow> u32 \<Rightarrow> u32" where "sys_shmctl shmid cmd buf = - ENOSYS"
definition sys_socket :: "u32 \<Rightarrow> u32 \<Rightarrow> u32 \<Rightarrow> u32" where "sys_socket domain a_type protocol = - ENOSYS"
definition sys_bind :: "u32 \<Rightarrow> u32 \<Rightarrow> u32 \<Rightarrow> u32" where "sys_bind sockfd addr addrlen = - ENOSYS"
definition sys_connect :: "u32 \<Rightarrow> u32 \<Rightarrow> u32 \<Rightarrow> u32" where "sys_connect sockfd addr addrlen = - ENOSYS"
definition sys_listen :: "u32 \<Rightarrow> u32 \<Rightarrow> u32" where "sys_listen sockfd backlog = - ENOSYS"
definition sys_accept :: "u32 \<Rightarrow> u32 \<Rightarrow> u32 \<Rightarrow> u32" where "sys_accept sockfd addr addrlen = - ENOSYS"
definition sys_send :: "u32 \<Rightarrow> u32 \<Rightarrow> u32 \<Rightarrow> u32 \<Rightarrow> u32" where "sys_send sockfd buf len flags = - ENOSYS"
definition sys_recv :: "u32 \<Rightarrow> u32 \<Rightarrow> u32 \<Rightarrow> u32 \<Rightarrow> u32" where "sys_recv sockfd buf len flags = - ENOSYS"
definition sys_sendto :: "u32 \<Rightarrow> u32 \<Rightarrow> u32 \<Rightarrow> u32 \<Rightarrow> u32 \<Rightarrow> u32 \<Rightarrow> u32" where "sys_sendto sockfd buf len flags dest_addr addrlen = - ENOSYS"
definition sys_recvfrom :: "u32 \<Rightarrow> u32 \<Rightarrow> u32 \<Rightarrow> u32 \<Rightarrow> u32 \<Rightarrow> u32 \<Rightarrow> u32" where "sys_recvfrom sockfd buf len flags src_addr addrlen = - ENOSYS"
definition sys_setsockopt :: "u32 \<Rightarrow> u32 \<Rightarrow> u32 \<Rightarrow> u32 \<Rightarrow> u32 \<Rightarrow> u32" where "sys_setsockopt sockfd level optname optval optlen = - ENOSYS"
definition sys_getsockopt :: "u32 \<Rightarrow> u32 \<Rightarrow> u32 \<Rightarrow> u32 \<Rightarrow> u32 \<Rightarrow> u32" where "sys_getsockopt sockfd level optname optval optlen = - ENOSYS"
definition sys_socketpair :: "u32 \<Rightarrow> u32 \<Rightarrow> u32 \<Rightarrow> u32 \<Rightarrow> u32" where "sys_socketpair d a_type protocol sv = - ENOSYS"
definition sys_sysinfo :: "u32 \<Rightarrow> u32" where "sys_sysinfo info = - ENOSYS"

lemmas stub_defs =
  sys_read_def sys_open_def sys_close_def sys_waitpid_def sys_creat_def sys_link_def sys_unlink_def
  sys_execve_def sys_chdir_def sys_time_def sys_mknod_def sys_chmod_def sys_chown_def sys_break_def
  sys_stat_def sys_lseek_def sys_getpid_def sys_mount_def sys_umount_def sys_setuid_def sys_getuid_def
  sys_stime_def sys_ptrace_def sys_alarm_def sys_fstat_def sys_pause_def sys_utime_def sys_access_def
  sys_nice_def sys_sync_def sys_kill_def sys_rename_def sys_mkdir_def sys_rmdir_def sys_dup_def
  sys_pipe_def sys_times_def sys_prof_def sys_brk_def sys_getgid_def sys_setgid_def sys_signal_def
  sys_geteuid_def sys_getegid_def sys_acct_def sys_umount2_def sys_lock_def sys_ioctl_def sys_fcntl_def
  sys_mpg_def sys_setsetid_def sys_xswap_def sys_fhstat_def sys_syslog_def sys_setitimer_def sys_getitimer_def
  sys_statfs_def sys_getpriority_def sys_setpriority_def sys_timespec_get_def sys_semget_def sys_semop_def sys_shmget_def
  sys_shmat_def sys_shmdt_def sys_shmctl_def sys_socket_def sys_bind_def sys_connect_def sys_listen_def
  sys_accept_def sys_send_def sys_recv_def sys_sendto_def sys_recvfrom_def sys_setsockopt_def sys_getsockopt_def
  sys_socketpair_def sys_sysinfo_def

end
