(* ===== verification/Syscall.thy ===== *)
theory Syscall
  imports Hal Msg SyscallTable
begin

text \<open>
  The system calls, \<^verbatim>\<open>kernel/syscall.c\<close>: the calls that do something, the dispatcher, and the entry stub
  (\<^verbatim>\<open>kernel/interrupt/syscall_stub.asm\<close>). The state gains the message queues. The caller's pointers are virtual addresses;
  an access the processor cannot translate is a page fault, which ends in \<open>exception_handler\<close> and never returns
  to the caller, so the call has the value \<open>None\<close>, as has a serial line that never accepts a byte.
\<close>

section \<open>The caller's memory\<close>

record kernel_state = irq_state +
  msgs :: msg_state

definition readable :: "u32 \<Rightarrow> nat \<Rightarrow> 'a vmm_state_scheme \<Rightarrow> bool" where
  "readable a n s \<longleftrightarrow> (\<forall>i<n. phys_addr s (a + of_nat i) \<noteq> None)"

definition user_bytes :: "u32 \<Rightarrow> nat \<Rightarrow> 'a vmm_state_scheme \<Rightarrow> u8 list" where
  "user_bytes a n s = map (\<lambda>i. view s (a + of_nat i)) [0..<n]"

definition user_write :: "u32 \<Rightarrow> u8 list \<Rightarrow> 'a vmm_state_scheme \<Rightarrow> 'a vmm_state_scheme option" where
  "user_write a bs s = for_opt 0 (length bs) (\<lambda>i. vstore8 (a + of_nat i) (bs ! i)) s"

section \<open>Calls\<close>

text \<open>A call returns a value to its caller, or it never returns and leaves the processor waiting in a loop of
  \<open>hlt\<close> instructions.\<close>

datatype 's sysret = Returns u32 's | Parks 's

text \<open>A call with no current process is left out of the model of \<open>sys_fork\<close>: the code then reads the parent at the address 0, which is mapped, and
  goes on with the bytes it finds there.\<close>

definition sys_fork :: "'a kernel_state_scheme \<Rightarrow> 'a kernel_state_scheme sysret option" where
  "sys_fork s =
     (case scheduler_get_current_process s of
        None \<Rightarrow> None
      | Some parent \<Rightarrow>
          (case scheduler_fork_process parent s of
             (None, t) \<Rightarrow> Some (Returns (- 1) t)
           | (Some child, t) \<Rightarrow> Some (Returns (pid (procs t child)) t)))"

definition sys_write :: "u32 \<Rightarrow> u32 \<Rightarrow> u32 \<Rightarrow> 'a kernel_state_scheme \<Rightarrow> 'a kernel_state_scheme sysret option" where
  "sys_write fd buf count s =
     (if fd = 1
      then (if readable buf (unat count) s
            then do { t \<leftarrow> hal_serial_write (user_bytes buf (unat count) s) (unat count) s; Some (Returns count t) }
            else None)
      else Some (Returns (- 9) s))"

definition sys_exit :: "u32 \<Rightarrow> 'a kernel_state_scheme \<Rightarrow> 'a kernel_state_scheme sysret option" where
  "sys_exit status s = do {
     s1 \<leftarrow> hal_serial_write (line_bytes ''System exit called'') 19 s;
     let s2 = (case scheduler_get_current_process s1 of
                 None \<Rightarrow> s1
               | Some proc \<Rightarrow> scheduler_destroy_process proc (upd_proc proc (\<lambda>p. p\<lparr>proc_state := PROCESS_STATE_TERMINATED\<rparr>) s1));
     Some (Parks (scheduler_yield s2))
   }"

text \<open>The message calls of the dispatcher: the message comes from or goes to the caller's memory, and \<open>cli\<close> and
  \<open>sti\<close> act on the interrupt flag of the processor.\<close>

definition call_msgget :: "u32 \<Rightarrow> u32 \<Rightarrow> 'a kernel_state_scheme \<Rightarrow> 'a kernel_state_scheme sysret option" where
  "call_msgget key msgflg s = (case sys_msgget key msgflg (msgs s) of (v, ms) \<Rightarrow> Some (Returns (of_int v) (s\<lparr>msgs := ms\<rparr>)))"

definition user_msg :: "u32 \<Rightarrow> nat \<Rightarrow> 'a vmm_state_scheme \<Rightarrow> msg" where
  "user_msg msgp n s = \<lparr>mtype = load32 (view s) msgp, mtext = user_bytes (msgp + 4) n s\<rparr>"

definition call_msgsnd :: "u32 \<Rightarrow> u32 \<Rightarrow> u32 \<Rightarrow> u32 \<Rightarrow> 'a kernel_state_scheme \<Rightarrow> 'a kernel_state_scheme sysret option" where
  "call_msgsnd msqid msgp msgsz msgflg s =
     (case sys_msgsnd (sint msqid) (user_msg msgp (unat msgsz) s) msgsz msgflg ((msgs s)\<lparr>interrupts_enabled := interrupt_flag s\<rparr>) of
        (v, ms) \<Rightarrow>
          if v = 0 \<and> \<not> readable msgp (4 + unat msgsz) s then None
          else Some (Returns (of_int v) ((if interrupts_enabled ms then sti s else cli s)\<lparr>msgs := ms\<rparr>)))"

definition call_msgrcv :: "u32 \<Rightarrow> u32 \<Rightarrow> u32 \<Rightarrow> u32 \<Rightarrow> u32 \<Rightarrow> 'a kernel_state_scheme \<Rightarrow> 'a kernel_state_scheme sysret option" where
  "call_msgrcv msqid msgp msgsz msgtyp msgflg s =
     (case sys_msgrcv (sint msqid) msgsz msgtyp msgflg (msgs s) of
        (v, None, ms) \<Rightarrow> Some (Returns (of_int v) (s\<lparr>msgs := ms\<rparr>))
      | (v, Some text, ms) \<Rightarrow> do { t \<leftarrow> user_write msgp text s; Some (Returns (of_int v) (t\<lparr>msgs := ms\<rparr>)) })"

text \<open>\<open>IPC_STAT\<close> writes the fields the code sets, at their offsets in \<open>struct msqid_ds\<close>.\<close>

definition half_bytes :: "u16 \<Rightarrow> u8 list" where
  "half_bytes v = [ucast v, ucast (drop_bit 8 v)]"

definition store_msqid_ds :: "u32 \<Rightarrow> msqid_ds \<Rightarrow> 'a vmm_state_scheme \<Rightarrow> 'a vmm_state_scheme option" where
  "store_msqid_ds buf ds s = do {
     let p = msg_perm ds;
     s1 \<leftarrow> user_write buf (concat (map half_bytes [uid p, gid p, cuid p, cgid p, mode p, seq p])) s;
     s2 \<leftarrow> vstore32 (buf + 40) (msg_stime ds) s1;
     s3 \<leftarrow> vstore32 (buf + 44) (msg_rtime ds) s2;
     s4 \<leftarrow> vstore32 (buf + 48) (msg_ctime ds) s3;
     s5 \<leftarrow> vstore32 (buf + 24) (msg_qnum ds) s4;
     vstore32 (buf + 28) (msg_qbytes ds) s5
   }"

definition empty_msqid_ds :: msqid_ds where
  "empty_msqid_ds = \<lparr>msg_perm = \<lparr>uid = 0, gid = 0, cuid = 0, cgid = 0, mode = 0, seq = 0\<rparr>, msg_first = 0, msg_last = 0,
     msg_cbytes = 0, msg_qnum = 0, msg_qbytes = 0, msg_lspid = 0, msg_lrpid = 0, msg_stime = 0, msg_rtime = 0, msg_ctime = 0\<rparr>"

definition call_msgctl :: "u32 \<Rightarrow> u32 \<Rightarrow> u32 \<Rightarrow> 'a kernel_state_scheme \<Rightarrow> 'a kernel_state_scheme sysret option" where
  "call_msgctl msqid cmd buf s =
     (case sys_msgctl (sint msqid) (sint cmd) (if buf = 0 then None else Some empty_msqid_ds) (msgs s) of
        (v, ds, ms) \<Rightarrow>
          if sint cmd = IPC_STAT \<and> v = 0
          then do { t \<leftarrow> store_msqid_ds buf (the ds) s; Some (Returns (of_int v) (t\<lparr>msgs := ms\<rparr>)) }
          else Some (Returns (of_int v) (s\<lparr>msgs := ms\<rparr>)))"

section \<open>Dispatch\<close>

text \<open>The cases of the switch statement in their order, in two parts.\<close>

definition dispatch_rest :: "registers_t \<Rightarrow> 'a kernel_state_scheme \<Rightarrow> 'a kernel_state_scheme sysret option" where
  "dispatch_rest r s =
     (let n = r_eax r
      in if n = SYS_ACCT then Some (Returns (sys_acct (r_ebx r)) s)
      else if n = SYS_UMOUNT2 then Some (Returns (sys_umount2 (r_ebx r) (r_ecx r)) s)
      else if n = SYS_LOCK then Some (Returns (sys_lock (r_ebx r) (r_ecx r)) s)
      else if n = SYS_IOCTL then Some (Returns (sys_ioctl (r_ebx r) (r_ecx r) (r_edx r)) s)
      else if n = SYS_FCNTL then Some (Returns (sys_fcntl (r_ebx r) (r_ecx r) (r_edx r)) s)
      else if n = SYS_MPG then Some (Returns (sys_mpg) s)
      else if n = SYS_SETSETID then Some (Returns (sys_setsetid) s)
      else if n = SYS_XSWAP then Some (Returns (sys_xswap) s)
      else if n = SYS_FHSTAT then Some (Returns (sys_fhstat (r_ebx r) (r_ecx r)) s)
      else if n = SYS_SYSLOG then Some (Returns (sys_syslog (r_ebx r) (r_ecx r) (r_edx r)) s)
      else if n = SYS_SETITIMER then Some (Returns (sys_setitimer (r_ebx r) (r_ecx r) (r_edx r)) s)
      else if n = SYS_GETITIMER then Some (Returns (sys_getitimer (r_ebx r) (r_ecx r)) s)
      else if n = SYS_STATFS then Some (Returns (sys_statfs (r_ebx r) (r_ecx r)) s)
      else if n = SYS_GETPRIORITY then Some (Returns (sys_getpriority (r_ebx r) (r_ecx r)) s)
      else if n = SYS_SETPRIORITY then Some (Returns (sys_setpriority (r_ebx r) (r_ecx r) (r_edx r)) s)
      else if n = SYS_TIMESPEC_GET then Some (Returns (sys_timespec_get (r_ebx r) (r_ecx r)) s)
      else if n = SYS_MSGGET then call_msgget (r_ebx r) (r_ecx r) s
      else if n = SYS_MSGSND then call_msgsnd (r_ebx r) (r_ecx r) (r_edx r) (r_esi r) s
      else if n = SYS_MSGRCV then call_msgrcv (r_ebx r) (r_ecx r) (r_edx r) (r_esi r) (r_edi r) s
      else if n = SYS_MSGCTL then call_msgctl (r_ebx r) (r_ecx r) (r_edx r) s
      else if n = SYS_SEMAPHORE then Some (Returns (sys_semget (r_ebx r) (r_ecx r) (r_edx r)) s)
      else if n = SYS_SEMOP then Some (Returns (sys_semop (r_ebx r) (r_ecx r) (r_edx r)) s)
      else if n = SYS_SHMGET then Some (Returns (sys_shmget (r_ebx r) (r_ecx r) (r_edx r)) s)
      else if n = SYS_SHMAT then Some (Returns (sys_shmat (r_ebx r) (r_ecx r) (r_edx r)) s)
      else if n = SYS_SHMDT then Some (Returns (sys_shmdt (r_ebx r)) s)
      else if n = SYS_SHMCTL then Some (Returns (sys_shmctl (r_ebx r) (r_ecx r) (r_edx r)) s)
      else if n = SYS_SOCKET then Some (Returns (sys_socket (r_ebx r) (r_ecx r) (r_edx r)) s)
      else if n = SYS_BIND then Some (Returns (sys_bind (r_ebx r) (r_ecx r) (r_edx r)) s)
      else if n = SYS_CONNECT then Some (Returns (sys_connect (r_ebx r) (r_ecx r) (r_edx r)) s)
      else if n = SYS_LISTEN then Some (Returns (sys_listen (r_ebx r) (r_ecx r)) s)
      else if n = SYS_ACCEPT then Some (Returns (sys_accept (r_ebx r) (r_ecx r) (r_edx r)) s)
      else if n = SYS_SEND then Some (Returns (sys_send (r_ebx r) (r_ecx r) (r_edx r) (r_esi r)) s)
      else if n = SYS_RECV then Some (Returns (sys_recv (r_ebx r) (r_ecx r) (r_edx r) (r_esi r)) s)
      else if n = SYS_SENDTO then Some (Returns (sys_sendto (r_ebx r) (r_ecx r) (r_edx r) (r_esi r) (r_edi r) 0) s)
      else if n = SYS_RECVFROM then Some (Returns (sys_recvfrom (r_ebx r) (r_ecx r) (r_edx r) (r_esi r) (r_edi r) 0) s)
      else if n = SYS_SETSOCKOPT then Some (Returns (sys_setsockopt (r_ebx r) (r_ecx r) (r_edx r) (r_esi r) (r_edi r)) s)
      else if n = SYS_GETSOCKOPT then Some (Returns (sys_getsockopt (r_ebx r) (r_ecx r) (r_edx r) (r_esi r) (r_edi r)) s)
      else if n = SYS_SOCKETPAIR then Some (Returns (sys_socketpair (r_ebx r) (r_ecx r) (r_edx r) (r_esi r)) s)
      else if n = SYS_SYSINFO then Some (Returns (sys_sysinfo (r_ebx r)) s)
      else Some (Returns (- 38) s))"

definition syscall_dispatch :: "registers_t \<Rightarrow> 'a kernel_state_scheme \<Rightarrow> 'a kernel_state_scheme sysret option" where
  "syscall_dispatch r s =
     (let n = r_eax r
      in if n = SYS_EXIT then sys_exit (r_ebx r) s
      else if n = SYS_FORK then sys_fork s
      else if n = SYS_READ then Some (Returns (sys_read (r_ebx r) (r_ecx r) (r_edx r)) s)
      else if n = SYS_WRITE then sys_write (r_ebx r) (r_ecx r) (r_edx r) s
      else if n = SYS_OPEN then Some (Returns (sys_open (r_ebx r) (r_ecx r)) s)
      else if n = SYS_CLOSE then Some (Returns (sys_close (r_ebx r)) s)
      else if n = SYS_WAITPID then Some (Returns (sys_waitpid (r_ebx r) (r_ecx r) (r_edx r)) s)
      else if n = SYS_CREAT then Some (Returns (sys_creat (r_ebx r) (r_ecx r)) s)
      else if n = SYS_LINK then Some (Returns (sys_link (r_ebx r) (r_ecx r)) s)
      else if n = SYS_UNLINK then Some (Returns (sys_unlink (r_ebx r)) s)
      else if n = SYS_EXECVE then Some (Returns (sys_execve (r_ebx r) (r_ecx r) (r_edx r)) s)
      else if n = SYS_CHDIR then Some (Returns (sys_chdir (r_ebx r)) s)
      else if n = SYS_TIME then Some (Returns (sys_time (r_ebx r)) s)
      else if n = SYS_MKNOD then Some (Returns (sys_mknod (r_ebx r) (r_ecx r) (r_edx r)) s)
      else if n = SYS_CHMOD then Some (Returns (sys_chmod (r_ebx r) (r_ecx r)) s)
      else if n = SYS_CHOWN then Some (Returns (sys_chown (r_ebx r) (r_ecx r) (r_edx r)) s)
      else if n = SYS_BREAK then Some (Returns (sys_break (r_ebx r)) s)
      else if n = SYS_STAT then Some (Returns (sys_stat (r_ebx r) (r_ecx r)) s)
      else if n = SYS_LSEEK then Some (Returns (sys_lseek (r_ebx r) (r_ecx r) (r_edx r)) s)
      else if n = SYS_GETPID then Some (Returns (sys_getpid) s)
      else if n = SYS_MOUNT then Some (Returns (sys_mount (r_ebx r) (r_ecx r) (r_edx r) (r_esi r) (r_edi r)) s)
      else if n = SYS_UMOUNT then Some (Returns (sys_umount (r_ebx r)) s)
      else if n = SYS_SETUID then Some (Returns (sys_setuid (r_ebx r)) s)
      else if n = SYS_GETUID then Some (Returns (sys_getuid) s)
      else if n = SYS_STIME then Some (Returns (sys_stime (r_ebx r)) s)
      else if n = SYS_PTRACE then Some (Returns (sys_ptrace (r_ebx r) (r_ecx r) (r_edx r) (r_esi r)) s)
      else if n = SYS_ALARM then Some (Returns (sys_alarm (r_ebx r)) s)
      else if n = SYS_FSTAT then Some (Returns (sys_fstat (r_ebx r) (r_ecx r)) s)
      else if n = SYS_PAUSE then Some (Returns (sys_pause) s)
      else if n = SYS_UTIME then Some (Returns (sys_utime (r_ebx r) (r_ecx r)) s)
      else if n = SYS_ACCESS then Some (Returns (sys_access (r_ebx r) (r_ecx r)) s)
      else if n = SYS_NICE then Some (Returns (sys_nice (r_ebx r)) s)
      else if n = SYS_SYNC then Some (Returns (sys_sync) s)
      else if n = SYS_KILL then Some (Returns (sys_kill (r_ebx r) (r_ecx r)) s)
      else if n = SYS_RENAME then Some (Returns (sys_rename (r_ebx r) (r_ecx r)) s)
      else if n = SYS_MKDIR then Some (Returns (sys_mkdir (r_ebx r) (r_ecx r)) s)
      else if n = SYS_RMDIR then Some (Returns (sys_rmdir (r_ebx r)) s)
      else if n = SYS_DUP then Some (Returns (sys_dup (r_ebx r)) s)
      else if n = SYS_PIPE then Some (Returns (sys_pipe (r_ebx r)) s)
      else if n = SYS_TIMES then Some (Returns (sys_times (r_ebx r)) s)
      else if n = SYS_PROF then Some (Returns (sys_prof (r_ebx r) (r_ecx r) (r_edx r) (r_esi r)) s)
      else if n = SYS_BRK then Some (Returns (sys_brk (r_ebx r)) s)
      else if n = SYS_SETGID then Some (Returns (sys_setgid (r_ebx r)) s)
      else if n = SYS_GETGID then Some (Returns (sys_getgid) s)
      else if n = SYS_SIGNAL then Some (Returns (sys_signal (r_ebx r) (r_ecx r)) s)
      else if n = SYS_GETEUID then Some (Returns (sys_geteuid) s)
      else if n = SYS_GETEGID then Some (Returns (sys_getegid) s)
      else dispatch_rest r s)"

text \<open>The handler puts the value of the call into the saved \<open>EAX\<close>.\<close>

definition syscall_handler ::
    "registers_t \<Rightarrow> 'a kernel_state_scheme \<Rightarrow> (registers_t \<times> 'a kernel_state_scheme + 'a kernel_state_scheme) option" where
  "syscall_handler r s =
     map_option (\<lambda>res. case res of Returns v t \<Rightarrow> Inl (r\<lparr>r_eax := v\<rparr>, t) | Parks t \<Rightarrow> Inr t) (syscall_dispatch r s)"

definition syscall_init :: "'a kernel_state_scheme \<Rightarrow> 'a kernel_state_scheme" where
  "syscall_init s = s"

text \<open>The stub saves the registers, reports on the serial line before and after the handler, and returns to the caller with the
  saved registers, of which the handler changed \<open>EAX\<close>.\<close>

definition syscall_stub ::
    "registers_t \<Rightarrow> 'a kernel_state_scheme \<Rightarrow> (registers_t \<times> 'a kernel_state_scheme + 'a kernel_state_scheme) option" where
  "syscall_stub r s = do {
     s1 \<leftarrow> hal_serial_write (str_bytes ''A'' @ [0]) 1 s;
     res \<leftarrow> syscall_handler r s1;
     case res of
       Inl (r', s2) \<Rightarrow> do { s3 \<leftarrow> hal_serial_write (str_bytes ''C'' @ [0]) 1 s2; Some (Inl (r', s3)) }
     | Inr s2 \<Rightarrow> Some (Inr s2)
   }"

section \<open>Calls without an implementation\<close>

lemma syscall_dispatch_stubs:
  assumes "r_eax r \<notin> {SYS_EXIT, SYS_FORK, SYS_WRITE, SYS_MSGGET, SYS_MSGSND, SYS_MSGRCV, SYS_MSGCTL}"
  shows "syscall_dispatch r s = Some (Returns (if r_eax r \<in> {SYS_TIMES, SYS_PROF, SYS_SHMAT} then - 1 else - 38) s)"
  using assms by (simp add: syscall_dispatch_def dispatch_rest_def stub_defs ENOSYS_def SYS_defs Let_def cong: if_cong)

text \<open>
  C35: The dispatcher is the table it is meant to be: every number other than those of the seven implemented calls, in range or not, is answered with
  the error \<open>-ENOSYS\<close>, or \<open>-1\<close> for the three calls whose error value is a pointer or a count, and
  with no other effect.
\<close>

theorem syscall_handler_unimplemented:
  assumes "r_eax r \<notin> {SYS_EXIT, SYS_FORK, SYS_WRITE, SYS_MSGGET, SYS_MSGSND, SYS_MSGRCV, SYS_MSGCTL}"
  shows "syscall_handler r s = Some (Inl (r\<lparr>r_eax := if r_eax r \<in> {SYS_TIMES, SYS_PROF, SYS_SHMAT} then - 1 else - 38\<rparr>, s))"
  using syscall_dispatch_stubs [OF assms, of s] by (simp add: syscall_handler_def)

lemma syscall_dispatch_calls:
  "r_eax r = SYS_EXIT \<Longrightarrow> syscall_dispatch r s = sys_exit (r_ebx r) s"
  "r_eax r = SYS_FORK \<Longrightarrow> syscall_dispatch r s = sys_fork s"
  "r_eax r = SYS_WRITE \<Longrightarrow> syscall_dispatch r s = sys_write (r_ebx r) (r_ecx r) (r_edx r) s"
  "r_eax r = SYS_MSGGET \<Longrightarrow> syscall_dispatch r s = call_msgget (r_ebx r) (r_ecx r) s"
  "r_eax r = SYS_MSGSND \<Longrightarrow> syscall_dispatch r s = call_msgsnd (r_ebx r) (r_ecx r) (r_edx r) (r_esi r) s"
  "r_eax r = SYS_MSGRCV \<Longrightarrow> syscall_dispatch r s = call_msgrcv (r_ebx r) (r_ecx r) (r_edx r) (r_esi r) (r_edi r) s"
  "r_eax r = SYS_MSGCTL \<Longrightarrow> syscall_dispatch r s = call_msgctl (r_ebx r) (r_ecx r) (r_edx r) s"
  by (simp_all add: syscall_dispatch_def dispatch_rest_def SYS_defs Let_def)

section \<open>Writing\<close>

lemma user_memory_log [simp]:
  "readable a n (s\<lparr>io_log := l\<rparr>) = readable a n s" "user_bytes a n (s\<lparr>io_log := l\<rparr>) = user_bytes a n s"
proof -
  have p: "phys_addr (s\<lparr>io_log := l\<rparr>) va = phys_addr s va" for va
    by (simp add: phys_addr_def walk_in_def entry_get_def Let_def)
  show "readable a n (s\<lparr>io_log := l\<rparr>) = readable a n s" "user_bytes a n (s\<lparr>io_log := l\<rparr>) = user_bytes a n s"
    by (simp_all add: readable_def user_bytes_def view_def p split: option.splits)
qed

lemma syscall_stub_write:
  assumes "thr_answers (device s)" and "r_eax r = SYS_WRITE" and "r_ebx r = 1" and "readable (r_ecx r) (unat (r_edx r)) s"
  shows "\<exists>new. syscall_stub r s = Some (Inl (r\<lparr>r_eax := r_edx r\<rparr>, s\<lparr>io_log := io_log s @ new\<rparr>)) \<and>
    outs 0x3F8 new = str_bytes ''A'' @ user_bytes (r_ecx r) (unat (r_edx r)) s @ str_bytes ''C''"
proof -
  let ?b = "user_bytes (r_ecx r) (unat (r_edx r)) s"
  obtain x where x: "hal_serial_write (str_bytes ''A'' @ [0]) 1 s = Some (s\<lparr>io_log := io_log s @ x\<rparr>)" "outs 0x3F8 x = str_bytes ''A''"
    using hal_serial_write_returns [OF assms(1), of 1 "str_bytes ''A'' @ [0]"] by (auto simp: str_bytes_def)
  let ?s1 = "s\<lparr>io_log := io_log s @ x\<rparr>"
  obtain y where y: "hal_serial_write ?b (unat (r_edx r)) ?s1 = Some (s\<lparr>io_log := io_log s @ x @ y\<rparr>)" "outs 0x3F8 y = ?b"
    using hal_serial_write_returns [of ?s1 "unat (r_edx r)" ?b] assms(1) by (auto simp: user_bytes_def)
  let ?s2 = "s\<lparr>io_log := io_log s @ x @ y\<rparr>"
  obtain z where z: "hal_serial_write (str_bytes ''C'' @ [0]) 1 ?s2 = Some (s\<lparr>io_log := io_log s @ x @ y @ z\<rparr>)" "outs 0x3F8 z = str_bytes ''C''"
    using hal_serial_write_returns [of ?s2 1 "str_bytes ''C'' @ [0]"] assms(1) by (auto simp: str_bytes_def)
  have "syscall_dispatch r ?s1 = Some (Returns (r_edx r) ?s2)"
    using syscall_dispatch_calls(3) [OF assms(2), of ?s1] assms(3,4) y(1) by (simp add: sys_write_def)
  then have "syscall_stub r s = Some (Inl (r\<lparr>r_eax := r_edx r\<rparr>, s\<lparr>io_log := io_log s @ (x @ y @ z)\<rparr>))"
    using x(1) z(1) by (simp add: syscall_stub_def syscall_handler_def)
  moreover have "outs 0x3F8 (x @ y @ z) = str_bytes ''A'' @ ?b @ str_bytes ''C''" using x(2) y(2) z(2) by simp
  ultimately show ?thesis by blast
qed

text \<open>
  C18: The write system call, from the stub to the wire. On a serial line that keeps accepting bytes, a call of \<open>SYS_WRITE\<close> on descriptor 1 with a
  buffer the processor can read sends the mark \<open>A\<close>, exactly the bytes of the buffer and the mark \<open>C\<close>, and returns the count; all
  other registers and the rest of the state are unchanged.
\<close>

theorem sys_write_correct:
  assumes "thr_answers (device s)" and "r_eax r = SYS_WRITE" and "r_ebx r = 1" and "readable (r_ecx r) (unat (r_edx r)) s"
  shows "\<exists>new. syscall_stub r s = Some (Inl (r\<lparr>r_eax := r_edx r\<rparr>, s\<lparr>io_log := io_log s @ new\<rparr>)) \<and>
    outs 0x3F8 new = str_bytes ''A'' @ user_bytes (r_ecx r) (unat (r_edx r)) s @ str_bytes ''C''"
  using assms by (rule syscall_stub_write)

section \<open>Processes\<close>

text \<open>
  C19: The exit system call. A process other than the idle process that calls \<open>sys_exit\<close> never returns from it: its
  control block is terminated and the first of the free list, no process is current, the ready queues and the sleep list
  are as before and the scheduler's invariant holds.
\<close>

theorem sys_exit_correct:
  assumes "sched_ok s" and "current_process s = Some c" and "c \<noteq> Idle" and "thr_answers (device s)"
  shows "\<exists>t. sys_exit status s = Some (Parks t) \<and> sched_ok t \<and> free_procs t = c # free_procs s \<and>
    (\<forall>p. ready_list p t = ready_list p s) \<and> sleepers t = sleepers s \<and> current_process t = None \<and> state_of t c = PROCESS_STATE_TERMINATED"
proof -
  have "length (line_bytes ''System exit called'') = 19" by (simp add: line_bytes_def)
  then obtain x where x: "hal_serial_write (line_bytes ''System exit called'') 19 s = Some (s\<lparr>io_log := io_log s @ x\<rparr>)"
    using hal_serial_write_returns [OF assms(4), of 19 "line_bytes ''System exit called''"] by auto
  let ?s = "s\<lparr>io_log := io_log s @ x\<rparr>"
  let ?t = "scheduler_yield (scheduler_destroy_process c (upd_proc c (\<lambda>p. p\<lparr>proc_state := PROCESS_STATE_TERMINATED\<rparr>) ?s))"
  have "sched_ok ?s" using assms(1) by simp
  then have "sched_inv ?s (free_procs ?s) (\<lambda>p. ready_list p ?s) (sleepers ?s)" unfolding sched_ok_def .
  then have inv: "sched_inv ?t (c # free_procs ?s) (\<lambda>p. ready_list p ?s) (sleepers ?s)" by (rule exit_inv) (simp_all add: assms)
  note l = sched_inv_lists [OF inv]
  have "sys_exit status s = Some (Parks ?t)"
    using x assms(2) by (simp add: sys_exit_def scheduler_get_current_process_def)
  moreover have "free_procs ?s = free_procs s" "sleepers ?s = sleepers s" "\<And>p. ready_list p ?s = ready_list p s"
    by (simp_all add: free_procs_def sleepers_def ready_list_def)
  moreover have "current_process ?t = None" "state_of ?t c = PROCESS_STATE_TERMINATED"
    using assms(2,3) by (simp_all add: scheduler_yield_def scheduler_destroy_process_def release_process_def upd_proc_def)
  ultimately show ?thesis using l by (intro exI [of _ ?t]) simp
qed

text \<open>The idle process is not protected: after it called \<open>sys_exit\<close> the next process created gets its control block.\<close>

lemma sys_exit_idle:
  assumes "current_process s = Some Idle" and "sys_exit status s = Some (Parks t)"
  shows "fst (allocate_process t) = Some Idle"
proof -
  obtain x where x: "hal_serial_write (line_bytes ''System exit called'') 19 s = Some x"
    and t: "t = scheduler_yield (case scheduler_get_current_process x of None \<Rightarrow> x
      | Some proc \<Rightarrow> scheduler_destroy_process proc (upd_proc proc (\<lambda>p. p\<lparr>proc_state := PROCESS_STATE_TERMINATED\<rparr>) x))"
    using assms(2) by (auto simp: sys_exit_def bind_eq_Some_conv)
  have "current_process x = Some Idle" using touches_serial_write [OF x] assms(1) by (auto simp: touches_def)
  then show ?thesis
    by (simp add: t scheduler_get_current_process_def scheduler_yield_def scheduler_destroy_process_def release_process_def upd_proc_def allocate_process_def)
qed

text \<open>
  C20: The fork system call. With a free control block and two free frames, \<open>sys_fork\<close> returns the identifier of a new ready process at the end
  of the queue of the caller's priority. The child has the caller's name, priority, entry point and argument, an address
  space of its own that maps the first 80 MB, and a stack that makes it start at the entry point: nothing of the caller's
  stack or progress is copied. Without a free control block the call returns -1 and changes nothing.
\<close>

theorem sys_fork_correct:
  assumes "sched_ok s" and "current_process s = Some c" and "kernel_space s"
    and "a \<in> free_frames (pmm s)" and "b \<in> free_frames (pmm s)" and "a \<noteq> b"
  shows "case free_procs s of
      [] \<Rightarrow> sys_fork s = Some (Returns (- 1) s)
    | r # fl \<Rightarrow> \<exists>t d. sys_fork s = Some (Returns (next_pid s) t) \<and> sched_ok t \<and> free_procs t = fl \<and> current_process t = Some c \<and>
        ready_list (priority (procs s c)) t = ready_list (priority (procs s c)) s @ [r] \<and>
        pid (procs t r) = next_pid s \<and> state_of t r = PROCESS_STATE_READY \<and> priority (procs t r) = priority (procs s c) \<and>
        proc_name (procs t r) = name_field (takeWhile (\<lambda>x. x \<noteq> 0) (proc_name (procs s c))) \<and>
        entry_point (procs t r) = entry_point (procs s c) \<and> proc_arg (procs t r) = proc_arg (procs s c) \<and>
        page_directory (procs t r) = d \<and> d \<in> free_frames (pmm s) \<and>
        load32 (mem t) (stack_ptr (procs t r) + 16) = trampoline_addr s \<and>
        (\<forall>va. walk_in d t va = (if unat va < 80 * 1024 * 1024 then Some ((va AND 0xFFFFF000) OR 3) else None))"
proof (cases "free_procs s")
  case Nil
  then have "sched_lists s [] (\<lambda>p. ready_list p s) (sleepers s)" using assms(1) by (simp add: sched_ok_def sched_inv_def)
  then have "allocate_process s = (None, s)" by (simp add: sched_lists_def allocate_process_def)
  then show ?thesis using Nil assms(2)
    by (simp add: sys_fork_def scheduler_get_current_process_def scheduler_fork_process_def scheduler_create_process_def Let_def)
next
  case (Cons r fl)
  let ?n = "takeWhile (\<lambda>x. x \<noteq> 0) (proc_name (procs s c))" and ?p = "priority (procs s c)"
  have inv: "sched_inv s (r # fl) (\<lambda>p. ready_list p s) (sleepers s)" using assms(1) Cons by (simp add: sched_ok_def)
  from inv assms(3-6) obtain t d f where t: "scheduler_create_process ?n (entry_point (procs s c)) (proc_arg (procs s c)) ?p s = (Some r, t)"
    "sched_inv t fl ((\<lambda>p. ready_list p s)(?p := ready_list ?p s @ [r])) (sleepers s)" "current_process t = current_process s"
    "info t = (info s)(r := created (next_pid s) ?n (entry_point (procs s c)) (proc_arg (procs s c)) ?p d f (info s r))"
    "d \<in> free_frames (pmm s)" "identity_dir d (kernel_page_table s) t" "entry_get f 1023 t = trampoline_addr s"
    by (rule create_run [where name = ?n and entry = "entry_point (procs s c)" and arg = "proc_arg (procs s c)" and prio = ?p]) blast
  note l = sched_inv_lists [OF t(2)]
  have i: "info t r = created (next_pid s) ?n (entry_point (procs s c)) (proc_arg (procs s c)) ?p d f (info s r)" using t(4) by simp
  have fields: "pid (procs t r) = next_pid s" "state_of t r = PROCESS_STATE_READY" "priority (procs t r) = ?p"
    "proc_name (procs t r) = name_field ?n" "entry_point (procs t r) = entry_point (procs s c)" "proc_arg (procs t r) = proc_arg (procs s c)"
    "page_directory (procs t r) = d" "stack_ptr (procs t r) = f + 4076"
    using arg_cong [OF i, of pid] arg_cong [OF i, of proc_state] arg_cong [OF i, of priority] arg_cong [OF i, of proc_name]
      arg_cong [OF i, of entry_point] arg_cong [OF i, of proc_arg] arg_cong [OF i, of page_directory] arg_cong [OF i, of stack_ptr]
    by (simp_all add: info_def created_def)
  have lay: "kernel_layout (kernel_page_directory s) (kernel_page_table s)" using assms(3) by (simp add: kernel_space_def)
  have "sys_fork s = Some (Returns (next_pid s) t)"
    using t(1) fields(1) assms(2) by (simp add: sys_fork_def scheduler_get_current_process_def scheduler_fork_process_def Let_def)
  moreover have "load32 (mem t) (stack_ptr (procs t r) + 16) = trampoline_addr s"
    unfolding fields(8) using t(7) by (simp add: entry_get_def add.commute)
  moreover have "\<forall>va. walk_in d t va = (if unat va < 80 * 1024 * 1024 then Some ((va AND 0xFFFFF000) OR 3) else None)"
    using identity_dir_walk [OF lay t(6)] by simp
  moreover note l(1) l(4) l(2) [of ?p] fields(1-7) t(5)
  ultimately show ?thesis using assms(2) t(3) Cons by auto
qed

section \<open>Every call keeps the scheduler's invariant\<close>

lemma sched_ok_cong:
  assumes "procs t = procs s" "free_list t = free_list s" "queues t = queues s" "current_process t = current_process s" "sleep_list t = sleep_list s"
  shows "sched_ok t = sched_ok s"
  unfolding sched_ok_def sched_inv_def sched_lists_def free_procs_def ready_list_def sleepers_def assms ..

text \<open>\<open>keeps_sched s t\<close>: the scheduler's data are the same.\<close>

definition keeps_sched :: "'a sched_state_scheme \<Rightarrow> 'a sched_state_scheme \<Rightarrow> bool" where
  "keeps_sched s t \<longleftrightarrow> procs t = procs s \<and> free_list t = free_list s \<and> queues t = queues s \<and>
     current_process t = current_process s \<and> sleep_list t = sleep_list s"

lemma keeps_sched_ok: "keeps_sched s t \<Longrightarrow> sched_ok s \<Longrightarrow> sched_ok t"
  using sched_ok_cong [of t s] by (simp add: keeps_sched_def)

lemma keeps_sched_trans: "keeps_sched s t \<Longrightarrow> keeps_sched t u \<Longrightarrow> keeps_sched s u"
  by (simp add: keeps_sched_def)

lemma keeps_sched_serial: "hal_serial_write data n s = Some t \<Longrightarrow> keeps_sched s t"
  using touches_serial_write [of data n s t] by (auto simp: touches_def keeps_sched_def)

lemma keeps_sched_user_write: "user_write a bs s = Some t \<Longrightarrow> keeps_sched s t"
proof -
  have "for_opt 0 n (\<lambda>i. vstore8 (a + of_nat i) (bs ! i)) s = Some t \<Longrightarrow> keeps_sched s t" for n
  proof (induction n arbitrary: t)
    case 0
    then show ?case by (simp add: keeps_sched_def)
  next
    case (Suc n)
    then obtain u where u: "for_opt 0 n (\<lambda>i. vstore8 (a + of_nat i) (bs ! i)) s = Some u" "vstore8 (a + of_nat n) (bs ! n) u = Some t"
      by (auto simp: for_opt_Suc bind_eq_Some_conv)
    have "keeps_sched u t" using u(2) by (auto simp: vstore8_def keeps_sched_def)
    with Suc.IH [OF u(1)] show ?case by (rule keeps_sched_trans)
  qed
  then show "user_write a bs s = Some t \<Longrightarrow> keeps_sched s t" by (simp add: user_write_def)
qed

lemma keeps_sched_vstore32: "vstore32 a v s = Some t \<Longrightarrow> keeps_sched s t"
  by (auto simp: vstore32_def bind_eq_Some_conv keeps_sched_def)

lemma keeps_sched_store_msqid_ds: "store_msqid_ds a ds s = Some t \<Longrightarrow> keeps_sched s t"
  by (auto simp: store_msqid_ds_def Let_def bind_eq_Some_conv
    dest!: keeps_sched_user_write keeps_sched_vstore32 elim!: keeps_sched_trans)

definition state_after :: "'s sysret \<Rightarrow> 's" where
  "state_after res = (case res of Returns v t \<Rightarrow> t | Parks t \<Rightarrow> t)"

lemma message_calls_keep:
  "call_msgget k f s = Some res \<Longrightarrow> keeps_sched s (state_after res)"
  "call_msgsnd i p z f s = Some res \<Longrightarrow> keeps_sched s (state_after res)"
  "call_msgrcv i p z y f s = Some res \<Longrightarrow> keeps_sched s (state_after res)"
  "call_msgctl i c p s = Some res \<Longrightarrow> keeps_sched s (state_after res)"
proof -
  have upd: "keeps_sched s (t\<lparr>msgs := m\<rparr>)" if "keeps_sched s t" for t m using that by (simp add: keeps_sched_def)
  have flag: "keeps_sched s (sti s)" "keeps_sched s (cli s)" "keeps_sched s s" by (simp_all add: keeps_sched_def sti_def cli_def)
  show "call_msgget k f s = Some res \<Longrightarrow> keeps_sched s (state_after res)"
    by (auto simp: call_msgget_def state_after_def split: prod.splits intro!: upd flag)
  show "call_msgsnd i p z f s = Some res \<Longrightarrow> keeps_sched s (state_after res)"
    by (auto simp: call_msgsnd_def state_after_def split: prod.splits if_splits intro!: upd flag)
  show "call_msgrcv i p z y f s = Some res \<Longrightarrow> keeps_sched s (state_after res)"
    by (auto simp: call_msgrcv_def state_after_def bind_eq_Some_conv split: prod.splits option.splits
      intro!: upd flag dest: keeps_sched_user_write)
  show "call_msgctl i c p s = Some res \<Longrightarrow> keeps_sched s (state_after res)"
    by (auto simp: call_msgctl_def state_after_def bind_eq_Some_conv split: prod.splits if_splits
      intro!: upd flag dest: keeps_sched_store_msqid_ds)
qed

lemma sys_fork_keeps:
  assumes "sched_ok s" and "sys_fork s = Some res"
  shows "sched_ok (state_after res)"
proof -
  obtain c where c: "current_process s = Some c"
    using assms(2) by (auto simp: sys_fork_def scheduler_get_current_process_def split: option.splits)
  obtain o' t where f: "scheduler_fork_process c s = (o', t)" by fastforce
  then have "sched_step s t" unfolding scheduler_fork_process_def Let_def by (rule sched_step.create)
  then have "sched_ok t" using assms(1) by (rule sched_step_ok)
  moreover have "state_after res = t"
    using assms(2) c f by (auto simp: sys_fork_def scheduler_get_current_process_def state_after_def split: option.splits)
  ultimately show ?thesis by simp
qed

lemma sys_exit_keeps:
  assumes "sched_ok s" and "current_process s \<noteq> Some Idle" and "sys_exit status s = Some res"
  shows "sched_ok (state_after res)"
proof -
  obtain x where x: "hal_serial_write (line_bytes ''System exit called'') 19 s = Some x"
    and res: "res = Parks (scheduler_yield (case scheduler_get_current_process x of None \<Rightarrow> x
      | Some proc \<Rightarrow> scheduler_destroy_process proc (upd_proc proc (\<lambda>p. p\<lparr>proc_state := PROCESS_STATE_TERMINATED\<rparr>) x)))"
    using assms(3) by (auto simp: sys_exit_def bind_eq_Some_conv)
  note k = keeps_sched_serial [OF x]
  have ok: "sched_ok x" by (rule keeps_sched_ok [OF k assms(1)])
  have "sched_step x (state_after res)"
  proof (cases "current_process x")
    case None
    then show ?thesis by (simp add: res state_after_def scheduler_get_current_process_def sched_step.yield)
  next
    case (Some c)
    then have "c \<noteq> Idle" using assms(2) k by (auto simp: keeps_sched_def)
    with Some show ?thesis by (simp add: res state_after_def scheduler_get_current_process_def sched_step.exit)
  qed
  then show ?thesis using ok by (rule sched_step_ok)
qed

lemma sys_write_keeps: "sys_write fd buf n s = Some res \<Longrightarrow> keeps_sched s (state_after res)"
  by (auto simp: sys_write_def state_after_def bind_eq_Some_conv split: if_splits dest!: keeps_sched_serial)
    (simp add: keeps_sched_def)

lemma vm_only_more:
  assumes "vm_only s t"
  shows "sched_state.more t = sched_state.more s"
  using arg_cong [OF assms [unfolded vm_only_def], of sched_state.more] by simp

lemma create_process_more:
  assumes "scheduler_create_process nm e a p s = (r, t)"
  shows "sched_state.more t = sched_state.more s"
proof (cases "free_list s")
  case None
  then show ?thesis using assms by (auto simp: scheduler_create_process_def allocate_process_def)
next
  case (Some proc)
  define s1 where "s1 = s\<lparr>free_list := proc_next (procs s proc)\<rparr>"
  have e [simp]: "sched_state.more (upd_proc q f u) = sched_state.more u" "sched_state.more (release_process q u) = sched_state.more u"
    "sched_state.more (vmm_switch_directory d u) = sched_state.more u" "sched_state.more (enqueue_process q u) = sched_state.more u" for q f u d
    by (simp_all add: upd_proc_def release_process_def vmm_switch_directory_def enqueue_process_def upd_queue_of_def Let_def split: option.split)
  have m: "sched_state.more (snd (vmm_create_address_space u)) = sched_state.more u" "sched_state.more (snd (alloc_page u)) = sched_state.more u"
    "sched_state.more (snd (vmm_map_page x y z u)) = sched_state.more u" for u :: "'a sched_state_scheme" and x y z
    using create_space_vm_only [of u] alloc_page_vm_only [of u] vmm_map_page_vm_only [of x y z u _ _ u]
    by (metis vm_only_more prod.collapse vm_only_simps(1))+
  show ?thesis
    using assms Some unfolding scheduler_create_process_def allocate_process_def Let_def
    by (auto simp: m split: prod.splits if_splits dest!: vm_only_more [OF create_space_vm_only] vm_only_more [OF alloc_page_vm_only])
qed

lemma more_msgs: "sched_state.more t = sched_state.more (s :: 'a kernel_state_scheme) \<Longrightarrow> msgs t = msgs s"
  by (cases s; cases t) simp

text \<open>What a call other than \<open>SYS_FORK\<close> leaves alone when no queue is live: the memory, and that no queue is live.\<close>

definition quiet :: "'a kernel_state_scheme \<Rightarrow> 'a kernel_state_scheme \<Rightarrow> bool" where
  "quiet s t \<longleftrightarrow> mem t = mem s \<and> (no_live_queue (msgs s) \<longrightarrow> no_live_queue (msgs t))"

lemma quiet_trans: "quiet s t \<Longrightarrow> quiet t u \<Longrightarrow> quiet s u"
  by (simp add: quiet_def)

lemma quiet_serial: "hal_serial_write data n s = Some t \<Longrightarrow> quiet s t"
  using touches_serial_write [of data n s t] by (auto simp: touches_def quiet_def)

lemma quiet_messages:
  assumes "no_live_queue (msgs s)"
  shows "call_msgget k f s = Some res \<Longrightarrow> quiet s (state_after res)"
    and "call_msgsnd i p z f s = Some res \<Longrightarrow> quiet s (state_after res)"
    and "call_msgrcv i p z y f s = Some res \<Longrightarrow> quiet s (state_after res)"
    and "call_msgctl i c p s = Some res \<Longrightarrow> quiet s (state_after res)"
proof -
  have n: "get_msgqueue q (msgs s) = None" "get_msgqueue q ((msgs s)\<lparr>interrupts_enabled := b\<rparr>) = None" for q b
    using no_live_queue_get [of "msgs s"] no_live_queue_get [of "(msgs s)\<lparr>interrupts_enabled := b\<rparr>"] assms by (simp_all add: no_live_queue_def)
  have l: "no_live_queue ((msgs s)\<lparr>interrupts_enabled := b\<rparr>)" for b using assms by (simp add: no_live_queue_def)
  show "call_msgget k f s = Some res \<Longrightarrow> quiet s (state_after res)"
    using no_live_queue_msgget(2) [OF assms, of k f] by (auto simp: call_msgget_def state_after_def quiet_def split: prod.splits)
  show "call_msgsnd i p z f s = Some res \<Longrightarrow> quiet s (state_after res)"
    using n l by (auto simp: call_msgsnd_def sys_msgsnd_def Let_def state_after_def quiet_def sti_def cli_def split: if_splits)
  show "call_msgrcv i p z y f s = Some res \<Longrightarrow> quiet s (state_after res)"
    using n assms by (auto simp: call_msgrcv_def sys_msgrcv_def state_after_def quiet_def)
  show "call_msgctl i c p s = Some res \<Longrightarrow> quiet s (state_after res)"
    using n assms by (auto simp: call_msgctl_def sys_msgctl_def state_after_def quiet_def split: if_splits)
qed

lemma quiet_exit:
  assumes "sys_exit status s = Some res"
  shows "quiet s (state_after res)"
proof -
  obtain x where x: "hal_serial_write (line_bytes ''System exit called'') 19 s = Some x"
    and res: "res = Parks (scheduler_yield (case scheduler_get_current_process x of None \<Rightarrow> x
      | Some proc \<Rightarrow> scheduler_destroy_process proc (upd_proc proc (\<lambda>p. p\<lparr>proc_state := PROCESS_STATE_TERMINATED\<rparr>) x)))"
    using assms by (auto simp: sys_exit_def bind_eq_Some_conv)
  have "quiet x (state_after res)"
    by (auto simp: res state_after_def quiet_def scheduler_yield_def scheduler_destroy_process_def release_process_def upd_proc_def
      enqueue_process_def upd_queue_of_def Let_def scheduler_get_current_process_def split: option.splits)
  with quiet_serial [OF x] show ?thesis by (rule quiet_trans)
qed

text \<open>The idle process is lost when it exits: it is current and free at the same time.\<close>

lemma sys_exit_idle_breaks:
  assumes "current_process s = Some Idle" and "sys_exit status s = Some res"
  shows "\<not> sched_ok (state_after res)"
proof -
  obtain x where x: "hal_serial_write (line_bytes ''System exit called'') 19 s = Some x"
    and res: "res = Parks (scheduler_yield (case scheduler_get_current_process x of None \<Rightarrow> x
      | Some proc \<Rightarrow> scheduler_destroy_process proc (upd_proc proc (\<lambda>p. p\<lparr>proc_state := PROCESS_STATE_TERMINATED\<rparr>) x)))"
    using assms(2) by (auto simp: sys_exit_def bind_eq_Some_conv)
  have "current_process x = Some Idle" using keeps_sched_serial [OF x] assms(1) by (simp add: keeps_sched_def)
  then have c: "current_process (state_after res) = Some Idle" "free_list (state_after res) = Some Idle"
    by (simp_all add: res state_after_def scheduler_get_current_process_def scheduler_yield_def scheduler_destroy_process_def release_process_def upd_proc_def)
  then have "Idle \<in> set (free_procs (state_after res))" by (simp add: free_procs_def numeral_eq_Suc)
  with c(1) show ?thesis by (auto simp: sched_ok_def sched_inv_def unlisted_def)
qed

lemma quiet_write: "sys_write fd buf n s = Some res \<Longrightarrow> quiet s (state_after res)"
  by (auto simp: sys_write_def state_after_def bind_eq_Some_conv split: if_splits dest!: quiet_serial) (simp add: quiet_def)

lemma sys_fork_msgs:
  assumes "sys_fork s = Some res"
  shows "msgs (state_after res) = msgs s"
proof -
  obtain c where c: "current_process s = Some c"
    using assms by (auto simp: sys_fork_def scheduler_get_current_process_def split: option.splits)
  obtain o' t where f: "scheduler_fork_process c s = (o', t)" by fastforce
  have "state_after res = t"
    using assms c f by (auto simp: sys_fork_def scheduler_get_current_process_def state_after_def split: option.splits)
  moreover have "msgs t = msgs s"
    by (rule more_msgs, rule create_process_more) (use f in \<open>simp add: scheduler_fork_process_def Let_def\<close>)
  ultimately show ?thesis by simp
qed

lemma dispatch_outcome:
  assumes ok: "sched_ok s" and live: "no_live_queue (msgs s)" and d: "syscall_dispatch r s = Some d"
  shows "sched_ok (state_after d) \<longleftrightarrow> \<not> (current_process s = Some Idle \<and> r_eax r = SYS_EXIT)"
    and "no_live_queue (msgs (state_after d))" and "r_eax r \<noteq> SYS_FORK \<Longrightarrow> mem (state_after d) = mem s"
proof -
  let ?Q = "(sched_ok (state_after d) \<longleftrightarrow> \<not> (current_process s = Some Idle \<and> r_eax r = SYS_EXIT)) \<and>
    no_live_queue (msgs (state_after d)) \<and> (r_eax r \<noteq> SYS_FORK \<longrightarrow> mem (state_after d) = mem s)"
  have by_quiet: ?Q if "quiet s (state_after d)" "keeps_sched s (state_after d)" "r_eax r \<noteq> SYS_EXIT"
    using that live keeps_sched_ok [OF that(2) ok] by (simp add: quiet_def)
  have ?Q
  proof (cases "r_eax r \<in> {SYS_EXIT, SYS_FORK, SYS_WRITE, SYS_MSGGET, SYS_MSGSND, SYS_MSGRCV, SYS_MSGCTL}")
    case False
    then show ?thesis using d syscall_dispatch_stubs [OF False, of s] ok live by (auto simp: state_after_def)
  next
    case True
    then consider "r_eax r = SYS_EXIT" | "r_eax r = SYS_FORK" | "r_eax r = SYS_WRITE" | "r_eax r = SYS_MSGGET" | "r_eax r = SYS_MSGSND"
      | "r_eax r = SYS_MSGRCV" | "r_eax r = SYS_MSGCTL" by blast
    then show ?thesis
    proof cases
      case 1
      then have x: "sys_exit (r_ebx r) s = Some d" using d syscall_dispatch_calls(1) [of r s] by simp
      then show ?thesis using 1 quiet_exit [OF x] live sys_exit_keeps [OF ok _ x] sys_exit_idle_breaks [OF _ x] by (auto simp: quiet_def)
    next
      case 2
      then have x: "sys_fork s = Some d" using d syscall_dispatch_calls(2) [of r s] by simp
      then show ?thesis using 2 sys_fork_keeps [OF ok x] sys_fork_msgs [OF x] live by (simp add: SYS_defs)
    next
      case 3
      then have x: "sys_write (r_ebx r) (r_ecx r) (r_edx r) s = Some d" using d by (simp add: syscall_dispatch_calls(3))
      show ?thesis by (rule by_quiet [OF quiet_write [OF x] sys_write_keeps [OF x]]) (use 3 in \<open>simp add: SYS_defs\<close>)
    next
      case 4
      have x: "call_msgget (r_ebx r) (r_ecx r) s = Some d" using d 4 by (simp add: syscall_dispatch_calls(4))
      show ?thesis by (rule by_quiet [OF quiet_messages(1) [OF live x] message_calls_keep(1) [OF x]]) (use 4 in \<open>simp add: SYS_defs\<close>)
    next
      case 5
      have x: "call_msgsnd (r_ebx r) (r_ecx r) (r_edx r) (r_esi r) s = Some d" using d 5 by (simp add: syscall_dispatch_calls(5))
      show ?thesis by (rule by_quiet [OF quiet_messages(2) [OF live x] message_calls_keep(2) [OF x]]) (use 5 in \<open>simp add: SYS_defs\<close>)
    next
      case 6
      have x: "call_msgrcv (r_ebx r) (r_ecx r) (r_edx r) (r_esi r) (r_edi r) s = Some d" using d 6 by (simp add: syscall_dispatch_calls(6))
      show ?thesis by (rule by_quiet [OF quiet_messages(3) [OF live x] message_calls_keep(3) [OF x]]) (use 6 in \<open>simp add: SYS_defs\<close>)
    next
      case 7
      have x: "call_msgctl (r_ebx r) (r_ecx r) (r_edx r) s = Some d" using d 7 by (simp add: syscall_dispatch_calls(7))
      show ?thesis by (rule by_quiet [OF quiet_messages(4) [OF live x] message_calls_keep(4) [OF x]]) (use 7 in \<open>simp add: SYS_defs\<close>)
    qed
  qed
  then show "sched_ok (state_after d) \<longleftrightarrow> \<not> (current_process s = Some Idle \<and> r_eax r = SYS_EXIT)"
    and "no_live_queue (msgs (state_after d))" and "r_eax r \<noteq> SYS_FORK \<Longrightarrow> mem (state_after d) = mem s" by blast+
qed

text \<open>
  C5: System calls and the scheduler. Whatever number and arguments are in the registers, when the stub returns or parks, the free
  list, the ready queues, the sleep list and the current process satisfy the scheduler's invariant again, except in exactly one case: \<open>SYS_EXIT\<close> called
  by the idle process, after which they never do. Since no message queue is ever live, none becomes live, and no call but
  \<open>SYS_FORK\<close> changes the memory at all: no pointer of the caller is written through.
\<close>

theorem syscall_keeps_scheduler:
  assumes "sched_ok s" and "no_live_queue (msgs s)" and "syscall_stub r s = Some res"
  shows "case (case res of Inl (_, u) \<Rightarrow> u | Inr u \<Rightarrow> u) of t \<Rightarrow>
    (sched_ok t \<longleftrightarrow> \<not> (current_process s = Some Idle \<and> r_eax r = SYS_EXIT)) \<and>
    no_live_queue (msgs t) \<and> (r_eax r \<noteq> SYS_FORK \<longrightarrow> mem t = mem s)"
proof -
  obtain s1 out where s1: "hal_serial_write (str_bytes ''A'' @ [0]) 1 s = Some s1" and h: "syscall_handler r s1 = Some out"
    and o: "(case out of Inl (r', s2) \<Rightarrow> do { s3 \<leftarrow> hal_serial_write (str_bytes ''C'' @ [0]) 1 s2; Some (Inl (r', s3)) } | Inr s2 \<Rightarrow> Some (Inr s2)) = Some res"
    using assms(3) unfolding syscall_stub_def bind_eq_Some_conv by blast
  note k1 = keeps_sched_serial [OF s1] and q1 = quiet_serial [OF s1]
  have ok1: "sched_ok s1" "no_live_queue (msgs s1)" using keeps_sched_ok [OF k1 assms(1)] q1 assms(2) by (simp_all add: quiet_def)
  have cur: "current_process s1 = current_process s" "mem s1 = mem s" using k1 q1 by (simp_all add: keeps_sched_def quiet_def)
  obtain d where d: "syscall_dispatch r s1 = Some d" and out: "out = (case d of Returns v t \<Rightarrow> Inl (r\<lparr>r_eax := v\<rparr>, t) | Parks t \<Rightarrow> Inr t)"
    using h by (auto simp: syscall_handler_def)
  note dd = dispatch_outcome [OF ok1 d, unfolded cur]
  define t where "t = (case res of Inl (_, u) \<Rightarrow> u | Inr u \<Rightarrow> u)"
  have "t = state_after d \<or> hal_serial_write (str_bytes ''C'' @ [0]) 1 (state_after d) = Some t"
    using o out by (auto simp: t_def state_after_def bind_eq_Some_conv split: sysret.splits)
  then have "keeps_sched (state_after d) t" "quiet (state_after d) t"
    by (auto intro: keeps_sched_serial quiet_serial) (simp_all add: keeps_sched_def quiet_def)
  moreover have "keeps_sched t (state_after d)" using calculation(1) by (simp add: keeps_sched_def)
  ultimately have "sched_ok t = sched_ok (state_after d)" "no_live_queue (msgs t)" "mem t = mem (state_after d)"
    using keeps_sched_ok dd(2) by (auto simp: quiet_def)
  then show ?thesis unfolding t_def [symmetric] using dd by simp
qed

section \<open>Sample machines\<close>

definition kernel_blank :: kernel_state where
  "kernel_blank = irq_state.extend irq_blank (kernel_state.fields sample_state)"

text \<open>The kernel on top of a given state of the scheduler and the memory managers, with the devices of a personal computer.\<close>

definition kernel_on :: "sched_state \<Rightarrow> kernel_state" where
  "kernel_on s = sched_state.extend (s\<lparr>device := pc_device\<rparr>) (sched_state.more kernel_blank)"

lemma kernel_on_fields [simp]:
  "procs (kernel_on s) = procs s" "free_list (kernel_on s) = free_list s" "queues (kernel_on s) = queues s"
  "current_process (kernel_on s) = current_process s" "sleep_list (kernel_on s) = sleep_list s" "device (kernel_on s) = pc_device"
  "pmm (kernel_on s) = pmm s" "mem (kernel_on s) = mem s" "cr3 (kernel_on s) = cr3 s" "next_pid (kernel_on s) = next_pid s"
  "kernel_page_directory (kernel_on s) = kernel_page_directory s" "kernel_page_table (kernel_on s) = kernel_page_table s"
  by (simp_all add: kernel_on_def sched_state.extend_def)

lemma kernel_on_sched: "sched_ok (kernel_on s) = sched_ok s" "free_procs (kernel_on s) = free_procs s"
    "ready_list p (kernel_on s) = ready_list p s" "kernel_space (kernel_on s) = kernel_space s"
proof -
  show "sched_ok (kernel_on s) = sched_ok s"
    unfolding sched_ok_def sched_inv_def sched_lists_def free_procs_def ready_list_def sleepers_def kernel_on_fields ..
  show "free_procs (kernel_on s) = free_procs s" "ready_list p (kernel_on s) = ready_list p s"
    by (simp_all add: free_procs_def ready_list_def)
  show "kernel_space (kernel_on s) = kernel_space s" by (simp add: kernel_space_def identity_low_def entry_get_def)
qed

lemma pc_answers: "thr_answers pc_device"
  by (simp add: answers_def pc_device_def serial_is_transmit_empty_def SERIAL_LSR_THRE_def)

lemma running_process:
  obtains s :: sched_state where "sched_ok s" and "current_process s = Some (Pool 0)"
proof -
  obtain s :: sched_state where s: "sched_ok s" "sleepers s = []" "\<And>p. ready_list p s = (if p = PRIORITY_LOW then [Pool 0] else [])"
    "current_process s = Some Idle" "state_of s Idle = PROCESS_STATE_RUNNING" "priority (procs s Idle) = PRIORITY_LOW"
    by (rule one_process) blast
  have tr: "tick_ready s p = (if p = PRIORITY_LOW then [Pool 0, Idle] else [])" for p
    using s(2-6) by (simp add: tick_ready_def woken_def back_ready_def)
  obtain t :: sched_state and n p where t: "sched_ok t" "current_process t = Some n" "tick_ready s p = n # ready_list p t"
    by (rule tick_outcome [OF s(1), of 10]) blast
  then have "n = Pool 0" by (simp add: tr split: if_splits)
  then show thesis using that t by blast
qed

definition syscall_frame :: "u32 \<Rightarrow> u32 \<Rightarrow> u32 \<Rightarrow> u32 \<Rightarrow> registers_t" where
  "syscall_frame n b c d = \<lparr>r_gs = 0, r_fs = 0, r_es = 0, r_ds = 0, r_edi = 0, r_esi = 0, r_ebp = 0, r_esp = 0, r_ebx = b, r_edx = d,
     r_ecx = c, r_eax = n, int_no = 0x80, err_code = 0, r_eip = 0, r_cs = 0x1B, r_eflags = 2\<rparr>"

lemma syscall_frame_fields [simp]:
  "r_eax (syscall_frame n b c d) = n" "r_ebx (syscall_frame n b c d) = b" "r_ecx (syscall_frame n b c d) = c" "r_edx (syscall_frame n b c d) = d"
  by (simp_all add: syscall_frame_def)

theorem syscall_handler_unimplemented_witness:
  "syscall_handler (syscall_frame 20 0 0 0) kernel_blank = Some (Inl ((syscall_frame 20 0 0 0)\<lparr>r_eax := - 38\<rparr>, kernel_blank))"
  using syscall_handler_unimplemented [of "syscall_frame 20 0 0 0" kernel_blank] by (simp add: SYS_defs)

theorem sys_exit_correct_witness:
  "\<exists>s t :: kernel_state. current_process s = Some (Pool 0) \<and> sys_exit 0 s = Some (Parks t) \<and> hd (free_procs t) = Pool 0 \<and> sched_ok t"
proof -
  obtain s :: sched_state where s: "sched_ok s" "current_process s = Some (Pool 0)" by (rule running_process)
  have "sched_ok (kernel_on s)" "current_process (kernel_on s) = Some (Pool 0)" "Pool 0 \<noteq> Idle" "thr_answers (device (kernel_on s))"
    using s pc_answers by (simp_all add: kernel_on_sched)
  from sys_exit_correct [OF this, of 0] obtain t where "sys_exit 0 (kernel_on s) = Some (Parks t)" "sched_ok t" "free_procs t = Pool 0 # free_procs (kernel_on s)"
    by blast
  with s(2) show ?thesis by (intro exI [of _ "kernel_on s"] exI [of _ t]) simp
qed

theorem sys_fork_correct_witness:
  "\<exists>s t :: kernel_state. sys_fork s = Some (Returns (next_pid s) t) \<and> ready_list PRIORITY_LOW t = [Pool 0] \<and> sched_ok t"
proof -
  obtain s :: sched_state where s: "sched_inv s pool_refs (\<lambda>_. []) []" "kernel_space s" "free_frames (pmm s) = page_addr ` {256..<16128}"
    "current_process s = Some Idle" "priority (procs s Idle) = PRIORITY_LOW"
    by (rule booted_sched) blast
  note l = sched_inv_lists [OF s(1)]
  let ?k = "kernel_on s"
  have fp: "free_procs ?k = Pool 0 # map Pool [1..<64]"
    by (simp add: kernel_on_sched l(1) pool_refs_def MAX_PROCESSES_def upt_conv_Cons del: upt_rec_numeral)
  have pre: "sched_ok ?k" "current_process ?k = Some Idle" "kernel_space ?k" using l(4) s by (simp_all add: kernel_on_sched)
  have fr: "free_frames (pmm ?k) = page_addr ` {256..<16128}" using s(3) by simp
  from sys_fork_correct [OF pre two_frames [folded fr], unfolded fp list.case]
  obtain t where "sys_fork ?k = Some (Returns (next_pid ?k) t)" "sched_ok t" "ready_list PRIORITY_LOW t = ready_list PRIORITY_LOW ?k @ [Pool 0]"
    using s(5) by auto
  then show ?thesis by (intro exI [of _ ?k] exI [of _ t]) (simp add: kernel_on_sched l(2))
qed

theorem syscall_keeps_scheduler_witness:
  "\<exists>s t :: kernel_state. \<exists>r. syscall_stub (syscall_frame 20 0 0 0) s = Some (Inl (r, t)) \<and> sched_ok s \<and> sched_ok t \<and> mem t = mem s"
proof -
  obtain s :: sched_state where s: "sched_ok s" "current_process s = Some (Pool 0)" by (rule running_process)
  let ?k = "(kernel_on s)\<lparr>msgs := msg_init sample_state\<rparr>" and ?r = "syscall_frame 20 0 0 0"
  have ok: "sched_ok ?k" by (rule keeps_sched_ok [of "kernel_on s"]) (use s(1) in \<open>simp_all add: kernel_on_sched keeps_sched_def\<close>)
  have live: "no_live_queue (msgs ?k)" by (simp add: no_live_queue_init sample_state_def)
  have a: "thr_answers (device ?k)" using pc_answers by simp
  obtain x where x: "hal_serial_write (str_bytes ''A'' @ [0]) 1 ?k = Some x" "device x = device ?k"
    using hal_serial_write_returns [OF a, of 1 "str_bytes ''A'' @ [0]"] by (auto simp: str_bytes_def)
  obtain y where y: "hal_serial_write (str_bytes ''C'' @ [0]) 1 x = Some y"
    using hal_serial_write_returns [of x 1 "str_bytes ''C'' @ [0]"] a x(2) by (auto simp: str_bytes_def)
  have "syscall_dispatch ?r x = Some (Returns (- 38) x)"
    using syscall_dispatch_stubs [of ?r x] by (simp add: SYS_defs)
  then have stub: "syscall_stub ?r ?k = Some (Inl (?r\<lparr>r_eax := - 38\<rparr>, y))"
    using x(1) y by (simp add: syscall_stub_def syscall_handler_def)
  from syscall_keeps_scheduler [OF ok live stub] s(2) have "sched_ok y" "mem y = mem ?k" by (simp_all add: SYS_defs)
  with ok stub show ?thesis by blast
qed

text \<open>A kernel whose memory managers are initialised, so that low memory can be read.\<close>

lemma booted_kernel:
  obtains s :: kernel_state where "thr_answers (device s)" and "\<forall>va. unat va < 83886080 \<longrightarrow> phys_addr s va \<noteq> None"
proof -
  let ?k = "irq_state.extend boot_machine (kernel_state.fields sample_state)"
  have "boots ?k" using boot_machine_boots by (simp add: boots_def irq_state.extend_def)
  then obtain t v :: kernel_state and l m where t: "t = sti (pic_enable_irq 1 (pic_enable_irq 0 v))"
    and v: "v = (boot_tables ?k)\<lparr>pmm := pmm_init (pmm ?k), mem := m, cr3 := kernel_page_directory ?k, cr0 := cr0 (boot_tables ?k) OR 0x80000000,
       pit_timer_callback := None, dma_initialized := True, io_log := io_log ?k @ pic_init_events @ l\<rparr>"
    and idn: "identity_dir (kernel_page_directory ?k) (kernel_page_table ?k) v"
    by (rule hal_init_state) blast
  have lay: "kernel_layout (kernel_page_directory ?k) (kernel_page_table ?k)" and len: "length (idt_entries ?k) = IDT_ENTRY_COUNT"
    and a: "thr_answers (device ?k)"
    using \<open>boots ?k\<close> by (simp_all add: boots_def)
  have "device v = device ?k" "cr3 v = kernel_page_directory ?k" unfolding v using boot_tables_frame(1) [OF len] by simp_all
  moreover have "walk_in (kernel_page_directory ?k) v va \<noteq> None" if "unat va < 83886080" for va
    using identity_dir_walk [OF lay idn, of va] that by simp
  ultimately show thesis using that [of v] a by (simp add: phys_addr_def)
qed

theorem sys_write_correct_witness:
  "\<exists>s :: kernel_state. \<exists>new. readable 0x100000 2 s \<and>
     syscall_stub (syscall_frame 4 1 0x100000 2) s = Some (Inl ((syscall_frame 4 1 0x100000 2)\<lparr>r_eax := 2\<rparr>, s\<lparr>io_log := io_log s @ new\<rparr>)) \<and>
     length (outs 0x3F8 new) = 4"
proof -
  let ?r = "syscall_frame 4 1 0x100000 2"
  obtain s :: kernel_state where s: "thr_answers (device s)" "\<forall>va. unat va < 83886080 \<longrightarrow> phys_addr s va \<noteq> None"
    by (rule booted_kernel)
  have "unat (0x100000 + word_of_nat i :: u32) < 83886080" if "i < 2" for i
  proof -
    consider "i = 0" | "i = 1" using \<open>i < 2\<close> by linarith
    then show ?thesis by cases simp_all
  qed
  then have rd: "readable 0x100000 2 s" unfolding readable_def using s(2) by blast
  obtain new where "syscall_stub ?r s = Some (Inl (?r\<lparr>r_eax := r_edx ?r\<rparr>, s\<lparr>io_log := io_log s @ new\<rparr>))"
    "outs 0x3F8 new = str_bytes ''A'' @ user_bytes (r_ecx ?r) (unat (r_edx ?r)) s @ str_bytes ''C''"
    using sys_write_correct [OF s(1), of ?r] rd by (auto simp: SYS_defs)
  with rd show ?thesis
    by (intro exI [of _ s] exI [of _ new]) (simp add: user_bytes_def str_bytes_def)
qed

end
