(* ===== verification/NameTable.thy ===== *)
theory NameTable
  imports Prelude
begin

text \<open>
  The interface of a table of named things in which the first entry of a name wins: the command table of the shell, the list
  of registered devices and the children of a directory all promise it. What a client may rely on is proved here once.
\<close>

text \<open>\<open>admitted ok add kvs t\<close>: the entries can be added to \<open>t\<close> one after the other.\<close>

primrec admitted :: "('k \<Rightarrow> 'v \<Rightarrow> 't \<Rightarrow> bool) \<Rightarrow> ('k \<Rightarrow> 'v \<Rightarrow> 't \<Rightarrow> 't) \<Rightarrow> ('k \<times> 'v) list \<Rightarrow> 't \<Rightarrow> bool" where
  "admitted ok add [] t = True"
| "admitted ok add (kv # kvs) t = (ok (fst kv) (snd kv) t \<and> admitted ok add kvs (add (fst kv) (snd kv) t))"

locale name_table =
  fixes inv :: "'t \<Rightarrow> bool" and ok :: "'k \<Rightarrow> 'v \<Rightarrow> 't \<Rightarrow> bool" and add :: "'k \<Rightarrow> 'v \<Rightarrow> 't \<Rightarrow> 't"
    and find :: "'k \<Rightarrow> 't \<Rightarrow> 'r option" and val :: "'v \<Rightarrow> 'r"
  assumes add_inv: "inv t \<Longrightarrow> ok k v t \<Longrightarrow> inv (add k v t)"
    and find_add: "inv t \<Longrightarrow> ok k v t \<Longrightarrow> find j (add k v t) = (if j = k \<and> find k t = None then Some (val v) else find j t)"
begin

lemma adds_inv: "inv t \<Longrightarrow> admitted ok add kvs t \<Longrightarrow> inv (fold (\<lambda>(k, v). add k v) kvs t)"
  by (induction kvs arbitrary: t) (auto simp: add_inv)

lemma find_adds:
  assumes "inv t" and "admitted ok add kvs t"
  shows "find j (fold (\<lambda>(k, v). add k v) kvs t) =
    (case find j t of Some r \<Rightarrow> Some r | None \<Rightarrow> map_option val (map_of kvs j))"
  using assms
proof (induction kvs arbitrary: t)
  case (Cons kv kvs)
  obtain k v where kv: "kv = (k, v)" by (cases kv)
  have pre: "inv (add k v t)" "admitted ok add kvs (add k v t)" "ok k v t" using Cons.prems kv by (auto simp: add_inv)
  show ?case using Cons.IH [OF pre(1,2)] find_add [OF Cons.prems(1) pre(3)] by (auto simp: kv split: option.split)
qed (simp split: option.split)

text \<open>Names that are new and different can be added in any order.\<close>

lemma adds_commute:
  assumes "inv t" and "admitted ok add kvs t" and "admitted ok add lws t"
    and "distinct (map fst kvs)" and "distinct (map fst lws)" and "set kvs = set lws"
  shows "find j (fold (\<lambda>(k, v). add k v) kvs t) = find j (fold (\<lambda>(k, v). add k v) lws t)"
proof -
  have eq: "map_of kvs = map_of lws" using map_of_inject_set [OF assms(4,5)] assms(6) by blast
  show ?thesis unfolding find_adds [OF assms(1,2)] find_adds [OF assms(1,3)] eq ..
qed

end

end
