(* ===== verification/Shell.thy ===== *)
theory Shell
  imports Syscall NameTable
begin

text \<open>
  The command shell, \<^verbatim>\<open>kernel/shell/commands.c\<close>, and the rest of \<^verbatim>\<open>kernel/main.c\<close>: the commands, the command interpreter
  and \<open>kernel_main\<close>. A handler is named by a constructor of \<open>command_fn\<close>; \<open>call_command\<close> runs it. The state gains the command
  table and the places of the static objects the commands use, which the linker fixes.
\<close>

section \<open>State\<close>

datatype command_fn = Cmd_help | Cmd_mem | Cmd_timer | Cmd_reboot | Cmd_syscall | Cmd_tss | Cmd_ring3

record shell_command =
  cmd_name :: "u8 list"
  handler :: command_fn
  help_text :: "u8 list"

text \<open>\<open>command_table\<close> holds the first \<open>command_count\<close> entries.\<close>

record shell_state = kernel_state +
  command_table :: "shell_command list"
  usermode_test_addr :: u32
  user_stack :: u32
  syscall_kernel_stack :: u32
  ring3_msg :: u32
  syscall_msg :: u32

definition MAX_COMMANDS :: nat where "MAX_COMMANDS = 64"

text \<open>A command comes back to its caller, or the processor stays in user mode for ever.\<close>

datatype 's outcome = Back 's | Spins 's

section \<open>The command table\<close>

definition shell_register_command ::
    "u8 list \<Rightarrow> command_fn \<Rightarrow> u8 list \<Rightarrow> 'a shell_state_scheme \<Rightarrow> int \<times> 'a shell_state_scheme" where
  "shell_register_command nm h help s =
     (if length (command_table s) \<ge> MAX_COMMANDS then (- 1, s)
      else (0, s\<lparr>command_table := command_table s @ [\<lparr>cmd_name = nm, handler = h, help_text = help\<rparr>]\<rparr>))"

text \<open>Strings are the bytes before the terminating zero. The name ends at the end of the input, at a space or
  after 31 characters.\<close>

function name_end :: "u8 list \<Rightarrow> nat \<Rightarrow> nat" where
  "name_end input i = (if i < length input \<and> input ! i \<noteq> 32 \<and> i < 31 then name_end input (i + 1) else i)"
  by pat_completeness auto

termination name_end
  by (relation "measure (\<lambda>(input, i). 31 - i)") auto

declare name_end.simps [simp del]

fun find_command :: "u8 list \<Rightarrow> shell_command list \<Rightarrow> command_fn option" where
  "find_command nm [] = None"
| "find_command nm (c # cs) = (if cmd_name c = nm then Some (handler c) else find_command nm cs)"

definition shell_dispatch ::
    "(command_fn \<Rightarrow> u8 list \<Rightarrow> 'a shell_state_scheme \<Rightarrow> 'a shell_state_scheme outcome option) \<Rightarrow>
     u8 list \<Rightarrow> 'a shell_state_scheme \<Rightarrow> 'a shell_state_scheme outcome option" where
  "shell_dispatch call input s =
     (let i = name_end input 0;
          nm = take i input;
          args = (if i < length input \<and> input ! i = 32 then drop (i + 1) input else drop i input)
      in case find_command nm (command_table s) of
           Some h \<Rightarrow> call h args s
         | None \<Rightarrow> Some (Back (vga_puts [10] (vga_puts nm (vga_puts (str_bytes ''Unknown command: '') s)))))"

section \<open>The commands\<close>

definition cmd_help :: "'a shell_state_scheme \<Rightarrow> 'a shell_state_scheme" where
  "cmd_help s = vga_puts (str_bytes ''Help: mem timer reboot'' @ [10]) s"

definition cmd_mem :: "'a shell_state_scheme \<Rightarrow> 'a shell_state_scheme" where
  "cmd_mem s =
     (let s1 = vga_puts (str_bytes ''mem test'' @ [10]) s
      in case hal_alloc_page s1 of (page, s2) \<Rightarrow>
           if page \<noteq> 0
           then (let s3 = vga_puts (str_bytes ''alloc ok'' @ [10]) s2;
                     s4 = hal_free_page page s3
                 in vga_puts (str_bytes ''free ok'' @ [10]) s4)
           else vga_puts (str_bytes ''alloc FAIL'' @ [10]) s2)"

definition cmd_timer ::
    "('a shell_state_scheme \<Rightarrow> 'a shell_state_scheme option) \<Rightarrow> 'a shell_state_scheme \<Rightarrow> 'a shell_state_scheme option" where
  "cmd_timer hlt s = do {
     let s1 = vga_puts (str_bytes ''timer test - waiting 5 seconds'' @ [10]) s;
     s2 \<leftarrow> hal_sleep_ms hlt 5000 s1;
     Some (vga_puts (str_bytes ''timer done'' @ [10]) s2)
   }"

definition cmd_reboot :: "'a shell_state_scheme \<Rightarrow> 'a shell_state_scheme" where
  "cmd_reboot s = outb 0x64 0xFE (vga_puts (str_bytes ''reboot'' @ [10]) s)"

text \<open>The instruction \<open>int 0x80\<close> at privilege level \<open>cpl\<close> goes through the gate of the vector. The registers the
  instruction sequence does not set keep the values they have in \<open>r\<close>.\<close>

definition int80 ::
    "nat \<Rightarrow> registers_t \<Rightarrow> 'a kernel_state_scheme \<Rightarrow> (registers_t \<times> 'a kernel_state_scheme + 'a kernel_state_scheme) option" where
  "int80 cpl r s = (if int_target cpl True 0x80 s = Some (KERNEL_CS, syscall_stub_addr s) then syscall_stub r s else None)"

definition write_frame :: "registers_t \<Rightarrow> u32 \<Rightarrow> u32 \<Rightarrow> registers_t" where
  "write_frame r msg n = r\<lparr>r_eax := SYS_WRITE, r_ebx := 1, r_ecx := msg, r_edx := n\<rparr>"

definition cmd_syscall :: "registers_t \<Rightarrow> 'a shell_state_scheme \<Rightarrow> 'a shell_state_scheme outcome option" where
  "cmd_syscall r s = do {
     let s1 = vga_puts (str_bytes ''syscall test - calling sys_write via int 0x80'' @ [10]) s;
     res \<leftarrow> int80 0 (write_frame r (syscall_msg s1) 19) s1;
     case res of
       Inl (r', s2) \<Rightarrow>
         (let s3 = vga_puts (str_bytes ''sys_write returned: '') s2;
              s4 = vga_puthex (r_eax r') s3
          in Some (Back (vga_puts [10] s4)))
     | Inr s2 \<Rightarrow> Some (Spins s2)
   }"

definition cmd_tss :: "'a shell_state_scheme \<Rightarrow> 'a shell_state_scheme" where
  "cmd_tss s =
     (let s1 = vga_puts (str_bytes ''GDT/TSS check'' @ [10]) s;
          cs = seg_cs (segs s1); ds = seg_ds (segs s1); tr = task_register s1;
          s2 = vga_puts [10] (vga_puthex (ucast cs) (vga_puts (str_bytes ''CS = '') s1));
          s3 = vga_puts [10] (vga_puthex (ucast ds) (vga_puts (str_bytes ''DS = '') s2))
      in vga_puts [10] (vga_puthex (ucast tr) (vga_puts (str_bytes ''TR (task register) = '') s3)))"

text \<open>User code runs from pages that user mode can reach.\<close>

definition usermode_test_func :: "registers_t \<Rightarrow> 'a shell_state_scheme \<Rightarrow> 'a shell_state_scheme outcome option" where
  "usermode_test_func r s =
     (if user_access s (eip (regs s)) \<and> user_access s (esp (regs s) - 4)
      then do {
        res \<leftarrow> int80 (unat (seg_cs (segs s) AND 3)) (write_frame r (ring3_msg s) 17) s;
        case res of Inl (r', s1) \<Rightarrow> Some (Spins s1) | Inr s1 \<Rightarrow> Some (Spins s1)
      }
      else None)"

definition cmd_ring3 :: "registers_t \<Rightarrow> 'a shell_state_scheme \<Rightarrow> 'a shell_state_scheme outcome option" where
  "cmd_ring3 r s = do {
     let s1 = vga_puts (str_bytes ''dropping to ring 3...'' @ [10]) s;
     s2 \<leftarrow> vmm_mark_user_range (usermode_test_addr s1) 4096 s1;
     s3 \<leftarrow> vmm_mark_user_range (user_stack s2) 4096 s2;
     let s4 = tss_set_kernel_stack (syscall_kernel_stack s3 + 4096) s3;
     let s5 = enter_usermode (usermode_test_addr s4) (user_stack s4 + 4096) s4;
     usermode_test_func r s5
   }"

fun call_command ::
    "('a shell_state_scheme \<Rightarrow> 'a shell_state_scheme option) \<Rightarrow> registers_t \<Rightarrow> command_fn \<Rightarrow> u8 list \<Rightarrow>
     'a shell_state_scheme \<Rightarrow> 'a shell_state_scheme outcome option" where
  "call_command hlt r Cmd_help args s = Some (Back (cmd_help s))"
| "call_command hlt r Cmd_mem args s = Some (Back (cmd_mem s))"
| "call_command hlt r Cmd_timer args s = map_option Back (cmd_timer hlt s)"
| "call_command hlt r Cmd_reboot args s = Some (Back (cmd_reboot s))"
| "call_command hlt r Cmd_syscall args s = cmd_syscall r s"
| "call_command hlt r Cmd_tss args s = Some (Back (cmd_tss s))"
| "call_command hlt r Cmd_ring3 args s = cmd_ring3 r s"

definition keyboard_int_callback :: "'a kbd_state_scheme \<Rightarrow> 'a kbd_state_scheme" where
  "keyboard_int_callback s = s\<lparr>keyboard_interrupts := keyboard_interrupts s + 1\<rparr>"

section \<open>The command interpreter\<close>

text \<open>The local variables of \<open>run_command_interpreter\<close>: an array of 64 characters and the position in it.\<close>

record line =
  buffer :: "u8 list"
  pos :: nat

definition c_string :: "u8 list \<Rightarrow> u8 list" where
  "c_string bs = takeWhile (\<lambda>b. b \<noteq> 0) bs"

text \<open>The body of the loop for one character. A store outside the array would be undefined and is \<open>None\<close>.\<close>

definition interpreter_char ::
    "(command_fn \<Rightarrow> u8 list \<Rightarrow> 'a shell_state_scheme \<Rightarrow> 'a shell_state_scheme outcome option) \<Rightarrow>
     u8 \<Rightarrow> line \<Rightarrow> 'a shell_state_scheme \<Rightarrow> (line \<times> 'a shell_state_scheme) outcome option" where
  "interpreter_char call c ln s =
     (if c = 13 \<or> c = 10 then
        (if pos ln < length (buffer ln) then
           (let ln1 = ln\<lparr>buffer := (buffer ln)[pos ln := 0]\<rparr>
            in case shell_dispatch call (c_string (buffer ln1)) (vga_puts [10] s) of
                 None \<Rightarrow> None
               | Some (Spins t) \<Rightarrow> Some (Spins (ln1, t))
               | Some (Back t) \<Rightarrow> Some (Back (ln1\<lparr>pos := 0\<rparr>, vga_puts (str_bytes '' $ '') t)))
         else None)
      else if c = 8 \<and> pos ln > 0 then
        Some (Back (ln\<lparr>pos := pos ln - 1\<rparr>, vga_putchar 8 (vga_putchar 32 (vga_putchar 8 s))))
      else if 32 \<le> c \<and> c \<le> 126 \<and> pos ln < 63 then
        (if pos ln < length (buffer ln)
         then Some (Back (ln\<lparr>buffer := (buffer ln)[pos ln := c], pos := pos ln + 1\<rparr>, vga_putchar c s))
         else None)
      else Some (Back (ln, s)))"

text \<open>The loop, for the scan codes that the keyboard interrupts deliver from now on: an interrupt ends the \<open>hlt\<close> at the end of a
  round or the one in \<open>hal_keyboard_getchar\<close>. The loop itself never ends; its value is the state in which it waits for an interrupt
  after the last scan code, or \<open>None\<close> when it waits for more inside \<open>hal_keyboard_getchar\<close>. So every scan code arrives while the
  processor waits: the loss of a scan code that is overwritten in the one byte buffer before it is read, and timer interrupts, are left out.\<close>

lemma getchar_shortens: "hal_keyboard_getchar keys s = Some (c, t, ks) \<Longrightarrow> length ks \<le> length keys"
  using hal_keyboard_getchar_range by fastforce

function interpreter_loop ::
    "(command_fn \<Rightarrow> u8 list \<Rightarrow> 'a shell_state_scheme \<Rightarrow> 'a shell_state_scheme outcome option) \<Rightarrow>
     u8 list \<Rightarrow> line \<Rightarrow> 'a shell_state_scheme \<Rightarrow> (line \<times> 'a shell_state_scheme) outcome option" where
  "interpreter_loop call keys ln s =
     (if hal_keyboard_key_available s
      then (case hal_keyboard_getchar keys s of
              None \<Rightarrow> None
            | Some (c, s1, keys1) \<Rightarrow>
                (case interpreter_char call c ln s1 of
                   None \<Rightarrow> None
                 | Some (Spins r) \<Rightarrow> Some (Spins r)
                 | Some (Back (ln2, s2)) \<Rightarrow>
                     (case keys1 of
                        [] \<Rightarrow> Some (Back (ln2, s2))
                      | k # ks \<Rightarrow> interpreter_loop call ks ln2 (keyboard_deliver k s2))))
      else (case keys of
              [] \<Rightarrow> Some (Back (ln, s))
            | k # ks \<Rightarrow> interpreter_loop call ks ln (keyboard_deliver k s)))"
  by pat_completeness auto

termination interpreter_loop
  by (relation "measure (\<lambda>(call, keys, ln, s). length keys)") (auto dest!: getchar_shortens [OF sym] getchar_shortens)

declare interpreter_loop.simps [simp del]

definition run_command_interpreter ::
    "(command_fn \<Rightarrow> u8 list \<Rightarrow> 'a shell_state_scheme \<Rightarrow> 'a shell_state_scheme outcome option) \<Rightarrow>
     u8 list \<Rightarrow> u8 list \<Rightarrow> 'a shell_state_scheme \<Rightarrow> (line \<times> 'a shell_state_scheme) outcome option" where
  "run_command_interpreter call buf keys s =
     interpreter_loop call keys \<lparr>buffer = buf, pos = 0\<rparr> (vga_puts (10 # str_bytes '' $ '') s)"

section \<open>The kernel\<close>

definition register_commands :: "'a shell_state_scheme \<Rightarrow> 'a shell_state_scheme" where
  "register_commands s =
     (let reg = (\<lambda>nm h help t. snd (shell_register_command (str_bytes nm) h (str_bytes help) t));
          s1 = reg ''help'' Cmd_help ''Help'' s;
          s2 = reg ''mem'' Cmd_mem ''Memory test'' s1;
          s3 = reg ''timer'' Cmd_timer ''Test'' s2;
          s4 = reg ''reboot'' Cmd_reboot ''Reboot'' s3;
          s5 = reg ''syscall'' Cmd_syscall ''Test syscall path'' s4;
          s6 = reg ''tss'' Cmd_tss ''Check GDT/TSS state'' s5
      in reg ''ring3'' Cmd_ring3 ''Drop to ring 3 and test syscall'' s6)"

text \<open>\<open>kernel_main\<close> up to the call of the interpreter, and the whole function.\<close>

definition kernel_start :: "'a shell_state_scheme \<Rightarrow> 'a shell_state_scheme option" where
  "kernel_start s = do {
     s1 \<leftarrow> hal_serial_write (line_bytes ''STAGE1 scheduler_init'') 22 s;
     s2 \<leftarrow> Some (snd (scheduler_init s1));
     s3 \<leftarrow> hal_serial_write (line_bytes ''STAGE2 hal_init'') 16 s2;
     s4 \<leftarrow> hal_init s3;
     s5 \<leftarrow> hal_serial_write (line_bytes ''STAGE2c kmalloc_init'') 21 s4;
     let s6 = kmalloc_init s5;
     s7 \<leftarrow> hal_serial_write (line_bytes ''STAGE3 timer'') 13 s6;
     s8 \<leftarrow> hal_set_timer_frequency 100 s7;
     s9 \<leftarrow> hal_serial_write (line_bytes ''STAGE5 commands'') 16 s8;
     let s10 = register_commands s9;
     hal_serial_write (line_bytes ''STAGE6 interpreter'') 19 s10
   }"

definition kernel_main ::
    "('a shell_state_scheme \<Rightarrow> 'a shell_state_scheme option) \<Rightarrow> registers_t \<Rightarrow> u8 list \<Rightarrow> u8 list \<Rightarrow>
     'a shell_state_scheme \<Rightarrow> (line \<times> 'a shell_state_scheme) outcome option" where
  "kernel_main hlt r buf keys s = do {
     s1 \<leftarrow> kernel_start s;
     run_command_interpreter (call_command hlt r) buf keys s1
   }"

section \<open>Dispatch\<close>

lemma name_end_scan:
  assumes "i \<le> length input" and "i \<le> 31" and "32 \<notin> set (take i input)"
  shows "name_end input i = min 31 (length (takeWhile (\<lambda>b. b \<noteq> 32) input))"
  using assms
proof (induction input i rule: name_end.induct)
  case (1 input i)
  let ?w = "takeWhile (\<lambda>b. b \<noteq> 32) input"
  have split: "?w = take i input @ takeWhile (\<lambda>b. b \<noteq> 32) (drop i input)"
  proof -
    have "?w = takeWhile (\<lambda>b. b \<noteq> 32) (take i input @ drop i input)" by simp
    also have "\<dots> = take i input @ takeWhile (\<lambda>b. b \<noteq> 32) (drop i input)"
      using "1.prems"(3) by (intro takeWhile_append2) auto
    finally show ?thesis .
  qed
  show ?case
  proof (cases "i < length input \<and> input ! i \<noteq> 32 \<and> i < 31")
    case True
    then have "32 \<notin> set (take (i + 1) input)" using "1.prems"(3) by (simp add: take_Suc_conv_app_nth)
    then show ?thesis using "1.IH" [OF True] True by (simp add: name_end.simps [of input i])
  next
    case False
    then have "i = 31 \<or> takeWhile (\<lambda>b. b \<noteq> 32) (drop i input) = []"
      using "1.prems" by (cases "drop i input") (auto simp: drop_eq_Nil hd_drop_conv_nth [symmetric] neq_Nil_conv nth_via_drop)
    then show ?thesis using False "1.prems" by (auto simp: name_end.simps [of input i] split)
  qed
qed

lemma find_command_map_of: "find_command nm cs = map_of (map (\<lambda>c. (cmd_name c, handler c)) cs) nm"
  by (induction cs) auto

text \<open>The command table keeps the promise of a table of named things, as long as it has room.\<close>

interpretation cmds: name_table "\<lambda>_. True" "\<lambda>nm v s. length (command_table s) < MAX_COMMANDS"
  "\<lambda>nm v s. snd (shell_register_command nm (fst v) (snd v) s)" "\<lambda>nm s. find_command nm (command_table s)" fst
  by unfold_locales (auto simp: shell_register_command_def find_command_map_of map_add_def split: option.split)

lemma register_commands_find:
  assumes "length (command_table s) + 7 \<le> MAX_COMMANDS"
  shows "find_command nm (command_table (register_commands s)) =
    (case find_command nm (command_table s) of
       Some h \<Rightarrow> Some h
     | None \<Rightarrow> map_of [(str_bytes ''help'', Cmd_help), (str_bytes ''mem'', Cmd_mem), (str_bytes ''timer'', Cmd_timer),
         (str_bytes ''reboot'', Cmd_reboot), (str_bytes ''syscall'', Cmd_syscall), (str_bytes ''tss'', Cmd_tss), (str_bytes ''ring3'', Cmd_ring3)] nm)"
proof -
  let ?cs = "[(str_bytes ''help'', Cmd_help, str_bytes ''Help''), (str_bytes ''mem'', Cmd_mem, str_bytes ''Memory test''),
    (str_bytes ''timer'', Cmd_timer, str_bytes ''Test''), (str_bytes ''reboot'', Cmd_reboot, str_bytes ''Reboot''),
    (str_bytes ''syscall'', Cmd_syscall, str_bytes ''Test syscall path''), (str_bytes ''tss'', Cmd_tss, str_bytes ''Check GDT/TSS state''),
    (str_bytes ''ring3'', Cmd_ring3, str_bytes ''Drop to ring 3 and test syscall'')]"
  let ?add = "\<lambda>nm v s. snd (shell_register_command nm (fst v) (snd v) s)"
  have "admitted (\<lambda>nm v s. length (command_table s) < MAX_COMMANDS) ?add ?cs s"
    using assms by (simp add: shell_register_command_def)
  from cmds.find_adds [OF TrueI this, of nm] show ?thesis
    by (simp add: register_commands_def Let_def split: option.split)
qed

text \<open>
  C29: Dispatching a command line. The command word is what stands before the first space; with at most 31 characters it selects
  the first registered command of that name, which gets the text after that space, or nothing, and whose outcome is the
  outcome. When there is none, the shell reports the word as unknown on the screen and changes nothing else.
\<close>

theorem shell_dispatch_correct:
  assumes "32 \<notin> set word" and "length word \<le> 31" and "input = word \<and> args = [] \<or> input = word @ 32 # args"
    and "vga_index s < 2000" and "0 \<notin> set input"
  shows "case map_of (map (\<lambda>c. (cmd_name c, handler c)) (command_table s)) word of
      Some h \<Rightarrow> shell_dispatch call input s = call h args s
    | None \<Rightarrow> \<exists>t. shell_dispatch call input s = Some (Back t) \<and> console_effect s t \<and>
        terminal_of t = fold term_put (str_bytes ''Unknown command: '' @ word @ [10]) (terminal_of s)"
proof -
  have tw: "takeWhile (\<lambda>b. b \<noteq> 32) input = word"
    using assms(1,3) by (auto simp: takeWhile_append2 takeWhile_eq_all_conv intro!: takeWhile_append2 [where xs = word, simplified, THEN trans])
  then have i: "name_end input 0 = length word" using name_end_scan [of 0 input] assms(2) by simp
  have w: "take (length word) input = word" using assms(3) by auto
  have a: "(if length word < length input \<and> input ! length word = 32 then drop (length word + 1) input else drop (length word) input) = args"
    using assms(3) by auto
  have d: "shell_dispatch call input s = (case find_command word (command_table s) of Some h \<Rightarrow> call h args s
     | None \<Rightarrow> Some (Back (vga_puts [10] (vga_puts word (vga_puts (str_bytes ''Unknown command: '') s)))))"
    unfolding shell_dispatch_def Let_def i w a ..
  have z: "0 \<notin> set word" using assms(3,5) by auto
  let ?s1 = "vga_puts (str_bytes ''Unknown command: '') s"
  have p1: "terminal_of ?s1 = fold term_put (str_bytes ''Unknown command: '') (terminal_of s)" "vga_index ?s1 < 2000" "console_effect s ?s1"
    using vga_puts_effect [OF assms(4), of "str_bytes ''Unknown command: ''"] by (simp_all add: str_bytes_def)
  let ?s2 = "vga_puts word ?s1"
  have p2: "terminal_of ?s2 = fold term_put word (terminal_of ?s1)" "vga_index ?s2 < 2000" "console_effect ?s1 ?s2"
    using vga_puts_effect [OF p1(2) z] by simp_all
  let ?s3 = "vga_puts [10] ?s2"
  have p3: "terminal_of ?s3 = fold term_put [10] (terminal_of ?s2)" "console_effect ?s2 ?s3"
    using vga_puts_effect [OF p2(2), of "[10]"] by simp_all
  have "console_effect s ?s3" using console_effect_trans p1(3) p2(3) p3(2) by blast
  moreover have "terminal_of ?s3 = fold term_put (str_bytes ''Unknown command: '' @ word @ [10]) (terminal_of s)"
    using p1(1) p2(1) p3(1) by simp
  ultimately show ?thesis by (auto simp: d find_command_map_of split: option.splits)
qed

section \<open>Typing a line\<close>

text \<open>The reference: the characters that a sequence of scan codes types from the modifiers of a state on, the line after a
  character and what appears on the screen for it.\<close>

fun decode :: "u8 list \<Rightarrow> 'a kbd_state_scheme \<Rightarrow> u8 list" where
  "decode [] s = []"
| "decode (k # ks) s = (case getchar_step k s of (Some c, s1) \<Rightarrow> c # decode ks s1 | (None, s1) \<Rightarrow> decode ks s1)"

definition edit :: "u8 \<Rightarrow> u8 list \<Rightarrow> u8 list" where
  "edit c w = (if c = 8 then butlast w else if 32 \<le> c \<and> c \<le> 126 \<and> length w < 63 then w @ [c] else w)"

fun echo :: "u8 list \<Rightarrow> u8 list \<Rightarrow> u8 list" where
  "echo w [] = []"
| "echo w (c # cs) =
     (if c = 8 then (if w = [] then [] else [8, 32, 8]) else if 32 \<le> c \<and> c \<le> 126 \<and> length w < 63 then [c] else []) @
     echo (edit c w) cs"

text \<open>What a session changes besides: the keyboard variables, the screen and the history of the ports.\<close>

definition session_effect :: "'a shell_state_scheme \<Rightarrow> 'a shell_state_scheme \<Rightarrow> bool" where
  "session_effect s t \<longleftrightarrow>
     (\<exists>sh cp sc fl ki m i l. t = s\<lparr>shift_pressed := sh, caps_lock_on := cp, keyboard_scan_code := sc, keyboard_key_available_flag := fl,
        keyboard_interrupts := ki, mem := m, vga_index := i, io_log := l\<rparr>) \<and>
     (\<forall>a. a \<notin> screen_bytes \<longrightarrow> mem t a = mem s a)"

lemma session_effect_console: "console_effect s t \<Longrightarrow> session_effect s (t :: 'a shell_state_scheme)"
proof -
  assume "console_effect s t"
  then obtain m i l where t: "t = s\<lparr>mem := m, vga_index := i, io_log := l\<rparr>" "\<forall>a. a \<notin> screen_bytes \<longrightarrow> mem t a = mem s a"
    unfolding console_effect_def by blast
  have "t = s\<lparr>shift_pressed := shift_pressed s, caps_lock_on := caps_lock_on s, keyboard_scan_code := keyboard_scan_code s,
      keyboard_key_available_flag := keyboard_key_available_flag s, keyboard_interrupts := keyboard_interrupts s, mem := m, vga_index := i, io_log := l\<rparr>"
    unfolding t(1) by simp
  then show ?thesis unfolding session_effect_def using t(2) by blast
qed

lemma session_effect_trans: "session_effect s t \<Longrightarrow> session_effect t u \<Longrightarrow> session_effect s u"
  unfolding session_effect_def by force

lemma getchar_step_mods:
  "getchar_step k s = (fst (getchar_step k s),
     s\<lparr>shift_pressed := shift_pressed (snd (getchar_step k s)), caps_lock_on := caps_lock_on (snd (getchar_step k s))\<rparr>)"
  by (simp add: getchar_step_def)

lemma session_effect_key:
  assumes "getchar_step k (keyboard_deliver k s\<lparr>keyboard_key_available_flag := 0\<rparr>) = (o2, t)"
  shows "session_effect s t" and "terminal_of t = terminal_of s" and "\<not> hal_keyboard_key_available t" and "vga_index t = vga_index s"
proof -
  have t: "t = keyboard_deliver k s\<lparr>keyboard_key_available_flag := 0, shift_pressed := shift_pressed t, caps_lock_on := caps_lock_on t\<rparr>"
    using getchar_step_mods [of k "keyboard_deliver k s\<lparr>keyboard_key_available_flag := 0\<rparr>"] unfolding assms by simp
  define sh cp where "sh = shift_pressed t" and "cp = caps_lock_on t"
  have "t = s\<lparr>shift_pressed := sh, caps_lock_on := cp, keyboard_scan_code := k, keyboard_key_available_flag := 0,
        keyboard_interrupts := keyboard_interrupts s + 1, mem := mem s, vga_index := vga_index s, io_log := io_log s\<rparr>"
    using t unfolding sh_def [symmetric] cp_def [symmetric] keyboard_deliver_def by simp
  note t' = this
  have "mem t = mem s" unfolding t' by simp
  then show "session_effect s t" unfolding session_effect_def using t' by metis
  show "terminal_of t = terminal_of s" "\<not> hal_keyboard_key_available t" "vga_index t = vga_index s"
    unfolding t' by (simp_all add: terminal_of_def hal_keyboard_key_available_def)
qed

lemma decode_cong: "shift_pressed s = shift_pressed t \<Longrightarrow> caps_lock_on s = caps_lock_on t \<Longrightarrow> decode ks s = decode ks t"
proof (induction ks arbitrary: s t)
  case (Cons k ks)
  have f: "fst (getchar_step k s) = fst (getchar_step k t)" "shift_pressed (snd (getchar_step k s)) = shift_pressed (snd (getchar_step k t))"
    "caps_lock_on (snd (getchar_step k s)) = caps_lock_on (snd (getchar_step k t))"
    using Cons.prems by (simp_all add: getchar_step_def)
  show ?case using f(1) Cons.IH [OF f(2,3)] by (cases "getchar_step k s"; cases "getchar_step k t") (auto split: option.splits)
qed simp

lemma decode_range: "c \<in> set (decode ks s) \<Longrightarrow> c \<in> {8, 9, 10} \<or> 32 \<le> c \<and> c \<le> 126"
proof (induction ks arbitrary: s)
  case (Cons k ks)
  obtain o2 t where g: "getchar_step k s = (o2, t)" by fastforce
  show ?case
  proof (cases o2)
    case None
    then show ?thesis using Cons g by simp
  next
    case (Some d)
    have "key_char k (shift_pressed s) (caps_lock_on s) = Some d" using getchar_step_Some [of k s d t] g Some by simp
    then have "d \<in> {8, 9, 10} \<or> 32 \<le> d \<and> d \<le> 126" using key_char_range [of k "shift_pressed s" "caps_lock_on s" d] by simp
    then show ?thesis using Cons g Some by auto
  qed
qed simp

text \<open>One scan code in the loop.\<close>

abbreviation after_key :: "u8 \<Rightarrow> 'a shell_state_scheme \<Rightarrow> u8 option \<times> 'a shell_state_scheme" where
  "after_key k s \<equiv> getchar_step k (keyboard_deliver k s\<lparr>keyboard_key_available_flag := 0\<rparr>)"

lemma interpreter_waits: "\<not> hal_keyboard_key_available s \<Longrightarrow> interpreter_loop call [] ln s = Some (Back (ln, s))"
  by (simp add: interpreter_loop.simps [of _ "[]"])

lemma interpreter_next:
  "\<not> hal_keyboard_key_available s \<Longrightarrow> interpreter_loop call (k # ks) ln s = interpreter_loop call ks ln (keyboard_deliver k s)"
  by (simp add: interpreter_loop.simps [of _ "k # ks"])

lemma interpreter_getchar:
  assumes "\<not> hal_keyboard_key_available s"
  shows "interpreter_loop call (k # ks) ln s = (case hal_keyboard_getchar (k # ks) s of
      None \<Rightarrow> None
    | Some (c, s1, keys1) \<Rightarrow>
        (case interpreter_char call c ln s1 of
           None \<Rightarrow> None
         | Some (Spins r) \<Rightarrow> Some (Spins r)
         | Some (Back (ln2, s2)) \<Rightarrow>
             (case keys1 of [] \<Rightarrow> Some (Back (ln2, s2)) | k # ks \<Rightarrow> interpreter_loop call ks ln2 (keyboard_deliver k s2))))"
proof -
  have av: "hal_keyboard_key_available (keyboard_deliver k s)" by (simp add: hal_keyboard_key_available_def keyboard_deliver_def)
  have "hal_keyboard_getchar (k # ks) s = hal_keyboard_getchar ks (keyboard_deliver k s)"
    using assms by (simp add: hal_keyboard_getchar.simps [of "k # ks" s])
  then show ?thesis using interpreter_next [OF assms] av by (simp add: interpreter_loop.simps [of call ks ln "keyboard_deliver k s"])
qed

lemma interpreter_silent:
  assumes "\<not> hal_keyboard_key_available s" and "after_key k s = (None, t)" and "ks \<noteq> []"
  shows "interpreter_loop call (k # ks) ln s = interpreter_loop call ks ln t"
proof -
  obtain j js where ks: "ks = j # js" using assms(3) by (cases ks) auto
  have "\<not> hal_keyboard_key_available t" by (rule session_effect_key(3) [OF assms(2)])
  note nx = interpreter_getchar [OF this, of call j js ln, folded ks]
  have "hal_keyboard_getchar (k # ks) s = hal_keyboard_getchar ks t" using assms(1,2) by (simp add: getchar_deliver)
  then show ?thesis unfolding nx interpreter_getchar [OF assms(1)] by simp
qed

lemma interpreter_typed:
  assumes "\<not> hal_keyboard_key_available s" and "after_key k s = (Some c, t)"
    and "interpreter_char call c ln t = Some (Back (ln2, s2))" and "\<not> hal_keyboard_key_available s2"
  shows "interpreter_loop call (k # ks) ln s = interpreter_loop call ks ln2 s2"
proof -
  have "hal_keyboard_getchar (k # ks) s = Some (c, t, ks)" using assms(1,2) by (simp add: getchar_deliver)
  then show ?thesis using interpreter_getchar [OF assms(1)] assms(3,4)
    by (cases ks) (simp_all add: interpreter_waits interpreter_next)
qed

text \<open>A line under construction holds a word.\<close>

definition holds :: "u8 list \<Rightarrow> line \<Rightarrow> bool" where
  "holds w ln \<longleftrightarrow> length (buffer ln) = 64 \<and> pos ln = length w \<and> take (pos ln) (buffer ln) = w \<and> length w \<le> 63 \<and> 0 \<notin> set w"

lemma holds_char:
  assumes "holds w ln" and "c \<noteq> 10" and "c \<noteq> 13" and "vga_index s < 2000" and "\<not> hal_keyboard_key_available s"
  shows "\<exists>ln2 s2. interpreter_char call c ln s = Some (Back (ln2, s2)) \<and> holds (edit c w) ln2 \<and> \<not> hal_keyboard_key_available s2 \<and>
    terminal_of s2 = fold term_put (echo w [c]) (terminal_of s) \<and> session_effect s s2 \<and> vga_index s2 < 2000 \<and>
    shift_pressed s2 = shift_pressed s \<and> caps_lock_on s2 = caps_lock_on s"
proof -
  have keep: "\<not> hal_keyboard_key_available s2 \<and> session_effect s s2 \<and> shift_pressed s2 = shift_pressed s \<and> caps_lock_on s2 = caps_lock_on s"
    if "console_effect s s2" for s2
    using session_effect_console [OF that] that assms(5) by (auto simp: console_effect_def hal_keyboard_key_available_def)
  note h = assms(1) [unfolded holds_def]
  consider "c = 8" "w \<noteq> []" | "c \<noteq> 8" "32 \<le> c" "c \<le> 126" "length w < 63" | "c = 8" "w = []" | "c \<noteq> 8" "\<not> (32 \<le> c \<and> c \<le> 126 \<and> length w < 63)"
    by blast
  then show ?thesis
  proof cases
    case 1
    define s1 s2 s3 where s: "s1 = vga_putchar 8 s" "s2 = vga_putchar 32 s1" "s3 = vga_putchar 8 s2"
    note p = vga_putchar_effect [OF assms(4), of 8, folded s] and
    q = vga_putchar_effect [OF vga_putchar_effect(2) [OF assms(4), of 8, folded s], of 32, folded s]
    note r = vga_putchar_effect [OF q(2), of 8, folded s]
    have e: "console_effect s s3" using p(3) q(3) r(3) console_effect_trans by blast
    have "take (pos ln - 1) (buffer ln) = butlast w" using h butlast_take [of "pos ln" "buffer ln"] by auto
    then have "holds (butlast w) (ln\<lparr>pos := pos ln - 1\<rparr>)" using h in_set_butlastD [of 0 w] by (auto simp: holds_def)
    then show ?thesis using 1 h keep [OF e] p(1) q(1) r(1,2)
      by (intro exI [of _ "ln\<lparr>pos := pos ln - 1\<rparr>"] exI [of _ s3]) (simp add: interpreter_char_def edit_def s)
  next
    case 2
    note p = vga_putchar_effect [OF assms(4), of c]
    have "holds (w @ [c]) (ln\<lparr>buffer := (buffer ln)[pos ln := c], pos := pos ln + 1\<rparr>)" using h 2
      by (auto simp: holds_def take_Suc_conv_app_nth)
    then show ?thesis using 2 h keep [OF p(3)] p(1,2) assms(2,3)
      by (intro exI [of _ "ln\<lparr>buffer := (buffer ln)[pos ln := c], pos := pos ln + 1\<rparr>"] exI [of _ "vga_putchar c s"]) (simp add: interpreter_char_def edit_def)
  qed (use assms keep [OF console_effect_refl] h in \<open>auto simp: interpreter_char_def edit_def\<close>)
qed

lemma echo_Cons: "echo w (c # cs) = echo w [c] @ echo (edit c w) cs"
  by simp

lemma interpreter_types:
  assumes "\<not> hal_keyboard_key_available s" and "rest \<noteq> []" and "10 \<notin> set (decode keys s)" and "holds w ln" and "vga_index s < 2000"
  shows "\<exists>ln2 s2. interpreter_loop call (keys @ rest) ln s = interpreter_loop call rest ln2 s2 \<and> \<not> hal_keyboard_key_available s2 \<and>
    holds (fold edit (decode keys s) w) ln2 \<and> terminal_of s2 = fold term_put (echo w (decode keys s)) (terminal_of s) \<and>
    session_effect s s2 \<and> vga_index s2 < 2000"
  using assms
proof (induction keys arbitrary: w ln s)
  case Nil
  then show ?case using session_effect_console [OF console_effect_refl] by force
next
  case (Cons k keys)
  let ?s = "keyboard_deliver k s\<lparr>keyboard_key_available_flag := 0\<rparr>"
  obtain o2 t where g: "after_key k s = (o2, t)" by fastforce
  note e = session_effect_key [OF g]
  obtain u where gs: "getchar_step k s = (o2, u)" and mods: "shift_pressed u = shift_pressed t" "caps_lock_on u = caps_lock_on t"
  proof -
    have "fst (getchar_step k s) = fst (after_key k s)" "shift_pressed (snd (getchar_step k s)) = shift_pressed (snd (after_key k s))"
      "caps_lock_on (snd (getchar_step k s)) = caps_lock_on (snd (after_key k s))"
      by (simp_all add: getchar_step_def keyboard_deliver_def)
    then show thesis using that [of "snd (getchar_step k s)"] g by (cases "getchar_step k s") auto
  qed
  have dec: "decode keys u = decode keys x" if "shift_pressed x = shift_pressed t" "caps_lock_on x = caps_lock_on t" for x :: "'a shell_state_scheme"
    by (rule decode_cong) (use mods that in simp_all)
  show ?case
  proof (cases o2)
    case None
    have d: "decode (k # keys) s = decode keys t" using gs None dec [of t] by simp
    have "interpreter_loop call ((k # keys) @ rest) ln s = interpreter_loop call (keys @ rest) ln t"
      using interpreter_silent [OF Cons.prems(1), of k t "keys @ rest"] g None Cons.prems(2) by simp
    moreover obtain ln2 s2 where "interpreter_loop call (keys @ rest) ln t = interpreter_loop call rest ln2 s2" "\<not> hal_keyboard_key_available s2"
      "holds (fold edit (decode keys t) w) ln2" "terminal_of s2 = fold term_put (echo w (decode keys t)) (terminal_of t)"
      "session_effect t s2" "vga_index s2 < 2000"
      using Cons.IH [OF e(3) Cons.prems(2) Cons.prems(3) [unfolded d] Cons.prems(4)] Cons.prems(5) e(4) by auto
    ultimately show ?thesis using session_effect_trans [OF e(1)] e(2) unfolding d by (intro exI [of _ ln2] exI [of _ s2]) simp
  next
    case (Some c)
    have d: "decode (k # keys) s = c # decode keys u" using gs Some by simp
    have c: "c \<noteq> 10" "c \<noteq> 13" using Cons.prems(3) [unfolded d] decode_range [of c "k # keys" s, unfolded d] by auto
    obtain ln1 s1 where i: "interpreter_char call c ln t = Some (Back (ln1, s1))" "holds (edit c w) ln1" "\<not> hal_keyboard_key_available s1"
      "terminal_of s1 = fold term_put (echo w [c]) (terminal_of t)" "session_effect t s1" "vga_index s1 < 2000"
      "shift_pressed s1 = shift_pressed t" "caps_lock_on s1 = caps_lock_on t"
      using holds_char [OF Cons.prems(4) c, of t call] e(3,4) Cons.prems(5) by auto
    have d2: "decode (k # keys) s = c # decode keys s1" using d dec [of s1] i(7,8) by simp
    have "interpreter_loop call ((k # keys) @ rest) ln s = interpreter_loop call (keys @ rest) ln1 s1"
      using interpreter_typed [OF Cons.prems(1) _ i(1,3)] g Some by simp
    moreover obtain ln2 s2 where "interpreter_loop call (keys @ rest) ln1 s1 = interpreter_loop call rest ln2 s2" "\<not> hal_keyboard_key_available s2"
      "holds (fold edit (decode keys s1) (edit c w)) ln2" "terminal_of s2 = fold term_put (echo (edit c w) (decode keys s1)) (terminal_of s1)"
      "session_effect s1 s2" "vga_index s2 < 2000"
      using Cons.IH [OF i(3) Cons.prems(2) _ i(2,6)] Cons.prems(3) [unfolded d2] by auto
    moreover have "session_effect s s2" using session_effect_trans e(1) i(5) calculation(6) by blast
    ultimately show ?thesis unfolding d2 using i(4) e(2) echo_Cons [of w c "decode keys s1"] by (intro exI [of _ ln2] exI [of _ s2]) (simp del: echo.simps)
  qed
qed

lemma holds_string: "holds w ln \<Longrightarrow> c_string ((buffer ln)[pos ln := 0]) = w"
proof -
  assume h: "holds w ln"
  then have "pos ln < length (buffer ln)" by (simp add: holds_def)
  then have "(buffer ln)[pos ln := 0] = take (pos ln) (buffer ln) @ 0 # drop (Suc (pos ln)) (buffer ln)" by (rule upd_conv_take_nth_drop)
  also have "take (pos ln) (buffer ln) = w" using h unfolding holds_def by blast
  finally have eq: "(buffer ln)[pos ln := 0] = w @ 0 # drop (Suc (pos ln)) (buffer ln)" .
  have "\<forall>b\<in>set w. b \<noteq> 0" using h by (auto simp: holds_def)
  then show ?thesis by (simp add: c_string_def eq takeWhile_append2)
qed

text \<open>
  C15: Typing a command. From a prompt with an empty line, whatever keys are pressed before Return, no character is stored outside the
  buffer of 64 bytes; the command line dispatched is the text typed, edited as a line is: a backspace deletes the last
  character, printable characters are appended up to 63 and the other keys are ignored. The screen has shown exactly that editing
  and a line feed when the command runs, nothing but the keyboard variables and the screen has changed until then, and a command that
  comes back is followed by a new prompt with an empty line.
\<close>

theorem interpreter_line_correct:
  assumes "\<not> hal_keyboard_key_available s" and "vga_index s < 2000" and "length buf = 64" and "10 \<notin> set (decode keys s)"
  shows "\<exists>s1 ln. terminal_of s1 = fold term_put (echo [] (decode keys s) @ [10]) (terminal_of s) \<and> session_effect s s1 \<and>
    interpreter_loop call (keys @ [0x1C]) \<lparr>buffer = buf, pos = 0\<rparr> s =
      (case shell_dispatch call (fold edit (decode keys s) []) s1 of
         None \<Rightarrow> None
       | Some (Spins t) \<Rightarrow> Some (Spins (ln, t))
       | Some (Back t) \<Rightarrow>
           Some (Back (ln\<lparr>pos := 0\<rparr>, vga_puts (str_bytes '' $ '') t)))"
proof -
  have h: "holds [] \<lparr>buffer = buf, pos = 0\<rparr>" using assms(3) by (simp add: holds_def)
  obtain ln s2 where i: "interpreter_loop call (keys @ [0x1C]) \<lparr>buffer = buf, pos = 0\<rparr> s = interpreter_loop call [0x1C] ln s2"
    "\<not> hal_keyboard_key_available s2" "holds (fold edit (decode keys s) []) ln"
    "terminal_of s2 = fold term_put (echo [] (decode keys s)) (terminal_of s)" "session_effect s s2" "vga_index s2 < 2000"
    using interpreter_types [OF assms(1) _ assms(4) h assms(2), of "[0x1C]" call] by auto
  obtain t where g: "after_key 0x1C s2 = (Some 10, t)"
    by (simp add: getchar_step_def key_char_def return_keys_def)
  note e = session_effect_key [OF g]
  have p: "terminal_of (vga_puts [10] t) = fold term_put [10] (terminal_of t)" "console_effect t (vga_puts [10] t)"
    using vga_puts_effect [of t "[10]"] e(4) i(6) by simp_all
  have "hal_keyboard_getchar [0x1C] s2 = Some (10, t, [])" using i(2) g by (simp add: getchar_deliver)
  then have "interpreter_loop call [0x1C] ln s2 = (case interpreter_char call 10 ln t of
      None \<Rightarrow> None | Some (Spins r) \<Rightarrow> Some (Spins r) | Some (Back (ln2, s2)) \<Rightarrow> Some (Back (ln2, s2)))"
    using interpreter_getchar [OF i(2), of call "0x1C" "[]" ln] by (simp cong: outcome.case_cong option.case_cong)
  moreover have "pos ln < length (buffer ln)" using i(3) by (simp add: holds_def)
  ultimately have loop: "interpreter_loop call [0x1C] ln s2 =
      (case shell_dispatch call (fold edit (decode keys s) []) (vga_puts [10] t) of
         None \<Rightarrow> None
       | Some (Spins t) \<Rightarrow> Some (Spins (ln\<lparr>buffer := (buffer ln)[pos ln := 0]\<rparr>, t))
       | Some (Back t) \<Rightarrow> Some (Back (ln\<lparr>buffer := (buffer ln)[pos ln := 0]\<rparr>\<lparr>pos := 0\<rparr>, vga_puts (str_bytes '' $ '') t)))"
    by (simp add: interpreter_char_def holds_string [OF i(3)] Let_def split: option.splits outcome.splits)
  have eff: "session_effect s (vga_puts [10] t)"
    using session_effect_trans i(5) e(1) session_effect_console [OF p(2)] by blast
  have scr: "terminal_of (vga_puts [10] t) = fold term_put (echo [] (decode keys s) @ [10]) (terminal_of s)"
    using p(1) e(2) i(4) by simp
  show ?thesis unfolding i(1) loop using eff scr
    by (intro exI [of _ "vga_puts [10] t"] exI [of _ "ln\<lparr>buffer := (buffer ln)[pos ln := 0]\<rparr>"]) simp
qed

section \<open>Booting the kernel\<close>

lemma hal_init_keeps:
  assumes "boots s" and "hal_init s = Some t"
  shows "device t = device s" "pmm t = pmm_init (pmm s)" "cr3 t = kernel_page_directory s"
    "kernel_page_directory t = kernel_page_directory s" "kernel_page_table t = kernel_page_table s"
    "identity_dir (kernel_page_directory s) (kernel_page_table s) t"
    "procs t = procs s" "queues t = queues s" "current_process t = current_process s" "free_list t = free_list s" "sleep_list t = sleep_list s"
    "irq_state.more t = irq_state.more s" "vga_index t = vga_index s" "timer_callback t = timer_callback s"
    "keyboard_key_available_flag t = keyboard_key_available_flag s" "regs t = regs s" "tick_count t = tick_count s"
    "syscall_stub_addr t = syscall_stub_addr s"
proof -
  have len: "length (idt_entries s) = IDT_ENTRY_COUNT" using assms(1) by (simp add: boots_def)
  obtain v l t' m where t': "hal_init s = Some t'" "t' = sti (pic_enable_irq 1 (pic_enable_irq 0 v))"
    and v: "v = (boot_tables s)\<lparr>pmm := pmm_init (pmm s), mem := m, cr3 := kernel_page_directory s, cr0 := cr0 (boot_tables s) OR 0x80000000,
       pit_timer_callback := None, dma_initialized := True, io_log := io_log s @ pic_init_events @ l\<rparr>"
    and idn: "identity_dir (kernel_page_directory s) (kernel_page_table s) v"
    by (rule hal_init_state [OF assms(1)])
  obtain a where a: "pic_enable_irq 0 v = v\<lparr>io_log := io_log v @ a\<rparr>" using pic_enable_low [of 0 v] by auto
  obtain c where c: "pic_enable_irq 1 (pic_enable_irq 0 v) = v\<lparr>io_log := io_log v @ a @ c\<rparr>"
    using pic_enable_low [of 1 "pic_enable_irq 0 v"] a by auto
  have te: "t = v\<lparr>io_log := io_log v @ a @ c, eflags := eflags v OR 0x200\<rparr>" using t' assms(2) unfolding c sti_def by simp
  have "mem t = mem v" by (simp add: te)
  then show "identity_dir (kernel_page_directory s) (kernel_page_table s) t" using idn by (simp add: identity_dir_mem [of t v])
  note f = boot_tables_frame [OF len] boot_tables_keeps [OF len]
  show "device t = device s" "pmm t = pmm_init (pmm s)" "cr3 t = kernel_page_directory s"
    "kernel_page_directory t = kernel_page_directory s" "kernel_page_table t = kernel_page_table s"
    "procs t = procs s" "queues t = queues s" "current_process t = current_process s" "free_list t = free_list s" "sleep_list t = sleep_list s"
    "irq_state.more t = irq_state.more s" "vga_index t = vga_index s" "timer_callback t = timer_callback s"
    "keyboard_key_available_flag t = keyboard_key_available_flag s" "regs t = regs s" "tick_count t = tick_count s"
    "syscall_stub_addr t = syscall_stub_addr s"
    by (simp_all add: te v f)
qed

lemma shell_fields_more:
  assumes "irq_state.more t = irq_state.more (s :: 'a shell_state_scheme)"
  shows "command_table t = command_table s" "usermode_test_addr t = usermode_test_addr s" "user_stack t = user_stack s"
    "syscall_kernel_stack t = syscall_kernel_stack s" "ring3_msg t = ring3_msg s" "syscall_msg t = syscall_msg s" "msgs t = msgs s"
  using assms by (cases s; cases t; simp)+

lemma alone_cong:
  assumes "procs t = procs s" "queues t = queues s" "current_process t = current_process s" "free_list t = free_list s" "sleep_list t = sleep_list s"
  shows "alone t = alone s" "free_procs t = free_procs s"
  unfolding alone_def sched_ok_def sched_inv_def sched_lists_def free_procs_def ready_list_def sleepers_def assms by simp_all

lemma scheduler_init_alone:
  assumes "sleep_list s = None"
  shows "alone (snd (scheduler_init s))" and "free_procs (snd (scheduler_init s)) = pool_refs"
proof -
  note i = scheduler_init_run [OF assms]
  note l = sched_inv_lists [OF i(1)]
  show "alone (snd (scheduler_init s))" unfolding alone_def using i(2-4) l by simp
  show "free_procs (snd (scheduler_init s)) = pool_refs" by (rule l(1))
qed

lemma register_commands_run:
  assumes "command_table s = []"
  shows "\<exists>tab. register_commands s = s\<lparr>command_table := tab\<rparr> \<and>
    map (\<lambda>c. (cmd_name c, handler c)) tab =
      [(str_bytes ''help'', Cmd_help), (str_bytes ''mem'', Cmd_mem), (str_bytes ''timer'', Cmd_timer), (str_bytes ''reboot'', Cmd_reboot),
       (str_bytes ''syscall'', Cmd_syscall), (str_bytes ''tss'', Cmd_tss), (str_bytes ''ring3'', Cmd_ring3)]"
  using assms by (intro exI [of _ "command_table (register_commands s)"]) (simp add: register_commands_def shell_register_command_def MAX_COMMANDS_def Let_def)

text \<open>\<open>powered_on s\<close>: the state in which the boot code calls \<open>kernel_main\<close>. The static variables have their initial values.\<close>

definition powered_on :: "'a shell_state_scheme \<Rightarrow> bool" where
  "powered_on s \<longleftrightarrow> boots s \<and> sleep_list s = None \<and> command_table s = []"

lemma kernel_start_run:
  assumes "powered_on s"
  obtains s3 t4 l h tab where "boots s3" and "hal_init s3 = Some t4"
    and "kernel_start s = Some (t4\<lparr>io_log := l, heap_head := 0, heap_end := KHEAP_START, current_hz := 100, command_table := tab\<rparr>)"
    and "map (\<lambda>c. (cmd_name c, handler c)) tab =
      [(str_bytes ''help'', Cmd_help), (str_bytes ''mem'', Cmd_mem), (str_bytes ''timer'', Cmd_timer), (str_bytes ''reboot'', Cmd_reboot),
       (str_bytes ''syscall'', Cmd_syscall), (str_bytes ''tss'', Cmd_tss), (str_bytes ''ring3'', Cmd_ring3)]"
    and "alone s3" and "free_procs s3 = pool_refs" and "\<exists>P f q c b i. s3 = s\<lparr>procs := P, free_list := f, queues := q, current_process := c, sleep_list := b, io_log := i\<rparr>"
proof -
  note a = assms [unfolded powered_on_def]
  have ans: "thr_answers (device s)" using a by (simp add: boots_def)
  obtain l1 where s1: "hal_serial_write (line_bytes ''STAGE1 scheduler_init'') 22 s = Some (s\<lparr>io_log := l1\<rparr>)"
    by (rule serial_line [OF ans, of 22 "''STAGE1 scheduler_init''"]) simp_all
  let ?s1 = "s\<lparr>io_log := l1\<rparr>"
  define s2 where "s2 = snd (scheduler_init ?s1)"
  have sl: "sleep_list ?s1 = None" using a by simp
  obtain P f q c b where s2: "s2 = ?s1\<lparr>procs := P, free_list := f, queues := q, current_process := c, sleep_list := b\<rparr>"
    using scheduler_init_only [of ?s1] unfolding s2_def [symmetric] sched_only_def by blast
  obtain l3 where s3: "hal_serial_write (line_bytes ''STAGE2 hal_init'') 16 s2 = Some (s2\<lparr>io_log := l3\<rparr>)"
    by (rule serial_line [of s2 16 "''STAGE2 hal_init''"]) (use ans in \<open>simp_all add: s2\<close>)
  let ?s3 = "s2\<lparr>io_log := l3\<rparr>"
  have e3: "?s3 = s\<lparr>procs := P, free_list := f, queues := q, current_process := c, sleep_list := b, io_log := l3\<rparr>" by (simp add: s2)
  have b3: "boots ?s3" using a unfolding e3 by (simp add: boots_def)
  obtain t4 where t4: "hal_init ?s3 = Some t4" using hal_init_returns [OF b3] by blast
  have d4: "thr_answers (device t4)" using hal_init_keeps(1) [OF b3 t4] ans by (simp add: s2)
  obtain l5 where s5: "hal_serial_write (line_bytes ''STAGE2c kmalloc_init'') 21 t4 = Some (t4\<lparr>io_log := l5\<rparr>)"
    by (rule serial_line [OF d4, of 21 "''STAGE2c kmalloc_init''"]) simp_all
  let ?s6 = "t4\<lparr>io_log := l5, heap_head := 0, heap_end := KHEAP_START\<rparr>"
  obtain l7 where s7: "hal_serial_write (line_bytes ''STAGE3 timer'') 13 ?s6 = Some (?s6\<lparr>io_log := l7\<rparr>)"
    by (rule serial_line [of ?s6 13 "''STAGE3 timer''"]) (use d4 in simp_all)
  obtain l8 where s8: "pit_set_frequency 100 (?s6\<lparr>io_log := l7\<rparr>) = Some (?s6\<lparr>io_log := l8\<rparr>)"
    by (simp add: pit_set_frequency_def Let_def outb_def io_emit_def)
  let ?s8 = "?s6\<lparr>io_log := l8, current_hz := 100\<rparr>"
  obtain l9 where s9: "hal_serial_write (line_bytes ''STAGE5 commands'') 16 ?s8 = Some (?s8\<lparr>io_log := l9\<rparr>)"
    by (rule serial_line [of ?s8 16 "''STAGE5 commands''"]) (use d4 in simp_all)
  have "command_table t4 = command_table ?s3" by (rule shell_fields_more(1) [OF hal_init_keeps(12) [OF b3 t4]])
  then have c0: "command_table (?s8\<lparr>io_log := l9\<rparr>) = []" using a by (simp add: s2)
  from register_commands_run [OF c0] obtain tab where tab: "register_commands (?s8\<lparr>io_log := l9\<rparr>) = ?s8\<lparr>io_log := l9\<rparr>\<lparr>command_table := tab\<rparr>"
    "map (\<lambda>c. (cmd_name c, handler c)) tab =
      [(str_bytes ''help'', Cmd_help), (str_bytes ''mem'', Cmd_mem), (str_bytes ''timer'', Cmd_timer), (str_bytes ''reboot'', Cmd_reboot),
       (str_bytes ''syscall'', Cmd_syscall), (str_bytes ''tss'', Cmd_tss), (str_bytes ''ring3'', Cmd_ring3)]"
    by (elim exE conjE)
  let ?s10 = "?s8\<lparr>io_log := l9\<rparr>\<lparr>command_table := tab\<rparr>"
  obtain l11 where s11: "hal_serial_write (line_bytes ''STAGE6 interpreter'') 19 ?s10 = Some (?s10\<lparr>io_log := l11\<rparr>)"
    by (rule serial_line [of ?s10 19 "''STAGE6 interpreter''"]) (use d4 in simp_all)
  have "kernel_start s = Some (?s10\<lparr>io_log := l11\<rparr>)"
    unfolding kernel_start_def s1 bind.bind_lunit s2_def [symmetric] s3 t4 s5 Let_def kmalloc_init_def hal_set_timer_frequency_def
    using s7 s8 s9 tab(1) s11 by simp
  then have run: "kernel_start s = Some (t4\<lparr>io_log := l11, heap_head := 0, heap_end := KHEAP_START, current_hz := 100, command_table := tab\<rparr>)" by simp
  have al: "alone ?s3" "free_procs ?s3 = pool_refs"
    using scheduler_init_alone [OF sl] alone_cong [of ?s3 s2] by (simp_all add: s2_def)
  show thesis by (rule that [OF b3 t4 run tab(2) al]) (use e3 in blast)
qed

lemma walk_in_mem: "mem t = mem s \<Longrightarrow> walk_in d t va = walk_in d s va"
  by (simp add: walk_in_def Let_def entry_get_mem [of t s])

lemma kernel_space_boot:
  assumes "kernel_layout (kernel_page_directory t) (kernel_page_table t)" and "pmm_wf p" and "pmm t = pmm_init p"
    and "identity_dir (kernel_page_directory t) (kernel_page_table t) t"
  shows "kernel_space t"
  unfolding kernel_space_def using assms managed_frame_upper
  by (auto simp: pmm_init_free_pages pmm_init_frames intro: identity_dir_low)

lemma boot_dir_wf:
  assumes "kernel_space t" and "identity_dir (kernel_page_directory t) (kernel_page_table t) t"
  shows "dir_wf (kernel_page_directory t) t"
proof -
  have lay: "kernel_layout (kernel_page_directory t) (kernel_page_table t)" and fr: "\<forall>a\<in>free_frames (pmm t). 0x200000 \<le> unat a"
    using assms(1) by (auto simp: kernel_space_def)
  have "kernel_page_directory t \<noteq> ktable (kernel_page_table t) i" if "i < 20" for i
    using unat_ktable [OF lay that] lay that by (auto simp: kernel_layout_def)
  then show ?thesis
    by (intro identity_dir_wf [OF lay assms(2)]) (use assms(1) lay fr in \<open>auto simp: kernel_space_def kernel_layout_def\<close>)
qed

text \<open>
  C9: The kernel comes up. From the state in which the boot code calls it, \<open>kernel_main\<close> reaches the command interpreter: interrupts are
  enabled, paging is on with exactly the first 80 MB mapped to themselves, all managed frames above the kernel are free, the heap is a
  well-formed empty heap, the boot thread runs as the idle process and is the only process, with all 64 control blocks free, the
  timer runs at 100 Hz, every exception and device vector goes to its stub and only vector 0x80 is open to user code, and
  the seven commands are registered, no two under one name.
\<close>

theorem kernel_start_correct:
  assumes "powered_on s"
  shows "\<exists>t. kernel_start s = Some t \<and> interrupt_flag t \<and> mapped_low t \<and> free_frames (pmm t) = page_addr ` {256..<16128} \<and>
    kernel_space t \<and> heap_inv t [] \<and> alone t \<and> free_procs t = map Pool [0..<64] \<and> current_hz t = 100 \<and>
    (\<forall>cpl\<le>3. \<forall>software n. int_target cpl software n t =
      (if n < 48 \<and> (software \<longrightarrow> cpl = 0) then Some (KERNEL_CS, isr_addr s n)
       else if n = 0x80 then Some (KERNEL_CS, syscall_stub_addr s) else None)) \<and>
    map cmd_name (command_table t) = map str_bytes [''help'', ''mem'', ''timer'', ''reboot'', ''syscall'', ''tss'', ''ring3''] \<and>
    distinct (map cmd_name (command_table t))"
proof -
  obtain s3 t4 l tab where b: "boots s3" "hal_init s3 = Some t4"
    and run: "kernel_start s = Some (t4\<lparr>io_log := l, heap_head := 0, heap_end := KHEAP_START, current_hz := 100, command_table := tab\<rparr>)"
    and tab: "map (\<lambda>c. (cmd_name c, handler c)) tab =
      [(str_bytes ''help'', Cmd_help), (str_bytes ''mem'', Cmd_mem), (str_bytes ''timer'', Cmd_timer), (str_bytes ''reboot'', Cmd_reboot),
       (str_bytes ''syscall'', Cmd_syscall), (str_bytes ''tss'', Cmd_tss), (str_bytes ''ring3'', Cmd_ring3)]"
    and al: "alone s3" "free_procs s3 = pool_refs"
    and s3: "\<exists>P f q c b i. s3 = s\<lparr>procs := P, free_list := f, queues := q, current_process := c, sleep_list := b, io_log := i\<rparr>"
    by (rule kernel_start_run [OF assms])
  let ?t = "t4\<lparr>io_log := l, heap_head := 0, heap_end := KHEAP_START, current_hz := 100, command_table := tab\<rparr>"
  note k = hal_init_keeps [OF b]
  have addr: "isr_addr s3 = isr_addr s" "syscall_stub_addr s3 = syscall_stub_addr s" using s3 by auto
  obtain h: "interrupt_flag t4" "mapped_low t4" "free_frames (pmm t4) = page_addr ` {256..<16128}"
    and gates: "\<forall>cpl\<le>3. \<forall>software n. int_target cpl software n t4 =
      (if n < 48 \<and> (software \<longrightarrow> cpl = 0) then Some (KERNEL_CS, isr_addr s3 n)
       else if n = 0x80 then Some (KERNEL_CS, syscall_stub_addr s3) else None)"
    using hal_init_returns [OF b(1)] b(2) by auto
  have low: "mapped_low ?t" using h(2) by (simp add: mapped_low_def walk_in_mem [of ?t t4])
  have idn: "identity_dir (kernel_page_directory ?t) (kernel_page_table ?t) ?t"
    using k(4-6) by (simp add: identity_dir_mem [of ?t t4])
  have ks: "kernel_space ?t"
    by (rule kernel_space_boot [of ?t "pmm s3"]) (use b(1) k(2,4,5) idn in \<open>simp_all add: boots_def\<close>)
  have wf: "dir_wf (cr3 ?t) ?t" using boot_dir_wf [OF ks idn] k(3,4) by simp
  have hp: "heap_inv ?t []"
    using wf by (simp add: heap_inv_def heap_chain_def heap_win_def window_def KHEAP_START_def frame_def no_adjacent_free_def)
  have alt: "alone ?t" "free_procs ?t = pool_refs"
    using al alone_cong [of ?t s3] k(7-11) by simp_all
  have "int_target cpl software n ?t = int_target cpl software n t4" for cpl software n by (simp add: int_target_def)
  then have gates': "\<forall>cpl\<le>3. \<forall>software n. int_target cpl software n ?t =
      (if n < 48 \<and> (software \<longrightarrow> cpl = 0) then Some (KERNEL_CS, isr_addr s n)
       else if n = 0x80 then Some (KERNEL_CS, syscall_stub_addr s) else None)"
    using gates addr by simp
  have names: "map cmd_name tab = map str_bytes [''help'', ''mem'', ''timer'', ''reboot'', ''syscall'', ''tss'', ''ring3'']"
    using arg_cong [OF tab, of "map fst"] by (simp add: comp_def)
  show ?thesis
    unfolding run option.inject simp_thms ex_simps
  proof (intro exI [of _ ?t] conjI)
    show "distinct (map cmd_name (command_table ?t))" unfolding names by (simp add: names str_bytes_def)
  qed (use h low ks hp alt gates' names in \<open>simp_all add: interrupt_flag_def pool_refs_def MAX_PROCESSES_def\<close>)
qed

section \<open>Dropping to user mode\<close>

lemma unat_sum: "unat x + unat y < 2 ^ 32 \<Longrightarrow> unat (x + y :: u32) = unat x + unat y"
  by (simp add: unat_plus_if')

lemma entry_get_above:
  assumes "frame A" and "0x100000 \<le> unat A" and "unat i < 1024" and "\<And>a. 0x100000 \<le> unat a \<Longrightarrow> mem t a = mem s a"
  shows "entry_get A i t = entry_get A i s"
proof -
  have u: "unat (A + 4 * i) = unat A + 4 * unat i" using assms(1,3) by (rule unat_entry)
  have top: "unat A + 4096 \<le> 2 ^ 32"
  proof -
    obtain k where "unat A = 4096 * k" using assms(1) unfolding frame_def by (auto elim!: dvdE)
    then show ?thesis using unat_u32_lt [of A] by simp
  qed
  have "unat (A + 4 * i + j) = unat A + 4 * unat i + unat j" if "unat j < 4" for j
    using u that top assms(3) by (subst unat_sum) simp_all
  then have "mem t (A + 4 * i + j) = mem s (A + 4 * i + j)" if "unat j < 4" for j
    using that assms(2) by (intro assms(4)) simp
  from this [of 0] this [of 1] this [of 2] this [of 3] show ?thesis by (simp add: entry_get_def load32_def)
qed

lemma walk_above:
  assumes "frame d" and "0x100000 \<le> unat d"
    and "\<And>i. unat i < 1024 \<Longrightarrow> present d i s \<Longrightarrow> 0x100000 \<le> unat (table_of d i s)"
    and "\<And>a. 0x100000 \<le> unat a \<Longrightarrow> mem t a = mem s a"
  shows "entry_get d (page_dir_index va) t = entry_get d (page_dir_index va) s" and "walk_in d t va = walk_in d s va"
proof -
  show e: "entry_get d (page_dir_index va) t = entry_get d (page_dir_index va) s"
    by (rule entry_get_above [OF assms(1,2) _ assms(4)]) simp_all
  have "entry_get (table_of d (page_dir_index va) s) (page_table_index va) t = entry_get (table_of d (page_dir_index va) s) (page_table_index va) s"
    if "present d (page_dir_index va) s"
    by (rule entry_get_above [OF frame_mask assms(3) _ assms(4)]) (use that in simp_all)
  then show "walk_in d t va = walk_in d s va" by (simp add: walk_in_def Let_def e)
qed

lemma store32_elsewhere: "b \<notin> {a, a + 1, a + 2, a + 3} \<Longrightarrow> store32 a v m b = m b"
  by (simp add: store32_def)

lemma push32_above:
  assumes "4 \<le> unat (esp (regs s))" and "unat (esp (regs s)) \<le> 0x100000"
  shows "unat (esp (regs (push32 v s))) = unat (esp (regs s)) - 4" and "0x100000 \<le> unat b \<Longrightarrow> mem (push32 v s) b = mem s b"
proof -
  let ?a = "esp (regs s) - 4"
  have u: "unat ?a = unat (esp (regs s)) - 4" using assms(1) by (simp add: unat_sub_if')
  then show "unat (esp (regs (push32 v s))) = unat (esp (regs s)) - 4" by (simp add: push32_def Let_def)
  assume b: "0x100000 \<le> unat b"
  have "unat (?a + j) = unat ?a + unat j" if "unat j < 4" for j
    using u that assms by (intro unat_sum) simp
  then have "b \<noteq> ?a + j" if "unat j < 4" for j using that u b assms by force
  from this [of 0] this [of 1] this [of 2] this [of 3] show "mem (push32 v s) b = mem s b"
    by (simp add: push32_def Let_def store32_elsewhere)
qed

lemma enter_usermode_above:
  assumes "20 \<le> unat (esp (regs s))" and "unat (esp (regs s)) \<le> 0x100000" and "0x100000 \<le> unat b"
  shows "mem (enter_usermode entry stack_top s) b = mem s b"
proof -
  define s2 where "s2 = (cli s)\<lparr>segs := (segs (cli s))\<lparr>seg_ds := 0x23, seg_es := 0x23, seg_fs := 0x23, seg_gs := 0x23\<rparr>\<rparr>"
  define s3 where "s3 = push32 0x23 s2"
  define s4 where "s4 = push32 stack_top s3"
  define s5 where "s5 = push32 (eflags s4) s4"
  define s6 where "s6 = push32 0x1B s5"
  have e2: "esp (regs s2) = esp (regs s)" "mem s2 = mem s" by (simp_all add: s2_def cli_def)
  have u3: "unat (esp (regs s3)) = unat (esp (regs s)) - 4" "mem s3 b = mem s b"
    using push32_above(1) [of s2 "0x23"] push32_above(2) [of s2 b "0x23"] e2 assms by (simp_all add: s3_def)
  have u4: "unat (esp (regs s4)) = unat (esp (regs s)) - 8" "mem s4 b = mem s b"
    using push32_above(1) [of s3 stack_top] push32_above(2) [of s3 b stack_top] u3 assms by (simp_all add: s4_def)
  have u5: "unat (esp (regs s5)) = unat (esp (regs s)) - 12" "mem s5 b = mem s b"
    using push32_above(1) [of s4 "eflags s4"] push32_above(2) [of s4 b "eflags s4"] u4 assms by (simp_all add: s5_def)
  have u6: "unat (esp (regs s6)) = unat (esp (regs s)) - 16" "mem s6 b = mem s b"
    using push32_above(1) [of s5 "0x1B"] push32_above(2) [of s5 b "0x1B"] u5 assms by (simp_all add: s6_def)
  have "mem (push32 entry s6) b = mem s b" using push32_above(2) [of s6 b entry] u6 assms by simp
  moreover have "enter_usermode entry stack_top s = iret (push32 entry s6)"
    unfolding enter_usermode_def Let_def s6_def s5_def s4_def s3_def s2_def ..
  ultimately show ?thesis by (simp add: iret_def Let_def)
qed

text \<open>\<open>ring3_ready s\<close>: a booted kernel whose page structures lie above the first megabyte, in which the screen and the boot
  stack are, with the objects of the command in mapped memory.\<close>

definition ring3_ready :: "'a shell_state_scheme \<Rightarrow> bool" where
  "ring3_ready s \<longleftrightarrow> thr_answers (device s) \<and> vga_index s < 2000 \<and> kernel_space s \<and> cr3 s = kernel_page_directory s \<and>
     identity_dir (kernel_page_directory s) (kernel_page_table s) s \<and>
     0x100000 \<le> unat (kernel_page_directory s) \<and> 0x100000 \<le> unat (kernel_page_table s) \<and>
     int_target 3 True 0x80 s = Some (KERNEL_CS, syscall_stub_addr s) \<and>
     aligned4 (esp (regs s)) \<and> 20 \<le> unat (esp (regs s)) \<and> unat (esp (regs s)) \<le> 0x100000 \<and>
     unat (usermode_test_addr s) + 0x2000 \<le> 83886080 \<and> unat (user_stack s) + 0x2000 \<le> 83886080 \<and> unat (ring3_msg s) + 17 \<le> 83886080"

text \<open>The pages that meet the 4096 bytes from an address on.\<close>

definition page_span :: "u32 \<Rightarrow> nat set" where
  "page_span a = {unat a div 4096..<(unat a + 8191) div 4096}"

lemma identity_dir_above:
  assumes "kernel_layout d k" and "identity_dir d k s" and "0x100000 \<le> unat d" and "0x100000 \<le> unat k"
  shows "unat i < 1024 \<Longrightarrow> present d i s \<Longrightarrow> 0x100000 \<le> unat (table_of d i s)"
    and "(\<And>a. 0x100000 \<le> unat a \<Longrightarrow> mem t a = mem s a) \<Longrightarrow> identity_dir d k t"
proof -
  have pde: "entry_get d i s = (if unat i < 20 then ktable k (unat i) OR 3 else 0)" if "unat i < 1024" for i
    using assms(2) that unfolding identity_dir_def by blast
  have high: "0x100000 \<le> unat (ktable k i)" if "i < 20" for i using unat_ktable [OF assms(1) that] assms(4) by linarith
  show "0x100000 \<le> unat (table_of d i s)" if "unat i < 1024" "present d i s"
  proof -
    have i: "unat i < 20" using that pde [OF that(1)] by (cases "unat i < 20") auto
    have "table_of d i s = ktable k (unat i)" using pde [OF that(1)] i pde_table(1) [OF ktable_facts(1) [OF assms(1) i]] by simp
    then show ?thesis using high [OF i] by (simp only:)
  qed
  assume same: "\<And>a. 0x100000 \<le> unat a \<Longrightarrow> mem t a = mem s a"
  have fd: "frame d" using assms(1) by (simp add: kernel_layout_def)
  have d: "entry_get d i t = entry_get d i s" if "unat i < 1024" for i by (rule entry_get_above [OF fd assms(3) that same])
  have e: "entry_get (ktable k i) (of_nat j) t = entry_get (ktable k i) (of_nat j) s" if "i < 20" "j < 1024" for i j
    by (rule entry_get_above [OF ktable_facts(1) [OF assms(1) that(1)] high [OF that(1)] _ same]) (use that in \<open>simp_all add: unat_of_nat\<close>)
  show "identity_dir d k t" using assms(2) d e by (simp add: identity_dir_def)
qed

lemma enter_usermode_keeps:
  "device (enter_usermode e k s) = device s" "cr3 (enter_usermode e k s) = cr3 s" "int_target c w n (enter_usermode e k s) = int_target c w n s"
  "syscall_stub_addr (enter_usermode e k s) = syscall_stub_addr s" "tss (enter_usermode e k s) = tss s" "cpu_state.more (enter_usermode e k s) = cpu_state.more s"
  by (simp_all add: enter_usermode_def iret_def push32_def cli_def Let_def int_target_def)

lemma mark_page_span:
  assumes "dir_wf (cr3 s) s" and "unat a + 0x2000 \<le> 83886080"
  shows "\<exists>m l. vmm_mark_user_range a 4096 s = Some (s\<lparr>mem := m, invlpg_log := l\<rparr>) \<and> dir_wf (cr3 s) (s\<lparr>mem := m, invlpg_log := l\<rparr>) \<and>
    (\<forall>va. walk_in (cr3 s) (s\<lparr>mem := m, invlpg_log := l\<rparr>) va =
       (if unat va div 4096 \<in> page_span a then map_option (\<lambda>e. e OR PAGE_USER) (walk_in (cr3 s) s va) else walk_in (cr3 s) s va)) \<and>
    (\<forall>i. unat i < 1024 \<longrightarrow> entry_get (cr3 s) i (s\<lparr>mem := m, invlpg_log := l\<rparr>) \<in> {entry_get (cr3 s) i s, entry_get (cr3 s) i s OR PAGE_USER}) \<and>
    (\<forall>va. unat va div 4096 \<in> page_span a \<and> present (cr3 s) (page_dir_index va) s \<longrightarrow>
       entry_get (cr3 s) (page_dir_index va) (s\<lparr>mem := m, invlpg_log := l\<rparr>) AND PAGE_USER \<noteq> 0)"
proof -
  have bnd: "unat a + unat (4096 :: u32) + 0xFFF < 2 ^ 32" using assms(2) by simp
  have "unat a + unat (4096 :: u32) + 4095 = unat a + 8191" by simp
  then have sp: "n \<in> page_span a \<longleftrightarrow> unat a div 4096 \<le> n \<and> n < (unat a + unat (4096 :: u32) + 4095) div 4096" for n
    by (simp only: page_span_def atLeastLessThan_iff)
  show ?thesis using mark_user_range_access [OF assms(1) bnd] unfolding sp conj_assoc .
qed

lemma or_user_reads: "((x AND 0xFFFFF000) OR 3) AND PAGE_USER = (0 :: u32)"
proof (rule bit_word_eqI)
  fix n assume "n < LENGTH(32)"
  have "bit (0xFFFFF000 :: u32) 2 = False" "bit (3 :: u32) 2 = False" by (simp_all add: bit_numeral_rec)
  moreover have "bit PAGE_USER n \<longleftrightarrow> n = 2"
  proof -
    have lit: "PAGE_USER = 2 ^ 2" by (simp add: PAGE_USER_def)
    show ?thesis unfolding lit bit_exp_iff by (auto simp: possible_bit_def)
  qed
  ultimately show "bit (((x AND 0xFFFFF000) OR 3) AND PAGE_USER) n = bit (0 :: u32) n" by (auto simp: bit_and_iff bit_or_iff)
qed

text \<open>The memory and directory after the two calls of \<open>vmm_mark_user_range\<close>.\<close>

lemma mark_two_ranges:
  assumes ks: "kernel_space s" and idn: "identity_dir (kernel_page_directory s) (kernel_page_table s) s" and cr: "cr3 s = kernel_page_directory s"
    and high: "0x100000 \<le> unat (kernel_page_directory s)" "0x100000 \<le> unat (kernel_page_table s)"
    and ab: "unat a + 0x2000 \<le> 83886080" "unat b + 0x2000 \<le> 83886080"
  obtains m1 l1 m l where "vmm_mark_user_range a 4096 s = Some (s\<lparr>mem := m1, invlpg_log := l1\<rparr>)"
    and "vmm_mark_user_range b 4096 (s\<lparr>mem := m1, invlpg_log := l1\<rparr>) = Some (s\<lparr>mem := m, invlpg_log := l\<rparr>)"
    and "\<forall>u :: 'b vmm_state_scheme. \<forall>va. (\<forall>x. 0x100000 \<le> unat x \<longrightarrow> mem u x = m x) \<longrightarrow> cr3 u = cr3 s \<longrightarrow>
      (walk u va = None \<longleftrightarrow> unat va \<ge> 83886080) \<and> (user_access u va \<longleftrightarrow> unat va div 4096 \<in> page_span a \<union> page_span b)"
proof -
  let ?d = "cr3 s"
  have lay: "kernel_layout ?d (kernel_page_table s)" using ks cr by (simp add: kernel_space_def)
  have idd: "identity_dir ?d (kernel_page_table s) s" using idn cr by simp
  have wf: "dir_wf ?d s" using boot_dir_wf [OF ks idn] cr by simp
  obtain m1 l1 where r1: "vmm_mark_user_range a 4096 s = Some (s\<lparr>mem := m1, invlpg_log := l1\<rparr>)" "dir_wf ?d (s\<lparr>mem := m1, invlpg_log := l1\<rparr>)"
    and w1: "\<forall>va. walk_in ?d (s\<lparr>mem := m1, invlpg_log := l1\<rparr>) va =
       (if unat va div 4096 \<in> page_span a then map_option (\<lambda>e. e OR PAGE_USER) (walk_in ?d s va) else walk_in ?d s va)"
    and d1: "\<forall>i. unat i < 1024 \<longrightarrow> entry_get ?d i (s\<lparr>mem := m1, invlpg_log := l1\<rparr>) \<in> {entry_get ?d i s, entry_get ?d i s OR PAGE_USER}"
    and o1: "\<forall>va. unat va div 4096 \<in> page_span a \<and> present ?d (page_dir_index va) s \<longrightarrow>
       entry_get ?d (page_dir_index va) (s\<lparr>mem := m1, invlpg_log := l1\<rparr>) AND PAGE_USER \<noteq> 0"
    using mark_page_span [OF wf ab(1)] by blast
  let ?s1 = "s\<lparr>mem := m1, invlpg_log := l1\<rparr>"
  have wf1: "dir_wf (cr3 ?s1) ?s1" using r1(2) by simp
  obtain m l where r2: "vmm_mark_user_range b 4096 ?s1 = Some (?s1\<lparr>mem := m, invlpg_log := l\<rparr>)"
    and w2: "\<forall>va. walk_in (cr3 ?s1) (?s1\<lparr>mem := m, invlpg_log := l\<rparr>) va =
       (if unat va div 4096 \<in> page_span b then map_option (\<lambda>e. e OR PAGE_USER) (walk_in (cr3 ?s1) ?s1 va) else walk_in (cr3 ?s1) ?s1 va)"
    and d2: "\<forall>i. unat i < 1024 \<longrightarrow> entry_get (cr3 ?s1) i (?s1\<lparr>mem := m, invlpg_log := l\<rparr>) \<in> {entry_get (cr3 ?s1) i ?s1, entry_get (cr3 ?s1) i ?s1 OR PAGE_USER}"
    and o2: "\<forall>va. unat va div 4096 \<in> page_span b \<and> present (cr3 ?s1) (page_dir_index va) ?s1 \<longrightarrow>
       entry_get (cr3 ?s1) (page_dir_index va) (?s1\<lparr>mem := m, invlpg_log := l\<rparr>) AND PAGE_USER \<noteq> 0"
    using mark_page_span [OF wf1 ab(2)] by blast
  let ?s2 = "s\<lparr>mem := m, invlpg_log := l\<rparr>"
  have c1: "cr3 ?s1 = ?d" "?s1\<lparr>mem := m, invlpg_log := l\<rparr> = ?s2" by simp_all
  note w2 = w2 [unfolded c1] and d2 = d2 [unfolded c1] and o2 = o2 [unfolded c1] and r2 = r2 [unfolded c1]
  have e: "entry_get ?d i ?s1 AND 0xFFFFF000 = entry_get ?d i s AND 0xFFFFF000" "present ?d i ?s1 = present ?d i s"
    "entry_get ?d i ?s2 AND 0xFFFFF000 = entry_get ?d i s AND 0xFFFFF000" "present ?d i ?s2 = present ?d i s" if "unat i < 1024" for i
    using d1 [rule_format, OF that] d2 [rule_format, OF that] or_user_bits by auto
  have fd: "frame ?d" "0x100000 \<le> unat ?d" using lay high cr by (simp_all add: kernel_layout_def)
  have tabs: "0x100000 \<le> unat (table_of ?d i ?s2)" if "unat i < 1024" "present ?d i ?s2" for i
    using identity_dir_above(1) [OF lay idd fd(2) high(2) that(1)] e [OF that(1)] that(2) by simp
  have w0: "walk_in ?d s va = (if unat va < 83886080 then Some ((va AND 0xFFFFF000) OR 3) else None)" for va
    by (rule identity_dir_walk [OF lay idd])
  have main: "(walk u va = None \<longleftrightarrow> unat va \<ge> 83886080) \<and> (user_access u va \<longleftrightarrow> unat va div 4096 \<in> page_span a \<union> page_span b)"
    if same: "\<forall>x. 0x100000 \<le> unat x \<longrightarrow> mem u x = m x" and cu: "cr3 u = ?d" for u :: "'b vmm_state_scheme" and va
  proof -
    have same': "mem u x = mem ?s2 x" if "0x100000 \<le> unat x" for x using same that by simp
    note ua = walk_above [OF fd tabs same']
    have wu: "walk u va = (if unat va < 83886080 then Some (((va AND 0xFFFFF000) OR 3) OR (if unat va div 4096 \<in> page_span a \<union> page_span b then PAGE_USER else 0)) else None)"
      using ua(2) [of va] w2 [rule_format, of va] w1 [rule_format, of va] w0 [of va] cu by (auto simp: or.assoc)
    show ?thesis
    proof (cases "unat va < 83886080")
      case False
      have "(unat a + 8191) div 4096 \<le> 20479" "(unat b + 8191) div 4096 \<le> 20479" using ab by linarith+
      moreover have "20480 \<le> unat va div 4096" using False by linarith
      ultimately have "unat va div 4096 \<notin> page_span a \<union> page_span b" by (auto simp: page_span_def)
      then show ?thesis using wu False by (simp add: user_access_def)
    next
      case True
      have pr: "present ?d (page_dir_index va) s" using w0 [of va] True by (auto simp: walk_in_def split: if_splits)
      have "entry_get ?d (page_dir_index va) ?s2 AND PAGE_USER \<noteq> 0" if "unat va div 4096 \<in> page_span a \<union> page_span b"
      proof (cases "unat va div 4096 \<in> page_span b")
        case True
        then show ?thesis using o2 pr e(2) [of "page_dir_index va"] by simp
      next
        case False
        then have "entry_get ?d (page_dir_index va) ?s1 AND PAGE_USER \<noteq> 0" using o1 pr that by blast
        then show ?thesis using d2 [rule_format, of "page_dir_index va"] or_user_set by auto
      qed
      then show ?thesis using wu True ua(1) [of va] cu or_user_set or_user_reads [of va] by (auto simp: user_access_def)
    qed
  qed
  show thesis using that [OF r1(1) r2] main by blast
qed

lemma shell_fields_cpu:
  assumes "cpu_state.more t = cpu_state.more (s :: 'a shell_state_scheme)"
  shows "usermode_test_addr t = usermode_test_addr s" "user_stack t = user_stack s" "ring3_msg t = ring3_msg s"
  using assms by (cases s; cases t; simp)+

lemma cmd_ring3_enters:
  assumes "ring3_ready s"
  obtains u where "cmd_ring3 r s = usermode_test_func r u" and "device u = device s" and "ring3_msg u = ring3_msg s"
    and "int_target 3 True 0x80 u = Some (KERNEL_CS, syscall_stub_addr u)" and "eip (regs u) = usermode_test_addr s" and "esp (regs u) = user_stack s + 4096"
    and "segs u = \<lparr>seg_cs = 0x1B, seg_ds = 0x23, seg_es = 0x23, seg_fs = 0x23, seg_gs = 0x23, seg_ss = 0x23\<rparr>"
    and "\<not> interrupt_flag u" and "esp0 (tss u) = syscall_kernel_stack s + 4096"
    and "\<forall>va. (walk u va = None \<longleftrightarrow> unat va \<ge> 83886080) \<and>
      (user_access u va \<longleftrightarrow> unat va div 4096 \<in> page_span (usermode_test_addr s) \<union> page_span (user_stack s))"
proof -
  note a = assms [unfolded ring3_ready_def]
  define s1 where "s1 = vga_puts (str_bytes ''dropping to ring 3...'' @ [10]) s"
  have "console_effect s s1" using vga_puts_effect [of s "str_bytes ''dropping to ring 3...'' @ [10]"] a by (simp add: s1_def str_bytes_def)
  then obtain m0 i0 l0 where s1: "s1 = s\<lparr>mem := m0, vga_index := i0, io_log := l0\<rparr>" and scr: "\<forall>x. x \<notin> screen_bytes \<longrightarrow> m0 x = mem s x"
    unfolding console_effect_def by auto
  let ?d = "kernel_page_directory s" and ?k = "kernel_page_table s"
  have lay: "kernel_layout ?d ?k" using a by (simp add: kernel_space_def)
  have same1: "mem s1 x = mem s x" if "0x100000 \<le> unat x" for x
    using that scr by (simp add: s1 screen_bytes_def word_le_nat_alt word_less_nat_alt)
  have id1: "identity_dir ?d ?k s1" by (rule identity_dir_above(2) [OF lay]) (use a same1 in simp_all)
  have ks1: "kernel_space s1" using a id1 by (auto simp: kernel_space_def s1 intro: identity_dir_low)
  have p1: "identity_dir (kernel_page_directory s1) (kernel_page_table s1) s1" "cr3 s1 = kernel_page_directory s1"
    "0x100000 \<le> unat (kernel_page_directory s1)" "0x100000 \<le> unat (kernel_page_table s1)"
    and p2: "unat (usermode_test_addr s) + 0x2000 \<le> 83886080" "unat (user_stack s) + 0x2000 \<le> 83886080"
    using a id1 unfolding s1 by simp_all
  obtain m1 l1 m l where r1: "vmm_mark_user_range (usermode_test_addr s) 4096 s1 = Some (s1\<lparr>mem := m1, invlpg_log := l1\<rparr>)"
    and r2: "vmm_mark_user_range (user_stack s) 4096 (s1\<lparr>mem := m1, invlpg_log := l1\<rparr>) = Some (s1\<lparr>mem := m, invlpg_log := l\<rparr>)"
    and acc: "\<forall>u :: 'a shell_state_scheme. \<forall>va. (\<forall>x. 0x100000 \<le> unat x \<longrightarrow> mem u x = m x) \<longrightarrow> cr3 u = cr3 s1 \<longrightarrow>
      (walk u va = None \<longleftrightarrow> unat va \<ge> 83886080) \<and>
      (user_access u va \<longleftrightarrow> unat va div 4096 \<in> page_span (usermode_test_addr s) \<union> page_span (user_stack s))"
    by (rule mark_two_ranges [OF ks1 p1 p2])
  define s4 where "s4 = tss_set_kernel_stack (syscall_kernel_stack s + 4096) (s1\<lparr>mem := m, invlpg_log := l\<rparr>)"
  have s4: "s4 = s\<lparr>mem := m, vga_index := i0, io_log := l0, invlpg_log := l, tss := (tss s)\<lparr>esp0 := syscall_kernel_stack s + 4096\<rparr>\<rparr>"
    unfolding s4_def s1 tss_set_kernel_stack_def by simp
  define u where "u = enter_usermode (usermode_test_addr s) (user_stack s + 4096) s4"
  have al: "aligned4 (esp (regs s4))" using a by (simp add: s4)
  note f = enter_usermode_frame [OF al, where entry = "usermode_test_addr s" and stack_top = "user_stack s + 4096", folded u_def]
  note k = enter_usermode_keeps [where e = "usermode_test_addr s" and k = "user_stack s + 4096" and s = s4, folded u_def]
  have "mem u x = m x" if "0x100000 \<le> unat x" for x
    using enter_usermode_above [of s4 x "usermode_test_addr s" "user_stack s + 4096"] that a unfolding u_def [symmetric] by (simp add: s4)
  then have walks: "(walk u va = None \<longleftrightarrow> unat va \<ge> 83886080) \<and>
      (user_access u va \<longleftrightarrow> unat va div 4096 \<in> page_span (usermode_test_addr s) \<union> page_span (user_stack s))" for va
    using acc k(2) by (simp add: s4 s1)
  have c: "ring3_msg u = ring3_msg s" using shell_fields_cpu(3) [OF k(6)] by (simp add: s4)
  have "int_target 3 True 0x80 s4 = int_target 3 True 0x80 s" by (simp add: s4 int_target_def)
  then have gate: "int_target 3 True 0x80 u = Some (KERNEL_CS, syscall_stub_addr u)" using a k(3) [of 3 True "0x80"] k(4) by (simp add: s4)
  have run: "cmd_ring3 r s = usermode_test_func r u"
    using r1 r2 unfolding cmd_ring3_def Let_def s1_def [symmetric] by (simp add: s1 s4_def u_def tss_set_kernel_stack_def)
  show thesis
    by (rule that [OF run _ c gate]) (use f k walks in \<open>simp_all add: s4 interrupt_flag_def bit_simps bit_numeral_rec\<close>)
qed

text \<open>
  C10: The drop to user mode. On a booted kernel the command \<open>ring3\<close> leaves the processor in \<open>usermode_test_func\<close> at privilege level 3 on the user
  stack with interrupts disabled; user code can reach exactly the pages of that function and of its stack and nothing else; its
  system call comes in on the kernel stack set for it, and puts the message on the serial line between the marks of the stub, after which
  the processor stays in user mode.
\<close>

theorem cmd_ring3_correct:
  assumes "ring3_ready s"
  shows "\<exists>u new. cmd_ring3 r s = Some (Spins (u\<lparr>io_log := io_log u @ new\<rparr>)) \<and>
    seg_cs (segs u) = USER_CS \<and> seg_ss (segs u) = USER_DS \<and> eip (regs u) = usermode_test_addr s \<and> esp (regs u) = user_stack s + 4096 \<and>
    \<not> interrupt_flag u \<and> esp0 (tss u) = syscall_kernel_stack s + 4096 \<and>
    (\<forall>va. user_access u va \<longleftrightarrow> unat va div 4096 \<in> page_span (usermode_test_addr s) \<union> page_span (user_stack s)) \<and>
    outs 0x3F8 new = str_bytes ''A'' @ user_bytes (ring3_msg s) 17 u @ str_bytes ''C''"
proof -
  note a = assms [unfolded ring3_ready_def]
  obtain u where u: "cmd_ring3 r s = usermode_test_func r u" "device u = device s" "ring3_msg u = ring3_msg s"
    "int_target 3 True 0x80 u = Some (KERNEL_CS, syscall_stub_addr u)" "eip (regs u) = usermode_test_addr s" "esp (regs u) = user_stack s + 4096"
    "segs u = \<lparr>seg_cs = 0x1B, seg_ds = 0x23, seg_es = 0x23, seg_fs = 0x23, seg_gs = 0x23, seg_ss = 0x23\<rparr>"
    "\<not> interrupt_flag u" "esp0 (tss u) = syscall_kernel_stack s + 4096"
    and walks: "\<forall>va. (walk u va = None \<longleftrightarrow> unat va \<ge> 83886080) \<and>
      (user_access u va \<longleftrightarrow> unat va div 4096 \<in> page_span (usermode_test_addr s) \<union> page_span (user_stack s))"
    by (rule cmd_ring3_enters [OF assms])
  have here: "unat x div 4096 \<in> page_span x" for x :: u32 by (simp add: page_span_def)
  have "unat (user_stack s + 4092) = unat (user_stack s) + 4092" using a by (subst unat_sum) simp_all
  moreover have "user_stack s + 4096 - 4 = user_stack s + 4092" by simp
  ultimately have "unat (user_stack s + 4096 - 4) = unat (user_stack s) + 4092" by (simp only:)
  then have stk: "unat (user_stack s + 4096 - 4) div 4096 \<in> page_span (user_stack s)"
    unfolding page_span_def atLeastLessThan_iff by linarith
  have ua: "user_access u (eip (regs u))" "user_access u (esp (regs u) - 4)" using walks here stk by (simp_all add: u)
  let ?w = "write_frame r (ring3_msg s) 17"
  have rd: "readable (r_ecx ?w) (unat (r_edx ?w)) u" unfolding readable_def
  proof (intro allI impI)
    fix i assume i: "i < unat (r_edx ?w)"
    then have "i < 17" by (simp add: write_frame_def)
    then have "unat (ring3_msg s + of_nat i) < 83886080" using a by (subst unat_sum) (simp_all add: unat_of_nat)
    then show "phys_addr u (r_ecx ?w + of_nat i) \<noteq> None" using walks [rule_format, of "ring3_msg s + of_nat i"] by (simp add: phys_addr_def write_frame_def)
  qed
  have ans: "thr_answers (device u)" using a u(2) by simp
  obtain new where new: "syscall_stub ?w u = Some (Inl (?w\<lparr>r_eax := r_edx ?w\<rparr>, u\<lparr>io_log := io_log u @ new\<rparr>))"
    "outs 0x3F8 new = str_bytes ''A'' @ user_bytes (r_ecx ?w) (unat (r_edx ?w)) u @ str_bytes ''C''"
    using syscall_stub_write [OF ans _ _ rd] by (auto simp: write_frame_def)
  have "usermode_test_func r u = Some (Spins (u\<lparr>io_log := io_log u @ new\<rparr>))"
    using ua new(1) by (simp add: usermode_test_func_def int80_def u)
  then show ?thesis
    by (intro exI [of _ u] exI [of _ new]) (use walks new(2) in \<open>simp add: u USER_CS_def USER_DS_def write_frame_def\<close>)
qed

section \<open>A sample machine\<close>

definition shell_machine :: shell_state where
  "shell_machine = kernel_state.extend
     (irq_state.extend (boot_machine\<lparr>sleep_list := None, keyboard_key_available_flag := 0, shift_pressed := 0, caps_lock_on := 0, vga_index := 0,
        regs := \<lparr>esp = 0x90000, ebp = 0x90100, ebx = 1, esi = 2, edi = 3, eip = 0x100500\<rparr>\<rparr>) (kernel_state.fields sample_state))
     (shell_state.fields [] 0x120000 0x124000 0x126000 0x128000 0x128040)"

lemma shell_machine_fields [simp]:
  "command_table shell_machine = []" "usermode_test_addr shell_machine = 0x120000" "user_stack shell_machine = 0x124000"
  "syscall_kernel_stack shell_machine = 0x126000" "ring3_msg shell_machine = 0x128000" "sleep_list shell_machine = None"
  "keyboard_key_available_flag shell_machine = 0" "vga_index shell_machine = 0" "esp (regs shell_machine) = 0x90000"
  "shift_pressed shell_machine = 0" "caps_lock_on shell_machine = 0"
  "kernel_page_directory shell_machine = 0x100000" "kernel_page_table shell_machine = 0x101000"
  by (simp_all add: shell_machine_def kernel_state.extend_def irq_state.extend_def kernel_state.fields_def shell_state.fields_def boot_machine_def)

lemma shell_machine_on: "powered_on shell_machine"
proof -
  have "boots shell_machine" using boot_machine_boots
    by (simp add: boots_def shell_machine_def kernel_state.extend_def irq_state.extend_def)
  then show ?thesis by (simp add: powered_on_def)
qed

theorem kernel_start_correct_witness:
  "powered_on shell_machine \<and> (\<exists>t. kernel_start shell_machine = Some t \<and> alone t \<and> heap_inv t [] \<and> length (command_table t) = 7)"
proof -
  obtain t where t: "kernel_start shell_machine = Some t" "alone t" "heap_inv t []"
    "map cmd_name (command_table t) = map str_bytes [''help'', ''mem'', ''timer'', ''reboot'', ''syscall'', ''tss'', ''ring3'']"
    using kernel_start_correct [OF shell_machine_on] by blast
  have "length (command_table t) = 7" using arg_cong [OF t(4), of length] by simp
  with t shell_machine_on show ?thesis by blast
qed

definition returning :: "command_fn \<Rightarrow> u8 list \<Rightarrow> shell_state \<Rightarrow> shell_state outcome option" where
  "returning h args s = Some (Back s)"

theorem shell_dispatch_correct_witness:
  "\<exists>t. shell_dispatch returning (str_bytes ''nope x'') shell_machine = Some (Back t) \<and>
     terminal_of t = fold term_put (str_bytes ''Unknown command: '' @ str_bytes ''nope'' @ [10]) (terminal_of shell_machine)"
  using shell_dispatch_correct [of "str_bytes ''nope''" "str_bytes ''nope x''" "str_bytes ''x''" shell_machine returning]
  by (auto simp: str_bytes_def)

text \<open>Typing \<open>tx\<close>, a backspace, \<open>s\<close> twice and Return dispatches \<open>tss\<close>.\<close>

lemma decode_tss: "decode [0x14, 0x2D, 0x0E, 0x1F, 0x9F, 0x1F] shell_machine = [116, 120, 8, 115, 115]"
  by (simp add: getchar_step_def key_char_def return_keys_def char_keys_def)

theorem interpreter_line_correct_witness:
  "\<exists>s1 ln. session_effect shell_machine s1 \<and>
     interpreter_loop returning [0x14, 0x2D, 0x0E, 0x1F, 0x9F, 0x1F, 0x1C] \<lparr>buffer = replicate 64 0, pos = 0\<rparr> shell_machine =
       (case shell_dispatch returning (str_bytes ''tss'') s1 of
          None \<Rightarrow> None
        | Some (Spins t) \<Rightarrow> Some (Spins (ln, t))
        | Some (Back t) \<Rightarrow> Some (Back (ln\<lparr>pos := 0\<rparr>, vga_puts (str_bytes '' $ '') t)))"
proof -
  have e: "fold edit (decode [0x14, 0x2D, 0x0E, 0x1F, 0x9F, 0x1F] shell_machine) [] = str_bytes ''tss''"
    unfolding decode_tss by (simp add: edit_def str_bytes_def)
  show ?thesis
    using interpreter_line_correct [of shell_machine "replicate 64 0" "[0x14, 0x2D, 0x0E, 0x1F, 0x9F, 0x1F]" returning, unfolded e]
    unfolding decode_tss by (auto simp: hal_keyboard_key_available_def)
qed

lemma kernel_start_ring3:
  assumes "powered_on s" and "vga_index s < 2000" and "0x100000 \<le> unat (kernel_page_directory s)" and "0x100000 \<le> unat (kernel_page_table s)"
    and "aligned4 (esp (regs s))" and "20 \<le> unat (esp (regs s))" and "unat (esp (regs s)) \<le> 0x100000"
    and "unat (usermode_test_addr s) + 0x2000 \<le> 83886080" and "unat (user_stack s) + 0x2000 \<le> 83886080" and "unat (ring3_msg s) + 17 \<le> 83886080"
  obtains t where "kernel_start s = Some t" and "ring3_ready t"
proof -
  obtain s3 t4 l tab where b: "boots s3" "hal_init s3 = Some t4"
    and run: "kernel_start s = Some (t4\<lparr>io_log := l, heap_head := 0, heap_end := KHEAP_START, current_hz := 100, command_table := tab\<rparr>)"
    and s3: "\<exists>P f q c b i. s3 = s\<lparr>procs := P, free_list := f, queues := q, current_process := c, sleep_list := b, io_log := i\<rparr>"
    by (rule kernel_start_run [OF assms(1)]) blast
  let ?t = "t4\<lparr>io_log := l, heap_head := 0, heap_end := KHEAP_START, current_hz := 100, command_table := tab\<rparr>"
  note k = hal_init_keeps [OF b] and f = shell_fields_more [OF hal_init_keeps(12) [OF b]]
  have same: "vga_index s3 = vga_index s" "regs s3 = regs s" "kernel_page_directory s3 = kernel_page_directory s" "kernel_page_table s3 = kernel_page_table s"
    "usermode_test_addr s3 = usermode_test_addr s" "user_stack s3 = user_stack s" "ring3_msg s3 = ring3_msg s"
    using s3 by auto
  have idn: "identity_dir (kernel_page_directory ?t) (kernel_page_table ?t) ?t" using k(4-6) by (simp add: identity_dir_mem [of ?t t4])
  have ks: "kernel_space ?t"
    by (rule kernel_space_boot [of ?t "pmm s3"]) (use b(1) k(2,4,5) idn in \<open>simp_all add: boots_def\<close>)
  have "int_target 3 True 0x80 t4 = Some (KERNEL_CS, syscall_stub_addr s3)" using hal_init_returns [OF b(1)] b(2) by auto
  moreover have "int_target 3 True 0x80 ?t = int_target 3 True 0x80 t4" by (simp add: int_target_def)
  ultimately have gate: "int_target 3 True 0x80 ?t = Some (KERNEL_CS, syscall_stub_addr ?t)" using k(18) by simp
  have "thr_answers (device t4)" using b(1) k(1) by (simp add: boots_def)
  then have "ring3_ready ?t" unfolding ring3_ready_def using idn ks gate assms(2-10) k(3,4,5,13,16) f(2,3,5) same by simp
  then show thesis using run that by blast
qed

theorem cmd_ring3_correct_witness:
  "\<exists>t u. kernel_start shell_machine = Some t \<and> ring3_ready t \<and> cmd_ring3 (syscall_frame 0 0 0 0) t = Some (Spins u) \<and> seg_cs (segs u) = 0x1B"
proof -
  obtain t where t: "kernel_start shell_machine = Some t" "ring3_ready t"
    by (rule kernel_start_ring3 [OF shell_machine_on]) (simp_all add: aligned4_def)
  from cmd_ring3_correct [OF t(2), of "syscall_frame 0 0 0 0"] obtain u new where
    "cmd_ring3 (syscall_frame 0 0 0 0) t = Some (Spins (u\<lparr>io_log := io_log u @ new\<rparr>))" "seg_cs (segs u) = USER_CS" by blast
  with t show ?thesis by (intro exI [of _ t] exI [of _ "u\<lparr>io_log := io_log u @ new\<rparr>"]) (simp add: USER_CS_def)
qed

end
