(* ===== verification/DriverRegistry.thy ===== *)
theory DriverRegistry
  imports NameTable
begin

text \<open>
  The driver framework, \<^verbatim>\<open>kernel/drivers/driver.c\<close>: a linked list of devices with unique names. Device structures belong to the drivers;
  \<open>devices\<close> says which structure is at which address, and reading through any other pointer is a fault. Names are the bytes before the terminating
  zero. The operations of a device act on a machine state of type \<open>'s\<close> that the framework does not look into.
\<close>

section \<open>State and operations\<close>

type_synonym dev_ref = u32

datatype device_type = DEVICE_TYPE_AUDIO | DEVICE_TYPE_INPUT | DEVICE_TYPE_DISPLAY | DEVICE_TYPE_NETWORK | DEVICE_TYPE_STORAGE | DEVICE_TYPE_OTHER

record 's device_ops =
  op_init :: "('s \<Rightarrow> int \<times> 's) option"
  op_shutdown :: "('s \<Rightarrow> int \<times> 's) option"
  op_read :: "(u32 \<Rightarrow> u32 \<Rightarrow> u32 \<Rightarrow> 's \<Rightarrow> int \<times> 's) option"
  op_write :: "(u32 \<Rightarrow> u32 \<Rightarrow> u32 \<Rightarrow> 's \<Rightarrow> int \<times> 's) option"
  op_ioctl :: "(int \<Rightarrow> u32 \<Rightarrow> 's \<Rightarrow> int \<times> 's) option"

record 's device_t =
  dev_name :: "u8 list"
  dev_type :: device_type
  dev_ops :: "'s device_ops option"
  dev_data :: u32
  dev_next :: "dev_ref option"

record 's registry =
  devices :: "dev_ref \<Rightarrow> 's device_t option"
  device_list :: "dev_ref option"

definition driver_init :: "'s registry \<Rightarrow> int \<times> 's registry" where
  "driver_init g = (KERNEL_SUCCESS, g\<lparr>device_list := None\<rparr>)"

partial_function (option) lookup_loop :: "(dev_ref \<Rightarrow> 's device_t option) \<Rightarrow> u8 list \<Rightarrow> dev_ref option \<Rightarrow> dev_ref option option" where
  "lookup_loop ds nm cur =
     (case cur of
        None \<Rightarrow> Some None
      | Some r \<Rightarrow> (case ds r of
          None \<Rightarrow> None
        | Some d \<Rightarrow> if dev_name d = nm then Some (Some r) else lookup_loop ds nm (dev_next d)))"

definition driver_lookup :: "u8 list option \<Rightarrow> 's registry \<Rightarrow> dev_ref option option" where
  "driver_lookup nm g = (case nm of None \<Rightarrow> Some None | Some n \<Rightarrow> lookup_loop (devices g) n (device_list g))"

definition driver_register :: "dev_ref option \<Rightarrow> 's registry \<Rightarrow> (int \<times> 's registry) option" where
  "driver_register dev g =
     (case dev of
        None \<Rightarrow> Some (KERNEL_FAILURE, g)
      | Some r \<Rightarrow> (case devices g r of
          None \<Rightarrow> None
        | Some d \<Rightarrow>
            if dev_ops d = None then Some (KERNEL_FAILURE, g)
            else (case driver_lookup (Some (dev_name d)) g of
                    None \<Rightarrow> None
                  | Some (Some q) \<Rightarrow> Some (KERNEL_FAILURE, g)
                  | Some None \<Rightarrow>
                      Some (KERNEL_SUCCESS, g\<lparr>devices := (devices g)(r \<mapsto> d\<lparr>dev_next := device_list g\<rparr>), device_list := Some r\<rparr>))))"

partial_function (option) unregister_loop ::
    "u8 list \<Rightarrow> dev_ref option \<Rightarrow> dev_ref option \<Rightarrow> 's registry \<Rightarrow> (int \<times> 's registry) option" where
  "unregister_loop nm prev cur g =
     (case cur of
        None \<Rightarrow> Some (KERNEL_FAILURE, g)
      | Some r \<Rightarrow> (case devices g r of
          None \<Rightarrow> None
        | Some d \<Rightarrow>
            if dev_name d = nm
            then (case prev of
                    None \<Rightarrow> Some (KERNEL_SUCCESS, g\<lparr>device_list := dev_next d\<rparr>)
                  | Some p \<Rightarrow> (case devices g p of
                      None \<Rightarrow> None
                    | Some e \<Rightarrow> Some (KERNEL_SUCCESS, g\<lparr>devices := (devices g)(p \<mapsto> e\<lparr>dev_next := dev_next d\<rparr>)\<rparr>)))
            else unregister_loop nm (Some r) (dev_next d) g))"

definition driver_unregister :: "u8 list option \<Rightarrow> 's registry \<Rightarrow> (int \<times> 's registry) option" where
  "driver_unregister nm g =
     (case nm of None \<Rightarrow> Some (KERNEL_FAILURE, g) | Some n \<Rightarrow> unregister_loop n None (device_list g) g)"

definition driver_dump_list :: "'s registry \<Rightarrow> 's registry" where
  "driver_dump_list g = g"

definition device_ops_of :: "u8 list option \<Rightarrow> 's registry \<Rightarrow> 's device_ops option option" where
  "device_ops_of nm g =
     (case driver_lookup nm g of
        None \<Rightarrow> None
      | Some None \<Rightarrow> Some None
      | Some (Some r) \<Rightarrow> (case devices g r of None \<Rightarrow> None | Some d \<Rightarrow> (case dev_ops d of None \<Rightarrow> None | Some ops \<Rightarrow> Some (Some ops))))"

definition driver_read :: "u8 list option \<Rightarrow> u32 \<Rightarrow> u32 \<Rightarrow> u32 \<Rightarrow> 's registry \<Rightarrow> 's \<Rightarrow> (int \<times> 's) option" where
  "driver_read nm buf count offset g s =
     (case device_ops_of nm g of
        None \<Rightarrow> None
      | Some None \<Rightarrow> Some (KERNEL_FAILURE, s)
      | Some (Some ops) \<Rightarrow> (case op_read ops of None \<Rightarrow> Some (KERNEL_FAILURE, s) | Some f \<Rightarrow> Some (f buf count offset s)))"

definition driver_write :: "u8 list option \<Rightarrow> u32 \<Rightarrow> u32 \<Rightarrow> u32 \<Rightarrow> 's registry \<Rightarrow> 's \<Rightarrow> (int \<times> 's) option" where
  "driver_write nm buf count offset g s =
     (case device_ops_of nm g of
        None \<Rightarrow> None
      | Some None \<Rightarrow> Some (KERNEL_FAILURE, s)
      | Some (Some ops) \<Rightarrow> (case op_write ops of None \<Rightarrow> Some (KERNEL_FAILURE, s) | Some f \<Rightarrow> Some (f buf count offset s)))"

definition driver_ioctl :: "u8 list option \<Rightarrow> int \<Rightarrow> u32 \<Rightarrow> 's registry \<Rightarrow> 's \<Rightarrow> (int \<times> 's) option" where
  "driver_ioctl nm request arg g s =
     (case device_ops_of nm g of
        None \<Rightarrow> None
      | Some None \<Rightarrow> Some (KERNEL_FAILURE, s)
      | Some (Some ops) \<Rightarrow> (case op_ioctl ops of None \<Rightarrow> Some (KERNEL_FAILURE, s) | Some f \<Rightarrow> Some (f request arg s)))"

section \<open>The null device\<close>

definition null_init :: "'s \<Rightarrow> int \<times> 's" where "null_init s = (KERNEL_SUCCESS, s)"
definition null_shutdown :: "'s \<Rightarrow> int \<times> 's" where "null_shutdown s = (KERNEL_SUCCESS, s)"
definition null_read :: "u32 \<Rightarrow> u32 \<Rightarrow> u32 \<Rightarrow> 's \<Rightarrow> int \<times> 's" where "null_read buf count offset s = (0, s)"
definition null_write :: "u32 \<Rightarrow> u32 \<Rightarrow> u32 \<Rightarrow> 's \<Rightarrow> int \<times> 's" where "null_write buf count offset s = (sint count, s)"
definition null_ioctl :: "int \<Rightarrow> u32 \<Rightarrow> 's \<Rightarrow> int \<times> 's" where "null_ioctl request arg s = (KERNEL_FAILURE, s)"

definition null_ops :: "'s device_ops" where
  "null_ops = \<lparr>op_init = Some null_init, op_shutdown = Some null_shutdown, op_read = Some null_read, op_write = Some null_write,
     op_ioctl = Some null_ioctl\<rparr>"

definition null_device :: "'s device_t" where
  "null_device = \<lparr>dev_name = map of_char ''null'', dev_type = DEVICE_TYPE_OTHER, dev_ops = Some null_ops, dev_data = 0, dev_next = None\<rparr>"

text \<open>\<open>null_device\<close> is a static object; \<open>addr\<close> is its address.\<close>

definition driver_register_null_device :: "dev_ref \<Rightarrow> 's registry \<Rightarrow> (int \<times> 's registry) option" where
  "driver_register_null_device addr g = driver_register (Some addr) g"

section \<open>The list of devices\<close>

fun chain :: "(dev_ref \<Rightarrow> 's device_t option) \<Rightarrow> dev_ref option \<Rightarrow> dev_ref list \<Rightarrow> bool" where
  "chain ds p [] \<longleftrightarrow> p = None"
| "chain ds p (r # rs) \<longleftrightarrow> p = Some r \<and> (case ds r of None \<Rightarrow> False | Some d \<Rightarrow> chain ds (dev_next d) rs)"

definition name_of :: "'s registry \<Rightarrow> dev_ref \<Rightarrow> u8 list" where
  "name_of g r = dev_name (the (devices g r))"

definition holds_list :: "'s registry \<Rightarrow> dev_ref list \<Rightarrow> bool" where
  "holds_list g rs \<longleftrightarrow> chain (devices g) (device_list g) rs \<and> distinct (map (name_of g) rs) \<and>
     (\<forall>r\<in>set rs. dev_ops (the (devices g r)) \<noteq> None)"

definition registry_ok :: "'s registry \<Rightarrow> bool" where
  "registry_ok g \<longleftrightarrow> (\<exists>rs. holds_list g rs)"

text \<open>The devices as a map from names.\<close>

definition registered :: "'s registry \<Rightarrow> u8 list \<Rightarrow> dev_ref option" where
  "registered g n = (case driver_lookup (Some n) g of None \<Rightarrow> None | Some r \<Rightarrow> r)"

lemma chain_upd: "r \<notin> set rs \<Longrightarrow> chain (ds(r := x)) p rs = chain ds p rs"
  by (induction rs arbitrary: p) (auto split: option.splits)

lemma chain_defined: "chain ds p rs \<Longrightarrow> r \<in> set rs \<Longrightarrow> ds r \<noteq> None"
  by (induction rs arbitrary: p) (auto split: option.splits)

lemma lookup_chain:
  "chain ds p rs \<Longrightarrow> lookup_loop ds n p = Some (map_of (map (\<lambda>r. (dev_name (the (ds r)), r)) rs) n)"
proof (induction rs arbitrary: p)
  case Nil
  then show ?case by (simp add: lookup_loop.simps)
next
  case (Cons r rs)
  then show ?case by (subst lookup_loop.simps) (auto split: option.splits)
qed

lemma lookup_list: "holds_list g rs \<Longrightarrow> driver_lookup (Some n) g = Some (map_of (map (\<lambda>r. (name_of g r, r)) rs) n)"
  unfolding holds_list_def driver_lookup_def name_of_def by (simp add: lookup_chain)

lemma registered_list: "holds_list g rs \<Longrightarrow> registered g n = map_of (map (\<lambda>r. (name_of g r, r)) rs) n"
  by (simp add: registered_def lookup_list)

lemma driver_lookup_returns: "registry_ok g \<Longrightarrow> driver_lookup (Some n) g = Some (registered g n)"
  unfolding registry_ok_def using lookup_list registered_list by fastforce

lemma holds_list_init: "holds_list (snd (driver_init g)) []"
  by (simp add: holds_list_def driver_init_def)

lemma map_of_names_None: "map_of (map (\<lambda>r. (f r, r)) rs) n = None \<longleftrightarrow> n \<notin> f ` set rs"
  by (simp add: map_of_eq_None_iff image_image)

lemma register_list:
  assumes "holds_list g rs" and "devices g r = Some d"
  shows "driver_register (Some r) g =
    (if dev_ops d \<noteq> None \<and> registered g (dev_name d) = None
     then Some (KERNEL_SUCCESS, g\<lparr>devices := (devices g)(r \<mapsto> d\<lparr>dev_next := device_list g\<rparr>), device_list := Some r\<rparr>)
     else Some (KERNEL_FAILURE, g))"
  using assms(2) lookup_list [OF assms(1), of "dev_name d"] registered_list [OF assms(1), of "dev_name d"]
  by (auto simp: driver_register_def split: option.splits)

lemma registered_new:
  assumes "holds_list g rs" and "devices g r = Some d" and "dev_ops d \<noteq> None" and "registered g (dev_name d) = None"
  defines "g' \<equiv> g\<lparr>devices := (devices g)(r \<mapsto> d\<lparr>dev_next := device_list g\<rparr>), device_list := Some r\<rparr>"
  shows "holds_list g' (r # rs)" and "registered g' = (registered g)(dev_name d \<mapsto> r)"
proof -
  have n: "dev_name d \<notin> name_of g ` set rs"
    using assms(4) registered_list [OF assms(1)] map_of_names_None [of "name_of g" rs "dev_name d"] by simp
  have nr: "name_of g r = dev_name d" using assms(2) by (simp add: name_of_def)
  then have r: "r \<notin> set rs" using n by (metis imageI)
  have nm: "name_of g' = name_of g" using assms(2) by (auto simp: g'_def name_of_def)
  show hl: "holds_list g' (r # rs)"
    using assms(1,3) n r unfolding holds_list_def nm list.map distinct.simps nr
    by (auto simp: g'_def chain_upd)
  show "registered g' = (registered g)(dev_name d \<mapsto> r)"
    using registered_list [OF hl] registered_list [OF assms(1)] nr unfolding nm by auto
qed

lemma unregister_absent:
  "chain (devices g) cur rs \<Longrightarrow> n \<notin> name_of g ` set rs \<Longrightarrow> unregister_loop n prev cur g = Some (KERNEL_FAILURE, g)"
proof (induction rs arbitrary: prev cur)
  case Nil
  then show ?case by (simp add: unregister_loop.simps)
next
  case (Cons r rs)
  then obtain d where d: "devices g r = Some d" "chain (devices g) (dev_next d) rs" "cur = Some r" by (auto split: option.splits)
  have "dev_name d \<noteq> n" using Cons.prems(2) d(1) by (auto simp: name_of_def)
  then show ?case using Cons.IH [OF d(2), of "Some r"] Cons.prems(2) d by (subst unregister_loop.simps) simp
qed

lemma unregister_present:
  assumes "chain (devices g) cur (a @ r # b)" and "n \<notin> name_of g ` set a" and "devices g r = Some d" and "dev_name d = n"
  shows "unregister_loop n prev cur g =
    (case (if a = [] then prev else Some (last a)) of
       None \<Rightarrow> Some (KERNEL_SUCCESS, g\<lparr>device_list := dev_next d\<rparr>)
     | Some p \<Rightarrow> (case devices g p of
         None \<Rightarrow> None
       | Some e \<Rightarrow> Some (KERNEL_SUCCESS, g\<lparr>devices := (devices g)(p \<mapsto> e\<lparr>dev_next := dev_next d\<rparr>)\<rparr>)))"
  using assms(1,2)
proof (induction a arbitrary: prev cur)
  case Nil
  then have "cur = Some r" by simp
  then show ?case using assms(3,4) by (subst unregister_loop.simps) simp
next
  case (Cons q a)
  then obtain e where e: "devices g q = Some e" "chain (devices g) (dev_next e) (a @ r # b)" "cur = Some q" by (auto split: option.splits)
  have "dev_name e \<noteq> n" using Cons.prems(2) e(1) by (auto simp: name_of_def)
  then have "unregister_loop n prev cur g = unregister_loop n (Some q) (dev_next e) g" using e by (subst unregister_loop.simps) simp
  then show ?case using Cons.IH [OF e(2), of "Some q"] Cons.prems(2) e(1) by (cases "a = []") auto
qed

lemma chain_unlink:
  assumes "chain ds p (c @ x # r # b)" and "distinct (c @ x # r # b)" and "ds x = Some e" and "ds r = Some d"
  shows "chain (ds(x \<mapsto> e\<lparr>dev_next := dev_next d\<rparr>)) p (c @ x # b)"
  using assms(1,2)
proof (induction c arbitrary: p)
  case Nil
  then show ?case using assms(3,4) chain_upd [of x b ds "Some (e\<lparr>dev_next := dev_next d\<rparr>)" "dev_next d"] by (simp add: fun_upd_def)
next
  case (Cons q c)
  then show ?case by (auto split: option.splits)
qed

lemma names_distinct: "distinct (map f rs) \<Longrightarrow> distinct rs"
  by (simp add: distinct_map)

lemma unregister_list:
  assumes "holds_list g (a @ r # b)" and "name_of g r = n"
  shows "\<exists>g'. driver_unregister (Some n) g = Some (KERNEL_SUCCESS, g') \<and> holds_list g' (a @ b) \<and> name_of g' = name_of g \<and>
    (\<forall>q. map_option (\<lambda>d. d\<lparr>dev_next := None\<rparr>) (devices g' q) = map_option (\<lambda>d. d\<lparr>dev_next := None\<rparr>) (devices g q))"
proof -
  note h = assms(1) [unfolded holds_list_def]
  have ch: "chain (devices g) (device_list g) (a @ r # b)" and dn: "distinct (map (name_of g) (a @ r # b))" using h by blast+
  have ops: "\<forall>q\<in>set (a @ b). dev_ops (the (devices g q)) \<noteq> None" using h by auto
  have n: "n \<notin> name_of g ` set a" using dn assms(2) by auto
  obtain d where d: "devices g r = Some d" "dev_name d = n" using chain_defined [OF ch, of r] assms(2) by (auto simp: name_of_def)
  note run = unregister_present [OF ch n d, of None]
  show ?thesis
  proof (cases a rule: rev_cases)
    case Nil
    have "chain (devices g) (dev_next d) b" using ch d(1) Nil by simp
    moreover have "name_of (g\<lparr>device_list := dev_next d\<rparr>) = name_of g" by (auto simp: name_of_def)
    ultimately show ?thesis using run dn ops unfolding Nil driver_unregister_def
      by (intro exI [of _ "g\<lparr>device_list := dev_next d\<rparr>"]) (auto simp: holds_list_def)
  next
    case (snoc c x)
    obtain e where e: "devices g x = Some e" using chain_defined [OF ch, of x] snoc by auto
    let ?g = "g\<lparr>devices := (devices g)(x \<mapsto> e\<lparr>dev_next := dev_next d\<rparr>)\<rparr>"
    have nm: "name_of ?g = name_of g" using e by (auto simp: name_of_def)
    have "chain (devices ?g) (device_list ?g) (a @ b)"
      using chain_unlink [of "devices g" "device_list g" c x r b e d] ch names_distinct [OF dn] e d(1) by (simp add: snoc)
    moreover have "\<forall>q\<in>set (a @ b). dev_ops (the (devices ?g q)) \<noteq> None" using ops bspec [OF ops, of x] e by (auto simp: snoc)
    ultimately have "holds_list ?g (a @ b)" using dn unfolding holds_list_def nm by auto
    moreover have "driver_unregister (Some n) g = Some (KERNEL_SUCCESS, ?g)" using run e by (simp add: driver_unregister_def snoc)
    ultimately show ?thesis using nm e by (intro exI [of _ ?g]) auto
  qed
qed

lemma registered_removed:
  assumes "holds_list g (a @ r # b)" and "holds_list g' (a @ b)" and "name_of g' = name_of g" and "name_of g r = n"
  shows "registered g' = (registered g)(n := None)"
proof
  fix m
  let ?l = "\<lambda>rs. map_of (map (\<lambda>r. (name_of g r, r)) rs) m"
  have dn: "distinct (map (name_of g) (a @ r # b))" using assms(1) by (simp add: holds_list_def)
  have l: "registered g' m = ?l (a @ b)" "registered g m = ?l (a @ r # b)"
    using registered_list [OF assms(1)] registered_list [OF assms(2)] assms(3) by simp_all
  have "n \<notin> name_of g ` set (a @ b)" using dn assms(4) by auto
  then have "?l (a @ b) = None" if "m = n" using map_of_names_None [of "name_of g" "a @ b" m] that by blast
  then show "registered g' m = ((registered g)(n := None)) m"
    unfolding l fun_upd_apply using assms(4) by (auto simp: map_add_def split: option.splits)
qed

lemma register_ok:
  assumes "registry_ok g" and "devices g r = Some d"
  shows "\<exists>c g'. driver_register (Some r) g = Some (c, g') \<and> registry_ok g' \<and>
    (if dev_ops d \<noteq> None \<and> registered g (dev_name d) = None then c = KERNEL_SUCCESS \<and> registered g' = (registered g)(dev_name d \<mapsto> r)
     else c = KERNEL_FAILURE \<and> g' = g)"
proof -
  obtain rs where rs: "holds_list g rs" using assms(1) by (auto simp: registry_ok_def)
  note run = register_list [OF rs assms(2)]
  show ?thesis
  proof (cases "dev_ops d \<noteq> None \<and> registered g (dev_name d) = None")
    case True
    note new = registered_new [OF rs assms(2)]
    show ?thesis using run True new by (auto simp: registry_ok_def)
  qed (use run assms(1) in auto)
qed

lemma unregister_ok:
  assumes "registry_ok g"
  shows "\<exists>c g'. driver_unregister (Some n) g = Some (c, g') \<and> registry_ok g' \<and>
    (if registered g n \<noteq> None then c = KERNEL_SUCCESS \<and> registered g' = (registered g)(n := None) else c = KERNEL_FAILURE \<and> g' = g)"
proof -
  obtain rs where rs: "holds_list g rs" using assms by (auto simp: registry_ok_def)
  show ?thesis
  proof (cases "n \<in> name_of g ` set rs")
    case True
    then obtain r a b where r: "name_of g r = n" "rs = a @ r # b" by (metis imageE split_list)
    then obtain g' where g': "driver_unregister (Some n) g = Some (KERNEL_SUCCESS, g')" "holds_list g' (a @ b)" "name_of g' = name_of g"
      using unregister_list [of g a r b n] rs by blast
    have "registered g n \<noteq> None" using True registered_list [OF rs] map_of_names_None [of "name_of g" rs n] by simp
    then show ?thesis using g' registered_removed [of g a r b g' n] rs r by (auto simp: registry_ok_def)
  next
    case False
    then have "registered g n = None" using registered_list [OF rs] map_of_names_None [of "name_of g" rs n] by simp
    moreover have "driver_unregister (Some n) g = Some (KERNEL_FAILURE, g)"
      using unregister_absent [of g "device_list g" rs n] rs False by (simp add: driver_unregister_def holds_list_def)
    ultimately show ?thesis using assms by simp
  qed
qed

text \<open>The registries that calls of the framework lead to.\<close>

inductive registry_reach :: "'s registry \<Rightarrow> bool" where
  start: "registry_reach (snd (driver_init g))"
| register: "registry_reach g \<Longrightarrow> driver_register dev g = Some (c, g') \<Longrightarrow> registry_reach g'"
| unregister: "registry_reach g \<Longrightarrow> driver_unregister nm g = Some (c, g') \<Longrightarrow> registry_reach g'"

lemma reach_ok: "registry_reach g \<Longrightarrow> registry_ok g"
proof (induction rule: registry_reach.induct)
  case (start g)
  then show ?case using holds_list_init by (auto simp: registry_ok_def)
next
  case (register g dev c g')
  show ?case
  proof (cases dev)
    case None
    then show ?thesis using register by (simp add: driver_register_def)
  next
    case (Some r)
    then obtain d where "devices g r = Some d" using register(2) by (auto simp: driver_register_def split: option.splits)
    then show ?thesis using register_ok [OF register.IH, of r d] register(2) Some by auto
  qed
next
  case (unregister g nm c g')
  show ?case
  proof (cases nm)
    case None
    then show ?thesis using unregister by (simp add: driver_unregister_def)
  next
    case (Some n)
    then show ?thesis using unregister_ok [OF unregister.IH, of n] unregister(2) by auto
  qed
qed

text \<open>
  C30: The driver framework is a map from names to devices. After any sequence of calls every call returns, the list having no
  cycle: a lookup gives the value of the map, registering a device with operations under a free name adds it to the map and anything else is refused without
  effect, and unregistering removes exactly the given name or fails without effect.
\<close>

theorem driver_registry_correct:
  assumes "registry_reach g"
  shows "\<exists>M. (\<forall>n. driver_lookup (Some n) g = Some (M n)) \<and>
    (\<forall>r d. devices g r = Some d \<longrightarrow> (\<exists>c g'. driver_register (Some r) g = Some (c, g') \<and>
       (if dev_ops d \<noteq> None \<and> M (dev_name d) = None
        then c = KERNEL_SUCCESS \<and> (\<forall>n. driver_lookup (Some n) g' = Some ((M(dev_name d \<mapsto> r)) n)) else c = KERNEL_FAILURE \<and> g' = g))) \<and>
    (\<forall>n. \<exists>c g'. driver_unregister (Some n) g = Some (c, g') \<and>
       (if M n \<noteq> None then c = KERNEL_SUCCESS \<and> (\<forall>k. driver_lookup (Some k) g' = Some ((M(n := None)) k)) else c = KERNEL_FAILURE \<and> g' = g))"
proof (intro exI [of _ "registered g"] conjI allI impI)
  note ok = reach_ok [OF assms]
  show "driver_lookup (Some n) g = Some (registered g n)" for n by (rule driver_lookup_returns [OF ok])
  show "\<exists>c g'. driver_register (Some r) g = Some (c, g') \<and>
       (if dev_ops d \<noteq> None \<and> registered g (dev_name d) = None
        then c = KERNEL_SUCCESS \<and> (\<forall>n. driver_lookup (Some n) g' = Some (((registered g)(dev_name d \<mapsto> r)) n)) else c = KERNEL_FAILURE \<and> g' = g)"
    if "devices g r = Some d" for r d
    using register_ok [OF ok that] by (auto simp: driver_lookup_returns KERNEL_SUCCESS_def KERNEL_FAILURE_def split: if_splits)
  show "\<exists>c g'. driver_unregister (Some n) g = Some (c, g') \<and>
       (if registered g n \<noteq> None then c = KERNEL_SUCCESS \<and> (\<forall>k. driver_lookup (Some k) g' = Some (((registered g)(n := None)) k))
        else c = KERNEL_FAILURE \<and> g' = g)" for n
    using unregister_ok [OF ok, of n] by (auto simp: driver_lookup_returns KERNEL_SUCCESS_def KERNEL_FAILURE_def split: if_splits)
qed

text \<open>The framework keeps the promise of a table of named things.\<close>

interpretation drv: name_table registry_ok
  "\<lambda>n r g. \<exists>d. devices g r = Some d \<and> dev_name d = n \<and> dev_ops d \<noteq> None" "\<lambda>n r g. snd (the (driver_register (Some r) g))"
  "\<lambda>n g. registered g n" "\<lambda>r. r"
proof
  fix g :: "'s registry" and n r j
  assume ok: "registry_ok g" and "\<exists>d. devices g r = Some d \<and> dev_name d = n \<and> dev_ops d \<noteq> None"
  then obtain d where d: "devices g r = Some d" "dev_name d = n" "dev_ops d \<noteq> None" by blast
  from register_ok [OF ok d(1)] d(2,3)
  show "registry_ok (snd (the (driver_register (Some r) g)))"
    and "registered (snd (the (driver_register (Some r) g))) j = (if j = n \<and> registered g n = None then Some r else registered g j)"
    by (auto simp: KERNEL_SUCCESS_def KERNEL_FAILURE_def split: if_splits)
qed

text \<open>The null device: once registered under a free name, reads give nothing, writes take everything and requests are refused.\<close>

lemma null_device_works:
  fixes g :: "'s registry"
  assumes "registry_ok g" and "devices g addr = Some null_device" and "registered g (map of_char ''null'') = None"
  obtains g' where "driver_register_null_device addr g = Some (KERNEL_SUCCESS, g')"
    and "\<forall>buf count offset s. driver_read (Some (map of_char ''null'')) buf count offset g' s = Some (0, s) \<and>
      driver_write (Some (map of_char ''null'')) buf count offset g' s = Some (sint count, s)"
    and "\<forall>request arg s. driver_ioctl (Some (map of_char ''null'')) request arg g' s = Some (KERNEL_FAILURE, s)"
proof -
  obtain rs where rs: "holds_list g rs" using assms(1) by (auto simp: registry_ok_def)
  have nd: "dev_ops (null_device :: 's device_t) \<noteq> None" "dev_name (null_device :: 's device_t) = map of_char ''null''" by (simp_all add: null_device_def)
  let ?g = "g\<lparr>devices := (devices g)(addr \<mapsto> null_device\<lparr>dev_next := device_list g\<rparr>), device_list := Some addr\<rparr>"
  have run: "driver_register (Some addr) g = Some (KERNEL_SUCCESS, ?g)" using register_list [OF rs assms(2)] nd assms(3) by simp
  have new: "holds_list ?g (addr # rs)" "registered ?g = (registered g)(map of_char ''null'' \<mapsto> addr)"
    using registered_new [OF rs assms(2) nd(1)] assms(3) nd(2) by simp_all
  have "driver_lookup (Some (map of_char ''null'')) ?g = Some (Some addr)"
    using driver_lookup_returns [of ?g "map of_char ''null''"] new registry_ok_def [of ?g] by auto
  then have ops: "device_ops_of (Some (map of_char ''null'')) ?g = Some (Some null_ops)" by (simp add: device_ops_of_def null_device_def)
  show thesis
    by (rule that [of ?g])
       (use run ops in \<open>simp_all add: driver_register_null_device_def driver_read_def driver_write_def driver_ioctl_def null_ops_def null_read_def null_write_def null_ioctl_def\<close>)
qed

definition sample_registry :: "nat registry" where
  "sample_registry = \<lparr>devices = [0x1000 \<mapsto> null_device], device_list = None\<rparr>"

theorem driver_registry_correct_witness:
  "\<exists>g'. driver_register (Some 0x1000) sample_registry = Some (KERNEL_SUCCESS, g') \<and>
     driver_lookup (Some (map of_char ''null'')) g' = Some (Some 0x1000)"
proof -
  have "registry_reach sample_registry"
    using registry_reach.start [of sample_registry] by (simp add: driver_init_def sample_registry_def)
  from driver_registry_correct [OF this] obtain M where
    look: "\<forall>n. driver_lookup (Some n) sample_registry = Some (M n)" and
    reg: "\<forall>r d. devices sample_registry r = Some d \<longrightarrow> (\<exists>c g'. driver_register (Some r) sample_registry = Some (c, g') \<and>
       (if dev_ops d \<noteq> None \<and> M (dev_name d) = None
        then c = KERNEL_SUCCESS \<and> (\<forall>n. driver_lookup (Some n) g' = Some ((M(dev_name d \<mapsto> r)) n)) else c = KERNEL_FAILURE \<and> g' = sample_registry))"
    by blast
  have "M (map of_char ''null'') = None"
    using look [rule_format, of "map of_char ''null''"] by (simp add: driver_lookup_def sample_registry_def lookup_loop.simps)
  moreover have "devices sample_registry 0x1000 = Some null_device" by (simp add: sample_registry_def)
  ultimately show ?thesis using reg [rule_format, of "0x1000" null_device] by (auto simp: null_device_def)
qed

end
