(* ===== verification/Vfs.thy ===== *)
theory Vfs
  imports Kmalloc NameTable
begin

text \<open>
  The virtual file system and its in-memory file system, \<^verbatim>\<open>kernel/fs/vfs.c\<close>. The structures it allocates are kept in typed stores:
  \<open>nodes\<close> and \<open>files\<close> say which \<open>vfs_node_t\<close> and which \<open>ramfs_file_data_t\<close> is at which address; the address comes from \<open>kmalloc\<close>, which runs on
  the kernel heap, and the contents of files are bytes of the memory. A null pointer is 0; reading through a pointer to no object has no
  meaning, \<open>None\<close>. All nodes use the operations of the in-memory file system. Paths and names are the bytes before the terminating zero. \<open>strtok_r\<close> is
  used as its standard describes it; the zero bytes it stores into the copy of the path, which is freed unread, are left out. \<open>size_t\<close> and \<open>off_t\<close>
  have 32 bits. The name of a node is stored without its terminating zero and padding.
\<close>

section \<open>State\<close>

datatype vfs_node_type = VFS_NODE_TYPE_FILE | VFS_NODE_TYPE_DIRECTORY | VFS_NODE_TYPE_DEVICE | VFS_NODE_TYPE_SYMLINK

record vfs_node =
  ntype :: vfs_node_type
  nname :: "u8 list"
  ndata :: u32
  nparent :: u32
  child_head :: u32
  child_tail :: u32
  next_sibling :: u32
  prev_sibling :: u32

record fd_t =
  fd_node :: u32
  fd_flags :: u32
  fd_offset :: u32

record ramfs_file =
  content :: u32
  fsize :: u32
  capacity :: u32

record vfs_state =
  nodes :: "u32 \<Rightarrow> vfs_node option"
  files :: "u32 \<Rightarrow> ramfs_file option"
  vfs_root :: u32
  vfs_cwd :: u32
  fd_table :: "fd_t list"
  next_fd :: int

definition MAX_OPEN_FILES :: nat where "MAX_OPEN_FILES = 64"
definition O_CREAT :: u32 where "O_CREAT = 0x40"
definition S_IFDIR :: u32 where "S_IFDIR = 0x4000"
definition S_IFBLK :: u32 where "S_IFBLK = 0x6000"
definition S_IFREG :: u32 where "S_IFREG = 0x8000"
definition S_IFLNK :: u32 where "S_IFLNK = 0xA000"

definition empty_fd :: fd_t where
  "empty_fd = \<lparr>fd_node = 0, fd_flags = 0, fd_offset = 0\<rparr>"

text \<open>The static variables as the kernel image has them.\<close>

definition vfs_image :: vfs_state where
  "vfs_image = \<lparr>nodes = Map.empty, files = Map.empty, vfs_root = 0, vfs_cwd = 0, fd_table = replicate MAX_OPEN_FILES empty_fd, next_fd = 3\<rparr>"

definition upd_node :: "u32 \<Rightarrow> (vfs_node \<Rightarrow> vfs_node) \<Rightarrow> vfs_state \<Rightarrow> vfs_state option" where
  "upd_node r f v = map_option (\<lambda>n. v\<lparr>nodes := (nodes v)(r \<mapsto> f n)\<rparr>) (nodes v r)"

section \<open>Nodes and directories\<close>

definition vwrite :: "u32 \<Rightarrow> u8 list \<Rightarrow> 'a vmm_state_scheme \<Rightarrow> 'a vmm_state_scheme option" where
  "vwrite a bs s = for_opt 0 (length bs) (\<lambda>i. vstore8 (a + of_nat i) (bs ! i)) s"

definition kstrdup :: "u8 list \<Rightarrow> 'a heap_state_scheme \<Rightarrow> (u32 \<times> 'a heap_state_scheme) option" where
  "kstrdup str s = do {
     let len = of_nat (length str) + 1;
     (copy, s1) \<leftarrow> kmalloc len s;
     if copy \<noteq> 0 then do { s2 \<leftarrow> vwrite copy (str @ [0]) s1; Some (copy, s2) } else Some (copy, s1)
   }"

definition vfs_create_node ::
    "u8 list \<Rightarrow> vfs_node_type \<Rightarrow> u32 \<Rightarrow> vfs_state \<Rightarrow> 'a heap_state_scheme \<Rightarrow> (u32 \<times> vfs_state \<times> 'a heap_state_scheme) option" where
  "vfs_create_node nm ty parent v s = do {
     (node, s1) \<leftarrow> kmalloc 96 s;
     if node = 0 then Some (0, v, s1)
     else Some (node,
       v\<lparr>nodes := (nodes v)(node \<mapsto> \<lparr>ntype = ty, nname = take 63 nm, ndata = 0, nparent = parent, child_head = 0, child_tail = 0,
                       next_sibling = 0, prev_sibling = 0\<rparr>)\<rparr>, s1)
   }"

definition vfs_dir_add_child :: "u32 \<Rightarrow> u32 \<Rightarrow> vfs_state \<Rightarrow> (int \<times> vfs_state) option" where
  "vfs_dir_add_child dir child v = do {
     d \<leftarrow> nodes v dir;
     if ntype d \<noteq> VFS_NODE_TYPE_DIRECTORY then Some (KERNEL_FAILURE, v)
     else do {
       v1 \<leftarrow> upd_node child (\<lambda>n. n\<lparr>nparent := dir\<rparr>) v;
       d1 \<leftarrow> nodes v1 dir;
       if child_head d1 = 0 then do {
         v2 \<leftarrow> upd_node dir (\<lambda>n. n\<lparr>child_head := child, child_tail := child\<rparr>) v1;
         v3 \<leftarrow> upd_node child (\<lambda>n. n\<lparr>next_sibling := 0, prev_sibling := 0\<rparr>) v2;
         Some (KERNEL_SUCCESS, v3)
       } else do {
         v2 \<leftarrow> upd_node (child_tail d1) (\<lambda>n. n\<lparr>next_sibling := child\<rparr>) v1;
         d2 \<leftarrow> nodes v2 dir;
         v3 \<leftarrow> upd_node child (\<lambda>n. n\<lparr>prev_sibling := child_tail d2\<rparr>) v2;
         v4 \<leftarrow> upd_node child (\<lambda>n. n\<lparr>next_sibling := 0\<rparr>) v3;
         v5 \<leftarrow> upd_node dir (\<lambda>n. n\<lparr>child_tail := child\<rparr>) v4;
         Some (KERNEL_SUCCESS, v5)
       }
     }
   }"

partial_function (option) find_child_loop :: "u8 list \<Rightarrow> u32 \<Rightarrow> vfs_state \<Rightarrow> u32 option" where
  "find_child_loop nm child v =
     (if child = 0 then Some 0
      else (case nodes v child of
              None \<Rightarrow> None
            | Some c \<Rightarrow> if nname c = nm then Some child else find_child_loop nm (next_sibling c) v))"

definition vfs_dir_find_child :: "u32 \<Rightarrow> u8 list \<Rightarrow> vfs_state \<Rightarrow> u32 option" where
  "vfs_dir_find_child dir nm v =
     (case nodes v dir of
        None \<Rightarrow> None
      | Some d \<Rightarrow> if ntype d \<noteq> VFS_NODE_TYPE_DIRECTORY then Some 0 else find_child_loop nm (child_head d) v)"

definition vfs_dir_remove_child :: "u32 \<Rightarrow> u32 \<Rightarrow> vfs_state \<Rightarrow> vfs_state option" where
  "vfs_dir_remove_child dir child v = do {
     d \<leftarrow> nodes v dir;
     if ntype d \<noteq> VFS_NODE_TYPE_DIRECTORY then Some v
     else do {
       c \<leftarrow> nodes v child;
       v1 \<leftarrow> (if prev_sibling c \<noteq> 0 then upd_node (prev_sibling c) (\<lambda>n. n\<lparr>next_sibling := next_sibling c\<rparr>) v
              else upd_node dir (\<lambda>n. n\<lparr>child_head := next_sibling c\<rparr>) v);
       c1 \<leftarrow> nodes v1 child;
       v2 \<leftarrow> (if next_sibling c1 \<noteq> 0 then upd_node (next_sibling c1) (\<lambda>n. n\<lparr>prev_sibling := prev_sibling c1\<rparr>) v1
              else upd_node dir (\<lambda>n. n\<lparr>child_tail := prev_sibling c1\<rparr>) v1);
       upd_node child (\<lambda>n. n\<lparr>nparent := 0, next_sibling := 0, prev_sibling := 0\<rparr>) v2
     }
   }"

section \<open>The in-memory file system\<close>

definition ramfs_open :: "u32 \<Rightarrow> u32 \<Rightarrow> int" where
  "ramfs_open node flags = (if node = 0 \<and> flags AND O_CREAT = 0 then KERNEL_FAILURE else KERNEL_SUCCESS)"

definition ramfs_close :: "u32 \<Rightarrow> int" where
  "ramfs_close node = KERNEL_SUCCESS"

definition ramfs_read :: "u32 \<Rightarrow> u32 \<Rightarrow> u32 \<Rightarrow> u32 \<Rightarrow> vfs_state \<Rightarrow> 'a vmm_state_scheme \<Rightarrow> (int \<times> 'a vmm_state_scheme) option" where
  "ramfs_read node buf count offset v s = do {
     n \<leftarrow> nodes v node;
     if ntype n \<noteq> VFS_NODE_TYPE_FILE then Some (KERNEL_FAILURE, s)
     else if ndata n = 0 then Some (0, s)
     else do {
       dat \<leftarrow> files v (ndata n);
       if offset \<ge> fsize dat then Some (0, s)
       else do {
         let bytes_to_read = (if offset + count > fsize dat then fsize dat - offset else count);
         s1 \<leftarrow> vmemcpy buf (content dat + offset) bytes_to_read s;
         Some (sint bytes_to_read, s1)
       }
     }
   }"

text \<open>The doubling loop of \<open>ramfs_write\<close>.\<close>

partial_function (option) grow_capacity :: "u32 \<Rightarrow> u32 \<Rightarrow> u32 option" where
  "grow_capacity new_capacity new_size =
     (if new_capacity < new_size then grow_capacity (new_capacity * 2) new_size else Some new_capacity)"

text \<open>The file data of a node, allocated when there is none; \<open>Inl\<close> is the failure of \<open>kmalloc\<close>.\<close>

definition file_data ::
    "u32 \<Rightarrow> vfs_state \<Rightarrow> 'a heap_state_scheme \<Rightarrow> ('a heap_state_scheme + u32 \<times> vfs_state \<times> 'a heap_state_scheme) option" where
  "file_data node v s = do {
     n \<leftarrow> nodes v node;
     if ndata n \<noteq> 0 then Some (Inr (ndata n, v, s))
     else do {
       (dat, s1) \<leftarrow> kmalloc 12 s;
       if dat = 0 then Some (Inl s1)
       else do {
         let v1 = v\<lparr>files := (files v)(dat \<mapsto> \<lparr>content = 0, fsize = 0, capacity = 0\<rparr>)\<rparr>;
         v2 \<leftarrow> upd_node node (\<lambda>n. n\<lparr>ndata := dat\<rparr>) v1;
         Some (Inr (dat, v2, s1))
       }
     }
   }"

text \<open>Making room for \<open>new_size\<close> bytes; \<open>Inl\<close> is the failure of \<open>krealloc\<close>, after which the file data is freed.\<close>

definition ensure_capacity ::
    "u32 \<Rightarrow> u32 \<Rightarrow> u32 \<Rightarrow> vfs_state \<Rightarrow> 'a heap_state_scheme \<Rightarrow>
     (vfs_state \<times> 'a heap_state_scheme + vfs_state \<times> 'a heap_state_scheme) option" where
  "ensure_capacity node dat new_size v s = do {
     f \<leftarrow> files v dat;
     if new_size > capacity f then do {
       new_capacity \<leftarrow> grow_capacity (if capacity f = 0 then 256 else capacity f) new_size;
       (new_content, s1) \<leftarrow> krealloc (content f) new_capacity s;
       if new_content = 0 then do {
         s2 \<leftarrow> kfree dat s1;
         v1 \<leftarrow> upd_node node (\<lambda>n. n\<lparr>ndata := 0\<rparr>) (v\<lparr>files := (files v)(dat := None)\<rparr>);
         Some (Inl (v1, s2))
       } else Some (Inr (v\<lparr>files := (files v)(dat \<mapsto> f\<lparr>content := new_content, capacity := new_capacity\<rparr>)\<rparr>, s1))
     } else Some (Inr (v, s))
   }"

definition ramfs_write ::
    "u32 \<Rightarrow> u32 \<Rightarrow> u32 \<Rightarrow> u32 \<Rightarrow> vfs_state \<Rightarrow> 'a heap_state_scheme \<Rightarrow> (int \<times> vfs_state \<times> 'a heap_state_scheme) option" where
  "ramfs_write node buf count offset v s = do {
     n \<leftarrow> nodes v node;
     if ntype n \<noteq> VFS_NODE_TYPE_FILE then Some (KERNEL_FAILURE, v, s)
     else do {
       r \<leftarrow> file_data node v s;
       case r of
         Inl s1 \<Rightarrow> Some (KERNEL_FAILURE, v, s1)
       | Inr (dat, v1, s1) \<Rightarrow> do {
           let new_size = offset + count;
           r2 \<leftarrow> ensure_capacity node dat new_size v1 s1;
           case r2 of
             Inl (v2, s2) \<Rightarrow> Some (KERNEL_FAILURE, v2, s2)
           | Inr (v2, s2) \<Rightarrow> do {
               f \<leftarrow> files v2 dat;
               s3 \<leftarrow> vmemcpy (content f + offset) buf count s2;
               let v3 = (if new_size > fsize f then v2\<lparr>files := (files v2)(dat \<mapsto> f\<lparr>fsize := new_size\<rparr>)\<rparr> else v2);
               Some (sint count, v3, s3)
             }
         }
     }
   }"

text \<open>For a file that was never written to, the code reads the size through a null pointer; that is left out, as \<open>None\<close>.\<close>

definition ramfs_stat :: "u32 \<Rightarrow> u32 \<Rightarrow> vfs_state \<Rightarrow> 'a vmm_state_scheme \<Rightarrow> (int \<times> 'a vmm_state_scheme) option" where
  "ramfs_stat node st v s =
     (if st = 0 then Some (KERNEL_FAILURE, s)
      else do {
        n \<leftarrow> nodes v node;
        (mode, sz, blocks) \<leftarrow>
          (case ntype n of
             VFS_NODE_TYPE_DIRECTORY \<Rightarrow> Some (S_IFDIR OR 0x1ED, 0, 0)
           | VFS_NODE_TYPE_FILE \<Rightarrow> map_option (\<lambda>f. (S_IFREG OR 0x1A4, fsize f, (fsize f + 511) div 512)) (files v (ndata n))
           | VFS_NODE_TYPE_DEVICE \<Rightarrow> Some (S_IFBLK OR 0x1A4, 0, 0)
           | VFS_NODE_TYPE_SYMLINK \<Rightarrow> Some (S_IFLNK OR 0x1ED, 0, 0));
        s1 \<leftarrow> vstore32 st mode s;
        s2 \<leftarrow> vstore32 (st + 4) sz s1;
        s3 \<leftarrow> vstore32 (st + 8) blocks s2;
        Some (KERNEL_SUCCESS, s3)
      })"

section \<open>Paths\<close>

definition normalize_path :: "u8 list \<Rightarrow> 'a heap_state_scheme \<Rightarrow> (u32 \<times> 'a heap_state_scheme) option" where
  "normalize_path path s = kstrdup path s"

text \<open>The tokens that \<open>strtok_r\<close> finds with the separator \<open>/\<close>.\<close>

function path_tokens :: "u8 list \<Rightarrow> u8 list list" where
  "path_tokens p =
     (let q = dropWhile (\<lambda>c. c = 47) p
      in if q = [] then [] else takeWhile (\<lambda>c. c \<noteq> 47) q # path_tokens (dropWhile (\<lambda>c. c \<noteq> 47) q))"
  by pat_completeness auto

lemma dropWhile_shrinks: "dropWhile (\<lambda>c. c = x) p \<noteq> [] \<Longrightarrow> length (dropWhile (\<lambda>c. c \<noteq> x) (dropWhile (\<lambda>c. c = x) p)) < length p"
proof -
  assume "dropWhile (\<lambda>c. c = x) p \<noteq> []"
  then obtain c q where q: "dropWhile (\<lambda>c. c = x) p = c # q" "c \<noteq> x" by (metis (full_types) hd_dropWhile list.exhaust_sel)
  have "length (c # q) \<le> length p" using length_dropWhile_le [of "\<lambda>c. c = x" p] q(1) by simp
  moreover have "length (dropWhile (\<lambda>c. c \<noteq> x) q) \<le> length q" by (rule length_dropWhile_le)
  ultimately show ?thesis using q by simp
qed

termination path_tokens
  by (relation "measure length") (simp_all add: dropWhile_shrinks)

declare path_tokens.simps [simp del]

text \<open>The loop over the tokens; 0 is the null pointer returned for a name that does not exist.\<close>

fun walk_tokens :: "u8 list list \<Rightarrow> u32 \<Rightarrow> vfs_state \<Rightarrow> u32 option" where
  "walk_tokens [] cur v = Some cur"
| "walk_tokens (token # tokens) cur v =
     (if token = [46] then walk_tokens tokens cur v
      else if token = [46, 46] then
        (case nodes v cur of None \<Rightarrow> None | Some n \<Rightarrow> walk_tokens tokens (if nparent n \<noteq> 0 then nparent n else cur) v)
      else
        (case vfs_dir_find_child cur token v of
           None \<Rightarrow> None
         | Some child \<Rightarrow> if child = 0 then Some 0 else walk_tokens tokens child v))"

definition resolve_path :: "u8 list option \<Rightarrow> vfs_state \<Rightarrow> 'a heap_state_scheme \<Rightarrow> (u32 \<times> 'a heap_state_scheme) option" where
  "resolve_path path v s =
     (case path of
        None \<Rightarrow> Some (0, s)
      | Some p \<Rightarrow> do {
          (norm, s1) \<leftarrow> normalize_path p s;
          if norm = 0 then Some (0, s1)
          else if p \<noteq> [] \<and> hd p = 47 then do {
            node \<leftarrow> walk_tokens (path_tokens (tl p)) (vfs_root v) v;
            s2 \<leftarrow> kfree (norm + 1) s1;
            Some (node, s2)
          } else if vfs_cwd v = 0 then do { s2 \<leftarrow> kfree norm s1; Some (0, s2) }
          else do {
            node \<leftarrow> walk_tokens (path_tokens p) (vfs_cwd v) v;
            s2 \<leftarrow> kfree norm s1;
            Some (node, s2)
          }
        })"

section \<open>The interface\<close>

definition vfs_init :: "vfs_state \<Rightarrow> 'a heap_state_scheme \<Rightarrow> (int \<times> vfs_state \<times> 'a heap_state_scheme) option" where
  "vfs_init v s = do {
     (root, v1, s1) \<leftarrow> vfs_create_node [47] VFS_NODE_TYPE_DIRECTORY 0 v s;
     if root = 0 then Some (KERNEL_FAILURE, v1\<lparr>vfs_root := 0\<rparr>, s1)
     else do {
       v2 \<leftarrow> upd_node root (\<lambda>n. n\<lparr>nparent := 0\<rparr>) (v1\<lparr>vfs_root := root\<rparr>);
       let v3 = v2\<lparr>vfs_cwd := root\<rparr>;
       let v4 = v3\<lparr>fd_table := for_upto 0 MAX_OPEN_FILES (\<lambda>i t. t[i := empty_fd]) (fd_table v3)\<rparr>;
       Some (KERNEL_SUCCESS, v4\<lparr>next_fd := 0\<rparr>, s1)
     }
   }"

definition vfs_mount :: "u8 list option \<Rightarrow> vfs_state \<Rightarrow> 'a heap_state_scheme \<Rightarrow> (int \<times> 'a heap_state_scheme) option" where
  "vfs_mount target v s = do {
     (node, s1) \<leftarrow> resolve_path target v s;
     if node = 0 then Some (KERNEL_FAILURE, s1)
     else do {
       n \<leftarrow> nodes v node;
       Some (if ntype n \<noteq> VFS_NODE_TYPE_DIRECTORY then KERNEL_FAILURE else KERNEL_SUCCESS, s1)
     }
   }"

definition vfs_lookup :: "u8 list option \<Rightarrow> vfs_state \<Rightarrow> 'a heap_state_scheme \<Rightarrow> (u32 \<times> 'a heap_state_scheme) option" where
  "vfs_lookup path v s = resolve_path path v s"

definition free_fd :: "fd_t list \<Rightarrow> nat option" where
  "free_fd t = first_some (\<lambda>i. if fd_node (t ! i) = 0 then Some i else None) [0..<MAX_OPEN_FILES]"

definition vfs_open :: "u8 list option \<Rightarrow> u32 \<Rightarrow> vfs_state \<Rightarrow> 'a heap_state_scheme \<Rightarrow> (int \<times> vfs_state \<times> 'a heap_state_scheme) option" where
  "vfs_open path flags v s = do {
     (node, s1) \<leftarrow> resolve_path path v s;
     if node = 0 then Some (KERNEL_FAILURE, v, s1)
     else if ramfs_open node flags \<noteq> KERNEL_SUCCESS then Some (KERNEL_FAILURE, v, s1)
     else (case free_fd (fd_table v) of
             None \<Rightarrow> Some (KERNEL_FAILURE, v, s1)
           | Some fd \<Rightarrow> Some (int fd, v\<lparr>fd_table := (fd_table v)[fd := \<lparr>fd_node = node, fd_flags = flags, fd_offset = 0\<rparr>]\<rparr>, s1))
   }"

definition fd_closed :: "int \<Rightarrow> vfs_state \<Rightarrow> bool" where
  "fd_closed fd v \<longleftrightarrow> fd < 0 \<or> fd \<ge> int MAX_OPEN_FILES \<or> fd_node (fd_table v ! nat fd) = 0"

definition vfs_close :: "int \<Rightarrow> vfs_state \<Rightarrow> int \<times> vfs_state" where
  "vfs_close fd v =
     (if fd_closed fd v then (KERNEL_FAILURE, v)
      else if ramfs_close (fd_node (fd_table v ! nat fd)) \<noteq> KERNEL_SUCCESS then (KERNEL_FAILURE, v)
      else (KERNEL_SUCCESS, v\<lparr>fd_table := (fd_table v)[nat fd := empty_fd]\<rparr>))"

text \<open>The descriptor moves on by what was read or written.\<close>

definition advance_fd :: "int \<Rightarrow> int \<Rightarrow> vfs_state \<Rightarrow> vfs_state" where
  "advance_fd fd n v =
     (if n > 0 then v\<lparr>fd_table := (fd_table v)[nat fd := (fd_table v ! nat fd)\<lparr>fd_offset := fd_offset (fd_table v ! nat fd) + of_int n\<rparr>]\<rparr> else v)"

definition vfs_read :: "int \<Rightarrow> u32 \<Rightarrow> u32 \<Rightarrow> vfs_state \<Rightarrow> 'a heap_state_scheme \<Rightarrow> (int \<times> vfs_state \<times> 'a heap_state_scheme) option" where
  "vfs_read fd buf count v s =
     (if fd_closed fd v then Some (KERNEL_FAILURE, v, s)
      else do {
        let f = fd_table v ! nat fd;
        (bytes_read, s1) \<leftarrow> ramfs_read (fd_node f) buf count (fd_offset f) v s;
        Some (bytes_read, advance_fd fd bytes_read v, s1)
      })"

definition vfs_write :: "int \<Rightarrow> u32 \<Rightarrow> u32 \<Rightarrow> vfs_state \<Rightarrow> 'a heap_state_scheme \<Rightarrow> (int \<times> vfs_state \<times> 'a heap_state_scheme) option" where
  "vfs_write fd buf count v s =
     (if fd_closed fd v then Some (KERNEL_FAILURE, v, s)
      else do {
        let f = fd_table v ! nat fd;
        (bytes_written, v1, s1) \<leftarrow> ramfs_write (fd_node f) buf count (fd_offset f) v s;
        Some (bytes_written, advance_fd fd bytes_written v1, s1)
      })"

definition vfs_stat :: "u8 list option \<Rightarrow> u32 \<Rightarrow> vfs_state \<Rightarrow> 'a heap_state_scheme \<Rightarrow> (int \<times> 'a heap_state_scheme) option" where
  "vfs_stat path st v s = do {
     (node, s1) \<leftarrow> resolve_path path v s;
     if node = 0 then Some (KERNEL_FAILURE, s1) else ramfs_stat node st v s1
   }"

section \<open>Directories\<close>

text \<open>
  The children of a directory, as the doubly linked list the code keeps them in: \<open>siblings N p cs q\<close> when the nodes \<open>cs\<close> are linked in
  this order, after \<open>p\<close> and before \<open>q\<close>.
\<close>

definition first_or :: "u32 \<Rightarrow> u32 list \<Rightarrow> u32" where
  "first_or q cs = (case cs of [] \<Rightarrow> q | c # _ \<Rightarrow> c)"

definition last_or :: "u32 \<Rightarrow> u32 list \<Rightarrow> u32" where
  "last_or p cs = (if cs = [] then p else last cs)"

primrec siblings :: "(u32 \<Rightarrow> vfs_node option) \<Rightarrow> u32 \<Rightarrow> u32 list \<Rightarrow> u32 \<Rightarrow> bool" where
  "siblings N p [] q = True"
| "siblings N p (c # cs) q =
     (c \<noteq> 0 \<and> (\<exists>n. N c = Some n \<and> prev_sibling n = p \<and> next_sibling n = first_or q cs) \<and> siblings N c cs q)"

definition dir_list :: "vfs_state \<Rightarrow> u32 \<Rightarrow> u32 list \<Rightarrow> bool" where
  "dir_list v dir cs \<longleftrightarrow>
     (\<exists>d. nodes v dir = Some d \<and> ntype d = VFS_NODE_TYPE_DIRECTORY \<and> child_head d = first_or 0 cs \<and> child_tail d = last_or 0 cs) \<and>
     distinct cs \<and> dir \<notin> set cs \<and> siblings (nodes v) 0 cs 0"

text \<open>The names of the children, with the node of each.\<close>

definition name_of :: "vfs_state \<Rightarrow> u32 \<Rightarrow> u8 list" where
  "name_of v c = nname (the (nodes v c))"

definition dir_entries :: "vfs_state \<Rightarrow> u32 list \<Rightarrow> (u8 list \<times> u32) list" where
  "dir_entries v cs = map (\<lambda>c. (name_of v c, c)) cs"

lemma or_simps [simp]:
  "first_or q [] = q" "first_or q (c # cs) = c" "last_or p [] = p" "last_or p (c # cs) = last_or c cs" "last_or p (cs @ [c]) = c"
  "first_or q (cs @ ds) = first_or (first_or q ds) cs" "last_or p (cs @ ds) = last_or (last_or p cs) ds"
  by (simp_all add: first_or_def last_or_def split: list.split)

lemma first_or_in: "cs \<noteq> [] \<Longrightarrow> first_or q cs \<in> set cs"
  by (simp add: first_or_def split: list.split)

lemma siblings_append [simp]:
  "siblings N p (cs @ ds) q \<longleftrightarrow> siblings N p cs (first_or q ds) \<and> siblings N (last_or p cs) ds q"
  by (induction cs arbitrary: p) auto

lemma siblings_cong: "(\<And>c. c \<in> set cs \<Longrightarrow> M c = N c) \<Longrightarrow> siblings N p cs q \<Longrightarrow> siblings M p cs q"
  by (induction cs arbitrary: p) auto

lemma siblings_node: "siblings N p cs q \<Longrightarrow> c \<in> set cs \<Longrightarrow> c \<noteq> 0 \<and> (\<exists>n. N c = Some n)"
  by (induction cs arbitrary: p) auto

lemma upd_node_Some [simp]: "nodes v r = Some n \<Longrightarrow> upd_node r f v = Some (v\<lparr>nodes := (nodes v)(r \<mapsto> f n)\<rparr>)"
  by (simp add: upd_node_def)

lemma find_child_loop_correct:
  "siblings (nodes v) p cs 0 \<Longrightarrow>
   find_child_loop nm (first_or 0 cs) v = Some (case map_of (dir_entries v cs) nm of None \<Rightarrow> 0 | Some c \<Rightarrow> c)"
proof (induction cs arbitrary: p)
  case Nil
  then show ?case by (simp add: find_child_loop.simps dir_entries_def)
next
  case (Cons c cs)
  then obtain n where n: "c \<noteq> 0" "nodes v c = Some n" "next_sibling n = first_or 0 cs" "siblings (nodes v) c cs 0" by auto
  show ?case using n Cons.IH [OF n(4)] by (simp add: find_child_loop.simps [of nm c] dir_entries_def name_of_def)
qed

lemma find_child_correct:
  assumes "dir_list v dir cs"
  shows "vfs_dir_find_child dir nm v = Some (case map_of (dir_entries v cs) nm of None \<Rightarrow> 0 | Some c \<Rightarrow> c)"
  using assms find_child_loop_correct [of v 0 cs nm] by (auto simp: dir_list_def vfs_dir_find_child_def)

text \<open>Changing a link at one end of a list.\<close>

lemma siblings_last:
  assumes "siblings N p cs q" and "distinct cs" and "cs = xs @ [t]" and "N t = Some n"
    and "M t = Some (n\<lparr>next_sibling := r\<rparr>)" and "\<And>c. c \<in> set xs \<Longrightarrow> M c = N c"
  shows "siblings M p cs r"
  using assms siblings_cong [of xs M N p t] by auto

lemma siblings_first:
  assumes "siblings N p (c # cs) q" and "N c = Some n"
    and "M c = Some (n\<lparr>prev_sibling := r\<rparr>)" and "\<And>d. d \<in> set cs \<Longrightarrow> M d = N d"
  shows "siblings M r (c # cs) q"
  using assms siblings_cong [of cs M N c q] by auto

lemma add_child_correct:
  assumes dl: "dir_list v dir cs" and c: "nodes v c = Some n" "c \<noteq> 0" "c \<noteq> dir" "c \<notin> set cs"
  obtains v' where "vfs_dir_add_child dir c v = Some (KERNEL_SUCCESS, v')" and "dir_list v' dir (cs @ [c])"
    and "dir_entries v' (cs @ [c]) = dir_entries v cs @ [(nname n, c)]"
    and "map_option nparent (nodes v' c) = Some dir" and "\<And>x. x \<notin> set (c # dir # cs) \<Longrightarrow> nodes v' x = nodes v x"
    and "v' = v\<lparr>nodes := nodes v'\<rparr>" and "\<And>x. name_of v' x = name_of v x"
proof -
  obtain d where d: "nodes v dir = Some d" "ntype d = VFS_NODE_TYPE_DIRECTORY" "child_head d = first_or 0 cs" "child_tail d = last_or 0 cs"
    and cs: "distinct cs" "dir \<notin> set cs" "siblings (nodes v) 0 cs 0" using dl by (auto simp: dir_list_def)
  show thesis
  proof (cases cs rule: rev_cases)
    case Nil
    define N where "N = (nodes v)(c \<mapsto> n\<lparr>nparent := dir, next_sibling := 0, prev_sibling := 0\<rparr>, dir \<mapsto> d\<lparr>child_head := c, child_tail := c\<rparr>)"
    have run: "vfs_dir_add_child dir c v = Some (KERNEL_SUCCESS, v\<lparr>nodes := N\<rparr>)"
      using d c Nil by (simp add: vfs_dir_add_child_def N_def fun_upd_twist)
    show thesis
      by (rule that [OF run]) (use d c Nil in \<open>auto simp: dir_list_def dir_entries_def name_of_def N_def\<close>)
  next
    case (snoc xs t)
    have t: "t \<noteq> 0" "t \<noteq> c" "t \<noteq> dir" "child_head d \<noteq> 0" "child_tail d = t" "dir \<notin> set xs" "t \<notin> set xs" "c \<notin> set xs"
      using snoc cs c d siblings_node [OF cs(3)] first_or_in [of cs 0] by auto
    obtain m where m: "nodes v t = Some m" using snoc cs(3) by auto
    define N where "N = (nodes v)(c \<mapsto> n\<lparr>nparent := dir, prev_sibling := t, next_sibling := 0\<rparr>, t \<mapsto> m\<lparr>next_sibling := c\<rparr>, dir \<mapsto> d\<lparr>child_tail := c\<rparr>)"
    have "vfs_dir_add_child dir c v = Some (KERNEL_SUCCESS, v\<lparr>nodes := N\<rparr>)"
      using d c t m by (simp add: vfs_dir_add_child_def N_def fun_upd_twist)
    moreover have "siblings N 0 (xs @ [t]) c"
      by (rule siblings_last [OF cs(3) cs(1) snoc m, unfolded snoc]) (use t c in \<open>auto simp: N_def\<close>)
    ultimately show thesis
      by (intro that [of "v\<lparr>nodes := N\<rparr>"]) (use d c t m cs snoc in \<open>auto simp: dir_list_def dir_entries_def name_of_def N_def\<close>)
  qed
qed

text \<open>Removing is done in three steps: the link before the node, the link after it, the node itself.\<close>

lemma unlink_before:
  assumes "dir_list v dir (xs @ c # ys)" and "nodes v c = Some n"
  obtains v1 where
    "(if prev_sibling n \<noteq> 0 then upd_node (prev_sibling n) (\<lambda>m. m\<lparr>next_sibling := next_sibling n\<rparr>) v
      else upd_node dir (\<lambda>m. m\<lparr>child_head := next_sibling n\<rparr>) v) = Some v1"
    and "v1 = v\<lparr>nodes := nodes v1\<rparr>" and "siblings (nodes v1) 0 xs (first_or 0 ys)"
    and "\<exists>d. nodes v1 dir = Some d \<and> ntype d = VFS_NODE_TYPE_DIRECTORY \<and> child_head d = first_or 0 (xs @ ys) \<and> child_tail d = last_or c ys"
    and "\<And>x. x \<notin> set (dir # xs) \<Longrightarrow> nodes v1 x = nodes v x" and "\<And>x. name_of v1 x = name_of v x"
proof -
  obtain d where d: "nodes v dir = Some d" "ntype d = VFS_NODE_TYPE_DIRECTORY" "child_head d = first_or c xs" "child_tail d = last_or c ys"
    and cs: "distinct (xs @ c # ys)" "dir \<notin> set (xs @ c # ys)" "siblings (nodes v) 0 xs c" "siblings (nodes v) c ys 0"
    and n: "prev_sibling n = last_or 0 xs" "next_sibling n = first_or 0 ys" using assms by (auto simp: dir_list_def)
  show thesis
  proof (cases xs rule: rev_cases)
    case Nil
    show thesis
      by (rule that [of "v\<lparr>nodes := (nodes v)(dir \<mapsto> d\<lparr>child_head := first_or 0 ys\<rparr>)\<rparr>"]) (use d n Nil in \<open>auto simp: name_of_def\<close>)
  next
    case (snoc us p)
    obtain m where m: "nodes v p = Some m" "p \<noteq> 0" "p \<noteq> dir" using snoc cs by auto
    let ?N = "(nodes v)(p \<mapsto> m\<lparr>next_sibling := first_or 0 ys\<rparr>)"
    have "siblings ?N 0 (us @ [p]) (first_or 0 ys)"
      by (rule siblings_last [OF cs(3) _ snoc m(1), unfolded snoc]) (use cs snoc in auto)
    then show thesis
      by (intro that [of "v\<lparr>nodes := ?N\<rparr>"]) (use d n m snoc in \<open>auto simp: name_of_def\<close>)
  qed
qed

lemma unlink_after:
  assumes "nodes v c = Some n" and "prev_sibling n = last_or 0 xs" and "next_sibling n = first_or 0 ys"
    and d: "nodes v dir = Some d" "ntype d = VFS_NODE_TYPE_DIRECTORY" "child_head d = first_or 0 (xs @ ys)" "child_tail d = last_or c ys"
    and cs: "distinct (xs @ c # ys)" "dir \<notin> set (xs @ c # ys)" "siblings (nodes v) 0 xs (first_or 0 ys)" "siblings (nodes v) c ys 0"
  obtains v1 where
    "(if next_sibling n \<noteq> 0 then upd_node (next_sibling n) (\<lambda>m. m\<lparr>prev_sibling := prev_sibling n\<rparr>) v
      else upd_node dir (\<lambda>m. m\<lparr>child_tail := prev_sibling n\<rparr>) v) = Some v1"
    and "v1 = v\<lparr>nodes := nodes v1\<rparr>" and "dir_list v1 dir (xs @ ys)"
    and "\<And>x. x \<notin> set (dir # ys) \<Longrightarrow> nodes v1 x = nodes v x" and "\<And>x. name_of v1 x = name_of v x"
proof (cases ys)
  case Nil
  let ?N = "(nodes v)(dir \<mapsto> d\<lparr>child_tail := last_or 0 xs\<rparr>)"
  have "siblings ?N 0 xs 0" by (rule siblings_cong [OF _ cs(3) [unfolded Nil or_simps]]) (use cs(2) in auto)
  then show thesis
    by (intro that [of "v\<lparr>nodes := ?N\<rparr>"]) (use assms Nil in \<open>auto simp: name_of_def dir_list_def\<close>)
next
  case (Cons y zs)
  obtain m where m: "nodes v y = Some m" "y \<noteq> 0" "y \<noteq> dir" using Cons cs by auto
  let ?N = "(nodes v)(y \<mapsto> m\<lparr>prev_sibling := last_or 0 xs\<rparr>)"
  have 1: "siblings ?N 0 xs y" using cs Cons by (intro siblings_cong [OF _ cs(3) [unfolded Cons or_simps]]) auto
  have 2: "siblings ?N (last_or 0 xs) (y # zs) 0"
    by (rule siblings_first [OF cs(4) [unfolded Cons] m(1)]) (use cs Cons in auto)
  have "dir_list (v\<lparr>nodes := ?N\<rparr>) dir (xs @ ys)" unfolding dir_list_def siblings_append Cons
    using 1 2 d cs m by (simp add: Cons)
  then show thesis
    by (intro that [of "v\<lparr>nodes := ?N\<rparr>"]) (use assms(3) m in \<open>auto simp: name_of_def Cons assms(1,2)\<close>)
qed

lemma remove_child_correct:
  assumes dl: "dir_list v dir (xs @ c # ys)"
  obtains v' where "vfs_dir_remove_child dir c v = Some v'" and "dir_list v' dir (xs @ ys)"
    and "map_option nparent (nodes v' c) = Some 0" and "\<And>x. x \<notin> set (dir # xs @ c # ys) \<Longrightarrow> nodes v' x = nodes v x"
    and "v' = v\<lparr>nodes := nodes v'\<rparr>" and "\<And>x. name_of v' x = name_of v x"
proof -
  obtain d n where d: "nodes v dir = Some d" "ntype d = VFS_NODE_TYPE_DIRECTORY"
    and cs: "distinct (xs @ c # ys)" "dir \<notin> set (xs @ c # ys)" "siblings (nodes v) c ys 0"
    and n: "nodes v c = Some n" "prev_sibling n = last_or 0 xs" "next_sibling n = first_or 0 ys" using dl by (auto simp: dir_list_def)
  obtain v1 d1 where v1: "(if prev_sibling n \<noteq> 0 then upd_node (prev_sibling n) (\<lambda>m. m\<lparr>next_sibling := next_sibling n\<rparr>) v
      else upd_node dir (\<lambda>m. m\<lparr>child_head := next_sibling n\<rparr>) v) = Some v1" "v1 = v\<lparr>nodes := nodes v1\<rparr>"
    "siblings (nodes v1) 0 xs (first_or 0 ys)" "nodes v1 dir = Some d1" "ntype d1 = VFS_NODE_TYPE_DIRECTORY"
    "child_head d1 = first_or 0 (xs @ ys)" "child_tail d1 = last_or c ys"
    and f1: "\<And>x. x \<notin> set (dir # xs) \<Longrightarrow> nodes v1 x = nodes v x" "\<And>x. name_of v1 x = name_of v x"
    by (rule unlink_before [OF dl n(1)]) blast
  have c1: "nodes v1 c = Some n" using f1(1) [of c] cs n by auto
  have ys1: "siblings (nodes v1) c ys 0" by (rule siblings_cong [OF _ cs(3)], rule f1(1)) (use cs in auto)
  obtain v2 where v2: "(if next_sibling n \<noteq> 0 then upd_node (next_sibling n) (\<lambda>m. m\<lparr>prev_sibling := prev_sibling n\<rparr>) v1
      else upd_node dir (\<lambda>m. m\<lparr>child_tail := prev_sibling n\<rparr>) v1) = Some v2" "v2 = v1\<lparr>nodes := nodes v2\<rparr>" "dir_list v2 dir (xs @ ys)"
    and f2: "\<And>x. x \<notin> set (dir # ys) \<Longrightarrow> nodes v2 x = nodes v1 x" "\<And>x. name_of v2 x = name_of v1 x"
    by (rule unlink_after [OF c1 n(2,3) v1(4-7) cs(1,2) v1(3) ys1]) blast
  have c2: "nodes v2 c = Some n" using f2(1) [of c] c1 cs by auto
  let ?N = "(nodes v2)(c \<mapsto> n\<lparr>nparent := 0, next_sibling := 0, prev_sibling := 0\<rparr>)"
  have run: "vfs_dir_remove_child dir c v = Some (v2\<lparr>nodes := ?N\<rparr>)"
    unfolding vfs_dir_remove_child_def d(1) n(1) bind_simps by (simp add: d v1(1) c1 v2(1) c2)
  have "siblings ?N 0 (xs @ ys) 0" by (rule siblings_cong [of _ _ "nodes v2"]) (use v2(3) cs in \<open>auto simp: dir_list_def\<close>)
  then have dl2: "dir_list (v2\<lparr>nodes := ?N\<rparr>) dir (xs @ ys)" using v2(3) cs by (auto simp: dir_list_def)
  have eq: "v2\<lparr>nodes := M\<rparr> = v\<lparr>nodes := M\<rparr>" for M by (subst v2(2), subst v1(2)) simp
  show thesis
    by (rule that [OF run dl2]) (use f1 f2 n(1) c2 in \<open>auto simp: name_of_def eq\<close>)
qed

text \<open>
  Directories. The doubly linked list of children acts as a list of named entries in which the first of a name wins: a search always ends and
  gives the node of the first entry with the name, or null; adding a node appends its entry and makes the directory its parent; removing a
  node takes out its entry and no other. Both touch only the directory, its children and the node itself.
\<close>

theorem vfs_directory_correct:
  assumes "dir_list v dir cs"
  shows "(\<forall>nm. vfs_dir_find_child dir nm v = Some (case map_of (dir_entries v cs) nm of None \<Rightarrow> 0 | Some c \<Rightarrow> c)) \<and>
    (\<forall>c n. nodes v c = Some n \<and> c \<noteq> 0 \<and> c \<noteq> dir \<and> c \<notin> set cs \<longrightarrow>
       (\<exists>v'. vfs_dir_add_child dir c v = Some (KERNEL_SUCCESS, v') \<and> dir_list v' dir (cs @ [c]) \<and>
          dir_entries v' (cs @ [c]) = dir_entries v cs @ [(nname n, c)] \<and> map_option nparent (nodes v' c) = Some dir \<and>
          (\<forall>x. x \<notin> set (c # dir # cs) \<longrightarrow> nodes v' x = nodes v x))) \<and>
    (\<forall>c \<in> set cs. \<exists>v'. vfs_dir_remove_child dir c v = Some v' \<and> dir_list v' dir (remove1 c cs) \<and>
          dir_entries v' (remove1 c cs) = filter (\<lambda>e. snd e \<noteq> c) (dir_entries v cs) \<and> map_option nparent (nodes v' c) = Some 0 \<and>
          (\<forall>x. x \<notin> set (dir # cs) \<longrightarrow> nodes v' x = nodes v x))"
proof (intro conjI allI ballI impI)
  show "vfs_dir_find_child dir nm v = Some (case map_of (dir_entries v cs) nm of None \<Rightarrow> 0 | Some c \<Rightarrow> c)" for nm
    by (rule find_child_correct [OF assms])
  show "\<exists>v'. vfs_dir_add_child dir c v = Some (KERNEL_SUCCESS, v') \<and> dir_list v' dir (cs @ [c]) \<and>
      dir_entries v' (cs @ [c]) = dir_entries v cs @ [(nname n, c)] \<and> map_option nparent (nodes v' c) = Some dir \<and>
      (\<forall>x. x \<notin> set (c # dir # cs) \<longrightarrow> nodes v' x = nodes v x)"
    if "nodes v c = Some n \<and> c \<noteq> 0 \<and> c \<noteq> dir \<and> c \<notin> set cs" for c n
    using add_child_correct [OF assms, of c n] that by metis
next
  fix c assume "c \<in> set cs"
  then obtain xs ys where cs: "cs = xs @ c # ys" by (auto dest: split_list)
  have d: "c \<notin> set xs" "c \<notin> set ys" using assms by (auto simp: dir_list_def cs)
  have ne: "filter (\<lambda>e. snd e \<noteq> c) (dir_entries v zs) = dir_entries v zs" if "c \<notin> set zs" for zs
    using that by (induction zs) (auto simp: dir_entries_def)
  have e: "dir_entries v (zs @ us) = dir_entries v zs @ dir_entries v us" "dir_entries v (c # us) = (name_of v c, c) # dir_entries v us" for zs us
    by (simp_all add: dir_entries_def)
  obtain v' where v': "vfs_dir_remove_child dir c v = Some v'" "dir_list v' dir (xs @ ys)" "map_option nparent (nodes v' c) = Some 0"
    "\<And>x. x \<notin> set (dir # xs @ c # ys) \<Longrightarrow> nodes v' x = nodes v x" "\<And>x. name_of v' x = name_of v x"
    using assms [unfolded cs] by (rule remove_child_correct) blast
  have "dir_entries v' (xs @ ys) = filter (\<lambda>e. snd e \<noteq> c) (dir_entries v cs)"
    using d by (simp add: cs e ne) (simp add: dir_entries_def v'(5))
  then show "\<exists>v'. vfs_dir_remove_child dir c v = Some v' \<and> dir_list v' dir (remove1 c cs) \<and>
      dir_entries v' (remove1 c cs) = filter (\<lambda>e. snd e \<noteq> c) (dir_entries v cs) \<and> map_option nparent (nodes v' c) = Some 0 \<and>
      (\<forall>x. x \<notin> set (dir # cs) \<longrightarrow> nodes v' x = nodes v x)"
    using v' d by (intro exI [of _ v']) (simp add: cs remove1_append)
qed

definition sample_node :: "vfs_node_type \<Rightarrow> u8 list \<Rightarrow> vfs_node" where
  "sample_node ty nm = \<lparr>ntype = ty, nname = nm, ndata = 0, nparent = 0, child_head = 0, child_tail = 0, next_sibling = 0, prev_sibling = 0\<rparr>"

definition sample_vfs :: vfs_state where
  "sample_vfs = vfs_image\<lparr>nodes := [0x1000 \<mapsto> sample_node VFS_NODE_TYPE_DIRECTORY [47], 0x2000 \<mapsto> sample_node VFS_NODE_TYPE_FILE [97]]\<rparr>"

theorem vfs_directory_correct_witness:
  "\<exists>v'. vfs_dir_add_child 0x1000 0x2000 sample_vfs = Some (KERNEL_SUCCESS, v') \<and> dir_entries v' [0x2000] = [([97], 0x2000)]"
proof -
  have "dir_list sample_vfs 0x1000 []" by (simp add: dir_list_def sample_vfs_def sample_node_def)
  from vfs_directory_correct [OF this] have
    "nodes sample_vfs 0x2000 = Some (sample_node VFS_NODE_TYPE_FILE [97]) \<Longrightarrow>
     \<exists>v'. vfs_dir_add_child 0x1000 0x2000 sample_vfs = Some (KERNEL_SUCCESS, v') \<and>
       dir_entries v' ([] @ [0x2000]) = dir_entries sample_vfs [] @ [(nname (sample_node VFS_NODE_TYPE_FILE [97]), 0x2000)]"
    by fastforce
  then show ?thesis by (simp add: sample_vfs_def sample_node_def dir_entries_def)
qed

text \<open>The children of a directory are a table of named things.\<close>

definition dir_admits :: "u32 \<Rightarrow> u8 list \<Rightarrow> u32 \<Rightarrow> vfs_state \<Rightarrow> bool" where
  "dir_admits dir nm c v \<longleftrightarrow> c \<noteq> 0 \<and> map_option nname (nodes v c) = Some nm \<and> (\<exists>cs. dir_list v dir cs \<and> c \<notin> set (dir # cs))"

interpretation dirs: name_table "\<lambda>v. \<exists>cs. dir_list v dir cs" "dir_admits dir" "\<lambda>nm c v. snd (the (vfs_dir_add_child dir c v))"
    "\<lambda>nm v. (case vfs_dir_find_child dir nm v of Some c \<Rightarrow> if c = 0 then None else Some c | None \<Rightarrow> None)" "\<lambda>c. c"
  for dir
proof
  fix v nm c assume "dir_admits dir nm c v"
  then obtain n cs where c: "c \<noteq> 0" "nodes v c = Some n" "nname n = nm" "dir_list v dir cs" "c \<noteq> dir" "c \<notin> set cs"
    by (auto simp: dir_admits_def)
  obtain v' where v': "vfs_dir_add_child dir c v = Some (KERNEL_SUCCESS, v')" "dir_list v' dir (cs @ [c])"
    "dir_entries v' (cs @ [c]) = dir_entries v cs @ [(nname n, c)]"
    by (rule add_child_correct [OF c(4,2,1,5,6)])
  show "\<exists>cs. dir_list (snd (the (vfs_dir_add_child dir c v))) dir cs" using v' by auto
  have nz: "x \<noteq> 0" if "map_of (dir_entries v cs) j = Some x" for j x
    using map_of_SomeD [OF that] siblings_node [of "nodes v" 0 cs 0] c(4) by (auto simp: dir_entries_def dir_list_def)
  show "(case vfs_dir_find_child dir j (snd (the (vfs_dir_add_child dir c v))) of Some c \<Rightarrow> if c = 0 then None else Some c | None \<Rightarrow> None) =
    (if j = nm \<and> (case vfs_dir_find_child dir nm v of Some c \<Rightarrow> if c = 0 then None else Some c | None \<Rightarrow> None) = None then Some c
     else (case vfs_dir_find_child dir j v of Some c \<Rightarrow> if c = 0 then None else Some c | None \<Rightarrow> None))" for j
    using c v'(1) nz by (auto simp: find_child_correct [OF v'(2)] find_child_correct [OF c(4)] v'(3) map_add_def split: option.splits)
qed

text \<open>Adding nodes to an empty directory one after the other, a search finds the first that was added under the name.\<close>

lemma directory_filled:
  assumes "dir_list v dir []" and "admitted (dir_admits dir) (\<lambda>nm c v. snd (the (vfs_dir_add_child dir c v))) kvs v"
  shows "(case vfs_dir_find_child dir nm (fold (\<lambda>(nm, c) v. snd (the (vfs_dir_add_child dir c v))) kvs v) of
      Some c \<Rightarrow> if c = 0 then None else Some c | None \<Rightarrow> None) = map_of kvs nm"
  using dirs.find_adds [of v dir kvs nm] assms by (auto simp: find_child_correct [OF assms(1)] dir_entries_def option.map_ident)

end
