(* ===== verification/VfsFiles.thy ===== *)
theory VfsFiles
  imports Vfs
begin

text \<open>
  The files of the RAM file system (\<open>src/kernel/fs/vfs.c\<close>): when the blocks of the heap that hold the data and the content of each file are
  its own (\<open>files_ok\<close>), reading and writing a file act on its list of bytes as on a list, and leave the other files alone.
\<close>

section \<open>Blocks of the heap\<close>

lemma block_ptr:
  assumes "heap_inv s bs" and "(p - 16, sz) \<in> allocated bs"
  shows "unat p = unat (p - 16) + 16" and "unat p + unat sz \<le> unat (heap_end s)" and "KH \<le> unat p" and "p \<noteq> 0"
proof -
  have ch: "heap_chain s bs" using assms(1) by (simp add: heap_inv_def)
  have m: "(p - 16, sz, False) \<in> set bs" using assms(2) by (simp add: allocated_def)
  note cm = chain_member [OF ch m]
  show u: "unat p = unat (p - 16) + 16" using served_pointer [OF assms(1) m] .
  show "unat p + unat sz \<le> unat (heap_end s)" using cm(2) u by simp
  show "KH \<le> unat p" using cm(1) u by (simp add: in_hdr_def)
  then show "p \<noteq> 0" by auto
qed

lemma blocks_apart:
  assumes "heap_inv s bs" and "(a, az) \<in> allocated bs" and "(b, bz) \<in> allocated bs" and "a \<noteq> b"
  shows "unat a + 16 + unat az \<le> unat b \<or> unat b + 16 + unat bz \<le> unat a"
proof -
  have t: "tiles KH bs (unat (heap_end s))" using assms(1) by (simp add: heap_inv_def heap_chain_def)
  have m: "(a, az, False) \<in> set bs" "(b, bz, False) \<in> set bs" using assms(2,3) by (simp_all add: allocated_def)
  have "unat a \<noteq> unat b" using assms(4) by (simp add: word_unat_eq_iff)
  with tiles_disjoint [OF t m(1) m(2)] tiles_disjoint [OF t m(2) m(1)] show ?thesis by linarith
qed

lemma block_unique: "heap_inv s bs \<Longrightarrow> (a, az) \<in> allocated bs \<Longrightarrow> (a, bz) \<in> allocated bs \<Longrightarrow> az = bz"
  using tiles_unique [of KH bs] by (auto simp: heap_inv_def heap_chain_def allocated_def)

text \<open>Copying from one block into another changes the bytes of the target and nothing else.\<close>

lemma heap_copy:
  assumes inv: "heap_inv t bs" and p: "(p - 16, pz) \<in> allocated bs" "unat off + unat len \<le> unat pz"
    and b: "(b, bz) \<in> allocated bs" "b \<noteq> p - 16" "unat b + 16 \<le> unat src" "unat src + unat len \<le> unat b + 16 + unat bz"
  obtains u where "vmemcpy (p + off) src len t = Some u" and "heap_inv u bs" and "heap_end u = heap_end t"
    and "same_contents t u (allocated bs - {(p - 16, pz)})"
    and "\<And>i. i < unat pz \<Longrightarrow> view u (p + of_nat i) =
           (if unat off \<le> i \<and> i < unat off + unat len then view t (src + of_nat (i - unat off)) else view t (p + of_nat i))"
proof -
  have ch: "heap_chain t bs" and na: "no_adjacent_free bs" using inv by (simp_all add: heap_inv_def)
  note bp = block_ptr [OF inv p(1)] and e = unat_u32_lt [of "heap_end t"]
  have b': "(b, bz, False) \<in> set bs" and p': "(p - 16, pz, False) \<in> set bs" using b(1) p(1) by (simp_all add: allocated_def)
  note mb = chain_member [OF ch b']
  have u: "unat (p + of_nat i) = unat p + i" if "i < unat pz" for i
    using that bp(2) e by (intro unat_range [of p "unat pz"]) simp_all
  have po: "unat (p + off) = unat p + unat off"
    using p(2) bp(2) e unat_range [of p "unat off + 1" "unat off"] by simp
  have win: "window t KH (unat (heap_end t))" using ch by (simp add: heap_chain_def heap_win_def)
  have ap: "unat p + unat pz \<le> unat b \<or> unat b + 16 + unat bz \<le> unat p - 16"
    using blocks_apart [OF inv p(1) b(1)] b(2) bp(1) by auto
  obtain u where u1: "vmemcpy (p + off) src len t = Some u" "vm_only t u" "window u KH (unat (heap_end t))"
    "\<And>i. i < unat len \<Longrightarrow> view u (p + off + of_nat i) = view t (src + of_nat i)"
    "\<And>x. KH \<le> unat x \<Longrightarrow> unat x < unat (heap_end t) \<Longrightarrow> unat x < unat (p + off) \<or> unat (p + off) + unat len \<le> unat x \<Longrightarrow>
       view u x = view t x"
    by (rule vmemcpy_run [OF win, of "p + off" len src])
      (use bp mb e po p(2) b(3,4) ap in \<open>auto simp: in_hdr_def\<close>)
  note dw = chain_data_write [OF ch p' u1(2,3)]
  have ch1: "heap_chain u bs" "same_contents t u (allocated bs - {(p - 16, pz)})"
    by (rule dw, rule u1(5), use po bp(1) p(2) in auto)+
  have inv1: "heap_inv u bs" using ch1(1) na by (simp add: heap_inv_def)
  have v: "view u (p + of_nat i) =
      (if unat off \<le> i \<and> i < unat off + unat len then view t (src + of_nat (i - unat off)) else view t (p + of_nat i))" if i: "i < unat pz" for i
  proof (cases "unat off \<le> i \<and> i < unat off + unat len")
    case True
    then have "p + of_nat i = p + off + of_nat (i - unat off)" by (simp add: of_nat_diff)
    then show ?thesis using True u1(4) [of "i - unat off"] by auto
  next
    case False
    then show ?thesis using u1(5) [of "p + of_nat i"] u [OF i] bp po i by auto
  qed
  show thesis by (rule that [OF u1(1) inv1 vm_only_heap(1) [OF u1(2)] ch1(2) v])
qed

text \<open>The allocated blocks other than the one at \<open>p\<close>, which may be null.\<close>

definition other_blocks :: "u32 \<Rightarrow> block list \<Rightarrow> (u32 \<times> u32) set" where
  "other_blocks p bs = {(b, bz) \<in> allocated bs. p = 0 \<or> b \<noteq> p - 16}"

lemma other_blocks_sub: "other_blocks p bs \<subseteq> allocated bs"
  by (auto simp: other_blocks_def)

text \<open>\<open>krealloc\<close> on a null pointer or an allocated block, whatever the size.\<close>

lemma krealloc_any:
  assumes inv: "heap_inv s bs" and n: "n \<noteq> 0" "unat (heap_end s) + unat n + 0x2007 < 2 ^ 32"
    and p: "p \<noteq> 0 \<longrightarrow> (p - 16, sz) \<in> allocated bs"
  obtains (null) u where "krealloc p n s = Some (0, u)" and "heap_inv u bs" and "same_contents s u (allocated bs)"
  | (got) q u bs' nz where "krealloc p n s = Some (q, u)" and "q \<noteq> 0" and "heap_inv u bs'" and "n \<le> nz" and "(q - 16, nz) \<in> allocated bs'"
    and "same_contents s u (other_blocks p bs)" and "other_blocks p bs \<subseteq> other_blocks q bs'"
    and "p \<noteq> 0 \<longrightarrow> (\<forall>i < unat sz. view u (q + of_nat i) = view s (p + of_nat i))"
proof (cases "p = 0")
  case True
  obtain q u bs' where k: "kmalloc n s = Some (q, u)" "heap_inv u bs'" "same_contents s u (allocated bs)"
    "if q = 0 then bs' = bs \<and> (\<forall>(a, sz, fr) \<in> set bs. fr \<longrightarrow> unat sz < unat n) else served bs bs' n q"
    using kmalloc_outcome [OF inv n] by (elim exE conjE) (rule that)
  have run: "krealloc p n s = Some (q, u)" using True k(1) by (simp add: krealloc_def)
  show thesis
  proof (cases "q = 0")
    case True
    then show thesis using null run k by simp
  next
    case False
    then obtain nz where nz: "unat n \<le> unat nz" "allocated bs' = insert (q - 16, nz) (allocated bs)"
      "\<forall>(b, bz) \<in> allocated bs. unat b + 16 + unat bz \<le> unat q - 16 \<or> unat q + unat nz \<le> unat b"
      using k(4) by (auto simp: served_def)
    have al: "(q - 16, nz) \<in> allocated bs'" using nz(2) by simp
    have "b \<noteq> q - 16" if "(b, bz) \<in> allocated bs" for b bz using nz(3) that block_ptr(1) [OF k(2) al] by fastforce
    then have sub: "other_blocks p bs \<subseteq> other_blocks q bs'" using nz(2) by (auto simp: other_blocks_def)
    show thesis
      by (rule got [OF run False k(2) _ al _ sub])
        (use nz(1) \<open>p = 0\<close> same_contents_mono [OF k(3) other_blocks_sub] in \<open>simp_all add: word_le_nat_alt\<close>)
  qed
next
  case False
  have al: "(p - 16, sz) \<in> allocated bs" using p False by simp
  show thesis
  proof (cases "sz < n")
    case True
    have p16: "p - 16 + 16 = p" by simp
    obtain q u bs' where k: "krealloc p n s = Some (q, u)" "heap_inv u bs'" "same_contents s u (allocated bs - {(p - 16, sz)})"
      "if q = 0 then bs' = bs \<and> same_contents s u (allocated bs)
       else (\<exists>nsz. n \<le> nsz \<and> allocated bs' = insert (q - 16, nsz) (allocated bs - {(p - 16, sz)})) \<and> q - 16 \<notin> fst ` allocated bs \<and>
         (\<forall>i < unat sz. view u (q + of_nat i) = view s (p + of_nat i))"
      using krealloc_outcome [OF inv al True n(2), unfolded p16] by (elim exE conjE) (rule that)
    have ob: "other_blocks p bs \<subseteq> allocated bs - {(p - 16, sz)}" using False by (auto simp: other_blocks_def)
    show thesis
    proof (cases "q = 0")
      case True
      then show thesis using null k by simp
    next
      case qnz: False
      then obtain nz where nz: "n \<le> nz" "allocated bs' = insert (q - 16, nz) (allocated bs - {(p - 16, sz)})"
        "q - 16 \<notin> fst ` allocated bs" using k(4) by auto
      have sub: "other_blocks p bs \<subseteq> other_blocks q bs'" using nz False by (force simp: other_blocks_def)
      show thesis
        by (rule got [OF k(1) qnz k(2) nz(1) _ same_contents_mono [OF k(3) ob] sub]) (use k(4) qnz nz(2) in simp_all)
    qed
  next
    case nlt: False
    have run: "krealloc p n s = Some (p, s)"
      using False n nlt allocated_size [OF inv al] by (simp add: krealloc_def Let_def not_less)
    show thesis by (rule got [OF run False inv _ al]) (use nlt in \<open>simp_all add: not_less same_contents_def\<close>)
  qed
qed

text \<open>The doubling loop ends when the size wanted is below half of the range.\<close>

lemma grow_capacity_returns:
  assumes "0 < unat c" and "unat n < 2147483648"
  shows "\<exists>m. grow_capacity c n = Some m \<and> n \<le> m \<and> (m = c \<or> unat m < 2 * unat n)"
  using assms(1)
proof (induction "unat n - unat c" arbitrary: c rule: less_induct)
  case less
  show ?case
  proof (cases "c < n")
    case False
    then have "grow_capacity c n = Some c" by (simp add: grow_capacity.simps)
    with False show ?thesis by (simp add: not_less)
  next
    case True
    then have lt: "unat c < unat n" by (simp add: word_less_nat_alt)
    then have u: "unat (c * 2) = 2 * unat c" using assms(2) unat_mult_lem [of c 2] by simp
    have "unat n - unat (c * 2) < unat n - unat c" "0 < unat (c * 2)" using u lt less.prems by simp_all
    from less.hyps [OF this] obtain m where "grow_capacity (c * 2) n = Some m" "n \<le> m" "m = c * 2 \<or> unat m < 2 * unat n" by blast
    moreover have "grow_capacity c n = grow_capacity (c * 2) n" using True by (simp add: grow_capacity.simps [of c])
    ultimately show ?thesis using u lt by auto
  qed
qed

section \<open>Files\<close>

text \<open>
  A file is well formed when its data and its contents are allocated blocks of the heap and the contents fit the capacity; \<open>fbytes\<close> and
  \<open>file_bytes\<close> are the bytes of the file.
\<close>

definition data_ok :: "ramfs_file \<Rightarrow> u32 \<Rightarrow> block list \<Rightarrow> bool" where
  "data_ok f dat bs \<longleftrightarrow> dat \<noteq> 0 \<and> dat - 16 \<in> fst ` allocated bs \<and> fsize f \<le> capacity f \<and>
     (if content f = 0 then capacity f = 0
      else content f \<noteq> dat \<and> 0 < capacity f \<and> (\<exists>cz. (content f - 16, cz) \<in> allocated bs \<and> capacity f \<le> cz))"

definition file_ok :: "vfs_state \<Rightarrow> block list \<Rightarrow> u32 \<Rightarrow> bool" where
  "file_ok v bs node \<longleftrightarrow> (\<exists>n. nodes v node = Some n \<and> ntype n = VFS_NODE_TYPE_FILE \<and>
     (ndata n = 0 \<or> (\<exists>f. files v (ndata n) = Some f \<and> data_ok f (ndata n) bs)))"

definition fbytes :: "ramfs_file \<Rightarrow> 'a vmm_state_scheme \<Rightarrow> u8 list" where
  "fbytes f s = map (\<lambda>i. view s (content f + of_nat i)) [0..<unat (fsize f)]"

definition file_data_of :: "vfs_state \<Rightarrow> u32 \<Rightarrow> (u32 \<times> ramfs_file) option" where
  "file_data_of v node = (case nodes v node of None \<Rightarrow> None | Some n \<Rightarrow> map_option (Pair (ndata n)) (if ndata n = 0 then None else files v (ndata n)))"

definition file_bytes :: "vfs_state \<Rightarrow> 'a vmm_state_scheme \<Rightarrow> u32 \<Rightarrow> u8 list" where
  "file_bytes v s node = (case file_data_of v node of None \<Rightarrow> [] | Some (dat, f) \<Rightarrow> fbytes f s)"

definition file_blocks :: "vfs_state \<Rightarrow> u32 \<Rightarrow> u32 set" where
  "file_blocks v node = (case file_data_of v node of None \<Rightarrow> {} | Some (dat, f) \<Rightarrow> {dat - 16} \<union> (if content f = 0 then {} else {content f - 16}))"

text \<open>Making room keeps the bytes of the file, or fails and drops the file data.\<close>

lemma ensure_capacity_outcome:
  assumes inv: "heap_inv s bs" and f: "files v dat = Some f" "data_ok f dat bs" and nd: "nodes v node = Some n"
    and room: "unat (heap_end s) + 2 * unat new_size + 0x2107 < 2 ^ 32"
  obtains (full) s' bs' dz where "ensure_capacity node dat new_size v s =
        Some (Inl (v\<lparr>files := (files v)(dat := None), nodes := (nodes v)(node \<mapsto> n\<lparr>ndata := 0\<rparr>)\<rparr>, s'))"
      and "heap_inv s' bs'" and "allocated bs' = allocated bs - {(dat - 16, dz)}" and "same_contents s s' (allocated bs)"
  | (ok) f' s' bs' where "ensure_capacity node dat new_size v s = Some (Inr (v\<lparr>files := (files v)(dat \<mapsto> f')\<rparr>, s'))"
      and "heap_inv s' bs'" and "data_ok f' dat bs'" and "new_size \<le> capacity f'" and "fsize f' = fsize f" and "fbytes f' s' = fbytes f s"
      and "same_contents s s' (other_blocks (content f) bs)" and "other_blocks (content f) bs \<subseteq> other_blocks (content f') bs'"
proof (cases "new_size > capacity f")
  case False
  have "ensure_capacity node dat new_size v s = Some (Inr (v\<lparr>files := (files v)(dat \<mapsto> f)\<rparr>, s))"
    using False f(1) by (simp add: ensure_capacity_def map_upd_triv)
  then show thesis by (rule ok [OF _ inv f(2)]) (use False in \<open>simp_all add: not_less same_contents_def\<close>)
next
  case True
  let ?c = "if capacity f = 0 then 256 else capacity f"
  have ns: "unat new_size < 2147483648" using room by simp
  have "0 < unat ?c" using unat_gt_0 [of "capacity f"] by auto
  from grow_capacity_returns [OF this ns] obtain m where m: "grow_capacity ?c new_size = Some m" "new_size \<le> m" "m = ?c \<or> unat m < 2 * unat new_size" by blast
  have mb: "unat m \<le> 2 * unat new_size + 256" "m \<noteq> 0" using m(2,3) True by (auto simp: word_less_nat_alt word_le_nat_alt split: if_splits)
  have room': "unat (heap_end s) + unat m + 0x2007 < 2 ^ 32" using mb room by simp
  obtain dz where dz: "(dat - 16, dz) \<in> allocated bs" using f(2) by (auto simp: data_ok_def)
  have d16: "dat - 16 + 16 = dat" by simp
  have "\<exists>cz. content f \<noteq> 0 \<longrightarrow> (content f - 16, cz) \<in> allocated bs \<and> capacity f \<le> cz"
    using f(2) by (auto simp: data_ok_def split: if_splits)
  then obtain cz where "content f \<noteq> 0 \<longrightarrow> (content f - 16, cz) \<in> allocated bs \<and> capacity f \<le> cz" ..
  then have cz: "content f \<noteq> 0 \<longrightarrow> (content f - 16, cz) \<in> allocated bs" "content f \<noteq> 0 \<longrightarrow> capacity f \<le> cz" by simp_all
  show thesis
  proof (rule krealloc_any [OF inv mb(2) room' cz(1)])
    fix u assume null: "krealloc (content f) m s = Some (0, u)" "heap_inv u bs" "same_contents s u (allocated bs)"
    obtain t bs' where t: "kfree dat u = Some t" "heap_inv t bs'" "allocated bs' = allocated bs - {(dat - 16, dz)}" "same_contents u t (allocated bs)"
      by (rule kfree_outcome [OF null(2) dz, unfolded d16]) blast
    have "ensure_capacity node dat new_size v s =
        Some (Inl (v\<lparr>files := (files v)(dat := None), nodes := (nodes v)(node \<mapsto> n\<lparr>ndata := 0\<rparr>)\<rparr>, t))"
      using True f(1) m(1) null(1) t(1) nd by (simp add: ensure_capacity_def)
    then show thesis using full t(2,3) same_contents_trans [OF null(3) t(4)] by blast
  next
    fix q u bs' nz assume got: "krealloc (content f) m s = Some (q, u)" "q \<noteq> 0" "heap_inv u bs'" "m \<le> nz" "(q - 16, nz) \<in> allocated bs'"
      "same_contents s u (other_blocks (content f) bs)" "other_blocks (content f) bs \<subseteq> other_blocks q bs'"
      "content f \<noteq> 0 \<longrightarrow> (\<forall>i < unat cz. view u (q + of_nat i) = view s (content f + of_nat i))"
    let ?f = "f\<lparr>content := q, capacity := m\<rparr>"
    have run: "ensure_capacity node dat new_size v s = Some (Inr (v\<lparr>files := (files v)(dat \<mapsto> ?f)\<rparr>, u))"
      using True f(1) m(1) got(1,2) by (simp add: ensure_capacity_def)
    have sz: "fsize f \<le> capacity f" "content f = 0 \<Longrightarrow> capacity f = 0" "content f \<noteq> 0 \<Longrightarrow> content f \<noteq> dat" "dat \<noteq> 0"
      using f(2) by (simp_all add: data_ok_def split: if_splits)
    have oth: "(dat - 16, dz) \<in> other_blocks (content f) bs" using dz sz(3) by (auto simp: other_blocks_def)
    have "(dat - 16, dz) \<in> other_blocks q bs'" using oth got(7) by blast
    then have dq: "dat - 16 \<in> fst ` allocated bs'" "q \<noteq> dat" using got(2) by (force simp: other_blocks_def)+
    have "fsize f \<le> m" using sz(1) True m(2) by order
    then have ok': "data_ok ?f dat bs'" using got(2,4,5) dq sz(4) mb(2) by (auto simp: data_ok_def word_gt_0)
    have fb: "fbytes ?f u = fbytes f s"
    proof (cases "content f = 0")
      case True
      then show ?thesis using sz by (simp add: fbytes_def)
    next
      case False
      have "fsize f \<le> cz" using sz(1) cz(2) False by auto
      then show ?thesis using got(8) False by (auto simp: fbytes_def word_le_nat_alt)
    qed
    show thesis
      by (rule ok [OF run got(3) ok' _ _ fb got(6)]) (use m(2) got(7) in simp_all)
  qed
qed

text \<open>All files are well formed, and no two share a block.\<close>

definition is_file :: "vfs_state \<Rightarrow> u32 \<Rightarrow> bool" where
  "is_file v x \<longleftrightarrow> map_option ntype (nodes v x) = Some VFS_NODE_TYPE_FILE"

definition files_ok :: "vfs_state \<Rightarrow> block list \<Rightarrow> bool" where
  "files_ok v bs \<longleftrightarrow> (\<forall>x. is_file v x \<longrightarrow> file_ok v bs x) \<and>
     (\<forall>x y. is_file v x \<and> is_file v y \<and> x \<noteq> y \<longrightarrow> file_blocks v x \<inter> file_blocks v y = {})"

text \<open>What an operation on the file \<open>node\<close> leaves alone.\<close>

definition free_blocks :: "u32 \<Rightarrow> vfs_state \<Rightarrow> block list \<Rightarrow> (u32 \<times> u32) set" where
  "free_blocks node v bs = {(b, bz) \<in> allocated bs. b \<notin> file_blocks v node}"

definition keeps_others ::
    "u32 \<Rightarrow> vfs_state \<Rightarrow> 'a heap_state_scheme \<Rightarrow> block list \<Rightarrow> vfs_state \<Rightarrow> 'a heap_state_scheme \<Rightarrow> block list \<Rightarrow> bool" where
  "keeps_others node v s bs v' s' bs' \<longleftrightarrow> (\<forall>x. x \<noteq> node \<longrightarrow> nodes v' x = nodes v x) \<and>
     (\<forall>d bz. (d - 16, bz) \<in> free_blocks node v bs \<longrightarrow> files v' d = files v d) \<and>
     free_blocks node v bs \<subseteq> free_blocks node v' bs' \<and> same_contents s s' (free_blocks node v bs)"

lemma keeps_others_trans:
  assumes "keeps_others node v s bs v1 s1 bs1" and "keeps_others node v1 s1 bs1 v2 s2 bs2"
  shows "keeps_others node v s bs v2 s2 bs2"
proof -
  note k1 = assms(1) [unfolded keeps_others_def] and k2 = assms(2) [unfolded keeps_others_def]
  have sub: "free_blocks node v bs \<subseteq> free_blocks node v1 bs1" using k1 by simp
  have "files v2 d = files v d" if "(d - 16, bz) \<in> free_blocks node v bs" for d bz
  proof -
    have "files v1 d = files v d" using k1 that by auto
    moreover have "(d - 16, bz) \<in> free_blocks node v1 bs1" using sub that by auto
    then have "files v2 d = files v1 d" using k2 by auto
    ultimately show ?thesis by simp
  qed
  moreover have "same_contents s s2 (free_blocks node v bs)" by (rule same_contents_trans [OF _ _ sub, of s s1 s2]) (use k1 k2 in simp_all)
  ultimately show ?thesis unfolding keeps_others_def using k1 k2 by auto
qed

lemma file_ok_data: "file_ok v bs x \<Longrightarrow> file_data_of v x = Some (dat, f) \<Longrightarrow> data_ok f dat bs"
  by (auto simp: file_ok_def file_data_of_def split: if_splits)

lemma file_blocks_allocated: "file_ok v bs x \<Longrightarrow> file_blocks v x \<subseteq> fst ` allocated bs"
  using file_ok_data [of v bs x] by (force simp: file_blocks_def data_ok_def split: option.splits if_splits prod.splits)

lemma fbytes_same:
  assumes "heap_inv s bs" and "data_ok f dat bs" and "same_contents s t A" and "content f \<noteq> 0 \<Longrightarrow> \<forall>cz. (content f - 16, cz) \<in> allocated bs \<longrightarrow> (content f - 16, cz) \<in> A"
  shows "fbytes f t = fbytes f s"
proof (cases "content f = 0")
  case True
  then have "fsize f = 0" using assms(2) by (auto simp: data_ok_def)
  then show ?thesis by (simp add: fbytes_def)
next
  case False
  then obtain cz where cz: "(content f - 16, cz) \<in> allocated bs" "fsize f \<le> cz" using assms(2) by (auto simp: data_ok_def)
  note bp = block_ptr [OF assms(1) cz(1)]
  have "view t (content f + of_nat i) = view s (content f + of_nat i)" if "i < unat (fsize f)" for i
    using same_contents_byte [OF assms(3), of "content f - 16" cz i] assms(4) [OF False] cz that bp unat_u32_lt [of "heap_end s"]
    by (simp add: word_le_nat_alt)
  then show ?thesis by (simp add: fbytes_def)
qed

lemma other_file:
  assumes inv: "heap_inv s bs" and k: "keeps_others node v s bs v' s' bs'" and x: "file_ok v bs x" "x \<noteq> node" "file_blocks v x \<inter> file_blocks v node = {}"
  shows "file_ok v' bs' x" and "file_data_of v' x = file_data_of v x" and "file_bytes v' s' x = file_bytes v s x"
proof -
  obtain n where n: "nodes v x = Some n" "ntype n = VFS_NODE_TYPE_FILE" "ndata n = 0 \<or> (\<exists>f. files v (ndata n) = Some f \<and> data_ok f (ndata n) bs)"
    using x(1) by (auto simp: file_ok_def)
  have n': "nodes v' x = Some n" using k x(2) n(1) by (simp add: keeps_others_def)
  have "file_ok v' bs' x \<and> file_data_of v' x = file_data_of v x \<and> file_bytes v' s' x = file_bytes v s x"
  proof (cases "ndata n = 0")
    case True
    then show ?thesis using n n' by (simp add: file_ok_def file_data_of_def file_bytes_def)
  next
    case False
    then obtain f where f: "files v (ndata n) = Some f" "data_ok f (ndata n) bs" using n(3) by blast
    have fd: "file_data_of v x = Some (ndata n, f)" using n(1) False f(1) by (simp add: file_data_of_def)
    have keep: "(b, bz) \<in> free_blocks node v bs" if "(b, bz) \<in> allocated bs" "b \<in> file_blocks v x" for b bz
      using that x(3) by (auto simp: free_blocks_def)
    have fb: "file_blocks v x = {ndata n - 16} \<union> (if content f = 0 then {} else {content f - 16})" using fd by (simp add: file_blocks_def)
    obtain dz where dz: "(ndata n - 16, dz) \<in> allocated bs" using f(2) by (auto simp: data_ok_def)
    have dz': "(ndata n - 16, dz) \<in> free_blocks node v bs" using keep [OF dz] fb by simp
    then have fs: "files v' (ndata n) = Some f" using k f(1) unfolding keeps_others_def by metis
    have sub: "free_blocks node v bs \<subseteq> allocated bs'" using k by (auto simp: keeps_others_def free_blocks_def)
    have d: "ndata n - 16 \<in> fst ` allocated bs'" using sub dz' by force
    have "data_ok f (ndata n) bs'"
    proof (cases "content f = 0")
      case True
      then show ?thesis using f(2) d by (auto simp: data_ok_def)
    next
      case c: False
      then obtain cz where cz: "(content f - 16, cz) \<in> allocated bs" "capacity f \<le> cz" using f(2) by (auto simp: data_ok_def)
      then have "(content f - 16, cz) \<in> allocated bs'" using keep [OF cz(1)] sub c fb by auto
      then show ?thesis using f(2) d c cz(2) by (auto simp: data_ok_def)
    qed
    moreover have "fbytes f s' = fbytes f s"
      by (rule fbytes_same [OF inv f(2), of _ "free_blocks node v bs"]) (use k keep fb in \<open>auto simp: keeps_others_def\<close>)
    ultimately show ?thesis using n(2) n' False fs fd by (simp add: file_ok_def file_data_of_def file_bytes_def)
  qed
  then show "file_ok v' bs' x" and "file_data_of v' x = file_data_of v x" and "file_bytes v' s' x = file_bytes v s x" by simp_all
qed

text \<open>An operation that leaves the file well formed and the others alone keeps the invariant.\<close>

lemma files_ok_step:
  assumes inv: "heap_inv s bs" and ok: "files_ok v bs" and k: "keeps_others node v s bs v' s' bs'"
    and node: "is_file v node" "file_ok v' bs' node"
  shows "files_ok v' bs'" and "\<And>x. is_file v x \<Longrightarrow> x \<noteq> node \<Longrightarrow> file_bytes v' s' x = file_bytes v s x"
proof -
  have o: "file_ok v bs x" "file_blocks v x \<inter> file_blocks v node = {}" if "is_file v x" "x \<noteq> node" for x
    using ok that node(1) by (auto simp: files_ok_def)
  note of = other_file [OF inv k o(1) _ o(2)]
  show "file_bytes v' s' x = file_bytes v s x" if "is_file v x" "x \<noteq> node" for x using of(3) that by blast
  have f: "is_file v x" if "is_file v' x" for x using that k node(1) unfolding is_file_def keeps_others_def by (cases "x = node") auto
  have fbe: "file_blocks v' x = file_blocks v x" if "is_file v x" "x \<noteq> node" for x using of(2) that by (auto simp: file_blocks_def)
  have new: "file_blocks v x \<inter> file_blocks v' node = {}" if x: "is_file v x" "x \<noteq> node" for x
  proof -
    have "b \<notin> file_blocks v' node" if b: "b \<in> file_blocks v x" for b
    proof -
      obtain bz where "(b, bz) \<in> allocated bs" using file_blocks_allocated [OF o(1) [OF x]] b by force
      then have "(b, bz) \<in> free_blocks node v bs" using o(2) [OF x] b by (auto simp: free_blocks_def)
      then show ?thesis using k by (auto simp: keeps_others_def free_blocks_def)
    qed
    then show ?thesis by blast
  qed
  have "file_blocks v' x \<inter> file_blocks v' y = {}" if xy: "is_file v x" "is_file v y" "x \<noteq> y" for x y
  proof -
    consider "x = node" | "y = node" | "x \<noteq> node" "y \<noteq> node" by blast
    then show ?thesis using fbe new xy ok by cases (auto simp: files_ok_def)
  qed
  with f of(1) node(2) show "files_ok v' bs'" unfolding files_ok_def by metis
qed

section \<open>Writing\<close>

lemma file_data_outcome:
  assumes inv: "heap_inv s bs" and ok: "file_ok v bs node" and room: "unat (heap_end s) + 0x2013 < 2 ^ 32"
  obtains (full) t where "file_data node v s = Some (Inl t)" and "heap_inv t bs" and "keeps_others node v s bs v t bs" and "file_data_of v node = None"
  | (got) dat f v1 t bs1 where "file_data node v s = Some (Inr (dat, v1, t))" and "heap_inv t bs1" and "file_ok v1 bs1 node"
    and "file_data_of v1 node = Some (dat, f)" and "keeps_others node v s bs v1 t bs1" and "fbytes f t = file_bytes v s node"
    and "unat (heap_end t) \<le> unat (heap_end s) + 0x2013"
proof -
  obtain n where n: "nodes v node = Some n" "ntype n = VFS_NODE_TYPE_FILE" "ndata n = 0 \<or> (\<exists>f. files v (ndata n) = Some f \<and> data_ok f (ndata n) bs)"
    using ok by (auto simp: file_ok_def)
  show thesis
  proof (cases "ndata n = 0")
    case False
    then obtain f where f: "files v (ndata n) = Some f" using n(3) by blast
    have "file_data node v s = Some (Inr (ndata n, v, s))" using n(1) False by (simp add: file_data_def)
    moreover have "file_data_of v node = Some (ndata n, f)" using n(1) False f by (simp add: file_data_of_def)
    ultimately show thesis
      by (intro that(2) [OF _ inv ok]) (simp_all add: keeps_others_def same_contents_def file_bytes_def)
  next
    case True
    have fd: "file_data_of v node = None" using n(1) True by (simp add: file_data_of_def)
    then have fr: "free_blocks node v bs = allocated bs" by (simp add: free_blocks_def file_blocks_def)
    have n12: "(12 :: u32) \<noteq> 0" "unat (heap_end s) + unat (12 :: u32) + 0x2007 < 2 ^ 32" using room by simp_all
    obtain p t bs' where k: "kmalloc 12 s = Some (p, t)" "heap_inv t bs'" "same_contents s t (allocated bs)"
      "if p = 0 then bs' = bs \<and> (\<forall>(a, sz, fr) \<in> set bs. fr \<longrightarrow> unat sz < unat (12 :: u32)) else served bs bs' 12 p"
      using kmalloc_outcome [OF inv n12] by (elim exE conjE) (rule that)
    show thesis
    proof (cases "p = 0")
      case True
      then have "file_data node v s = Some (Inl t)" using n(1) \<open>ndata n = 0\<close> k(1) by (simp add: file_data_def)
      then show thesis by (rule that(1)) (use True k fd fr in \<open>simp_all add: keeps_others_def\<close>)
    next
      case False
      then obtain z where z: "allocated bs' = insert (p - 16, z) (allocated bs)"
        "\<forall>(b, bz) \<in> allocated bs. unat b + 16 + unat bz \<le> unat p - 16 \<or> unat p + unat z \<le> unat b"
        using k(4) by (auto simp: served_def)
      have al: "(p - 16, z) \<in> allocated bs'" using z(1) by simp
      have new: "b \<noteq> p - 16" if "(b, bz) \<in> allocated bs" for b bz using z(2) that block_ptr(1) [OF k(2) al] by fastforce
      let ?f = "\<lparr>content = 0, fsize = 0, capacity = 0\<rparr>"
      let ?v = "v\<lparr>files := (files v)(p \<mapsto> ?f), nodes := (nodes v)(node \<mapsto> n\<lparr>ndata := p\<rparr>)\<rparr>"
      have run: "file_data node v s = Some (Inr (p, ?v, t))"
        using n(1) \<open>ndata n = 0\<close> False k(1) by (simp add: file_data_def)
      have fd': "file_data_of ?v node = Some (p, ?f)" using False by (simp add: file_data_of_def)
      have "data_ok ?f p bs'" using False al by (force simp: data_ok_def)
      then have ok': "file_ok ?v bs' node" using n(2) by (simp add: file_ok_def)
      have "files ?v d = files v d" if "(d - 16, bz) \<in> allocated bs" for d bz using new [OF that] by auto
      then have ko: "keeps_others node v s bs ?v t bs'"
        using new k(3) z(1) by (auto simp: keeps_others_def fr) (auto simp: free_blocks_def file_blocks_def fd')
      show thesis
        by (rule that(2) [OF run k(2) ok' fd' ko]) (use kmalloc_heap_end [OF inv n12 k(1)] in \<open>simp_all add: fd file_bytes_def fbytes_def\<close>)
    qed
  qed
qed

lemma ensure_capacity_step:
  assumes inv: "heap_inv s bs" and ok: "file_ok v bs node" and fd: "file_data_of v node = Some (dat, f)"
    and room: "unat (heap_end s) + 2 * unat new_size + 0x2107 < 2 ^ 32"
  obtains (full) v' s' bs' where "ensure_capacity node dat new_size v s = Some (Inl (v', s'))" and "heap_inv s' bs'" and "file_ok v' bs' node"
      and "file_data_of v' node = None" and "keeps_others node v s bs v' s' bs'"
  | (got) f' v' s' bs' where "ensure_capacity node dat new_size v s = Some (Inr (v', s'))" and "heap_inv s' bs'" and "file_ok v' bs' node"
      and "file_data_of v' node = Some (dat, f')" and "keeps_others node v s bs v' s' bs'" and "new_size \<le> capacity f'"
      and "fsize f' = fsize f" and "fbytes f' s' = fbytes f s"
proof -
  obtain n where n: "nodes v node = Some n" "ntype n = VFS_NODE_TYPE_FILE" "ndata n = dat" "dat \<noteq> 0" "files v dat = Some f"
    using ok fd by (auto simp: file_ok_def file_data_of_def split: if_splits)
  have dok: "data_ok f dat bs" by (rule file_ok_data [OF ok fd])
  have fb: "file_blocks v node = {dat - 16} \<union> (if content f = 0 then {} else {content f - 16})" using fd by (simp add: file_blocks_def)
  have nd: "files v' d = files v d" if "(d - 16, bz) \<in> free_blocks node v bs" "\<And>e. e \<noteq> dat \<Longrightarrow> files v' e = files v e" for v' d bz
    using that fb by (auto simp: free_blocks_def)
  show thesis
  proof (rule ensure_capacity_outcome [OF inv n(5) dok n(1) room])
    let ?v = "v\<lparr>files := (files v)(dat := None), nodes := (nodes v)(node \<mapsto> n\<lparr>ndata := 0\<rparr>)\<rparr>"
    fix s' bs' dz assume a: "ensure_capacity node dat new_size v s = Some (Inl (?v, s'))" "heap_inv s' bs'"
      "allocated bs' = allocated bs - {(dat - 16, dz)}" "same_contents s s' (allocated bs)"
    have "free_blocks node v bs \<subseteq> free_blocks node ?v bs'"
      using a(3) fb by (auto simp: free_blocks_def file_blocks_def file_data_of_def)
    moreover have "same_contents s s' (free_blocks node v bs)" by (rule same_contents_mono [OF a(4)]) (auto simp: free_blocks_def)
    ultimately have ko: "keeps_others node v s bs ?v s' bs'" using nd [of _ _ ?v] unfolding keeps_others_def by auto
    show thesis by (rule that(1) [OF a(1,2) _ _ ko]) (use n in \<open>simp_all add: file_ok_def file_data_of_def\<close>)
  next
    fix f' s' bs' let ?v = "v\<lparr>files := (files v)(dat \<mapsto> f')\<rparr>"
    assume a: "ensure_capacity node dat new_size v s = Some (Inr (?v, s'))" "heap_inv s' bs'" "data_ok f' dat bs'" "new_size \<le> capacity f'"
      "fsize f' = fsize f" "fbytes f' s' = fbytes f s" "same_contents s s' (other_blocks (content f) bs)"
      "other_blocks (content f) bs \<subseteq> other_blocks (content f') bs'"
    have fd': "file_data_of ?v node = Some (dat, f')" using n by (simp add: file_data_of_def)
    have sub: "free_blocks node v bs \<subseteq> other_blocks (content f) bs" using fb by (auto simp: free_blocks_def other_blocks_def)
    have "free_blocks node v bs \<subseteq> free_blocks node ?v bs'"
      using sub a(8) fb by (fastforce simp: free_blocks_def other_blocks_def file_blocks_def fd')
    moreover have "same_contents s s' (free_blocks node v bs)" by (rule same_contents_mono [OF a(7) sub])
    ultimately have ko: "keeps_others node v s bs ?v s' bs'" using nd [of _ _ ?v] unfolding keeps_others_def by auto
    show thesis by (rule that(2) [OF a(1,2) _ fd' ko a(4,5,6)]) (use a(3) n in \<open>simp add: file_ok_def\<close>)
  qed
qed

text \<open>What a write makes of the bytes of a file.\<close>

definition overwrite :: "nat \<Rightarrow> 'b list \<Rightarrow> 'b list \<Rightarrow> 'b list" where
  "overwrite off new old = take off old @ new @ drop (off + length new) old"

lemma overwrite_nth:
  assumes "off \<le> length old"
  shows "length (overwrite off new old) = max (length old) (off + length new)"
    and "i < max (length old) (off + length new) \<Longrightarrow>
      overwrite off new old ! i = (if off \<le> i \<and> i < off + length new then new ! (i - off) else old ! i)"
  using assms by (auto simp: overwrite_def nth_append)

definition vbytes :: "'a vmm_state_scheme \<Rightarrow> u32 \<Rightarrow> nat \<Rightarrow> u8 list" where
  "vbytes s p n = map (\<lambda>i. view s (p + of_nat i)) [0..<n]"

lemma length_bytes [simp]: "length (vbytes s p n) = n" "length (fbytes f s) = unat (fsize f)"
  by (simp_all add: vbytes_def fbytes_def)

text \<open>A buffer of \<open>n\<close> bytes in a block of the heap.\<close>

definition in_block :: "u32 \<Rightarrow> nat \<Rightarrow> u32 \<times> u32 \<Rightarrow> bool" where
  "in_block p n B \<longleftrightarrow> unat (fst B) + 16 \<le> unat p \<and> unat p + n \<le> unat (fst B) + 16 + unat (snd B)"

lemma vbytes_same:
  assumes "heap_inv s bs" and "B \<in> allocated bs" and "in_block p n B" and "same_contents s t A" and "B \<in> A"
  shows "vbytes t p n = vbytes s p n"
proof -
  obtain b bz where B: "B = (b, bz)" by (cases B)
  have "(b, bz, False) \<in> set bs" "heap_chain s bs" using assms(1,2) B by (simp_all add: allocated_def heap_inv_def)
  from chain_member(2) [OF this(2,1)] have e: "unat b + 16 + unat bz \<le> 4294967296" using unat_u32_lt [of "heap_end s"] by simp
  have "view t (p + of_nat i) = view s (p + of_nat i)" if "i < n" for i
  proof -
    have "unat (p + of_nat i) = unat p + i" using that e assms(3) B by (intro unat_range [of p n]) (simp_all add: in_block_def)
    then show ?thesis using assms(3-5) that B by (auto simp: same_contents_def in_block_def)
  qed
  then show ?thesis by (simp add: vbytes_def)
qed

text \<open>The copy into the contents of the file.\<close>

lemma copy_step:
  assumes inv: "heap_inv s bs" and ok: "file_ok v bs node" and fd: "file_data_of v node = Some (dat, f)"
    and B: "B \<in> free_blocks node v bs" "in_block buf (unat count) B"
    and sz: "unat offset + unat count < 2 ^ 32" "offset + count \<le> capacity f" "unat offset \<le> unat (fsize f)"
  obtains s' where "vmemcpy (content f + offset) buf count s = Some s'" and "heap_inv s' bs"
    and "same_contents s s' (free_blocks node v bs)"
    and "fbytes (f\<lparr>fsize := max (fsize f) (offset + count)\<rparr>) s' = overwrite (unat offset) (vbytes s buf (unat count)) (fbytes f s)"
proof -
  have dok: "data_ok f dat bs" by (rule file_ok_data [OF ok fd])
  have ns: "unat (offset + count) = unat offset + unat count" using sz(1) by (intro unat_add_lem [THEN iffD1]) simp
  let ?L = "max (unat (fsize f)) (unat offset + unat count)"
  have L: "unat (max (fsize f) (offset + count)) = ?L" using ns by (simp add: max_def word_le_nat_alt)
  show thesis
  proof (cases "content f = 0")
    case True
    then have "capacity f = 0" "fsize f = 0" using dok by (auto simp: data_ok_def)
    then have "unat offset = 0" "unat count = 0" using sz ns by (auto simp: word_le_nat_alt)
    then have z: "offset = 0" "count = 0" "fsize f = 0" using \<open>fsize f = 0\<close> by (simp_all add: unat_eq_zero)
    show thesis
      by (rule that [of s]) (use inv z in \<open>simp_all add: vmemcpy_def same_contents_def fbytes_def overwrite_def vbytes_def\<close>)
  next
    case False
    then obtain cz where cz: "(content f - 16, cz) \<in> allocated bs" "capacity f \<le> cz" using dok by (auto simp: data_ok_def)
    obtain b bz where b: "B = (b, bz)" by (cases B)
    have fb: "file_blocks v node = {dat - 16, content f - 16}" using fd False by (auto simp: file_blocks_def)
    have c1: "unat offset + unat count \<le> unat cz" using sz(2) cz(2) ns by (simp add: word_le_nat_alt)
    have c2: "unat (fsize f) \<le> unat cz" using dok cz(2) False by (auto simp: data_ok_def word_le_nat_alt)
    have al: "(b, bz) \<in> allocated bs" "b \<noteq> content f - 16" using B(1) b fb by (auto simp: free_blocks_def)
    obtain u where u: "vmemcpy (content f + offset) buf count s = Some u" "heap_inv u bs"
      "same_contents s u (allocated bs - {(content f - 16, cz)})"
      "\<And>i. i < unat cz \<Longrightarrow> view u (content f + of_nat i) =
         (if unat offset \<le> i \<and> i < unat offset + unat count then view s (buf + of_nat (i - unat offset)) else view s (content f + of_nat i))"
      by (rule heap_copy [OF inv cz(1) c1 al]) (use B(2) b in \<open>auto simp: in_block_def\<close>)
    have "fbytes (f\<lparr>fsize := max (fsize f) (offset + count)\<rparr>) u = overwrite (unat offset) (vbytes s buf (unat count)) (fbytes f s)"
    proof (rule nth_equalityI)
      show "length (fbytes (f\<lparr>fsize := max (fsize f) (offset + count)\<rparr>) u) = length (overwrite (unat offset) (vbytes s buf (unat count)) (fbytes f s))"
        using overwrite_nth(1) [of "unat offset" "fbytes f s" "vbytes s buf (unat count)"] sz(3) L by simp
      fix i assume "i < length (fbytes (f\<lparr>fsize := max (fsize f) (offset + count)\<rparr>) u)"
      then have i: "i < ?L" using L by simp
      have "i < unat cz" using i c1 c2 by simp
      from u(4) [OF this] show "fbytes (f\<lparr>fsize := max (fsize f) (offset + count)\<rparr>) u ! i =
          overwrite (unat offset) (vbytes s buf (unat count)) (fbytes f s) ! i"
        using overwrite_nth(2) [of "unat offset" "fbytes f s" i "vbytes s buf (unat count)"] sz(3) i L by (auto simp: fbytes_def vbytes_def)
    qed
    moreover have "same_contents s u (free_blocks node v bs)" by (rule same_contents_mono [OF u(3)]) (auto simp: free_blocks_def fb)
    ultimately show thesis using that u(1,2) by blast
  qed
qed

lemma sint_small:
  assumes "unat (x :: u32) < 2147483648"
  shows "sint x = int (unat x)"
proof -
  have u: "uint x = int (unat x)" by simp
  have p: "(2 :: int) ^ 31 = 2147483648" and l: "LENGTH(32) - Suc 0 = 31" by simp_all
  have lt: "- (2 ^ 31) \<le> uint x" "uint x < 2 ^ 31" unfolding p u using assms by linarith+
  have "sint x = signed_take_bit (LENGTH(32) - Suc 0) (uint x)" by (rule sint_uint)
  also have "\<dots> = uint x" unfolding l by (rule signed_take_bit_int_eq_self [OF lt])
  finally show ?thesis unfolding u .
qed

text \<open>Setting the size after the copy.\<close>

lemma size_step:
  assumes ok: "file_ok v bs node" and fd: "file_data_of v node = Some (dat, f)" and m: "m \<le> capacity f" and inv: "heap_inv s' bs"
    and c: "same_contents s s' (free_blocks node v bs)"
  defines "v' \<equiv> (if m > fsize f then v\<lparr>files := (files v)(dat \<mapsto> f\<lparr>fsize := m\<rparr>)\<rparr> else v)"
  shows "file_ok v' bs node" and "file_data_of v' node = Some (dat, f\<lparr>fsize := max (fsize f) m\<rparr>)" and "keeps_others node v s bs v' s' bs"
proof -
  let ?f = "f\<lparr>fsize := max (fsize f) m\<rparr>"
  obtain n where n: "nodes v node = Some n" "ntype n = VFS_NODE_TYPE_FILE" "ndata n = dat" "dat \<noteq> 0" "files v dat = Some f"
    using ok fd by (auto simp: file_ok_def file_data_of_def split: if_splits)
  have v': "v' = v\<lparr>files := (files v)(dat \<mapsto> ?f)\<rparr>"
    using n(5) by (auto simp: v'_def max_def map_upd_triv)
  have "data_ok ?f dat bs" using file_ok_data [OF ok fd] m by (auto simp: data_ok_def)
  then show "file_ok v' bs node" using n by (simp add: file_ok_def v')
  show fd': "file_data_of v' node = Some (dat, ?f)" using n by (simp add: file_data_of_def v')
  have "file_blocks v' node = file_blocks v node" by (simp add: file_blocks_def fd fd')
  moreover have "dat - 16 \<in> file_blocks v node" using fd by (simp add: file_blocks_def)
  ultimately show "keeps_others node v s bs v' s' bs"
    using c by (auto simp: keeps_others_def free_blocks_def) (auto simp: v')
qed

lemma ramfs_write_outcome:
  assumes inv: "heap_inv s bs" and ok: "file_ok v bs node" and B: "B \<in> free_blocks node v bs" "in_block buf (unat count) B"
    and off: "unat offset \<le> length (file_bytes v s node)" and room: "unat (heap_end s) + 2 * (unat offset + unat count) + 0x411A < 2 ^ 32"
  obtains (full) v' s' bs' where "ramfs_write node buf count offset v s = Some (KERNEL_FAILURE, v', s')" and "heap_inv s' bs'"
    and "file_ok v' bs' node" and "keeps_others node v s bs v' s' bs'" and "file_bytes v' s' node = []"
  | (written) v' s' bs' where "ramfs_write node buf count offset v s = Some (int (unat count), v', s')" and "heap_inv s' bs'"
    and "file_ok v' bs' node" and "keeps_others node v s bs v' s' bs'"
    and "file_bytes v' s' node = overwrite (unat offset) (vbytes s buf (unat count)) (file_bytes v s node)"
proof -
  obtain n where n: "nodes v node = Some n" "ntype n = VFS_NODE_TYPE_FILE" using ok by (auto simp: file_ok_def)
  have sum: "unat (offset + count) = unat offset + unat count" using room by (intro unat_add_lem [THEN iffD1]) simp
  have "unat count < 2147483648" using room by simp
  then have sc: "sint count = int (unat count)" by (rule sint_small)
  have "unat (heap_end s) + 0x2013 < 2 ^ 32" using room by simp
  from inv ok this show thesis
  proof (rule file_data_outcome)
    fix t assume a: "file_data node v s = Some (Inl t)" "heap_inv t bs" "keeps_others node v s bs v t bs" "file_data_of v node = None"
    show thesis by (rule that(1) [of v t bs]) (use n a ok in \<open>simp_all add: ramfs_write_def file_bytes_def\<close>)
  next
    fix dat f v1 t bs1 assume a: "file_data node v s = Some (Inr (dat, v1, t))" "heap_inv t bs1" "file_ok v1 bs1 node"
      "file_data_of v1 node = Some (dat, f)" "keeps_others node v s bs v1 t bs1" "fbytes f t = file_bytes v s node"
      "unat (heap_end t) \<le> unat (heap_end s) + 0x2013"
    have r2: "unat (heap_end t) + 2 * unat (offset + count) + 0x2107 < 2 ^ 32" using a(7) room sum by simp
    show thesis
    proof (rule ensure_capacity_step [OF a(2,3,4) r2])
      fix v' s' bs' assume b: "ensure_capacity node dat (offset + count) v1 t = Some (Inl (v', s'))" "heap_inv s' bs'" "file_ok v' bs' node"
        "file_data_of v' node = None" "keeps_others node v1 t bs1 v' s' bs'"
      show thesis by (rule that(1) [OF _ b(2,3) keeps_others_trans [OF a(5) b(5)]])
        (use n a(1) b(1,4) in \<open>simp_all add: ramfs_write_def Let_def file_bytes_def\<close>)
    next
      fix f' v' s' bs' assume b: "ensure_capacity node dat (offset + count) v1 t = Some (Inr (v', s'))" "heap_inv s' bs'" "file_ok v' bs' node"
        "file_data_of v' node = Some (dat, f')" "keeps_others node v1 t bs1 v' s' bs'" "offset + count \<le> capacity f'" "fsize f' = fsize f"
        "fbytes f' s' = fbytes f t"
      have fb: "fbytes f' s' = file_bytes v s node" using b(8) a(6) by simp
      then have len: "unat offset \<le> unat (fsize f')" using off length_bytes(2) [of f' s'] by simp
      note ko = keeps_others_trans [OF a(5) b(5)]
      have B': "B \<in> free_blocks node v' bs'" using ko B(1) by (auto simp: keeps_others_def)
      have "unat offset + unat count < 2 ^ 32" using room by simp
      with b(2,3,4) B' B(2) obtain s3 where c: "vmemcpy (content f' + offset) buf count s' = Some s3" "heap_inv s3 bs'"
        "same_contents s' s3 (free_blocks node v' bs')"
        "fbytes (f'\<lparr>fsize := max (fsize f') (offset + count)\<rparr>) s3 = overwrite (unat offset) (vbytes s' buf (unat count)) (fbytes f' s')"
        using b(6) len by (rule copy_step)
      let ?v = "if offset + count > fsize f' then v'\<lparr>files := (files v')(dat \<mapsto> f'\<lparr>fsize := offset + count\<rparr>)\<rparr> else v'"
      note d = size_step [OF b(3,4,6) c(2,3)]
      have f2: "files v' dat = Some f'" using b(4) by (auto simp: file_data_of_def split: option.splits if_splits)
      have "B \<in> allocated bs" using B(1) by (auto simp: free_blocks_def)
      moreover have "same_contents s s' (free_blocks node v bs)" using ko by (simp add: keeps_others_def)
      ultimately have vb: "vbytes s' buf (unat count) = vbytes s buf (unat count)" using vbytes_same [OF inv _ B(2)] B(1) by blast
      have "file_bytes ?v s3 node = overwrite (unat offset) (vbytes s buf (unat count)) (file_bytes v s node)"
        using c(4) d(2) vb fb by (simp add: file_bytes_def)
      then show thesis by (intro that(2) [OF _ c(2) d(1) keeps_others_trans [OF ko d(3)]])
        (use n a(1) b(1) f2 c(1) sc in \<open>simp_all add: ramfs_write_def Let_def\<close>)
    qed
  qed
qed


section \<open>Reading\<close>

lemma ramfs_read_outcome:
  assumes inv: "heap_inv s bs" and ok: "file_ok v bs node" and B: "B \<in> free_blocks node v bs" "in_block buf (unat count) B"
    and cnt: "unat offset + unat count < 2 ^ 32"
  defines "out \<equiv> take (unat count) (drop (unat offset) (file_bytes v s node))"
  obtains s' where "ramfs_read node buf count offset v s = Some (int (length out), s')" and "heap_inv s' bs"
    and "same_contents s s' (allocated bs - {B})" and "vbytes s' buf (length out) = out"
proof -
  obtain n where n: "nodes v node = Some n" "ntype n = VFS_NODE_TYPE_FILE" using ok by (auto simp: file_ok_def)
  have sum: "unat (offset + count) = unat offset + unat count" using cnt by (intro unat_add_lem [THEN iffD1]) simp
  have same: "same_contents s s A" for A by (simp add: same_contents_def)
  show thesis
  proof (cases "file_data_of v node")
    case None
    then have "out = []" by (simp add: out_def file_bytes_def)
    moreover have "ndata n = 0" using None n ok by (auto simp: file_data_of_def file_ok_def split: if_splits)
    ultimately show thesis by (intro that [of s]) (use n inv same in \<open>simp_all add: ramfs_read_def vbytes_def\<close>)
  next
    case (Some df)
    obtain dat f where df: "df = (dat, f)" by (cases df)
    note fd = Some [unfolded df]
    have nd: "ndata n = dat" "dat \<noteq> 0" "files v dat = Some f" using fd n by (auto simp: file_data_of_def split: if_splits)
    have fb: "file_bytes v s node = fbytes f s" using fd by (simp add: file_bytes_def)
    have dok: "data_ok f dat bs" by (rule file_ok_data [OF ok fd])
    show thesis
    proof (cases "offset \<ge> fsize f")
      case True
      then have "out = []" by (simp add: out_def fb word_le_nat_alt)
      then show thesis by (intro that [of s]) (use n nd True inv same in \<open>simp_all add: ramfs_read_def vbytes_def\<close>)
    next
      case False
      then have lt: "unat offset < unat (fsize f)" by (simp add: word_le_nat_alt)
      then have cnz: "content f \<noteq> 0" using dok by (auto simp: data_ok_def)
      obtain cz where cz: "(content f - 16, cz) \<in> allocated bs" "unat (fsize f) \<le> unat cz" using dok cnz by (auto simp: data_ok_def word_le_nat_alt)
      note cp = block_ptr [OF inv cz(1)] and e = unat_u32_lt [of "heap_end s"]
      define k where "k = (if offset + count > fsize f then fsize f - offset else count)"
      have k: "unat k = length out"
        using lt sum unat_sub [of offset "fsize f"] by (auto simp: k_def out_def fb word_less_nat_alt word_le_nat_alt)
      have kle: "unat k \<le> unat count" "unat offset + unat k \<le> unat cz" using k lt cz(2) by (auto simp: out_def fb)
      then have sk: "sint k = int (length out)" using cp e k by (subst sint_small) simp_all
      obtain b bz where Bb: "B = (b, bz)" by (cases B)
      let ?p = "b + 16"
      have al: "(?p - 16, bz) \<in> allocated bs" "b \<noteq> content f - 16" using B(1) Bb fd cnz by (auto simp: free_blocks_def file_blocks_def)
      note bp = block_ptr [OF inv al(1)]
      have bo: "unat ?p \<le> unat buf" "unat buf + unat count \<le> unat ?p + unat bz" using B(2) Bb bp(1) by (simp_all add: in_block_def)
      have off: "unat (buf - ?p) = unat buf - unat ?p" using bo(1) by (intro unat_sub) (simp add: word_le_nat_alt)
      have src: "unat (content f + offset) = unat (content f) + unat offset"
        using cp(2) lt cz(2) e by (intro unat_add_lem [THEN iffD1]) simp
      have c1: "unat (buf - ?p) + unat k \<le> unat bz" "content f - 16 \<noteq> ?p - 16" "unat (content f - 16) + 16 \<le> unat (content f + offset)"
        "unat (content f + offset) + unat k \<le> unat (content f - 16) + 16 + unat cz" using al(2) off bo kle src cp by auto
      obtain u where u: "vmemcpy (?p + (buf - ?p)) (content f + offset) k s = Some u" "heap_inv u bs" "heap_end u = heap_end s" "same_contents s u (allocated bs - {(?p - 16, bz)})"
        "\<And>i. i < unat bz \<Longrightarrow> view u (?p + of_nat i) =
           (if unat (buf - ?p) \<le> i \<and> i < unat (buf - ?p) + unat k then view s (content f + offset + of_nat (i - unat (buf - ?p))) else view s (?p + of_nat i))"
        by (rule heap_copy [OF inv al(1) c1(1) cz(1) c1(2-4)]) (rule that)
      have "vbytes u buf (length out) = out"
      proof (rule nth_equalityI)
        fix i assume "i < length (vbytes u buf (length out))"
        then have i: "i < unat k" using k by simp
        let ?j = "unat (buf - ?p) + i"
        have "?j < unat bz" using i kle(1) off bo by linarith
        from u(5) [OF this] have "view u (?p + of_nat ?j) = view s (content f + offset + of_nat i)" using i by simp
        moreover have "?p + of_nat ?j = buf + of_nat i" by simp
        moreover have "content f + offset + of_nat i = content f + of_nat (unat offset + i)" by (simp add: add.assoc)
        moreover have "unat offset + i < unat (fsize f)" "i < unat count" using i k by (auto simp: out_def fb)
        ultimately show "vbytes u buf (length out) ! i = out ! i" using i k by (simp add: vbytes_def out_def fb fbytes_def del: of_nat_add)
      qed simp
      moreover have "ramfs_read node buf count offset v s = Some (int (length out), u)"
        using n nd False u(1) sk by (simp add: ramfs_read_def Let_def k_def [symmetric])
      ultimately show thesis using that [of u] u(2,4) Bb by simp
    qed
  qed
qed

text \<open>
  Reading a file into a buffer that is part of no file. \<open>ramfs_read\<close> always returns; it copies the bytes of the file from the offset on, as many as there
  are but not more than asked for, into the buffer and returns their number. All files stay well formed and keep their bytes.
\<close>

theorem ramfs_read_correct:
  assumes "heap_inv s bs" and "files_ok v bs" and "is_file v node" and "\<forall>x. is_file v x \<longrightarrow> B \<in> free_blocks x v bs"
    and "in_block buf (unat count) B" and "unat offset + unat count < 2 ^ 32"
  shows "let out = take (unat count) (drop (unat offset) (file_bytes v s node))
    in \<exists>s'. ramfs_read node buf count offset v s = Some (int (length out), s') \<and> vbytes s' buf (length out) = out \<and>
         heap_inv s' bs \<and> (\<forall>x. is_file v x \<longrightarrow> file_bytes v s' x = file_bytes v s x)"
proof -
  have ok: "file_ok v bs x" if "is_file v x" for x using assms(2) that by (simp add: files_ok_def)
  have B: "B \<in> free_blocks node v bs" using assms(3,4) by blast
  obtain s' where s': "ramfs_read node buf count offset v s = Some (int (length (take (unat count) (drop (unat offset) (file_bytes v s node)))), s')"
    "heap_inv s' bs" "same_contents s s' (allocated bs - {B})"
    "vbytes s' buf (length (take (unat count) (drop (unat offset) (file_bytes v s node)))) = take (unat count) (drop (unat offset) (file_bytes v s node))"
    by (rule ramfs_read_outcome [OF assms(1) ok [OF assms(3)] B assms(5,6)])
  have "file_bytes v s' x = file_bytes v s x" if x: "is_file v x" for x
  proof (cases "file_data_of v x")
    case (Some df)
    obtain dat f where df: "df = (dat, f)" by (cases df)
    have "fst B \<noteq> content f - 16" if "content f \<noteq> 0"
      using assms(4) x Some that by (auto simp: df free_blocks_def file_blocks_def)
    then have "fbytes f s' = fbytes f s"
      by (intro fbytes_same [OF assms(1) file_ok_data [OF ok [OF x] Some [unfolded df]] s'(3)]) auto
    then show ?thesis by (simp add: file_bytes_def Some df)
  qed (simp add: file_bytes_def)
  with s' show ?thesis unfolding Let_def by blast
qed

text \<open>Three allocated blocks: the data of a file, its content and a buffer.\<close>

definition three_blocks :: "block list" where
  "three_blocks = [(0xD0000000, 16, False), (0xD0000020, 256, False), (0xD0000130, 16, False), (0xD0000150, 3744, True)]"

definition sample_file :: "u32 \<Rightarrow> vfs_state" where
  "sample_file n = vfs_image\<lparr>nodes := [0x2000 \<mapsto> (sample_node VFS_NODE_TYPE_FILE [97])\<lparr>ndata := 0xD0000010\<rparr>],
     files := [0xD0000010 \<mapsto> \<lparr>content = 0xD0000030, fsize = n, capacity = 256\<rparr>]\<rparr>"

lemma three_blocks_heap: "\<exists>s :: heap_state. heap_inv s three_blocks \<and> heap_end s = 0xD0001000"
proof -
  obtain s1 :: heap_state where s1: "heap_inv s1 [(0xD0000000, 16, False), (0xD0000020, 4048, True)]" "heap_end s1 = 0xD0001000"
    by (rule kmalloc_served [OF sample_heap_inv [of 1], of 12]) (simp_all add: place_def sample_heap_fields)
  obtain s2 :: heap_state where s2: "heap_inv s2 [(0xD0000000, 16, False), (0xD0000020, 256, False), (0xD0000130, 3776, True)]" "heap_end s2 = 0xD0001000"
    by (rule kmalloc_served [OF s1(1), of 256]) (simp_all add: place_def s1)
  show ?thesis
    by (rule kmalloc_served [OF s2(1), of 16]) (auto simp: place_def s2 three_blocks_def)
qed

lemma sample_file_facts:
  shows "is_file (sample_file n) x \<longleftrightarrow> x = 0x2000" and "file_data_of (sample_file n) 0x2000 = Some (0xD0000010, \<lparr>content = 0xD0000030, fsize = n, capacity = 256\<rparr>)"
    and "n \<le> 256 \<Longrightarrow> files_ok (sample_file n) three_blocks" and "(0xD0000130, 16) \<in> free_blocks 0x2000 (sample_file n) three_blocks"
    and "in_block 0xD0000140 4 (0xD0000130, 16)"
proof -
  show f: "is_file (sample_file n) x \<longleftrightarrow> x = 0x2000" for x by (simp add: is_file_def sample_file_def sample_node_def)
  show d: "file_data_of (sample_file n) 0x2000 = Some (0xD0000010, \<lparr>content = 0xD0000030, fsize = n, capacity = 256\<rparr>)"
    by (simp add: file_data_of_def sample_file_def sample_node_def)
  have al: "allocated three_blocks = {(0xD0000000, 16), (0xD0000020, 256), (0xD0000130, 16)}" by (auto simp: allocated_def three_blocks_def)
  show "(0xD0000130, 16) \<in> free_blocks 0x2000 (sample_file n) three_blocks" by (simp add: free_blocks_def file_blocks_def d al)
  show "in_block 0xD0000140 4 (0xD0000130, 16)" by (simp add: in_block_def)
  show "files_ok (sample_file n) three_blocks" if "n \<le> 256"
    using that by (simp add: files_ok_def f file_ok_def) (simp add: sample_file_def sample_node_def data_ok_def al)
qed


text \<open>Reading four bytes at the offset eight of a file of ten gives the last two.\<close>

theorem ramfs_read_correct_witness:
  "\<exists>(s :: heap_state) s'. heap_inv s three_blocks \<and> ramfs_read 0x2000 0xD0000140 4 8 (sample_file 10) s = Some (2, s') \<and>
     vbytes s' 0xD0000140 2 = drop 8 (file_bytes (sample_file 10) s 0x2000)"
proof -
  obtain s :: heap_state where s: "heap_inv s three_blocks" "heap_end s = 0xD0001000" using three_blocks_heap by blast
  note f = sample_file_facts(1-4) [where n = 10] sample_file_facts(5)
  have len: "length (file_bytes (sample_file 10) s 0x2000) = 10" by (simp add: file_bytes_def f(2))
  show ?thesis
    using ramfs_read_correct [OF s(1) f(3), of "0x2000" "(0xD0000130, 16)" "0xD0000140" 4 8] s(1) f(1,4,5) len by (auto simp: Let_def)
qed

end
