(* ===== verification/VfsPaths.thy ===== *)
theory VfsPaths
  imports VfsFiles
begin

text \<open>
  Paths and descriptors of the file system (\<open>src/kernel/fs/vfs.c\<close>): what a relative path denotes in a tree of directories, which
  descriptor \<open>vfs_open\<close> gives, and what the calls of the interface can reach after \<open>vfs_init\<close>.
\<close>

section \<open>Paths\<close>

text \<open>Storing a list of bytes into an allocated block.\<close>

lemma heap_write:
  assumes inv: "heap_inv t bs" and p: "(p - 16, pz) \<in> allocated bs" "length xs \<le> unat pz"
  obtains u where "vwrite p xs t = Some u" and "heap_inv u bs" and "same_contents t u (allocated bs - {(p - 16, pz)})"
    and "vbytes u p (length xs) = xs"
proof -
  have ch: "heap_chain t bs" and na: "no_adjacent_free bs" using inv by (simp_all add: heap_inv_def)
  note bp = block_ptr [OF inv p(1)] and e = unat_u32_lt [of "heap_end t"]
  have p': "(p - 16, pz, False) \<in> set bs" using p(1) by (simp add: allocated_def)
  have win: "window t KH (unat (heap_end t))" using ch by (simp add: heap_chain_def heap_win_def)
  obtain u where u: "vwrite p xs t = Some u" "vm_only t u" "window u KH (unat (heap_end t))"
    "\<And>i. i < length xs \<Longrightarrow> view u (p + of_nat i) = xs ! i"
    "\<And>x. KH \<le> unat x \<Longrightarrow> unat x < unat (heap_end t) \<Longrightarrow> unat x < unat p \<or> unat p + length xs \<le> unat x \<Longrightarrow> view u x = view t x"
    unfolding vwrite_def by (rule store_run [OF win, of p "length xs" "(!) xs"]) (use bp e p(2) in auto)
  have same: "view u x = view t x" if "KH \<le> unat x" "unat x < unat (heap_end t)" "unat x < unat (p - 16) + 16 \<or> unat (p - 16) + 16 + unat pz \<le> unat x" for x
    using u(5) [OF that(1,2)] that(3) bp(1) p(2) by linarith
  note ch1 = chain_data_write [OF ch p' u(2,3) same]
  have "vbytes u p (length xs) = xs" by (rule nth_equalityI) (use u(4) in \<open>simp_all add: vbytes_def\<close>)
  then show thesis using that [OF u(1) _ ch1(2)] ch1(1) na by (simp add: heap_inv_def)
qed

text \<open>A copy of a string: a new block with its bytes and a zero.\<close>

lemma kstrdup_outcome:
  assumes inv: "heap_inv s bs" and room: "unat (heap_end s) + length str + 0x2008 < 2 ^ 32"
  obtains (full) t where "kstrdup str s = Some (0, t)" and "heap_inv t bs" and "same_contents s t (allocated bs)"
      and "\<forall>(a, sz, fr) \<in> set bs. fr \<longrightarrow> unat sz < length str + 1"
  | (copy) p t bs' sz where "kstrdup str s = Some (p, t)" and "p \<noteq> 0" and "heap_inv t bs'" and "same_contents s t (allocated bs)"
      and "allocated bs' = insert (p - 16, sz) (allocated bs)" and "(p - 16, sz) \<notin> allocated bs" and "vbytes t p (length str + 1) = str @ [0]"
proof -
  let ?n = "of_nat (length str) + 1 :: u32"
  have "?n = of_nat (length str + 1)" by simp
  then have n: "unat ?n = length str + 1" using room by (simp only: unat_of_nat take_bit_nat_eq_self_iff) (simp add: take_bit_nat_eq_self)
  then have n0: "?n \<noteq> 0" by (metis Suc_eq_plus1 nat.distinct(1) unat_0)
  have "unat (heap_end s) + unat ?n + 0x2007 < 2 ^ 32" using room unfolding n by simp
  from kmalloc_outcome [OF inv n0 this] obtain p t bs' where k: "kmalloc ?n s = Some (p, t)" "heap_inv t bs'" "same_contents s t (allocated bs)"
    "if p = 0 then bs' = bs \<and> (\<forall>(a, sz, fr) \<in> set bs. fr \<longrightarrow> unat sz < unat ?n) else served bs bs' ?n p" by blast
  show thesis
  proof (cases "p = 0")
    case True
    then show thesis using k by (intro full [of t]) (simp_all add: kstrdup_def n)
  next
    case False
    then obtain sz where sz: "unat ?n \<le> unat sz" "allocated bs' = insert (p - 16, sz) (allocated bs)"
      "\<forall>(a, az) \<in> allocated bs. unat a + 16 + unat az \<le> unat p - 16 \<or> unat p + unat sz \<le> unat a"
      using k(4) by (auto simp: served_def)
    have al: "(p - 16, sz) \<in> allocated bs'" using sz(2) by simp
    have new: "(p - 16, sz) \<notin> allocated bs" using sz(3) block_ptr(1) [OF k(2) al] by auto
    obtain u where u: "vwrite p (str @ [0]) t = Some u" "heap_inv u bs'" "same_contents t u (allocated bs' - {(p - 16, sz)})"
      "vbytes u p (length (str @ [0])) = str @ [0]"
      by (rule heap_write [OF k(2) al, of "str @ [0]"]) (use sz(1) n in auto)
    have "same_contents s u (allocated bs)"
      by (rule same_contents_trans [OF k(3) u(3)]) (use sz(2) new in auto)
    then show thesis using False k(1) u sz(2) new by (intro copy [of p u bs' sz]) (simp_all add: kstrdup_def)
  qed
qed

text \<open>
  A tree of nodes: every directory has the list of children that \<open>C\<close> gives, and every parent is a node.
\<close>

definition tree_ok :: "vfs_state \<Rightarrow> (u32 \<Rightarrow> u32 list) \<Rightarrow> bool" where
  "tree_ok v C \<longleftrightarrow> nodes v 0 = None \<and> (\<forall>x n. nodes v x = Some n \<longrightarrow>
     (ntype n = VFS_NODE_TYPE_DIRECTORY \<longrightarrow> dir_list v x (C x)) \<and> (nparent n \<noteq> 0 \<longrightarrow> nodes v (nparent n) \<noteq> None))"

text \<open>The node that a list of names denotes, seen from a node.\<close>

fun named_node :: "vfs_state \<Rightarrow> (u32 \<Rightarrow> u32 list) \<Rightarrow> u8 list list \<Rightarrow> u32 \<Rightarrow> u32 option" where
  "named_node v C [] x = Some x"
| "named_node v C (nm # nms) x =
     (if nm = [46] then named_node v C nms x
      else if nm = [46, 46] then named_node v C nms (if nparent (the (nodes v x)) = 0 then x else nparent (the (nodes v x)))
      else if ntype (the (nodes v x)) \<noteq> VFS_NODE_TYPE_DIRECTORY then None
      else Option.bind (map_of (dir_entries v (C x)) nm) (named_node v C nms))"

lemma siblings_nodes: "siblings N p cs q \<Longrightarrow> c \<in> set cs \<Longrightarrow> c \<noteq> 0 \<and> N c \<noteq> None"
  by (induction cs arbitrary: p) auto

lemma entry_node:
  assumes "dir_list v d cs" and "map_of (dir_entries v cs) nm = Some c"
  shows "c \<noteq> 0 \<and> nodes v c \<noteq> None"
proof -
  have "c \<in> set cs" using map_of_SomeD [OF assms(2)] by (auto simp: dir_entries_def)
  then show ?thesis using assms(1) siblings_nodes [of "nodes v" 0 cs 0 c] by (simp add: dir_list_def)
qed

lemma walk_tokens_correct:
  assumes "tree_ok v C" and "nodes v x \<noteq> None"
  shows "walk_tokens ts x v = Some (case named_node v C ts x of None \<Rightarrow> 0 | Some c \<Rightarrow> c)"
  using assms(2)
proof (induction ts arbitrary: x)
  case (Cons nm ts)
  then obtain n where n: "nodes v x = Some n" by blast
  have par: "nparent n \<noteq> 0 \<longrightarrow> nodes v (nparent n) \<noteq> None" using assms(1) n by (simp add: tree_ok_def)
  show ?case
  proof (cases "ntype n = VFS_NODE_TYPE_DIRECTORY")
    case True
    then have dl: "dir_list v x (C x)" using assms(1) n by (simp add: tree_ok_def)
    show ?thesis using n par Cons.IH find_child_correct [OF dl, of nm] entry_node [OF dl, of nm] True
      by (cases "map_of (dir_entries v (C x)) nm") simp_all
  next
    case False
    then show ?thesis using n par Cons.IH by (simp add: vfs_dir_find_child_def)
  qed
qed simp

lemma named_node_ok:
  assumes "tree_ok v C" and "nodes v x \<noteq> None" and "named_node v C ts x = Some c"
  shows "nodes v c \<noteq> None"
  using assms(2,3)
proof (induction ts arbitrary: x)
  case (Cons nm ts)
  then obtain n where n: "nodes v x = Some n" by blast
  have "nparent n \<noteq> 0 \<longrightarrow> nodes v (nparent n) \<noteq> None" and dl: "ntype n = VFS_NODE_TYPE_DIRECTORY \<longrightarrow> dir_list v x (C x)"
    using assms(1) n by (simp_all add: tree_ok_def)
  then show ?case using n Cons.IH Cons.prems entry_node [of v x "C x" nm]
    by (auto split: if_splits bind_splits)
qed simp

text \<open>The names in a path of names that are separated by one slash.\<close>

lemma path_tokens_slash: "path_tokens (47 # p) = path_tokens p"
  by (simp add: path_tokens.simps [of "47 # p"] path_tokens.simps [of p])

lemma path_tokens_join:
  "\<forall>nm \<in> set nms. nm \<noteq> [] \<and> 47 \<notin> set nm \<Longrightarrow> path_tokens (concat (map ((#) 47) nms)) = nms"
proof (induction nms)
  case Nil
  show ?case by (simp add: path_tokens.simps)
next
  case (Cons nm nms)
  let ?r = "concat (map ((#) 47) nms)"
  have nm: "nm \<noteq> []" "47 \<notin> set nm" using Cons.prems by simp_all
  have r: "?r = [] \<or> hd ?r = 47" by (cases nms) simp_all
  have dw: "dropWhile (\<lambda>c. c = 47) (47 # nm @ ?r) = nm @ ?r" using nm by (cases nm) auto
  have ne: "\<forall>c \<in> set nm. c \<noteq> 47" using nm(2) by blast
  have tk: "takeWhile (\<lambda>c. c \<noteq> 47) (nm @ ?r) = nm" "dropWhile (\<lambda>c. c \<noteq> 47) (nm @ ?r) = ?r"
    using r ne by (cases ?r; simp add: takeWhile_append dropWhile_append takeWhile_eq_all_conv)+
  show ?case using Cons nm(1) unfolding list.map concat.simps
    by (subst path_tokens.simps) (simp only: append_Cons dw tk Let_def, simp)
qed

lemma resolve_path_outcome:
  assumes inv: "heap_inv s bs" and tree: "tree_ok v C" and cwd: "nodes v (vfs_cwd v) \<noteq> None" and rel: "p = [] \<or> hd p \<noteq> 47"
    and room: "unat (heap_end s) + length p + 0x2008 < 2 ^ 32"
  shows "\<exists>r t bs'. resolve_path (Some p) v s = Some (r, t) \<and> heap_inv t bs' \<and> allocated bs' = allocated bs \<and> same_contents s t (allocated bs) \<and>
    (r = (case named_node v C (path_tokens p) (vfs_cwd v) of None \<Rightarrow> 0 | Some c \<Rightarrow> c) \<or>
     r = 0 \<and> (\<forall>(a, sz, fr) \<in> set bs. fr \<longrightarrow> unat sz < length p + 1))"
proof (rule kstrdup_outcome [OF inv room])
  fix t assume k: "kstrdup p s = Some (0, t)" "heap_inv t bs" "same_contents s t (allocated bs)" "\<forall>(a, sz, fr) \<in> set bs. fr \<longrightarrow> unat sz < length p + 1"
  then show ?thesis by (intro exI [of _ 0] exI [of _ t] exI [of _ bs]) (simp add: resolve_path_def normalize_path_def)
next
  fix q t bs' sz assume k: "kstrdup p s = Some (q, t)" "q \<noteq> 0" "heap_inv t bs'" "same_contents s t (allocated bs)"
    "allocated bs' = insert (q - 16, sz) (allocated bs)" "(q - 16, sz) \<notin> allocated bs"
  have d16: "q - 16 + 16 = q" by simp
  have al: "(q - 16, sz) \<in> allocated bs'" using k(5) by simp
  obtain u bs2 where u: "kfree q t = Some u" "heap_inv u bs2" "allocated bs2 = allocated bs' - {(q - 16, sz)}" "same_contents t u (allocated bs')"
    by (rule kfree_outcome [OF k(3) al, unfolded d16]) blast
  have "vfs_cwd v \<noteq> 0" using tree cwd by (auto simp: tree_ok_def)
  then have "resolve_path (Some p) v s = Some (case named_node v C (path_tokens p) (vfs_cwd v) of None \<Rightarrow> 0 | Some c \<Rightarrow> c, u)"
    using k(1,2) rel u(1) walk_tokens_correct [OF tree cwd, of "path_tokens p"] by (auto simp: resolve_path_def normalize_path_def)
  moreover have "allocated bs2 = allocated bs" using u(3) k(5,6) by auto
  moreover have "same_contents s u (allocated bs)" by (rule same_contents_trans [OF k(4) u(4)]) (use k(5) in auto)
  ultimately show ?thesis using u(2) by blast
qed

section \<open>Descriptors\<close>

lemma free_fd_Some: "free_fd t = Some i \<Longrightarrow> i < MAX_OPEN_FILES \<and> fd_node (t ! i) = 0 \<and> (\<forall>j < i. fd_node (t ! j) \<noteq> 0)"
  unfolding free_fd_def by (erule first_some_upt_SomeD) (force split: if_splits)

lemma free_fd_None: "free_fd t = None \<longleftrightarrow> (\<forall>i < MAX_OPEN_FILES. fd_node (t ! i) \<noteq> 0)"
  by (auto simp: free_fd_def split: if_splits)

text \<open>
  C32: Opening a relative path: the names between the slashes lead from the current directory through the lists of children, with
  \<open>.\<close> and \<open>..\<close> as usual and the parent of the root being the root. \<open>vfs_open\<close> returns, its copy of the
  path is freed again and the allocated blocks keep their contents. It fails and opens nothing when there is no such node, when all 64
  descriptors are in use or when the copy cannot be made; otherwise it returns the lowest closed
  descriptor, which then stands for the node, at the offset 0, and no other descriptor changes.
\<close>

theorem vfs_open_correct:
  assumes inv: "heap_inv s bs" and tree: "tree_ok v C" and cwd: "nodes v (vfs_cwd v) \<noteq> None" and rel: "p = [] \<or> hd p \<noteq> 47"
    and room: "unat (heap_end s) + length p + 0x2008 < 2 ^ 32"
  shows "\<exists>r v' t bs'. vfs_open (Some p) flags v s = Some (r, v', t) \<and> heap_inv t bs' \<and> allocated bs' = allocated bs \<and> same_contents s t (allocated bs) \<and>
    (if r = KERNEL_FAILURE
     then v' = v \<and> (named_node v C (path_tokens p) (vfs_cwd v) = None \<or> (\<forall>i < MAX_OPEN_FILES. fd_node (fd_table v ! i) \<noteq> 0) \<or>
            (\<forall>(a, sz, fr) \<in> set bs. fr \<longrightarrow> unat sz < length p + 1))
     else \<exists>node i. named_node v C (path_tokens p) (vfs_cwd v) = Some node \<and> r = int i \<and> i < MAX_OPEN_FILES \<and>
            fd_node (fd_table v ! i) = 0 \<and> (\<forall>j < i. fd_node (fd_table v ! j) \<noteq> 0) \<and>
            v' = v\<lparr>fd_table := (fd_table v)[i := \<lparr>fd_node = node, fd_flags = flags, fd_offset = 0\<rparr>]\<rparr>)"
proof -
  let ?n = "named_node v C (path_tokens p) (vfs_cwd v)"
  obtain r t bs' where r: "resolve_path (Some p) v s = Some (r, t)" "heap_inv t bs'" "allocated bs' = allocated bs" "same_contents s t (allocated bs)"
    "r = (case ?n of None \<Rightarrow> 0 | Some c \<Rightarrow> c) \<or> r = 0 \<and> (\<forall>(a, sz, fr) \<in> set bs. fr \<longrightarrow> unat sz < length p + 1)"
    using resolve_path_outcome [OF assms] by blast
  have nz: "c \<noteq> 0" if "?n = Some c" for c using named_node_ok [OF tree cwd that] tree by (auto simp: tree_ok_def)
  show ?thesis
  proof (cases "r = 0")
    case True
    then have "?n = None \<or> (\<forall>(a, sz, fr) \<in> set bs. fr \<longrightarrow> unat sz < length p + 1)" using r(5) nz by (auto split: option.splits)
    moreover have "vfs_open (Some p) flags v s = Some (KERNEL_FAILURE, v, t)" using r(1) True by (simp add: vfs_open_def)
    ultimately show ?thesis using r(2-4) by (intro exI [of _ KERNEL_FAILURE] exI [of _ v] exI [of _ t] exI [of _ bs']) auto
  next
    case False
    then have n: "?n = Some r" using r(5) by (auto split: option.splits)
    show ?thesis
    proof (cases "free_fd (fd_table v)")
      case None
      then have "vfs_open (Some p) flags v s = Some (KERNEL_FAILURE, v, t)" using r(1) False by (simp add: vfs_open_def)
      with None r(2-4) show ?thesis
        by (intro exI [of _ KERNEL_FAILURE] exI [of _ v] exI [of _ t] exI [of _ bs']) (simp add: free_fd_None)
    next
      case (Some i)
      let ?v = "v\<lparr>fd_table := (fd_table v)[i := \<lparr>fd_node = r, fd_flags = flags, fd_offset = 0\<rparr>]\<rparr>"
      have "vfs_open (Some p) flags v s = Some (int i, ?v, t)" using r(1) False Some by (simp add: vfs_open_def ramfs_open_def)
      with n r(2-4) free_fd_Some [OF Some] show ?thesis
        by (intro exI [of _ "int i"] exI [of _ ?v] exI [of _ t] exI [of _ bs']) (auto simp: KERNEL_FAILURE_def)
    qed
  qed
qed

text \<open>With the root as the only node, the path \<open>..\<close> is the root.\<close>

definition root_only :: "u32 \<Rightarrow> vfs_state" where
  "root_only r = vfs_image\<lparr>nodes := [r \<mapsto> sample_node VFS_NODE_TYPE_DIRECTORY [47]], vfs_root := r, vfs_cwd := r\<rparr>"

theorem vfs_open_correct_witness:
  "\<exists>(s :: heap_state) v' t. heap_inv s three_blocks \<and> vfs_open (Some [46, 46]) 0 (root_only 0x1000) s = Some (0, v', t) \<and> fd_node (fd_table v' ! 0) = 0x1000"
proof -
  obtain s :: heap_state where s: "heap_inv s three_blocks" "heap_end s = 0xD0001000" using three_blocks_heap by blast
  have tree: "tree_ok (root_only 0x1000) (\<lambda>_. [])" by (auto simp: tree_ok_def root_only_def dir_list_def sample_node_def vfs_image_def)
  have cwd: "nodes (root_only 0x1000) (vfs_cwd (root_only 0x1000)) \<noteq> None" by (simp add: root_only_def)
  have tk: "path_tokens [46, 46] = [[46, 46]]" by (simp add: path_tokens.simps)
  have nn: "named_node (root_only 0x1000) (\<lambda>_. []) [[46, 46]] (vfs_cwd (root_only 0x1000)) = Some 0x1000" by (simp add: root_only_def sample_node_def)
  have fd: "fd_node (fd_table (root_only 0x1000) ! i) = 0" if "i < 64" for i
    using that by (simp add: root_only_def vfs_image_def MAX_OPEN_FILES_def empty_fd_def)
  have big: "\<not> (\<forall>(a, sz, fr) \<in> set three_blocks. fr \<longrightarrow> unat sz < length [46 :: u8, 46] + 1)" by (simp add: three_blocks_def)
  have len: "length (fd_table (root_only 0x1000)) = 64" by (simp add: root_only_def vfs_image_def MAX_OPEN_FILES_def)
  have free: "\<not> (\<forall>i < MAX_OPEN_FILES. fd_node (fd_table (root_only 0x1000) ! i) \<noteq> 0)" using fd [of 0] by (auto simp: MAX_OPEN_FILES_def intro!: exI [of _ 0])
  have "unat (heap_end s) + length [46 :: u8, 46] + 0x2008 < 2 ^ 32" using s(2) by simp
  from vfs_open_correct [OF s(1) tree cwd _ this, of 0, unfolded tk nn] free big
  obtain r v' t where r: "vfs_open (Some [46, 46]) 0 (root_only 0x1000) s = Some (r, v', t)"
    "\<exists>node i. Some 0x1000 = Some node \<and> r = int i \<and> (\<forall>j < i. fd_node (fd_table (root_only 0x1000) ! j) \<noteq> 0) \<and>
       v' = (root_only 0x1000)\<lparr>fd_table := (fd_table (root_only 0x1000))[i := \<lparr>fd_node = node, fd_flags = 0, fd_offset = 0\<rparr>]\<rparr>"
    by (auto split: if_splits)
  then obtain i where i: "r = int i" "\<forall>j < i. fd_node (fd_table (root_only 0x1000) ! j) \<noteq> 0" by blast
  have "i = 0" using i(2) fd [of 0] by (cases i) auto
  with i(1) have "r = 0" by simp
  with r s(1) len show ?thesis by auto
qed

section \<open>The file system that the interface offers\<close>

text \<open>
  The states of the file system after \<open>vfs_init\<close> and any sequence of calls of the interface in \<open>vfs.h\<close>, with any use of the
  heap between them. The calls that are not listed, \<open>vfs_stat\<close>, \<open>vfs_mount\<close> and \<open>vfs_lookup\<close>, change
  only the heap.
\<close>

inductive vfs_reach :: "vfs_state \<Rightarrow> bool" where
  init: "vfs_init vfs_image (s :: heap_state) = Some (KERNEL_SUCCESS, v, t) \<Longrightarrow> vfs_reach v"
| open_call: "vfs_reach v \<Longrightarrow> vfs_open path flags v (s :: heap_state) = Some (r, v', t) \<Longrightarrow> vfs_reach v'"
| close_call: "vfs_reach v \<Longrightarrow> vfs_close fd v = (r, v') \<Longrightarrow> vfs_reach v'"
| read_call: "vfs_reach v \<Longrightarrow> vfs_read fd buf count v (s :: heap_state) = Some (r, v', t) \<Longrightarrow> vfs_reach v'"
| write_call: "vfs_reach v \<Longrightarrow> vfs_write fd buf count v (s :: heap_state) = Some (r, v', t) \<Longrightarrow> vfs_reach v'"

definition only_root :: "vfs_state \<Rightarrow> bool" where
  "only_root v \<longleftrightarrow> dom (nodes v) = {vfs_root v} \<and>
     (\<forall>d. nodes v (vfs_root v) = Some d \<longrightarrow> ntype d = VFS_NODE_TYPE_DIRECTORY \<and> nparent d = 0 \<and> child_head d = 0) \<and>
     vfs_root v \<noteq> 0 \<and> vfs_cwd v = vfs_root v \<and> length (fd_table v) = MAX_OPEN_FILES \<and> (\<forall>f \<in> set (fd_table v). fd_node f \<in> {0, vfs_root v})"

lemma only_root_node:
  assumes "only_root v"
  obtains d where "nodes v (vfs_root v) = Some d" and "ntype d = VFS_NODE_TYPE_DIRECTORY" and "nparent d = 0" and "child_head d = 0"
proof -
  have "vfs_root v \<in> dom (nodes v)" using assms by (simp add: only_root_def)
  then obtain d where "nodes v (vfs_root v) = Some d" by blast
  then show thesis using assms that [of d] by (simp add: only_root_def)
qed

lemma only_root_walk:
  assumes "only_root v" and "walk_tokens ts (vfs_root v) v = Some x"
  shows "x \<in> {0, vfs_root v}"
proof -
  obtain d where d: "nodes v (vfs_root v) = Some d" "ntype d = VFS_NODE_TYPE_DIRECTORY" "nparent d = 0" "child_head d = 0"
    by (rule only_root_node [OF assms(1)])
  show ?thesis using assms(2)
    by (induction ts) (auto simp: d vfs_dir_find_child_def find_child_loop.simps split: if_splits)
qed

lemma only_root_resolve:
  assumes o: "only_root v" and r: "resolve_path p v s = Some (x, t)"
  shows "x \<in> {0, vfs_root v}"
proof -
  have c: "vfs_cwd v = vfs_root v" "vfs_root v \<noteq> 0" using o by (simp_all add: only_root_def)
  show ?thesis using r unfolding resolve_path_def c(1)
    by (auto split: option.splits bind_splits if_splits dest!: only_root_walk [OF o])
qed

lemma only_root_fd: "only_root v \<Longrightarrow> \<not> fd_closed fd v \<Longrightarrow> fd_node (fd_table v ! nat fd) = vfs_root v"
  by (auto simp: only_root_def fd_closed_def dest: bspec [OF _ nth_mem])

lemma only_root_update: "only_root v \<Longrightarrow> fd_node f \<in> {0, vfs_root v} \<Longrightarrow> only_root (v\<lparr>fd_table := (fd_table v)[i := f]\<rparr>)"
  using set_update_subset_insert [of "fd_table v" i f] by (auto simp: only_root_def)

lemma only_root_io:
  assumes "only_root v"
  shows "vfs_read fd buf count v s = Some (KERNEL_FAILURE, v, s)" and "vfs_write fd buf count v s = Some (KERNEL_FAILURE, v, s)"
proof -
  obtain d where "nodes v (vfs_root v) = Some d" "ntype d = VFS_NODE_TYPE_DIRECTORY" by (rule only_root_node [OF assms])
  then show "vfs_read fd buf count v s = Some (KERNEL_FAILURE, v, s)" "vfs_write fd buf count v s = Some (KERNEL_FAILURE, v, s)"
    using only_root_fd [OF assms, of fd] by (auto simp: vfs_read_def vfs_write_def ramfs_read_def ramfs_write_def advance_fd_def KERNEL_FAILURE_def)
qed

lemma fill_fds: "length (for_upto 0 n (\<lambda>i t. t[i := f]) t) = length t" "n = length t \<Longrightarrow> for_upto 0 n (\<lambda>i t. t[i := f]) t = replicate n f"
proof -
  have "length (for_upto 0 n (\<lambda>i t. t[i := f]) t) = length t \<and> (\<forall>i < n. i < length t \<longrightarrow> for_upto 0 n (\<lambda>i t. t[i := f]) t ! i = f)"
    by (induction n) (auto simp: for_upto_Suc nth_list_update less_Suc_eq)
  then show "length (for_upto 0 n (\<lambda>i t. t[i := f]) t) = length t" "n = length t \<Longrightarrow> for_upto 0 n (\<lambda>i t. t[i := f]) t = replicate n f"
    by (auto intro: nth_equalityI)
qed

lemma init_only_root: "vfs_init vfs_image s = Some (KERNEL_SUCCESS, v, t) \<Longrightarrow> only_root v"
  by (auto simp: vfs_init_def vfs_create_node_def upd_node_def vfs_image_def only_root_def fill_fds empty_fd_def KERNEL_FAILURE_def KERNEL_SUCCESS_def
      split: bind_splits if_splits)

lemma reach_only_root: "vfs_reach v \<Longrightarrow> only_root v"
proof (induction rule: vfs_reach.induct)
  case (init s v t)
  then show ?case by (rule init_only_root)
next
  case (open_call v path flags s r v' t)
  then show ?case using only_root_resolve [of v path s] only_root_update [of v]
    by (auto simp: vfs_open_def split: bind_splits if_splits option.splits)
next
  case (close_call v fd r v')
  then show ?case using only_root_update [of v empty_fd] by (auto simp: vfs_close_def empty_fd_def split: if_splits)
qed (simp_all add: only_root_io)

text \<open>
  No sequence of calls of the interface makes a file: \<open>O_CREAT\<close> has no effect, so after \<open>vfs_init\<close> the only node is the root directory,
  every path that resolves denotes it, and every read and write fails and changes nothing.
\<close>

theorem vfs_interface_has_no_files:
  assumes "vfs_reach v"
  shows "vfs_read fd buf count v s = Some (KERNEL_FAILURE, v, s) \<and> vfs_write fd buf count v s = Some (KERNEL_FAILURE, v, s) \<and>
    (\<forall>path x t. vfs_lookup path v s = Some (x, t) \<longrightarrow> x \<in> {0, vfs_root v}) \<and> dom (nodes v) = {vfs_root v}"
proof (intro conjI allI impI)
  note o = reach_only_root [OF assms]
  show "vfs_read fd buf count v s = Some (KERNEL_FAILURE, v, s)" "vfs_write fd buf count v s = Some (KERNEL_FAILURE, v, s)" by (rule only_root_io [OF o])+
  show "vfs_lookup path v s = Some (x, t) \<Longrightarrow> x \<in> {0, vfs_root v}" for path x t unfolding vfs_lookup_def by (rule only_root_resolve [OF o])
  show "dom (nodes v) = {vfs_root v}" using o by (simp add: only_root_def)
qed

theorem vfs_interface_has_no_files_witness:
  "\<exists>v (t :: heap_state). vfs_init vfs_image (sample_heap 1) = Some (KERNEL_SUCCESS, v, t) \<and> vfs_write 0 0xD0000010 4 v t = Some (KERNEL_FAILURE, v, t)"
proof -
  obtain t :: heap_state where "kmalloc 96 (sample_heap 1) = Some (0xD0000010, t)"
    by (rule kmalloc_served [OF sample_heap_inv [of 1], of 96]) (simp_all add: place_def)
  then obtain v where v: "vfs_init vfs_image (sample_heap 1) = Some (KERNEL_SUCCESS, v, t)"
    by (simp add: vfs_init_def vfs_create_node_def upd_node_def)
  with vfs_interface_has_no_files [OF vfs_reach.init [OF v], of 0 "0xD0000010" 4 t] show ?thesis by blast
qed

end
