(* ===== verification/Spec2Isabelle.thy ===== *)
theory Spec2Isabelle
  imports Pmm Msg Serial Pic Keyboard LibcString Stdlib Shell DriverRegistry VfsPaths
begin

text \<open>
  A model of the JarvOs kernel, a 32-bit x86 kernel in C under \<^verbatim>\<open>src/kernel\<close>, \<^verbatim>\<open>src/lib\<close> and
  \<^verbatim>\<open>src/libc\<close>, and the theorems that say what its parts do.

  \<^bold>\<open>How the program is modelled.\<close> A machine integer is a word of its width, so all arithmetic wraps as in C. A function of the program is a
  function from its arguments and the state before to its result and the state after, with the name it has in the source. Its result is an option
  where the code can fail to go on: \<open>None\<close> is a page fault, a division by zero, an endless wait or a read through a pointer to no object.
  The static variables, the memory and the devices are one record, which each theory extends with what its source file owns:
  ports and their history (\<open>io_state\<close>), timer, DMA and keyboard, memory and control registers (\<open>vmm_state\<close>), heap (\<open>heap_state\<close>), processes
  (\<open>sched_state\<close>), descriptor tables (\<open>cpu_state\<close>), console, interrupts, message queues (\<open>kernel_state\<close>) and shell. Only the file system, the
  registry of devices and the queues seen by themselves are records of their own. A \<open>for\<close> loop is \<open>for_upto\<close>, \<open>for_opt\<close> or
  \<open>first_some\<close> of the prelude; a loop that need not end is a partial function into an option, and that it ends is proved where it does. No
  fuel is used anywhere.

  \<^bold>\<open>Memory.\<close> \<open>Pmm\<close> is the bitmap of page frames of \<^verbatim>\<open>memory/pmm.c\<close>: allocation takes the lowest free frame, no frame is handed
  out twice and none is lost. \<open>Vmm\<close> is \<^verbatim>\<open>memory/vmm.c\<close> over page tables in the physical memory, with \<open>walk\<close> for the translation
  of the processor: mapping changes the translation of exactly one page, the initial and every new
  address space map the first 80 MB to themselves, marking a range opens exactly its pages to user mode. \<open>VirtualMemory\<close> gives loads and stores through the page
  tables. \<open>Kmalloc\<close> is \<^verbatim>\<open>memory/kmalloc.c\<close>, with the block headers as bytes of that memory: \<open>heap_inv\<close> ties them
  to a list of blocks, on which allocation is first fit with splitting, release merges neighbours, and the contents of all other
  blocks are kept. \<open>Stdlib\<close> is \<^verbatim>\<open>libc/stdlib.c\<close> on top of it. \<open>ByteMemory\<close> and \<open>LibcString\<close> are \<^verbatim>\<open>libc/string.c\<close>
  over flat memory.

  \<^bold>\<open>Processes.\<close> \<open>Scheduler\<close> is \<^verbatim>\<open>process/scheduler.c\<close> with \<^verbatim>\<open>process/context_switch.asm\<close>: the control blocks, the linked free list,
  ready queues and sleep list, and the registers and stacks of the context switch. \<open>sched_ok\<close> is the invariant; one tick wakes the due sleepers,
  puts the running process back and dispatches the oldest one of the highest ready priority. \<open>SchedulerRuns\<close> has the runs: the invariant in
  all reachable states, round robin, the creation of processes and that a preempted process goes on with its registers and
  stack. \<open>Msg\<close> is \<^verbatim>\<open>ipc/msg.c\<close>. \<open>SyscallTable\<close> and \<open>Syscall\<close> are \<^verbatim>\<open>syscall.c\<close>, \<^verbatim>\<open>syscall.h\<close> and
  \<^verbatim>\<open>interrupt/syscall_stub.asm\<close>: all numbers, the calls that do something on every branch, and that every call keeps the
  invariant of the scheduler but an exit of the idle process.

  \<^bold>\<open>Processor and devices.\<close> \<open>PortIo\<close> is \<^verbatim>\<open>lib/io.h\<close>; the devices are a parameter, a function from the history of the port
  accesses to the value read. \<open>Serial\<close>, \<open>Pic\<close>, \<open>Pit\<close>, \<open>Dma\<close> and \<open>Keyboard\<close> are the files of these names in
  \<^verbatim>\<open>drivers\<close>, \<open>DriverRegistry\<close> is \<^verbatim>\<open>drivers/driver.c\<close>. \<open>Descriptors\<close> has the descriptor tables, the task state segment and the step to
  user mode (\<^verbatim>\<open>core/gdt.c\<close>, \<^verbatim>\<open>core/tss.c\<close>, \<^verbatim>\<open>core/idt.c\<close>, \<^verbatim>\<open>core/usermode.c\<close>), \<open>Cpu\<close> is \<^verbatim>\<open>core/cpu.c\<close>,
  \<open>Interrupts\<close> has the handlers of \<^verbatim>\<open>core/idt.c\<close> and the sleep of \<^verbatim>\<open>hal.c\<close>, \<open>Hal\<close> has \<^verbatim>\<open>hal.c\<close> and \<^verbatim>\<open>power.c\<close>.

  \<^bold>\<open>Start, shell and files.\<close> \<open>Console\<close> and \<open>Shell\<close> are \<^verbatim>\<open>main.c\<close> and \<^verbatim>\<open>shell/commands.c\<close>: the screen as a terminal that goes
  on in the first row after the last, the line editor, the commands, and \<open>kernel_start_correct\<close>, which joins the parts: from the state that the boot
  code leaves the kernel reaches its command interpreter with everything initialised. \<open>cmd_ring3_correct\<close> follows the ring 3 command
  to user mode, through its system call, to the bytes on the serial line. \<open>Vfs\<close>, \<open>VfsFiles\<close> and \<open>VfsPaths\<close> are \<^verbatim>\<open>fs/vfs.c\<close>: the
  children of a directory, reading and writing files as lists of bytes, paths and descriptors, and that the calls of the interface never make a file.

  \<^bold>\<open>Interfaces.\<close> \<open>fifo\<close> (prelude) is a queue; the ring of a message queue and the ready queues provide it. \<open>page_allocator\<close>
  (\<open>Pmm\<close>) is what clients of the frame allocator use. \<open>name_table\<close> (\<open>NameTable\<close>) is a table of named things; the command table, the
  registry of devices and the children of a directory provide it.

  \<^bold>\<open>Assumptions.\<close> The kernel data that the records hold (control blocks, tables, queues, file system nodes) is kept beside the byte
  memory, so the model takes it to lie in no frame that the page allocator hands out and in no block of the heap. The source does not
  ensure this: \<open>pmm_init\<close> reserves the memory below 0x200000, while the image starts at 0x100000 and the message queues alone take more than 1 MB.
  Theorems about devices state as hypotheses what the device answers, for instance that the serial port reports room again
  (\<open>thr_answers\<close>). Interrupts arrive where the definitions say so: the timer between steps of the scheduler and in the waits
  of a sleep, scan codes in the waits for a key. Requests to the heap are bounded so that the heap does not reach the end of
  the address space; the bounds are hypotheses.

  \<^bold>\<open>Not modelled.\<close> The boot sectors (\<^verbatim>\<open>src/boot\<close>), which run in real mode on BIOS calls; \<^verbatim>\<open>entry.asm\<close>, whose effect is the
  initial state; the register saving of \<^verbatim>\<open>core/interrupt.asm\<close>, whose handlers take the saved frame as a value; caches and the
  translation look-aside buffer, which the code flushes; a fork without a current process, and the size of a file without
  data, where the code reads through a null pointer.
\<close>

end
